(* ===== verification/Pdb_Prelude.thy ===== *)
theory Pdb_Prelude
  imports Main "HOL-Library.Word" "HOL-Library.Monad_Syntax"
begin

text \<open>
  Shared vocabulary of the development.

  \<^item> Rust's machine integers are \<open>word\<close>s where the code relies on the width
    (bit masks, casts) and \<open>nat\<close>s elsewhere.
  \<^item> A call that may fail to return is a value of type \<open>'a option\<close>: \<open>None\<close> stands for a
    panic (an out-of-range index, an \<open>unwrap\<close> of \<open>None\<close>, a failed \<open>assert!\<close>), for an error
    raised by Postgres, and for a loop that never ends.  Every theorem that says what a call
    returns therefore also says that it returns.
  \<^item> A Rust \<open>Result\<close> is a sum, with the error on the left.
\<close>

type_synonym u8 = "8 word"
type_synonym u16 = "16 word"
type_synonym u32 = "32 word"
type_synonym u64 = "64 word"

text \<open>
  Block numbers are \<open>u32\<close> in the code, and \<open>InvalidBlockNumber\<close> is \<open>0xFFFFFFFF\<close>.  They index the
  pages of a relation, so the model uses \<open>nat\<close>.  Transaction ids are \<open>u32\<close> too.
\<close>

type_synonym block_number = nat
type_synonym xid = nat

definition InvalidBlockNumber :: block_number where "InvalidBlockNumber = 4294967295"
definition InvalidTransactionId :: xid where "InvalidTransactionId = 0"
definition FrozenTransactionId :: xid where "FrozenTransactionId = 2"
definition FirstNormalTransactionId :: xid where "FirstNormalTransactionId = 3"

text \<open>Collections of facts the component proofs share.\<close>

named_theorems checked_simps "checked reads and writes of arrays"
named_theorems frame_simps "what an operation leaves unchanged"

subsection \<open>Widening\<close>

lemma unat_u32_u64: "unat (ucast (w :: u32) :: u64) = unat w"
proof -
  have "unat w < 2 ^ LENGTH(32)" by (rule unsigned_less)
  also have "(2 :: nat) ^ LENGTH(32) < 2 ^ LENGTH(64)" by simp
  finally have "unat w < 2 ^ LENGTH(64)" .
  then show ?thesis by (simp only: unsigned_ucast_eq take_bit_nat_eq_self)
qed

subsection \<open>Checked array access\<close>

text \<open>\<open>xs[i]\<close> panics when \<open>i\<close> is out of range.\<close>

definition get_at :: "'a list \<Rightarrow> nat \<Rightarrow> 'a option" where
  "get_at xs i = (if i < length xs then Some (xs ! i) else None)"

text \<open>\<open>xs[i] = f(xs[i])\<close>, the same check on a write.\<close>

definition modify_at :: "'a list \<Rightarrow> nat \<Rightarrow> ('a \<Rightarrow> 'a) \<Rightarrow> 'a list option" where
  "modify_at xs i f = (if i < length xs then Some (xs[i := f (xs ! i)]) else None)"

lemma get_at_Some [checked_simps]: "get_at xs i = Some x \<longleftrightarrow> i < length xs \<and> x = xs ! i"
  by (auto simp: get_at_def)

lemma get_at_in [simp]: "i < length xs \<Longrightarrow> get_at xs i = Some (xs ! i)"
  by (simp add: get_at_def)

lemma modify_at_Some [checked_simps]:
  "modify_at xs i f = Some ys \<longleftrightarrow> i < length xs \<and> ys = xs[i := f (xs ! i)]"
  by (auto simp: modify_at_def)

lemma modify_at_in [simp]: "i < length xs \<Longrightarrow> modify_at xs i f = Some (xs[i := f (xs ! i)])"
  by (simp add: modify_at_def)

lemma get_at_out [simp]: "length xs \<le> i \<Longrightarrow> get_at xs i = None"
  by (simp add: get_at_def)

lemma modify_at_out [simp]: "length xs \<le> i \<Longrightarrow> modify_at xs i f = None"
  by (simp add: modify_at_def)


subsection \<open>Sequences of operations\<close>

text \<open>
  A component driven by a list of operations: every step either returns a new state and a result
  or does not return.
\<close>

fun run_ops :: "('s \<Rightarrow> 'op \<Rightarrow> ('s \<times> 'r) option) \<Rightarrow> 's \<Rightarrow> 'op list \<Rightarrow> ('s \<times> 'r list) option" where
  "run_ops step s [] = Some (s, [])"
| "run_ops step s (op # ops) = do {
     (s, r) \<leftarrow> step s op;
     (s, rs) \<leftarrow> run_ops step s ops;
     Some (s, r # rs)
   }"

fun run_spec :: "('a \<Rightarrow> 'op \<Rightarrow> 'a \<times> 'r) \<Rightarrow> 'a \<Rightarrow> 'op list \<Rightarrow> 'a \<times> 'r list" where
  "run_spec step a [] = (a, [])"
| "run_spec step a (op # ops) =
     (let (a, r) = step a op; (a, rs) = run_spec step a ops in (a, r # rs))"

text \<open>
  Forward simulation: a concrete step returns, with the result the abstract step gives, and keeps
  the relation.  It then holds of every sequence of operations.
\<close>

locale simulation =
  fixes rel :: "'s \<Rightarrow> 'a \<Rightarrow> bool"
    and step :: "'s \<Rightarrow> 'op \<Rightarrow> ('s \<times> 'r) option"
    and spec :: "'a \<Rightarrow> 'op \<Rightarrow> 'a \<times> 'r"
  assumes step_sim: "rel s a \<Longrightarrow> \<exists>s'. step s op = Some (s', snd (spec a op)) \<and> rel s' (fst (spec a op))"
begin

lemma run_sim:
  "rel s a \<Longrightarrow> \<exists>s'. run_ops step s ops = Some (s', snd (run_spec spec a ops)) \<and> rel s' (fst (run_spec spec a ops))"
proof (induction ops arbitrary: s a)
  case (Cons op ops)
  obtain s1 where "step s op = Some (s1, snd (spec a op))" "rel s1 (fst (spec a op))"
    using step_sim [OF Cons.prems] by blast
  with Cons.IH [OF this(2)] show ?case by (auto simp: Let_def split: prod.splits)
qed simp

text \<open>An invariant of the abstract step holds after every sequence.\<close>

lemma run_invariant:
  assumes "\<And>a op. P a \<Longrightarrow> P (fst (spec a op))" "P a"
  shows "P (fst (run_spec spec a ops))"
  using assms(2)
proof (induction ops arbitrary: a)
  case (Cons op ops)
  have "P (fst (spec a op))" using assms(1) Cons.prems by blast
  from Cons.IH [OF this] show ?case by (auto simp: Let_def split: prod.splits)
qed simp

end

end
