(* ===== verification/Segment_Meta.thy ===== *)
theory Segment_Meta
  imports Pdb_Prelude
begin

text \<open>
  The segment metadata entries of \<^verbatim>\<open>pg_search/src/postgres/storage/block.rs\<close>: their types, the
  accessors, the sizes the merge policy works with, the file names of a segment's components, and
  the handling of deletes.  The blocks of an entry's files are in \<open>Segment_Gc\<close>.
\<close>

section \<open>Entry types\<close>

text \<open>Tantivy's segment id is a 128-bit UUID; \<open>SegmentId::from_bytes([0; 16])\<close> is 0.\<close>

type_synonym segment_id = "128 word"

datatype segment_component =
  Postings | Positions | FastFields | FieldNorms | Terms | Store | TempStore | DeleteComponent

datatype mutable_segment_entry = Add u64 | Remove u64

datatype entry_tag = TagMutable | TagImmutable

definition tag_from_u32 :: "nat \<Rightarrow> entry_tag option" where
  "tag_from_u32 v =
     (if v = 2 \<or> v = InvalidTransactionId \<or> v \<ge> FirstNormalTransactionId then Some TagImmutable
      else if v = 1 then Some TagMutable
      else None)"

definition tag_to_u32 :: "entry_tag \<Rightarrow> nat" where
  "tag_to_u32 t = (case t of TagMutable \<Rightarrow> 1 | TagImmutable \<Rightarrow> 2)"

record entry_header =
  eh_segment_id :: segment_id
  eh_max_doc :: u32
  eh_tag :: entry_tag
  eh_xmax :: xid

record file_entry =
  starting_block :: block_number
  total_bytes :: u64

record delete_entry =
  de_file_entry :: file_entry
  de_num_deleted_docs :: u32

record entry_mutable =
  em_header_block :: block_number
  em_num_deleted_docs :: u32
  em_frozen :: bool

record entry_immutable =
  ei_postings :: "file_entry option"
  ei_positions :: "file_entry option"
  ei_fast_fields :: "file_entry option"
  ei_field_norms :: "file_entry option"
  ei_terms :: "file_entry option"
  ei_store :: "file_entry option"
  ei_temp_store :: "file_entry option"
  ei_delete :: "delete_entry option"

datatype entry_content = Immutable entry_immutable | Mutable entry_mutable

record segment_meta_entry =
  sme_header :: entry_header
  sme_content :: entry_content

section \<open>Component files\<close>

text \<open>
  The textual form \<open>ext\<close> of a component is tantivy's \<open>Display\<close>.  The first argument of \<open>path\<close> is the
  segment's UUID as a string.
\<close>

definition component_path ::
  "(segment_component \<Rightarrow> string) \<Rightarrow> string \<Rightarrow> segment_component \<Rightarrow> string" where
  "component_path ext uuid c =
     (if c = DeleteComponent then uuid @ ''.0.'' @ ext DeleteComponent else uuid @ ''.'' @ ext c)"

definition file_opt :: "segment_component \<Rightarrow> file_entry option \<Rightarrow> (file_entry \<times> segment_component) list" where
  "file_opt cp fe = (case fe of None \<Rightarrow> [] | Some f \<Rightarrow> [(f, cp)])"

definition file_entries :: "entry_immutable \<Rightarrow> (file_entry \<times> segment_component) list" where
  "file_entries c =
     file_opt Postings (ei_postings c) @ file_opt Positions (ei_positions c) @
     file_opt FastFields (ei_fast_fields c) @ file_opt FieldNorms (ei_field_norms c) @
     file_opt Terms (ei_terms c) @ file_opt TempStore (ei_temp_store c) @
     file_opt DeleteComponent (map_option de_file_entry (ei_delete c))"

text \<open>An immutable entry without files panics.\<close>

definition pintest_immutable :: "entry_immutable \<Rightarrow> block_number option" where
  "pintest_immutable c = (case file_entries c of [] \<Rightarrow> None | (fe, _) # _ \<Rightarrow> Some (starting_block fe))"

definition pintest_mutable :: "entry_mutable \<Rightarrow> block_number" where
  "pintest_mutable c = em_header_block c"

fun find_file_entry ::
  "(segment_component \<Rightarrow> string) \<Rightarrow> string \<Rightarrow> string \<Rightarrow> (file_entry \<times> segment_component) list \<Rightarrow> file_entry option"
where
  "find_file_entry ext uuid p [] = None"
| "find_file_entry ext uuid p ((fe, c) # rest) =
     (if p = component_path ext uuid c then Some fe else find_file_entry ext uuid p rest)"

definition file_entry_of ::
  "(segment_component \<Rightarrow> string) \<Rightarrow> entry_immutable \<Rightarrow> string \<Rightarrow> string \<Rightarrow> file_entry option" where
  "file_entry_of ext c uuid p = find_file_entry ext uuid p (file_entries c)"

text \<open>
  \<open>str::split\<close> on one character, and \<open>Path::file_name\<close>: the last component of the path, unless it is
  \<open>..\<close>.
\<close>

fun split_on :: "char \<Rightarrow> string \<Rightarrow> string list" where
  "split_on d [] = [[]]"
| "split_on d (c # cs) =
     (if c = d then [] # split_on d cs
      else (case split_on d cs of p # ps \<Rightarrow> (c # p) # ps | [] \<Rightarrow> [[c]]))"

definition file_name :: "string \<Rightarrow> string option" where
  "file_name p =
     (let cs = filter (\<lambda>c. c \<noteq> [] \<and> c \<noteq> ''.'') (split_on CHR ''/'' p)
      in if cs = [] \<or> last cs = ''..'' then None else Some (last cs))"

text \<open>\<open>from_uuid_string\<close> and \<open>try_from\<close> are tantivy's parsers.\<close>

definition path_segment_id :: "(string \<Rightarrow> segment_id option) \<Rightarrow> string \<Rightarrow> segment_id option" where
  "path_segment_id from_uuid_string p = do {
     name \<leftarrow> file_name p;
     (case split_on CHR ''.'' name of
        [] \<Rightarrow> None
      | first # _ \<Rightarrow> from_uuid_string first)
   }"

definition path_component_type ::
  "(string \<Rightarrow> segment_component option) \<Rightarrow> string \<Rightarrow> segment_component option" where
  "path_component_type try_from p = do {
     name \<leftarrow> file_name p;
     (case split_on CHR ''.'' name of
        _ # extension # third # _ \<Rightarrow> try_from third
      | _ # extension # [] \<Rightarrow> try_from extension
      | _ \<Rightarrow> None)
   }"

section \<open>Accessors\<close>

definition new_mutable :: "segment_id \<Rightarrow> u32 \<Rightarrow> xid \<Rightarrow> entry_mutable \<Rightarrow> segment_meta_entry" where
  "new_mutable sid md xm c =
     \<lparr>sme_header = \<lparr>eh_segment_id = sid, eh_max_doc = md, eh_tag = TagMutable, eh_xmax = xm\<rparr>,
      sme_content = Mutable c\<rparr>"

definition new_immutable :: "segment_id \<Rightarrow> u32 \<Rightarrow> xid \<Rightarrow> entry_immutable \<Rightarrow> segment_meta_entry" where
  "new_immutable sid md xm c =
     \<lparr>sme_header = \<lparr>eh_segment_id = sid, eh_max_doc = md, eh_tag = TagImmutable, eh_xmax = xm\<rparr>,
      sme_content = Immutable c\<rparr>"

definition sme_segment_id :: "segment_meta_entry \<Rightarrow> segment_id" where
  "sme_segment_id e = eh_segment_id (sme_header e)"

definition sme_max_doc :: "segment_meta_entry \<Rightarrow> u32" where
  "sme_max_doc e = eh_max_doc (sme_header e)"

definition is_mutable :: "segment_meta_entry \<Rightarrow> bool" where
  "is_mutable e = (case sme_content e of Mutable _ \<Rightarrow> True | Immutable _ \<Rightarrow> False)"

definition sme_xmax :: "segment_meta_entry \<Rightarrow> xid" where
  "sme_xmax e = eh_xmax (sme_header e)"

definition set_xmax :: "xid \<Rightarrow> segment_meta_entry \<Rightarrow> segment_meta_entry" where
  "set_xmax x e = e\<lparr>sme_header := (sme_header e)\<lparr>eh_xmax := x\<rparr>\<rparr>"

definition is_deleted :: "segment_meta_entry \<Rightarrow> bool" where
  "is_deleted e \<longleftrightarrow> sme_xmax e = FrozenTransactionId"

definition is_orphaned_delete :: "segment_meta_entry \<Rightarrow> bool" where
  "is_orphaned_delete e \<longleftrightarrow> sme_segment_id e = 0"

text \<open>The counts are widened to \<open>usize\<close>; the subtraction wraps.\<close>

definition num_deleted_docs :: "segment_meta_entry \<Rightarrow> u64" where
  "num_deleted_docs e =
     (case sme_content e of
        Immutable c \<Rightarrow> (case ei_delete c of None \<Rightarrow> 0 | Some d \<Rightarrow> ucast (de_num_deleted_docs d))
      | Mutable c \<Rightarrow> ucast (em_num_deleted_docs c))"

definition num_docs :: "segment_meta_entry \<Rightarrow> u64" where
  "num_docs e = ucast (sme_max_doc e) - num_deleted_docs e"

text \<open>\<open>mutable_segment_rows\<close> is the index option, \<open>None\<close> when mutable segments are off.\<close>

definition is_mergeable :: "nat option \<Rightarrow> segment_meta_entry \<Rightarrow> bool" where
  "is_mergeable rows e \<longleftrightarrow>
     \<not> is_deleted e \<and>
     (case sme_content e of Mutable c \<Rightarrow> em_frozen c \<or> rows = None | Immutable _ \<Rightarrow> True)"

record inner_segment_meta =
  ism_segment_id :: segment_id
  ism_max_doc :: u32
  ism_deletes :: "u32 option"

definition as_tantivy :: "segment_meta_entry \<Rightarrow> inner_segment_meta" where
  "as_tantivy e =
     (case sme_content e of
        Immutable c \<Rightarrow>
          \<lparr>ism_segment_id = sme_segment_id e, ism_max_doc = sme_max_doc e,
           ism_deletes = map_option de_num_deleted_docs (ei_delete c)\<rparr>
      | Mutable c \<Rightarrow>
          \<lparr>ism_segment_id = sme_segment_id e, ism_max_doc = sme_max_doc e - em_num_deleted_docs c,
           ism_deletes = None\<rparr>)"

text \<open>\<open>replace_deletes\<close>: on a mutable entry the code is \<open>unreachable!\<close>.\<close>

definition replace_deletes ::
  "delete_entry \<Rightarrow> segment_meta_entry \<Rightarrow> (segment_meta_entry \<times> segment_meta_entry option) option" where
  "replace_deletes d e =
     (case sme_content e of
        Immutable c \<Rightarrow>
          Some (e\<lparr>sme_content := Immutable (c\<lparr>ei_delete := Some d\<rparr>)\<rparr>,
                if ei_delete c \<noteq> None
                then Some (new_immutable 0 (sme_max_doc e) FrozenTransactionId c) else None)
      | Mutable _ \<Rightarrow> None)"

definition byte_size :: "segment_meta_entry \<Rightarrow> u64" where
  "byte_size e =
     (case sme_content e of
        Mutable c \<Rightarrow> ucast (sme_max_doc e) * 1000 + ucast (em_num_deleted_docs c) * 10
      | Immutable c \<Rightarrow>
          (let sz = (\<lambda>fe. case fe of None \<Rightarrow> 0 | Some f \<Rightarrow> total_bytes f)
           in sz (ei_postings c) + sz (ei_positions c) + sz (ei_fast_fields c) +
              sz (ei_field_norms c) + sz (ei_terms c) + sz (ei_store c) + sz (ei_temp_store c) +
              sz (map_option de_file_entry (ei_delete c))))"

definition get_component_paths ::
  "(segment_component \<Rightarrow> string) \<Rightarrow> (segment_id \<Rightarrow> string) \<Rightarrow> segment_meta_entry \<Rightarrow> string list" where
  "get_component_paths ext uuid_string e =
     (case sme_content e of
        Immutable c \<Rightarrow> map (\<lambda>(_, cp). component_path ext (uuid_string (sme_segment_id e)) cp) (file_entries c)
      | Mutable _ \<Rightarrow> [])"

definition sme_pintest_blockno :: "segment_meta_entry \<Rightarrow> block_number option" where
  "sme_pintest_blockno e =
     (case sme_content e of
        Immutable c \<Rightarrow> pintest_immutable c
      | Mutable c \<Rightarrow> Some (pintest_mutable c))"

definition sme_visible :: "segment_meta_entry \<Rightarrow> bool" where
  "sme_visible e \<longleftrightarrow> \<not> is_deleted e"

text \<open>
  \<open>cleanup\<close> says whether the conditional cleanup lock on a block is granted, i.e.\ whether nobody
  pins it.
\<close>

definition sme_recyclable :: "(block_number \<Rightarrow> bool) \<Rightarrow> segment_meta_entry \<Rightarrow> bool option" where
  "sme_recyclable cleanup e =
     (if is_deleted e then do {
        b \<leftarrow> sme_pintest_blockno e;
        Some (b = InvalidBlockNumber \<or> cleanup b)
      }
      else Some False)"


section \<open>File names\<close>

lemma split_on_plain: "d \<notin> set s \<Longrightarrow> split_on d s = [s]"
  by (induction s) auto

lemma split_on_append: "d \<notin> set s \<Longrightarrow> split_on d (s @ d # t) = s # split_on d t"
  by (induction s) auto

lemma file_name_plain:
  assumes "CHR ''/'' \<notin> set p" "p \<noteq> []" "p \<noteq> ''.''" "p \<noteq> ''..''"
  shows "file_name p = Some p"
  using assms by (simp add: file_name_def split_on_plain)

text \<open>
  What the code relies on of tantivy's textual forms: different components have different names, which
  have no slash, and none but a delete file is named like one.  Of the parser it relies on, for the component
  in question, that the last part of the printed name gives the component back; such a name has two parts
  at most (the temporary store is \<open>store.temp\<close>), that of a delete file has one.
\<close>

definition component_syntax :: "(segment_component \<Rightarrow> string) \<Rightarrow> bool" where
  "component_syntax ext \<longleftrightarrow> inj ext \<and> (\<forall>c. CHR ''/'' \<notin> set (ext c) \<and> ext c \<noteq> ''0.'' @ ext DeleteComponent)"

definition component_parses ::
  "(segment_component \<Rightarrow> string) \<Rightarrow> (string \<Rightarrow> segment_component option) \<Rightarrow> segment_component \<Rightarrow> bool" where
  "component_parses ext try_from c \<longleftrightarrow>
     length (split_on CHR ''.'' (ext c)) \<le> (if c = DeleteComponent then 1 else 2) \<and>
     try_from (last (split_on CHR ''.'' (ext c))) = Some c"

definition uuid_syntax :: "string \<Rightarrow> bool" where
  "uuid_syntax u \<longleftrightarrow> u \<noteq> [] \<and> CHR ''.'' \<notin> set u \<and> CHR ''/'' \<notin> set u"

lemma split_on_not_Nil [simp]: "split_on d s \<noteq> []"
  by (induction s) (auto split: list.split)

lemma component_path_name:
  assumes "component_syntax ext" "uuid_syntax uuid"
  shows "file_name (component_path ext uuid c) = Some (component_path ext uuid c)"
  using assms
  by (intro file_name_plain)
    (auto simp: component_path_def component_syntax_def uuid_syntax_def append_eq_Cons_conv split: if_splits)

lemma component_path_parts:
  assumes "uuid_syntax uuid"
  shows "split_on CHR ''.'' (component_path ext uuid c) =
    uuid # (if c = DeleteComponent then [''0''] else []) @ split_on CHR ''.'' (ext c)"
  using assms split_on_append [of "CHR ''.''" uuid] split_on_append [of "CHR ''.''" "''0''"]
  by (auto simp: component_path_def uuid_syntax_def)

lemma component_path_type:
  assumes "component_syntax ext" "uuid_syntax uuid" "component_parses ext try_from c"
  shows "path_component_type try_from (component_path ext uuid c) = Some c"
proof -
  obtain x xs where s: "split_on CHR ''.'' (ext c) = x # xs" using split_on_not_Nil [of "CHR ''.''" "ext c"] by (cases "split_on CHR ''.'' (ext c)") auto
  have "xs = [] \<or> (\<exists>y. xs = [y] \<and> c \<noteq> DeleteComponent)"
    using assms(3) s by (cases xs) (auto simp: component_parses_def split: if_splits)
  then show ?thesis
    using assms(3) s component_path_name [OF assms(1,2), of c] component_path_parts [OF assms(2), of ext c]
    by (auto simp: path_component_type_def component_parses_def)
qed

lemma component_path_inj:
  assumes "component_syntax ext" "component_path ext uuid c = component_path ext uuid d"
  shows "c = d"
  using assms by (auto simp: component_path_def component_syntax_def inj_eq split: if_splits)

text \<open>The file of a component.  No file is written for the store.\<close>

definition component_file :: "entry_immutable \<Rightarrow> segment_component \<Rightarrow> file_entry option" where
  "component_file imm c =
     (case c of Postings \<Rightarrow> ei_postings imm | Positions \<Rightarrow> ei_positions imm | FastFields \<Rightarrow> ei_fast_fields imm
      | FieldNorms \<Rightarrow> ei_field_norms imm | Terms \<Rightarrow> ei_terms imm | Store \<Rightarrow> None | TempStore \<Rightarrow> ei_temp_store imm
      | DeleteComponent \<Rightarrow> map_option de_file_entry (ei_delete imm))"

lemma find_file_entry_append:
  "find_file_entry ext uuid p (es @ fs) =
     (case find_file_entry ext uuid p es of None \<Rightarrow> find_file_entry ext uuid p fs | Some fe \<Rightarrow> Some fe)"
  by (induction es) auto

lemma find_file_opt:
  assumes "component_syntax ext"
  shows "find_file_entry ext uuid (component_path ext uuid c) (file_opt d fe) = (if c = d then fe else None)"
  using component_path_inj [OF assms, of uuid c d] by (auto simp: file_opt_def split: option.split)

lemma file_entry_of_component:
  assumes "component_syntax ext"
  shows "file_entry_of ext imm uuid (component_path ext uuid c) = component_file imm c"
  by (cases c) (simp_all add: file_entry_of_def file_entries_def find_file_entry_append find_file_opt [OF assms] component_file_def split: option.split)

section \<open>Properties\<close>

text \<open>
  C34.  The file name of a component names it uniquely.  Parsing the name printed for a segment's component gives
  back the segment id, and the component wherever tantivy's parser knows the last part of its printed name, also
  for the three-part name of a delete file.  Looking a file up by the name of a component finds the file of that
  component and nothing else; for the store, for which no file is written, it finds nothing even if the entry has one.
\<close>

theorem component_files_roundtrip:
  assumes "component_syntax ext" "uuid_syntax (uuid_string sid)" "from_uuid_string (uuid_string sid) = Some sid"
  shows "path_segment_id from_uuid_string (component_path ext (uuid_string sid) c) = Some sid \<and>
    (component_parses ext try_from c \<longrightarrow> path_component_type try_from (component_path ext (uuid_string sid) c) = Some c) \<and>
    file_entry_of ext imm (uuid_string sid) (component_path ext (uuid_string sid) c) =
      (case c of Postings \<Rightarrow> ei_postings imm | Positions \<Rightarrow> ei_positions imm | FastFields \<Rightarrow> ei_fast_fields imm
       | FieldNorms \<Rightarrow> ei_field_norms imm | Terms \<Rightarrow> ei_terms imm | Store \<Rightarrow> None | TempStore \<Rightarrow> ei_temp_store imm
       | DeleteComponent \<Rightarrow> map_option de_file_entry (ei_delete imm))"
  using component_path_type [OF assms(1,2), of try_from c] component_path_name [OF assms(1,2), of c]
    component_path_parts [OF assms(2), of ext c] assms(3) file_entry_of_component [OF assms(1), of imm "uuid_string sid" c]
  by (simp add: path_segment_id_def component_file_def)

definition ex_ext :: "segment_component \<Rightarrow> string" where
  "ex_ext c =
     (case c of Postings \<Rightarrow> ''idx'' | Positions \<Rightarrow> ''pos'' | FastFields \<Rightarrow> ''fast'' | FieldNorms \<Rightarrow> ''fieldnorm''
      | Terms \<Rightarrow> ''term'' | Store \<Rightarrow> ''store'' | TempStore \<Rightarrow> ''store.temp'' | DeleteComponent \<Rightarrow> ''del'')"

definition ex_try_from :: "string \<Rightarrow> segment_component option" where
  "ex_try_from s = map_of [(''idx'', Postings), (''store'', Store), (''temp'', TempStore), (''del'', DeleteComponent)] s"

definition ex_files :: entry_immutable where
  "ex_files = \<lparr>ei_postings = Some \<lparr>starting_block = 7, total_bytes = 10\<rparr>, ei_positions = None, ei_fast_fields = None, ei_field_norms = None,
     ei_terms = None, ei_store = None, ei_temp_store = None,
     ei_delete = Some \<lparr>de_file_entry = \<lparr>starting_block = 9, total_bytes = 3\<rparr>, de_num_deleted_docs = 1\<rparr>\<rparr>"

theorem component_files_roundtrip_witness:
  "path_segment_id (\<lambda>s. if s = ''0a1b'' then Some 2587 else None) ''0a1b.0.del'' = Some 2587 \<and>
   path_component_type ex_try_from ''0a1b.0.del'' = Some DeleteComponent \<and> path_component_type ex_try_from ''0a1b.store.temp'' = Some TempStore \<and>
   file_entry_of ex_ext ex_files ''0a1b'' ''0a1b.0.del'' = Some \<lparr>starting_block = 9, total_bytes = 3\<rparr>"
proof -
  have "inj ex_ext"
  proof (rule injI)
    fix x y assume "ex_ext x = ex_ext y"
    then show "x = y" by (cases x; cases y) (simp_all add: ex_ext_def)
  qed
  moreover have "CHR ''/'' \<notin> set (ex_ext c) \<and> ex_ext c \<noteq> ''0.'' @ ex_ext DeleteComponent" for c by (cases c) (simp_all add: ex_ext_def)
  ultimately have s: "component_syntax ex_ext" unfolding component_syntax_def by blast
  have p: "component_parses ex_ext ex_try_from DeleteComponent" "component_parses ex_ext ex_try_from TempStore"
    by (simp_all add: component_parses_def ex_ext_def ex_try_from_def)
  have u: "uuid_syntax ((\<lambda>_ :: segment_id. ''0a1b'') 2587)" by (simp add: uuid_syntax_def)
  note r = component_files_roundtrip [where ext = ex_ext and uuid_string = "\<lambda>_. ''0a1b''" and sid = 2587 and
      from_uuid_string = "\<lambda>s. if s = ''0a1b'' then Some 2587 else None" and try_from = ex_try_from and imm = ex_files, OF s u]
  have "component_path ex_ext ''0a1b'' DeleteComponent = ''0a1b.0.del''" "component_path ex_ext ''0a1b'' TempStore = ''0a1b.store.temp''"
    by (simp_all add: component_path_def ex_ext_def)
  with r [of DeleteComponent] r [of TempStore] p show ?thesis by (simp add: ex_files_def)
qed

end
