(* ===== verification/F64.thy ===== *)
theory F64
  imports Complex_Main Pdb_Prelude
begin

text \<open>
  The part of \<open>f64\<close> arithmetic the merge policy uses: conversions from and to \<open>u64\<close>, division and
  multiplication of non-negative values.  A finite value is the rational it denotes; every result
  is rounded to 53 significant bits, ties to even.  All operands come from 64-bit integers, so the
  exponent range is never left and subnormal numbers do not occur.
\<close>

datatype f64 = FNaN | FInf | FFin rat

definition pow2 :: "int \<Rightarrow> rat" where
  "pow2 e = (if e \<ge> 0 then 2 ^ nat e else 1 / 2 ^ nat (- e))"

fun bit_len :: "nat \<Rightarrow> nat" where
  "bit_len n = (if n = 0 then 0 else Suc (bit_len (n div 2)))"

declare bit_len.simps [simp del]

text \<open>The exponent of the last of the 53 bits.\<close>

definition f64_exp :: "rat \<Rightarrow> int" where
  "f64_exp x =
     (let (p, q) = quotient_of x; e = int (bit_len (nat p)) - int (bit_len (nat q)) - 53
      in if x \<ge> pow2 (e + 53) then e + 1 else e)"

definition round_even :: "rat \<Rightarrow> int" where
  "round_even m =
     (let f = \<lfloor>m\<rfloor>; d = m - of_int f
      in if d > 1 / 2 \<or> (d = 1 / 2 \<and> odd f) then f + 1 else f)"

definition f64_round :: "rat \<Rightarrow> rat" where
  "f64_round x =
     (if x \<le> 0 then 0 else of_int (round_even (x / pow2 (f64_exp x))) * pow2 (f64_exp x))"

definition f64_of_nat :: "nat \<Rightarrow> f64" where
  "f64_of_nat n = FFin (f64_round (of_nat n))"

definition f64_div :: "f64 \<Rightarrow> f64 \<Rightarrow> f64" where
  "f64_div a b =
     (case (a, b) of
        (FFin x, FFin y) \<Rightarrow>
          if y = 0 then (if x = 0 then FNaN else FInf) else FFin (f64_round (x / y))
      | (FInf, FFin y) \<Rightarrow> FInf
      | (FFin x, FInf) \<Rightarrow> FFin 0
      | _ \<Rightarrow> FNaN)"

definition f64_mul :: "f64 \<Rightarrow> f64 \<Rightarrow> f64" where
  "f64_mul a b =
     (case (a, b) of
        (FFin x, FFin y) \<Rightarrow> FFin (f64_round (x * y))
      | (FFin x, FInf) \<Rightarrow> if x = 0 then FNaN else FInf
      | (FInf, FFin y) \<Rightarrow> if y = 0 then FNaN else FInf
      | (FInf, FInf) \<Rightarrow> FInf
      | _ \<Rightarrow> FNaN)"

text \<open>\<open>as u64\<close> truncates, saturates, and maps NaN to 0.\<close>

definition f64_to_u64 :: "f64 \<Rightarrow> u64" where
  "f64_to_u64 a =
     (case a of
        FNaN \<Rightarrow> 0
      | FInf \<Rightarrow> - 1
      | FFin x \<Rightarrow> if x \<ge> 2 ^ 64 then - 1 else of_nat (nat \<lfloor>x\<rfloor>))"

definition f64_ceil :: "f64 \<Rightarrow> f64" where
  "f64_ceil a = (case a of FFin x \<Rightarrow> FFin (of_int \<lceil>x\<rceil>) | _ \<Rightarrow> a)"

section \<open>Rounding is monotone and exact on small integers\<close>

lemma pow2_pos [simp]: "0 < pow2 e" "0 \<le> pow2 e"
  by (simp_all add: pow2_def)

lemma pow2_add: "pow2 (a + b) = pow2 a * pow2 b"
proof -
  have "pow2 e = (2 :: rat) powi e" for e
    by (simp add: pow2_def power_int_def field_simps)
  then show ?thesis by (simp add: power_int_add)
qed

lemma pow2_nat: "pow2 (int n) = 2 ^ n"
  by (simp add: pow2_def)

lemma pow2_mono: "a \<le> b \<Longrightarrow> pow2 a \<le> pow2 b"
proof -
  assume "a \<le> b"
  then have "pow2 b = pow2 a * 2 ^ nat (b - a)"
    using pow2_add [of a "b - a"] pow2_nat [of "nat (b - a)"] by simp
  also have "pow2 a * 1 \<le> \<dots>"
    using pow2_pos(1) [of a] by (intro mult_left_mono) (simp_all add: less_imp_le)
  finally show ?thesis by simp
qed

lemma bit_len_bounds: "0 < n \<Longrightarrow> 2 ^ (bit_len n - 1) \<le> n \<and> n < 2 ^ bit_len n \<and> 0 < bit_len n"
proof (induction n rule: bit_len.induct)
  case (1 n)
  show ?case
  proof (cases "n div 2 = 0")
    case True
    then have "n = 1" using 1(2) by presburger
    then show ?thesis by (simp add: bit_len.simps)
  next
    case False
    with 1 have ih: "2 ^ (bit_len (n div 2) - 1) \<le> n div 2" "n div 2 < 2 ^ bit_len (n div 2)" "0 < bit_len (n div 2)"
      by auto
    have b: "bit_len n = Suc (bit_len (n div 2))" using 1(2) by (subst bit_len.simps) simp
    obtain k where k: "bit_len (n div 2) = Suc k" using ih(3) by (cases "bit_len (n div 2)") auto
    show ?thesis using ih unfolding b k by auto
  qed
qed

lemma f64_exp_bounds:
  assumes "0 < x"
  shows "2 ^ 52 \<le> x / pow2 (f64_exp x)" "x / pow2 (f64_exp x) < 2 ^ 53"
proof -
  obtain p q where pq: "quotient_of x = (p, q)" by (cases "quotient_of x")
  have q: "0 < q" and x: "x = of_int p / of_int q"
    using quotient_of_denom_pos [OF pq] quotient_of_div [OF pq] by auto
  have p: "0 < p" using assms q unfolding x by (simp add: zero_less_divide_iff)
  define bp where "bp = bit_len (nat p)"
  define bq where "bq = bit_len (nat q)"
  define e where "e = int bp - int bq - 53"
  have P: "2 ^ (bp - 1) \<le> nat p" "nat p < 2 ^ bp" "0 < bp" and Q: "2 ^ (bq - 1) \<le> nat q" "nat q < 2 ^ bq" "0 < bq"
    using bit_len_bounds [of "nat p"] bit_len_bounds [of "nat q"] p q by (auto simp: bp_def bq_def)
  have "(of_nat (2 ^ (bp - 1)) :: rat) \<le> of_nat (nat p)" "(of_nat (nat p) :: rat) < of_nat (2 ^ bp)"
    "(of_nat (2 ^ (bq - 1)) :: rat) \<le> of_nat (nat q)" "(of_nat (nat q) :: rat) < of_nat (2 ^ bq)"
    using P Q by (simp_all only: of_nat_le_iff of_nat_less_iff)
  then have rp: "pow2 (int bp - 1) \<le> of_int p" "of_int p < pow2 (int bp)"
    and rq: "pow2 (int bq - 1) \<le> of_int q" "of_int q < pow2 (int bq)"
    using p q P(3) Q(3) by (simp_all add: pow2_def nat_diff_distrib)
  have lo: "pow2 (e + 52) < x"
  proof -
    have "pow2 (e + 52) * of_int q < pow2 (e + 52) * pow2 (int bq)" using rq(2) by simp
    also have "\<dots> = pow2 (int bp - 1)" by (simp add: e_def flip: pow2_add)
    also have "\<dots> \<le> of_int p" by (rule rp)
    finally show ?thesis using q unfolding x by (simp add: pos_less_divide_eq)
  qed
  have hi: "x < pow2 (e + 54)"
  proof -
    have "of_int p < pow2 (int bp)" by (rule rp)
    also have "\<dots> = pow2 (e + 54) * pow2 (int bq - 1)" by (simp add: e_def flip: pow2_add)
    also have "\<dots> \<le> pow2 (e + 54) * of_int q" using rq(1) by simp
    finally show ?thesis using q unfolding x by (simp add: pos_divide_less_eq)
  qed
  have ex: "f64_exp x = (if x \<ge> pow2 (e + 53) then e + 1 else e)"
    by (simp add: f64_exp_def pq e_def bp_def bq_def)
  have sc: "pow2 (f + int n) = 2 ^ n * pow2 f" for f n by (simp add: pow2_add pow2_nat)
  show "2 ^ 52 \<le> x / pow2 (f64_exp x)" "x / pow2 (f64_exp x) < 2 ^ 53"
    using lo hi ex sc [of e 52] sc [of e 53] sc [of e 54] sc [of e 1]
    by (auto simp: pos_le_divide_eq pos_divide_less_eq split: if_splits)
qed

lemma round_even_mono: "x \<le> y \<Longrightarrow> round_even x \<le> round_even y"
proof -
  assume le: "x \<le> y"
  have f: "\<lfloor>x\<rfloor> \<le> \<lfloor>y\<rfloor>" using le by (rule floor_mono)
  show ?thesis
  proof (cases "\<lfloor>x\<rfloor> = \<lfloor>y\<rfloor>")
    case True
    then show ?thesis using le by (auto simp: round_even_def Let_def)
  next
    case False
    then show ?thesis using f by (auto simp: round_even_def Let_def)
  qed
qed

lemma round_even_int [simp]: "round_even (of_int n) = n"
  by (simp add: round_even_def)

lemma f64_round_le:
  assumes "x \<le> y"
  shows "f64_round x \<le> f64_round y"
proof (cases "0 < x")
  case False
  have "0 \<le> f64_round y"
  proof (cases "0 < y")
    case True
    have "0 \<le> round_even (y / pow2 (f64_exp y))"
      using round_even_mono [of 0 "y / pow2 (f64_exp y)"] round_even_int [of 0] True
      by (simp add: less_imp_le)
    then show ?thesis using True by (simp add: f64_round_def)
  qed (simp add: f64_round_def)
  then show ?thesis using False by (simp add: f64_round_def)
next
  case True
  then have y: "0 < y" using assms by linarith
  let ?a = "f64_exp x" and ?b = "f64_exp y"
  note bx = f64_exp_bounds [OF True] and byy = f64_exp_bounds [OF y]
  have rx: "round_even (x / pow2 ?a) \<le> 2 ^ 53" using round_even_mono [OF less_imp_le [OF bx(2)]] round_even_int [of "2 ^ 53"] by simp
  have ry: "2 ^ 52 \<le> round_even (y / pow2 ?b)" using round_even_mono [OF byy(1)] round_even_int [of "2 ^ 52"] by simp
  have fx: "f64_round x = of_int (round_even (x / pow2 ?a)) * pow2 ?a" and fy: "f64_round y = of_int (round_even (y / pow2 ?b)) * pow2 ?b"
    using True y by (simp_all add: f64_round_def)
  have "?a \<le> ?b"
  proof (rule ccontr)
    assume "\<not> ?a \<le> ?b"
    then have "pow2 (?b + 53) \<le> pow2 (?a + 52)" by (intro pow2_mono) simp
    moreover have "y < pow2 (?b + 53)" "pow2 (?a + 52) \<le> x"
      using bx(1) byy(2) pow2_nat [of 52] pow2_nat [of 53]
      by (simp_all add: pow2_add pos_le_divide_eq pos_divide_less_eq mult.commute)
    ultimately show False using assms by linarith
  qed
  then consider "?a = ?b" | "?a + 1 \<le> ?b" by linarith
  then show ?thesis
  proof cases
    case 1
    then have "round_even (x / pow2 ?a) \<le> round_even (y / pow2 ?b)"
      using assms by (intro round_even_mono) (simp add: divide_right_mono)
    then show ?thesis using 1 by (simp add: fx fy)
  next
    case 2
    have "f64_round x \<le> 2 ^ 53 * pow2 ?a" unfolding fx using rx by (intro mult_right_mono) (simp_all add: of_int_le_iff [of _ "2 ^ 53", simplified])
    also have "\<dots> = 2 ^ 52 * pow2 (?a + 1)" using pow2_nat [of 1] by (simp add: pow2_add)
    also have "\<dots> \<le> 2 ^ 52 * pow2 ?b" using pow2_mono [OF 2] by simp
    also have "\<dots> \<le> f64_round y" unfolding fy using ry by (intro mult_right_mono) (simp_all add: of_int_le_iff [of "2 ^ 52", simplified])
    finally show ?thesis .
  qed
qed

lemma pow2_neg: "pow2 (- int j) = 1 / 2 ^ j"
  by (simp add: pow2_def)

lemma f64_round_dyadic:
  assumes "n < 2 ^ 53"
  shows "f64_round (of_nat n * pow2 (- int j)) = of_nat n * pow2 (- int j)"
proof (cases "n = 0")
  case False
  let ?x = "of_nat n * pow2 (- int j)"
  let ?e = "f64_exp ?x"
  have pos: "0 < ?x" using False by simp
  have le: "?e \<le> - int j"
  proof (rule ccontr)
    assume "\<not> ?e \<le> - int j"
    then have "pow2 (53 - int j) \<le> pow2 (?e + 52)" by (intro pow2_mono) simp
    also have "\<dots> \<le> ?x"
      using f64_exp_bounds(1) [OF pos] pow2_nat [of 52] by (simp add: pow2_add pos_le_divide_eq mult.commute)
    finally have "2 ^ 53 * pow2 (- int j) \<le> ?x" using pow2_nat [of 53] pow2_add [of 53 "- int j"] by simp
    then have "(of_nat (2 ^ 53) :: rat) \<le> of_nat n" by simp
    then show False using assms by (simp only: of_nat_le_iff)
  qed
  have "pow2 (- int j) = pow2 (- int j - ?e) * pow2 ?e" using pow2_add [of "- int j - ?e" ?e] by simp
  moreover have "pow2 (- int j - ?e) = 2 ^ nat (- int j - ?e)" using le by (simp add: pow2_def)
  ultimately have x: "?x = of_int (int n * 2 ^ nat (- int j - ?e)) * pow2 ?e" by simp
  then have "?x / pow2 ?e = of_int (int n * 2 ^ nat (- int j - ?e))" using pow2_pos(1) [of ?e] by (metis nonzero_mult_div_cancel_right less_irrefl)
  then have "round_even (?x / pow2 ?e) = int n * 2 ^ nat (- int j - ?e)" by (simp only: round_even_int)
  then have "f64_round ?x = of_int (int n * 2 ^ nat (- int j - ?e)) * pow2 ?e" using pos by (simp add: f64_round_def)
  then show ?thesis using x by (simp only:)
qed (simp add: f64_round_def)

lemma f64_round_nat:
  "n < 2 ^ 53 \<Longrightarrow> f64_round (of_nat n) = of_nat n"
  using f64_round_dyadic [of n 0] by (simp add: pow2_def)

text \<open>
  Dividing with rounding up through \<open>f64\<close> is exact: a quotient that is not an integer is at least
  \<open>1 / b\<close> above the integer below it, and \<open>2 ^ -j\<close> above it is a double.
\<close>

lemma f64_ceil_div:
  assumes "n < 2 ^ 39" "0 < b" "b < 2 ^ j" "j \<le> 13"
  shows "\<lceil>f64_round (of_nat n / of_nat b)\<rceil> = int ((n + b - 1) div b)"
proof (cases "b dvd n")
  case True
  then obtain k where k: "n = b * k" by blast
  then have "k \<le> n" using assms(2) by simp
  then have "f64_round (of_nat k) = of_nat k" by (intro f64_round_nat) (use assms(1) in simp)
  moreover have "(n + b - 1) div b = k"
  proof -
    have "n + b - 1 = (b - 1) + k * b" using k assms(2) by (simp add: mult.commute)
    moreover have "((b - 1) + k * b) div b = k" using assms(2) by (subst div_mult_self1) simp_all
    ultimately show ?thesis by simp
  qed
  ultimately show ?thesis using k assms(2) by simp
next
  case False
  define k where "k = n div b"
  let ?x = "of_nat n / of_nat b :: rat"
  have r: "n = b * k + n mod b" "n mod b < b" "1 \<le> n mod b" using assms(2) False by (simp_all add: k_def dvd_eq_mod_eq_0 Suc_le_eq)
  have kn: "k \<le> n" using r(1) assms(2) by (metis k_def div_le_dividend)
  have up: "(n + b - 1) div b = k + 1"
  proof -
    have "n + b - 1 = (n mod b - 1) + (k + 1) * b" using r(1,3) by (simp add: algebra_simps)
    moreover have "n mod b - 1 < b" using r(2) by linarith
    then have "((n mod b - 1) + (k + 1) * b) div b = k + 1" using assms(2) by (subst div_mult_self1) simp_all
    ultimately show ?thesis by simp
  qed
  have "n \<le> b * (k + 1)" using r by (simp add: algebra_simps)
  then have "(of_nat n :: rat) \<le> of_nat (b * (k + 1))" by (simp only: of_nat_le_iff)
  then have hi: "?x \<le> of_nat (k + 1)" using assms(2) by (simp add: pos_divide_le_eq algebra_simps)
  have "of_nat (b * k + 1) \<le> (of_nat n :: rat)" using r by (simp only: of_nat_le_iff)
  then have "of_nat (b * k + 1) / of_nat b \<le> ?x" by (rule divide_right_mono) simp
  then have "of_nat k + 1 / of_nat b \<le> ?x" using assms(2) by (simp add: add_divide_distrib)
  moreover have "pow2 (- int j) \<le> 1 / of_nat b"
  proof -
    have "(of_nat b :: rat) \<le> of_nat (2 ^ j)" using assms(3) by (simp only: of_nat_le_iff)
    then show ?thesis using assms(2) by (simp add: pow2_neg frac_le)
  qed
  ultimately have lo: "of_nat (k * 2 ^ j + 1) * pow2 (- int j) \<le> ?x"
    by (simp add: pow2_neg add_divide_distrib)
  have "k * 2 ^ j + 1 < 2 ^ 53"
  proof -
    have "k * 2 ^ j \<le> k * 2 ^ 13" using assms(4) by (intro mult_left_mono power_increasing) simp_all
    also have "\<dots> < 2 ^ 39 * 2 ^ 13" using kn assms(1) by simp
    finally show ?thesis by simp
  qed
  from f64_round_dyadic [OF this, of j] f64_round_le [OF lo]
  have l: "of_nat (k * 2 ^ j + 1) * pow2 (- int j) \<le> f64_round ?x" by simp
  moreover have "(of_nat k :: rat) < of_nat (k * 2 ^ j + 1) * pow2 (- int j)" by (simp add: pow2_neg add_divide_distrib)
  ultimately have "of_nat k < f64_round ?x" by linarith
  moreover have "f64_round ?x \<le> of_nat (k + 1)"
    using f64_round_le [OF hi] f64_round_nat [of "k + 1"] kn assms(1) by simp
  ultimately have "\<lceil>f64_round ?x\<rceil> = int k + 1" by (intro ceiling_unique) simp_all
  then show ?thesis using up by simp
qed

end
