(* ===== verification/Merge_Policy.thy ===== *)
theory Merge_Policy
  imports Segment_Meta F64
begin

text \<open>
  The layered merge policy of \<^verbatim>\<open>pg_search/src/index/merge_policy.rs\<close>.

  \<^item> The map of mergeable segments is an association list with distinct keys; its order is the
    iteration order of the hash map, which is arbitrary, and the theorems hold for every order.
  \<^item> A segment known to tantivy is an \<open>inner_segment_meta\<close>; \<open>nd\<close> is tantivy's
    \<open>SegmentMeta::num_docs\<close>.
  \<^item> Logging is left out.
\<close>

section \<open>Model\<close>

record layered_policy =
  lp_layer_sizes :: "u64 list"
  lp_min_merge_count :: nat
  lp_mergeable :: "(segment_id \<times> segment_meta_entry) list"
  lp_already_processed :: bool

definition lp_new :: "u64 list \<Rightarrow> layered_policy" where
  "lp_new sizes =
     \<lparr>lp_layer_sizes = sizes, lp_min_merge_count = 2, lp_mergeable = [], lp_already_processed = False\<rparr>"

definition actual_byte_size ::
  "(inner_segment_meta \<Rightarrow> u32) \<Rightarrow> (segment_id \<times> segment_meta_entry) list \<Rightarrow> u64 \<Rightarrow> inner_segment_meta \<Rightarrow> u64"
where
  "actual_byte_size nd entries avg m =
     (case map_of entries (ism_segment_id m) of
        Some e \<Rightarrow> byte_size e
      | None \<Rightarrow> ucast (nd m) * avg)"

definition adjusted_byte_size ::
  "(inner_segment_meta \<Rightarrow> u32) \<Rightarrow> (segment_id \<times> segment_meta_entry) list \<Rightarrow> u64 \<Rightarrow> inner_segment_meta \<Rightarrow> u64"
where
  "adjusted_byte_size nd entries avg m =
     (if nd m = 0 then 0
      else
        (case map_of entries (ism_segment_id m) of
           Some e \<Rightarrow>
             (let fraction_alive = f64_div (f64_of_nat (unat (num_docs e)))
                                     (f64_of_nat (unat (num_docs e + num_deleted_docs e)))
              in f64_to_u64 (f64_mul (f64_of_nat (unat (byte_size e))) fraction_alive))
         | None \<Rightarrow> ucast (nd m) * avg))"

definition segment_size ::
  "(inner_segment_meta \<Rightarrow> u32) \<Rightarrow> layered_policy \<Rightarrow> u64 \<Rightarrow> inner_segment_meta \<Rightarrow> u64" where
  "segment_size nd p avg m = adjusted_byte_size nd (lp_mergeable p) avg m"

text \<open>Stable sort, largest first.\<close>

definition collect_mergeable_segments ::
  "(inner_segment_meta \<Rightarrow> u32) \<Rightarrow> layered_policy \<Rightarrow> inner_segment_meta list \<Rightarrow> segment_id set \<Rightarrow> u64 \<Rightarrow>
   inner_segment_meta list"
where
  "collect_mergeable_segments nd p metas exclude avg =
     sort_key (\<lambda>m. - uint (segment_size nd p avg m))
       (filter (\<lambda>m. ism_segment_id m \<in> fst ` set (lp_mergeable p) \<and> ism_segment_id m \<notin> exclude) metas)"

text \<open>A candidate is its layer size and the ids it would merge.\<close>

type_synonym candidate = "u64 \<times> segment_id list"

text \<open>The conversion of mutable segments, one candidate each.\<close>

fun mutable_candidates ::
  "inner_segment_meta list \<Rightarrow> (segment_id \<times> segment_meta_entry) list \<Rightarrow> candidate list \<times> segment_id set" where
  "mutable_candidates metas [] = ([], {})"
| "mutable_candidates metas ((sid, e) # rest) =
     (let (cs, merged) = mutable_candidates metas rest
      in if is_mutable e then
           (case find (\<lambda>m. ism_segment_id m = sid) metas of
              Some m \<Rightarrow> ((0, [ism_segment_id m]) # cs, insert (ism_segment_id m) merged)
            | None \<Rightarrow> (cs, merged))
         else (cs, merged))"

text \<open>
  The loop over the segments of one layer.  The candidate being filled is the last one of the list;
  \<open>sz\<close> is \<open>candidate_byte_size\<close>.
\<close>

fun add_segments ::
  "(inner_segment_meta \<Rightarrow> u32) \<Rightarrow> layered_policy \<Rightarrow> u64 \<Rightarrow> segment_id set \<Rightarrow> u64 \<Rightarrow> u64 \<Rightarrow>
   inner_segment_meta list \<Rightarrow> candidate list \<Rightarrow> u64 \<Rightarrow> candidate list \<times> u64"
where
  "add_segments nd p avg merged layer ext [] cs sz = (cs, sz)"
| "add_segments nd p avg merged layer ext (m # ms) cs sz =
     (if ism_segment_id m \<in> merged then add_segments nd p avg merged layer ext ms cs sz
      else if segment_size nd p avg m > layer then add_segments nd p avg merged layer ext ms cs sz
      else
        (let sz' = sz + actual_byte_size nd (lp_mergeable p) avg m;
             cs' = butlast cs @ [(fst (last cs), snd (last cs) @ [ism_segment_id m])]
         in if sz' \<ge> ext then add_segments nd p avg merged layer ext ms (cs' @ [(layer, [])]) 0
            else add_segments nd p avg merged layer ext ms cs' sz'))"

definition process_layer ::
  "(inner_segment_meta \<Rightarrow> u32) \<Rightarrow> layered_policy \<Rightarrow> inner_segment_meta list \<Rightarrow> u64 \<Rightarrow> u64 \<Rightarrow>
   candidate list \<times> segment_id set \<Rightarrow> candidate list \<times> segment_id set"
where
  "process_layer nd p metas avg layer st =
     (let (cs, merged) = st;
          ext = layer + layer div 3;
          segments = collect_mergeable_segments nd p metas merged avg;
          (cs, sz) = add_segments nd p avg merged layer ext segments (cs @ [(layer, [])]) 0;
          cs = (if sz < ext then butlast cs else cs)
      in (cs, merged \<union> (\<Union>c\<in>set cs. set (snd c))))"

text \<open>The loop \<open>'outer\<close> that removes short candidates, restarting after each removal.\<close>

definition keep_candidate :: "layered_policy \<Rightarrow> candidate \<Rightarrow> bool" where
  "keep_candidate p c \<longleftrightarrow>
     (length (snd c) = 1 \<and>
      (case map_of (lp_mergeable p) (snd c ! 0) of Some e \<Rightarrow> is_mutable e | None \<Rightarrow> False)) \<or>
     \<not> length (snd c) < lp_min_merge_count p"

fun first_index :: "('a \<Rightarrow> bool) \<Rightarrow> 'a list \<Rightarrow> nat option" where
  "first_index P [] = None"
| "first_index P (x # xs) = (if P x then Some 0 else map_option Suc (first_index P xs))"

lemma first_index_bound: "first_index P xs = Some i \<Longrightarrow> i < length xs"
  by (induction xs arbitrary: i) (auto split: if_splits)

function remove_short :: "layered_policy \<Rightarrow> candidate list \<Rightarrow> candidate list" where
  "remove_short p cs =
     (case first_index (\<lambda>c. \<not> keep_candidate p c) cs of
        None \<Rightarrow> cs
      | Some i \<Rightarrow> remove_short p (take i cs @ drop (Suc i) cs))"
  by pat_completeness auto
termination
  by (relation "measure (\<lambda>(p, cs). length cs)") (auto dest: first_index_bound)

declare remove_short.simps [simp del]

text \<open>
  The average document size; the division panics when the mergeable segments hold no documents at
  all.
\<close>

definition avg_doc_size :: "layered_policy \<Rightarrow> u64 option" where
  "avg_doc_size p =
     (let total = sum_list (map (byte_size \<circ> snd) (lp_mergeable p));
          docs = sum_list (map (\<lambda>(_, e). num_docs e + num_deleted_docs e) (lp_mergeable p))
      in if docs = 0 then None else Some (total div docs))"

text \<open>\<open>compute_merge_candidates\<close>; \<open>None\<close> is also the failed assertion on an empty map.\<close>

definition compute_merge_candidates ::
  "(inner_segment_meta \<Rightarrow> u32) \<Rightarrow> layered_policy \<Rightarrow> inner_segment_meta list \<Rightarrow>
   (layered_policy \<times> segment_id list list) option"
where
  "compute_merge_candidates nd p metas =
     (if metas = [] then Some (p, [])
      else if lp_already_processed p then Some (p, [])
      else if lp_mergeable p = [] then None
      else do {
        avg \<leftarrow> avg_doc_size p;
        let st = mutable_candidates metas (lp_mergeable p);
        let layers = sort_key (\<lambda>s. - uint s) (lp_layer_sizes p);
        let (cs, _) = fold (process_layer nd p metas avg) layers st;
        let cs = remove_short p cs;
        let p = (if cs \<noteq> [] then p\<lparr>lp_already_processed := True\<rparr> else p);
        Some (p, map snd cs)
      })"

text \<open>
  \<open>set_mergeable_segment_entries\<close>: the vacuum list and the merge list name the segments that are
  taken.
\<close>

definition set_mergeable_segment_entries ::
  "segment_id list \<Rightarrow> segment_id list \<Rightarrow> (segment_id \<times> segment_meta_entry) list \<Rightarrow> layered_policy \<Rightarrow> layered_policy"
where
  "set_mergeable_segment_entries vacuum_list merge_list all_entries p =
     p\<lparr>lp_mergeable := filter (\<lambda>(sid, _). sid \<notin> set vacuum_list \<union> set merge_list) all_entries\<rparr>"

definition retain :: "segment_id set \<Rightarrow> layered_policy \<Rightarrow> layered_policy" where
  "retain to_keep p = p\<lparr>lp_mergeable := filter (\<lambda>(sid, _). sid \<in> to_keep) (lp_mergeable p)\<rparr>"

definition simulate ::
  "(inner_segment_meta \<Rightarrow> u32) \<Rightarrow> layered_policy \<Rightarrow> (layered_policy \<times> segment_id list list) option" where
  "simulate nd p = do {
     (p, cs) \<leftarrow> compute_merge_candidates nd p (map (as_tantivy \<circ> snd) (lp_mergeable p));
     Some (retain (set (concat cs)) p, cs)
   }"

definition mergeable_segments :: "layered_policy \<Rightarrow> segment_id list" where
  "mergeable_segments p = map fst (lp_mergeable p)"

section \<open>Removal of short candidates\<close>

lemma first_index_None: "first_index P xs = None \<longleftrightarrow> (\<forall>x\<in>set xs. \<not> P x)"
  by (induction xs) auto

lemma first_index_filter:
  "first_index P xs = Some i \<Longrightarrow> filter (\<lambda>x. \<not> P x) (take i xs @ drop (Suc i) xs) = filter (\<lambda>x. \<not> P x) xs"
  by (induction xs arbitrary: i) (auto split: if_splits)

lemma remove_short_filter: "remove_short p cs = filter (keep_candidate p) cs"
proof (induction p cs rule: remove_short.induct)
  case (1 p cs)
  show ?case
  proof (cases "first_index (\<lambda>c. \<not> keep_candidate p c) cs")
    case None
    then have "filter (keep_candidate p) cs = cs" by (simp add: first_index_None filter_id_conv)
    then show ?thesis using None by (subst remove_short.simps) simp
  next
    case (Some i)
    with 1 first_index_filter [OF Some] show ?thesis by (subst remove_short.simps) simp
  qed
qed

section \<open>Filling a layer\<close>

definition total_size ::
  "(inner_segment_meta \<Rightarrow> u32) \<Rightarrow> layered_policy \<Rightarrow> u64 \<Rightarrow> inner_segment_meta list \<Rightarrow> u64" where
  "total_size nd p avg ms = sum_list (map (actual_byte_size nd (lp_mergeable p) avg) ms)"

lemma add_segments_groups:
  "\<exists>gs lst. add_segments nd p avg merged layer ext ms (done @ [(layer, map ism_segment_id cur)]) (total_size nd p avg cur)
      = (done @ map (\<lambda>g. (layer, map ism_segment_id g)) gs @ [(layer, map ism_segment_id lst)], total_size nd p avg lst) \<and>
    (\<forall>g\<in>set gs. ext \<le> total_size nd p avg g) \<and>
    concat gs @ lst = cur @ filter (\<lambda>m. ism_segment_id m \<notin> merged \<and> segment_size nd p avg m \<le> layer) ms"
proof (induction ms arbitrary: "done" cur)
  case Nil
  show ?case by (intro exI [of _ "[]"] exI [of _ cur]) simp
next
  case (Cons m ms)
  let ?ok = "ism_segment_id m \<notin> merged \<and> segment_size nd p avg m \<le> layer"
  have sz: "total_size nd p avg (cur @ [m]) = total_size nd p avg cur + actual_byte_size nd (lp_mergeable p) avg m"
    by (simp add: total_size_def)
  have nl: "?ok \<Longrightarrow> \<not> layer < segment_size nd p avg m" by auto
  consider "\<not> ?ok" | "?ok" "ext \<le> total_size nd p avg (cur @ [m])" | "?ok" "\<not> ext \<le> total_size nd p avg (cur @ [m])"
    by blast
  then show ?case
  proof cases
    case 1
    with Cons.IH [of "done" cur] show ?thesis by (auto simp: not_le)
  next
    case 2
    have nil: "total_size nd p avg [] = 0" by (simp add: total_size_def)
    from Cons.IH [of "done @ [(layer, map ism_segment_id (cur @ [m]))]" "[]", unfolded nil list.map append_Nil]
    obtain gs lst where
      ih: "add_segments nd p avg merged layer ext ms ((done @ [(layer, map ism_segment_id (cur @ [m]))]) @ [(layer, [])]) 0
        = ((done @ [(layer, map ism_segment_id (cur @ [m]))]) @ map (\<lambda>g. (layer, map ism_segment_id g)) gs @ [(layer, map ism_segment_id lst)], total_size nd p avg lst)"
        "\<forall>g\<in>set gs. ext \<le> total_size nd p avg g"
        "concat gs @ lst = filter (\<lambda>m. ism_segment_id m \<notin> merged \<and> segment_size nd p avg m \<le> layer) ms" by blast
    then show ?thesis
      using 2 nl [OF 2(1)] sz
      by (intro exI [of _ "(cur @ [m]) # gs"] exI [of _ lst]) (simp add: total_size_def)
  next
    case 3
    with Cons.IH [of "done" "cur @ [m]"] nl [OF 3(1)] sz show ?thesis by simp
  qed
qed


section \<open>Invariant of the candidates\<close>

text \<open>
  A candidate is either the conversion of one mutable segment, or a group of a layer: the sizes of its
  segments are at most the layer size, and its total reaches the layer size and a third.
\<close>

definition mutable_conversion :: "layered_policy \<Rightarrow> segment_id list \<Rightarrow> bool" where
  "mutable_conversion p segs \<longleftrightarrow>
     (\<exists>sid e. segs = [sid] \<and> (sid, e) \<in> set (lp_mergeable p) \<and> is_mutable e)"

definition layer_group ::
  "(inner_segment_meta \<Rightarrow> u32) \<Rightarrow> layered_policy \<Rightarrow> u64 \<Rightarrow> inner_segment_meta list \<Rightarrow> segment_id list \<Rightarrow> bool" where
  "layer_group nd p avg metas segs \<longleftrightarrow>
     (\<exists>layer ms. layer \<in> set (lp_layer_sizes p) \<and> set ms \<subseteq> set metas \<and> segs = map ism_segment_id ms \<and>
        layer + layer div 3 \<le> total_size nd p avg ms \<and> (\<forall>m\<in>set ms. segment_size nd p avg m \<le> layer))"

definition cand_ids :: "candidate list \<Rightarrow> segment_id list" where
  "cand_ids cs = concat (map snd cs)"

definition cand_inv ::
  "(inner_segment_meta \<Rightarrow> u32) \<Rightarrow> layered_policy \<Rightarrow> u64 \<Rightarrow> inner_segment_meta list \<Rightarrow>
   candidate list \<times> segment_id set \<Rightarrow> bool" where
  "cand_inv nd p avg metas st \<longleftrightarrow>
     (let (cs, merged) = st
      in distinct (cand_ids cs) \<and> set (cand_ids cs) = merged \<and>
         merged \<subseteq> fst ` set (lp_mergeable p) \<inter> ism_segment_id ` set metas \<and>
         (\<forall>c\<in>set cs. mutable_conversion p (snd c) \<or> layer_group nd p avg metas (snd c)))"

lemma mutable_candidates_eq:
  "mutable_candidates metas es =
     (let sel = filter (\<lambda>(sid, e). is_mutable e \<and> sid \<in> ism_segment_id ` set metas) es
      in (map (\<lambda>(sid, e). (0, [sid])) sel, fst ` set sel))"
proof (induction es)
  case (Cons x es)
  obtain sid e where x: "x = (sid, e)" by (cases x)
  show ?case
  proof (cases "find (\<lambda>m. ism_segment_id m = sid) metas")
    case None
    then have "sid \<notin> ism_segment_id ` set metas" by (auto simp: find_None_iff)
    then show ?thesis using Cons None by (simp add: x Let_def)
  next
    case (Some m)
    then have "m \<in> set metas" "ism_segment_id m = sid" by (auto simp: find_Some_iff)
    then have "sid \<in> ism_segment_id ` set metas" "ism_segment_id m = sid" by auto
    then show ?thesis using Cons Some by (simp add: x Let_def)
  qed
qed simp

lemma mutable_candidates_inv:
  assumes "distinct (map fst (lp_mergeable p))"
  shows "cand_inv nd p avg metas (mutable_candidates metas (lp_mergeable p))"
proof -
  define sel where "sel = filter (\<lambda>(sid, e). is_mutable e \<and> sid \<in> ism_segment_id ` set metas) (lp_mergeable p)"
  have r: "mutable_candidates metas (lp_mergeable p) = (map (\<lambda>(sid, e). (0, [sid])) sel, fst ` set sel)"
    by (simp add: mutable_candidates_eq sel_def Let_def)
  have ids: "cand_ids (map (\<lambda>(sid, e). (0, [sid])) sel) = map fst sel"
    by (induction sel) (auto simp: cand_ids_def)
  have "distinct (map fst sel)" using assms by (simp add: sel_def distinct_map_filter)
  moreover have "mutable_conversion p [sid]" if "(sid, e) \<in> set sel" for sid e
    using that by (auto simp: mutable_conversion_def sel_def)
  moreover have "fst ` set sel \<subseteq> fst ` set (lp_mergeable p) \<inter> ism_segment_id ` set metas"
    by (auto simp: sel_def)
  ultimately show ?thesis unfolding cand_inv_def r by (auto simp: ids)
qed

lemma process_layer_groups:
  assumes "layer + layer div 3 = ext"
  shows "\<exists>gs. fst (process_layer nd p metas avg layer (cs, merged)) = cs @ map (\<lambda>g. (layer, map ism_segment_id g)) gs \<and>
    (\<forall>g\<in>set gs. ext \<le> total_size nd p avg g) \<and>
    (\<exists>rest. concat gs @ rest = filter (\<lambda>m. ism_segment_id m \<notin> merged \<and> segment_size nd p avg m \<le> layer)
              (collect_mergeable_segments nd p metas merged avg))"
proof -
  define segs where "segs = collect_mergeable_segments nd p metas merged avg"
  from add_segments_groups [of nd p avg merged layer ext segs cs "[]"] obtain gs lst where
    g: "add_segments nd p avg merged layer ext segs (cs @ [(layer, [])]) 0
      = (cs @ map (\<lambda>g. (layer, map ism_segment_id g)) gs @ [(layer, map ism_segment_id lst)], total_size nd p avg lst)"
      "\<forall>g\<in>set gs. ext \<le> total_size nd p avg g"
      "concat gs @ lst = filter (\<lambda>m. ism_segment_id m \<notin> merged \<and> segment_size nd p avg m \<le> layer) segs"
    by (auto simp: total_size_def)
  show ?thesis
  proof (cases "total_size nd p avg lst < ext")
    case True
    then show ?thesis
      using g by (intro exI [of _ gs]) (auto simp: process_layer_def segs_def assms butlast_append)
  next
    case False
    then show ?thesis
      using g by (intro exI [of _ "gs @ [lst]"]) (auto simp: process_layer_def segs_def assms not_less)
  qed
qed

lemma process_layer_snd:
  "snd (process_layer nd p metas avg layer (cs, merged)) =
     merged \<union> set (cand_ids (fst (process_layer nd p metas avg layer (cs, merged))))"
  by (simp add: process_layer_def Let_def cand_ids_def split: prod.split)

lemma process_layer_inv:
  assumes inv: "cand_inv nd p avg metas st" and d: "distinct (map ism_segment_id metas)"
    and layer: "layer \<in> set (lp_layer_sizes p)"
  shows "cand_inv nd p avg metas (process_layer nd p metas avg layer st)"
proof -
  obtain cs merged where st: "st = (cs, merged)" by (cases st)
  obtain gs rest where g: "fst (process_layer nd p metas avg layer (cs, merged)) = cs @ map (\<lambda>g. (layer, map ism_segment_id g)) gs"
    "\<forall>g\<in>set gs. layer + layer div 3 \<le> total_size nd p avg g"
    "concat gs @ rest = filter (\<lambda>m. ism_segment_id m \<notin> merged \<and> segment_size nd p avg m \<le> layer)
              (collect_mergeable_segments nd p metas merged avg)"
    using process_layer_groups [OF refl, of nd p metas avg layer cs merged] by blast
  let ?cs = "cs @ map (\<lambda>g. (layer, map ism_segment_id g)) gs"
  have snd: "snd (process_layer nd p metas avg layer (cs, merged)) = merged \<union> set (cand_ids ?cs)"
    using process_layer_snd [of nd p metas avg layer cs merged] g(1) by simp
  have ids: "cand_ids ?cs = cand_ids cs @ map ism_segment_id (concat gs)"
    by (simp add: cand_ids_def map_concat comp_def)
  have mem: "set (concat gs @ rest) = {m \<in> set metas. ism_segment_id m \<in> fst ` set (lp_mergeable p) \<and>
      ism_segment_id m \<notin> merged \<and> segment_size nd p avg m \<le> layer}"
    unfolding g(3) by (auto simp: collect_mergeable_segments_def)
  have "distinct (map ism_segment_id (filter P (collect_mergeable_segments nd p metas merged avg)))" for P
    using d by (simp add: collect_mergeable_segments_def distinct_map inj_on_def)
  then have "distinct (map ism_segment_id (concat gs @ rest))" unfolding g(3) .
  then have dg: "distinct (map ism_segment_id (concat gs))" unfolding map_append distinct_append by blast
  have sub: "set (concat gs) \<subseteq> {m \<in> set metas. ism_segment_id m \<in> fst ` set (lp_mergeable p) \<and>
      ism_segment_id m \<notin> merged \<and> segment_size nd p avg m \<le> layer}"
    using mem by auto
  have grp: "layer_group nd p avg metas (map ism_segment_id x)" if "x \<in> set gs" for x
    unfolding layer_group_def using that g(2) sub layer
    by (intro exI [of _ layer] exI [of _ x]) (auto simp: subset_iff)
  show ?thesis
    using inv g(1) snd ids dg sub grp
    unfolding cand_inv_def st by (cases "process_layer nd p metas avg layer (cs, merged)") (auto simp: subset_iff)
qed

lemma layers_inv:
  assumes "cand_inv nd p avg metas st" "distinct (map ism_segment_id metas)" "set layers \<subseteq> set (lp_layer_sizes p)"
  shows "cand_inv nd p avg metas (fold (process_layer nd p metas avg) layers st)"
  using assms by (induction layers arbitrary: st) (simp_all add: process_layer_inv)


lemma compute_cases:
  assumes "compute_merge_candidates nd p metas = Some (p', cs)" "cs \<noteq> []"
  obtains avg st where "avg_doc_size p = Some avg"
    "st = fold (process_layer nd p metas avg) (sort_key (\<lambda>s. - uint s) (lp_layer_sizes p))
            (mutable_candidates metas (lp_mergeable p))"
    "cs = map snd (filter (keep_candidate p) (fst st))" "p' = p\<lparr>lp_already_processed := True\<rparr>"
proof -
  have g: "metas \<noteq> []" "\<not> lp_already_processed p" "lp_mergeable p \<noteq> []"
    using assms by (auto simp: compute_merge_candidates_def split: if_splits)
  obtain avg where avg: "avg_doc_size p = Some avg"
    using assms g by (cases "avg_doc_size p") (auto simp: compute_merge_candidates_def)
  define st where "st = fold (process_layer nd p metas avg) (sort_key (\<lambda>s. - uint s) (lp_layer_sizes p))
            (mutable_candidates metas (lp_mergeable p))"
  have "compute_merge_candidates nd p metas =
      Some (if filter (keep_candidate p) (fst st) \<noteq> [] then p\<lparr>lp_already_processed := True\<rparr> else p,
            map snd (filter (keep_candidate p) (fst st)))"
    using g avg by (simp add: compute_merge_candidates_def remove_short_filter st_def Let_def split: prod.split)
  with assms show thesis by (intro that [OF avg st_def]) (auto split: if_splits)
qed

text \<open>The candidates found in one layer are kept by the later ones.\<close>

lemma layers_prefix:
  "\<exists>more. fst (fold (process_layer nd p metas avg) layers st) = fst st @ more"
proof (induction layers arbitrary: st)
  case (Cons layer layers)
  obtain cs merged where st: "st = (cs, merged)" by (cases st)
  obtain gs where "fst (process_layer nd p metas avg layer (cs, merged)) = cs @ gs"
    using process_layer_groups [OF refl, of nd p metas avg layer cs merged] by blast
  with Cons.IH [of "process_layer nd p metas avg layer (cs, merged)"] show ?case by (auto simp: st)
qed simp

section \<open>Adjusted sizes\<close>

lemma f64_div_le_one:
  assumes "a \<le> b" "0 < b"
  shows "\<exists>f. f64_div (f64_of_nat a) (f64_of_nat b) = FFin f \<and> 0 \<le> f \<and> f \<le> 1"
proof -
  have one: "f64_round 1 = 1" and zero: "f64_round 0 = 0" using f64_round_nat [of 1] by (simp_all add: f64_round_def)
  have b: "1 \<le> f64_round (of_nat b)" using f64_round_le [of 1 "of_nat b"] one assms(2) by simp
  have a: "0 \<le> f64_round (of_nat a)" "f64_round (of_nat a) \<le> f64_round (of_nat b)"
    using f64_round_le [of 0 "of_nat a"] f64_round_le [of "of_nat a" "of_nat b"] zero assms(1) by simp_all
  define q where "q = f64_round (of_nat a) / f64_round (of_nat b)"
  have "0 \<le> q" "q \<le> 1" using a b by (simp_all add: q_def)
  then have "0 \<le> f64_round q" "f64_round q \<le> 1"
    using f64_round_le [of 0 q] f64_round_le [of q 1] one zero by simp_all
  then show ?thesis using b by (simp add: f64_div_def f64_of_nat_def q_def)
qed

lemma f64_scale_le:
  assumes "n < 2 ^ 53" "0 \<le> f" "f \<le> 1"
  shows "unat (f64_to_u64 (f64_mul (f64_of_nat n) (FFin f))) \<le> n"
proof -
  have "of_nat n * f \<le> of_nat n" using assms(3) by (simp add: mult_left_le)
  then have le: "f64_round (of_nat n * f) \<le> of_nat n"
    using f64_round_le [of "of_nat n * f" "of_nat n"] f64_round_nat [OF assms(1)] by simp
  have "f64_round (of_nat n * f) < 2 ^ 64"
  proof -
    have "(of_nat n :: rat) < of_nat (2 ^ 53)" using assms(1) by (simp only: of_nat_less_iff)
    then show ?thesis using le by simp
  qed
  moreover have "nat \<lfloor>f64_round (of_nat n * f)\<rfloor> \<le> n" using floor_mono [OF le] by simp
  moreover have "nat \<lfloor>f64_round (of_nat n * f)\<rfloor> < 2 ^ 64" using calculation(2) assms(1) by simp
  ultimately show ?thesis
    using f64_round_nat [OF assms(1)]
    by (simp add: f64_to_u64_def f64_mul_def f64_of_nat_def unat_of_nat)
qed


lemma f64_scale_one:
  assumes "n < 2 ^ 53"
  shows "f64_to_u64 (f64_mul (f64_of_nat n) (FFin 1)) = of_nat n"
proof -
  have "(of_nat n :: rat) < of_nat (2 ^ 53)" using assms by (simp only: of_nat_less_iff)
  then show ?thesis using assms by (simp add: f64_to_u64_def f64_mul_def f64_of_nat_def f64_round_nat)
qed

lemma adjusted_no_deletes:
  assumes "map_of entries (ism_segment_id m) = Some e" "unat (byte_size e) < 2 ^ 53"
    "num_deleted_docs e = 0" "sme_max_doc e \<noteq> 0" "nd m \<noteq> 0"
  shows "adjusted_byte_size nd entries avg m = byte_size e"
proof -
  define n where "n = unat (sme_max_doc e)"
  have "n < 2 ^ LENGTH(32)" unfolding n_def by (rule unsigned_less)
  then have n: "0 < n" "n < 2 ^ 53" using assms(4) by (auto simp: n_def unat_gt_0)
  have d: "unat (num_docs e) = n" by (simp add: num_docs_def assms(3) n_def unat_u32_u64)
  have r1: "f64_round 1 = 1" using f64_round_nat [of 1] by simp
  have q: "f64_div (f64_of_nat n) (f64_of_nat n) = FFin 1"
    using n by (simp add: f64_div_def f64_of_nat_def f64_round_nat r1)
  have "f64_to_u64 (f64_mul (f64_of_nat (unat (byte_size e))) (FFin 1)) = byte_size e"
    using f64_scale_one [OF assms(2)] by simp
  then show ?thesis using assms(1,5) d by (simp add: adjusted_byte_size_def assms(3) q Let_def)
qed

lemma compute_sound:
  assumes "distinct (map fst (lp_mergeable p))" "distinct (map ism_segment_id metas)"
    and "compute_merge_candidates nd p metas = Some (p', cs)"
  shows "distinct (concat cs) \<and>
    set (concat cs) \<subseteq> fst ` set (lp_mergeable p) \<inter> ism_segment_id ` set metas \<and>
    (\<forall>c\<in>set cs. mutable_conversion p c \<or>
       lp_min_merge_count p \<le> length c \<and> (\<exists>avg. avg_doc_size p = Some avg \<and> layer_group nd p avg metas c))"
proof (cases "cs = []")
  case False
  obtain avg st where st: "avg_doc_size p = Some avg"
    "st = fold (process_layer nd p metas avg) (sort_key (\<lambda>s. - uint s) (lp_layer_sizes p))
            (mutable_candidates metas (lp_mergeable p))"
    "cs = map snd (filter (keep_candidate p) (fst st))"
    using compute_cases [OF assms(3) False] by metis
  have "cand_inv nd p avg metas st"
    unfolding st(2) by (intro layers_inv mutable_candidates_inv assms(1,2)) simp
  then have inv: "distinct (concat (map snd (fst st)))"
    "set (concat (map snd (fst st))) \<subseteq> fst ` set (lp_mergeable p) \<inter> ism_segment_id ` set metas"
    "\<forall>c\<in>set (fst st). mutable_conversion p (snd c) \<or> layer_group nd p avg metas (snd c)"
    by (auto simp: cand_inv_def cand_ids_def split: prod.splits)
  have "distinct (concat (map snd (filter P xs)))" if "distinct (concat (map snd xs))" for P and xs :: "candidate list"
    using that by (induction xs) auto
  then have "distinct (concat cs)" using inv(1) st(3) by blast
  moreover have "set (concat cs) \<subseteq> set (concat (map snd (fst st)))" using st(3) by auto
  moreover have "mutable_conversion p c \<or> lp_min_merge_count p \<le> length c \<and> layer_group nd p avg metas c"
    if c: "c \<in> set cs" for c
  proof -
    obtain k where k: "k \<in> set (fst st)" "keep_candidate p k" "c = snd k" using c st(3) by auto
    show ?thesis
    proof (cases "length c < lp_min_merge_count p")
      case True
      then obtain e where "length c = 1" "map_of (lp_mergeable p) (c ! 0) = Some e" "is_mutable e"
        using k(2,3) by (auto simp: keep_candidate_def split: option.splits)
      then show ?thesis
        by (auto simp: mutable_conversion_def length_Suc_conv dest!: map_of_SomeD)
    next
      case False
      then show ?thesis using inv(3) k by auto
    qed
  qed
  ultimately show ?thesis using inv(2) st(1) by blast
qed simp

lemma compute_returns:
  assumes "lp_mergeable p \<noteq> []" "sum_list (map (\<lambda>(_, e). num_docs e + num_deleted_docs e) (lp_mergeable p)) \<noteq> 0"
  shows "\<exists>p' cs. compute_merge_candidates nd p metas = Some (p', cs) \<and> lp_mergeable p' = lp_mergeable p \<and>
    (lp_already_processed p \<longrightarrow> lp_already_processed p' \<and> cs = []) \<and> (cs \<noteq> [] \<longrightarrow> lp_already_processed p')"
  using assms
  by (cases "metas = []"; cases "lp_already_processed p")
    (auto simp: compute_merge_candidates_def avg_doc_size_def Let_def split: prod.split)

text \<open>The calls tantivy makes to one policy, each with the segments it knows of then.\<close>

fun merge_calls ::
  "(inner_segment_meta \<Rightarrow> u32) \<Rightarrow> layered_policy \<Rightarrow> inner_segment_meta list list \<Rightarrow> segment_id list list list option" where
  "merge_calls nd p [] = Some []"
| "merge_calls nd p (metas # mss) = do {
     (p, cs) \<leftarrow> compute_merge_candidates nd p metas;
     css \<leftarrow> merge_calls nd p mss;
     Some (cs # css)
   }"

lemma merge_calls_ok:
  assumes "lp_mergeable p \<noteq> []" "sum_list (map (\<lambda>(_, e). num_docs e + num_deleted_docs e) (lp_mergeable p)) \<noteq> 0"
    "distinct (map fst (lp_mergeable p))" "\<forall>metas\<in>set mss. distinct (map ism_segment_id metas)"
  shows "\<exists>css. merge_calls nd p mss = Some css \<and> length css = length mss \<and> length (filter (\<lambda>cs. cs \<noteq> []) css) \<le> 1 \<and>
     distinct (concat (concat css)) \<and> (lp_already_processed p \<longrightarrow> filter (\<lambda>cs. cs \<noteq> []) css = [])"
  using assms
proof (induction mss arbitrary: p)
  case (Cons metas mss)
  obtain p' cs where c: "compute_merge_candidates nd p metas = Some (p', cs)" "lp_mergeable p' = lp_mergeable p"
    "lp_already_processed p \<longrightarrow> lp_already_processed p' \<and> cs = []" "cs \<noteq> [] \<longrightarrow> lp_already_processed p'"
    using compute_returns [OF Cons.prems(1,2), of nd metas] by (elim exE conjE) (rule that)
  obtain css where r: "merge_calls nd p' mss = Some css" "length css = length mss" "length (filter (\<lambda>cs. cs \<noteq> []) css) \<le> 1"
    "distinct (concat (concat css))" "lp_already_processed p' \<longrightarrow> filter (\<lambda>cs. cs \<noteq> []) css = []"
    using Cons.IH [of p'] Cons.prems c(2) by auto
  have d: "distinct (concat cs)" using compute_sound [OF Cons.prems(3) _ c(1)] Cons.prems(4) by simp
  have "concat css = []" if "cs \<noteq> []" using r(5) c(4) that by (auto simp: filter_empty_conv)
  then have "concat (cs # css) = cs \<or> concat (cs # css) = concat css" by (cases "cs = []") simp_all
  then have "distinct (concat (concat (cs # css)))" using d r(4) by metis
  then show ?case using c(1,3,4) r by (intro exI [of _ "cs # css"]) auto
qed simp

text \<open>When a call does not return.\<close>

lemma compute_panics:
  "compute_merge_candidates nd p metas = None \<longleftrightarrow>
     metas \<noteq> [] \<and> \<not> lp_already_processed p \<and>
     (lp_mergeable p = [] \<or> sum_list (map (\<lambda>(_, e). num_docs e + num_deleted_docs e) (lp_mergeable p)) = 0)"
  by (simp add: compute_merge_candidates_def avg_doc_size_def Let_def split: prod.split)

section \<open>Properties\<close>

text \<open>
  C5.  Soundness of the merge candidates, for every iteration order of the hash map: no segment is in
  two candidates or twice in one; every candidate segment is mergeable and known to tantivy; and each
  candidate either converts a single mutable segment, or has at least \<open>min_merge_count\<close> segments of
  one layer, each of adjusted size at most the layer size, whose byte sizes add up (in \<open>u64\<close>) to at
  least the layer size and a third.
\<close>

theorem merge_candidates_sound:
  assumes "distinct (map fst (lp_mergeable p))" "distinct (map ism_segment_id metas)"
    and "compute_merge_candidates nd p metas = Some (p', cs)"
  shows "distinct (concat cs) \<and>
    set (concat cs) \<subseteq> fst ` set (lp_mergeable p) \<inter> ism_segment_id ` set metas \<and>
    (\<forall>c\<in>set cs. mutable_conversion p c \<or>
       lp_min_merge_count p \<le> length c \<and> (\<exists>avg. avg_doc_size p = Some avg \<and> layer_group nd p avg metas c))"
  by (rule compute_sound [OF assms])

text \<open>
  C22.  No mutable segment is left behind: when the policy proposes anything, every mergeable mutable
  segment that tantivy knows is converted by a candidate of its own.
\<close>

theorem mutable_segments_converted:
  assumes "compute_merge_candidates nd p metas = Some (p', cs)" "cs \<noteq> []"
    and "distinct (map fst (lp_mergeable p))"
    and "(sid, e) \<in> set (lp_mergeable p)" "is_mutable e" "sid \<in> ism_segment_id ` set metas"
  shows "[sid] \<in> set cs"
proof -
  obtain avg st where st:
    "st = fold (process_layer nd p metas avg) (sort_key (\<lambda>s. - uint s) (lp_layer_sizes p))
            (mutable_candidates metas (lp_mergeable p))"
    "cs = map snd (filter (keep_candidate p) (fst st))"
    using compute_cases [OF assms(1,2)] by metis
  have "(0, [sid]) \<in> set (fst (mutable_candidates metas (lp_mergeable p)))"
    using assms(4-6) by (force simp: mutable_candidates_eq Let_def)
  moreover obtain more where "fst st = fst (mutable_candidates metas (lp_mergeable p)) @ more"
    unfolding st(1) using layers_prefix by blast
  ultimately have "(0, [sid]) \<in> set (fst st)" by simp
  moreover have "keep_candidate p (0, [sid])"
    using assms(3-5) by (simp add: keep_candidate_def)
  ultimately show ?thesis using st(2) by force
qed

text \<open>
  C23.  A policy proposes each segment at most once.  Let its mergeable segments have different ids and
  document counts that do not add up to 0 in \<open>u64\<close>.  Then every call of any sequence of calls returns, at most one of
  them proposes anything, and no segment is proposed twice in all of them together.
\<close>

theorem merge_candidates_once:
  assumes "lp_mergeable p \<noteq> []" "sum_list (map (\<lambda>(_, e). num_docs e + num_deleted_docs e) (lp_mergeable p)) \<noteq> 0"
    "distinct (map fst (lp_mergeable p))" "\<forall>metas\<in>set mss. distinct (map ism_segment_id metas)"
  shows "\<exists>css. merge_calls nd p mss = Some css \<and> length css = length mss \<and>
     length (filter (\<lambda>cs. cs \<noteq> []) css) \<le> 1 \<and> distinct (concat (concat css))"
  using merge_calls_ok [OF assms] by blast

text \<open>
  C24.  The adjusted size of a segment, computed in floating point, never exceeds its byte size (for
  sizes below \<open>2 ^ 53\<close> and a delete count within \<open>max_doc\<close>), and is the byte size exactly when
  nothing was deleted from a segment that tantivy reports as non-empty.
\<close>

theorem adjusted_le_actual:
  assumes "map_of entries (ism_segment_id m) = Some e" "unat (byte_size e) < 2 ^ 53"
    "num_deleted_docs e \<le> ucast (sme_max_doc e)"
  shows "unat (adjusted_byte_size nd entries avg m) \<le> unat (actual_byte_size nd entries avg m) \<and>
    (num_deleted_docs e = 0 \<longrightarrow> sme_max_doc e \<noteq> 0 \<longrightarrow> nd m \<noteq> 0 \<longrightarrow>
       adjusted_byte_size nd entries avg m = actual_byte_size nd entries avg m)"
proof
  show "num_deleted_docs e = 0 \<longrightarrow> sme_max_doc e \<noteq> 0 \<longrightarrow> nd m \<noteq> 0 \<longrightarrow>
       adjusted_byte_size nd entries avg m = actual_byte_size nd entries avg m"
    using adjusted_no_deletes [OF assms(1,2)] assms(1) by (simp add: actual_byte_size_def)
  show "unat (adjusted_byte_size nd entries avg m) \<le> unat (actual_byte_size nd entries avg m)"
  proof (cases "sme_max_doc e = 0")
    case True
    then have "num_docs e = 0" "num_deleted_docs e = 0" using assms(3) by (simp_all add: num_docs_def)
    then show ?thesis
      using assms(1)
      by (simp add: adjusted_byte_size_def f64_of_nat_def f64_round_def f64_div_def f64_mul_def f64_to_u64_def)
  next
    case False
    have sum: "num_docs e + num_deleted_docs e = ucast (sme_max_doc e)" by (simp add: num_docs_def)
    have pos: "0 < unat (ucast (sme_max_doc e) :: u64)" using False by (simp add: unat_u32_u64 unat_gt_0)
    have le: "unat (num_docs e) \<le> unat (ucast (sme_max_doc e) :: u64)"
      unfolding num_docs_def using assms(3) by (simp add: unat_sub)
    obtain f where f: "f64_div (f64_of_nat (unat (num_docs e))) (f64_of_nat (unat (num_docs e + num_deleted_docs e))) = FFin f"
      "0 \<le> f" "f \<le> 1"
      using f64_div_le_one [OF le pos] unfolding sum by blast
    show ?thesis
      using f64_scale_le [OF assms(2) f(2,3)] assms(1)
      by (simp add: adjusted_byte_size_def actual_byte_size_def f(1))
  qed
qed

section \<open>Witnesses\<close>

text \<open>
  Two immutable segments of 90 and 80 bytes, a frozen mutable one, and one layer of 100 bytes:
  the mutable segment is converted, the two others are merged.
\<close>

definition ex_immutable :: "segment_id \<Rightarrow> u64 \<Rightarrow> segment_meta_entry" where
  "ex_immutable sid n =
     new_immutable sid 10 0
       \<lparr>ei_postings = Some \<lparr>starting_block = 7, total_bytes = n\<rparr>, ei_positions = None,
        ei_fast_fields = None, ei_field_norms = None, ei_terms = None, ei_store = None,
        ei_temp_store = None, ei_delete = None\<rparr>"

definition ex_policy :: layered_policy where
  "ex_policy = (lp_new [100])\<lparr>lp_mergeable :=
     [(1, ex_immutable 1 90), (2, ex_immutable 2 80),
      (3, new_mutable 3 4 0 \<lparr>em_header_block = 9, em_num_deleted_docs = 1, em_frozen = True\<rparr>)]\<rparr>"

definition ex_metas :: "inner_segment_meta list" where
  "ex_metas = map (as_tantivy \<circ> snd) (lp_mergeable ex_policy)"

lemmas ex_defs = ex_policy_def ex_metas_def ex_immutable_def lp_new_def new_immutable_def new_mutable_def as_tantivy_def

lemma ex_sizes:
  "segment_size ism_max_doc ex_policy avg (as_tantivy (ex_immutable 1 90)) = 90"
  "segment_size ism_max_doc ex_policy avg (as_tantivy (ex_immutable 2 80)) = 80"
  by (simp_all add: segment_size_def adjusted_no_deletes ex_defs sme_max_doc_def sme_segment_id_def num_deleted_docs_def byte_size_def)

lemma ex_metas_eq: "ex_metas = [as_tantivy (ex_immutable 1 90), as_tantivy (ex_immutable 2 80), 
   \<lparr>ism_segment_id = 3, ism_max_doc = 3, ism_deletes = None\<rparr>]"
  by (simp add: ex_metas_def ex_policy_def lp_new_def new_mutable_def as_tantivy_def sme_segment_id_def sme_max_doc_def)

lemma ex_ids: "ism_segment_id (as_tantivy (ex_immutable i n)) = i"
  by (simp add: ex_defs sme_segment_id_def)

lemma ex_run: "compute_merge_candidates ism_max_doc ex_policy ex_metas =
    Some (ex_policy\<lparr>lp_already_processed := True\<rparr>, [[3], [1, 2]])"
proof -
  have avg: "avg_doc_size ex_policy = Some 174"
    by (simp add: avg_doc_size_def ex_defs byte_size_def num_docs_def num_deleted_docs_def sme_max_doc_def)
  have mc: "mutable_candidates ex_metas (lp_mergeable ex_policy) = ([(0, [3])], {3})"
    by (simp add: ex_metas_eq ex_ids ex_policy_def is_mutable_def ex_immutable_def new_immutable_def new_mutable_def)
  have col: "collect_mergeable_segments ism_max_doc ex_policy ex_metas {3} 174 =
      [as_tantivy (ex_immutable 1 90), as_tantivy (ex_immutable 2 80)]"
    by (simp add: collect_mergeable_segments_def ex_metas_eq ex_ids ex_sizes) (simp add: ex_policy_def)
  have act: "actual_byte_size ism_max_doc (lp_mergeable ex_policy) 174 (as_tantivy (ex_immutable 1 90)) = 90"
    "actual_byte_size ism_max_doc (lp_mergeable ex_policy) 174 (as_tantivy (ex_immutable 2 80)) = 80"
    by (simp_all add: actual_byte_size_def ex_ids) (simp_all add: ex_defs byte_size_def)
  have pl: "process_layer ism_max_doc ex_policy ex_metas 174 100 ([(0, [3])], {3}) = ([(0, [3]), (100, [1, 2])], {1, 2, 3})"
    by (auto simp: process_layer_def col ex_ids ex_sizes act)
  show ?thesis
    using avg mc pl
    by (simp add: compute_merge_candidates_def remove_short_filter)
      (simp add: ex_defs keep_candidate_def is_mutable_def)
qed

theorem merge_candidates_sound_witness:
  "compute_merge_candidates ism_max_doc ex_policy ex_metas =
     Some (ex_policy\<lparr>lp_already_processed := True\<rparr>, [[3], [1, 2]]) \<and>
   (mutable_conversion ex_policy [1, 2] \<or>
      (\<exists>avg. avg_doc_size ex_policy = Some avg \<and> layer_group ism_max_doc ex_policy avg ex_metas [1, 2]))"
proof -
  have "distinct (map fst (lp_mergeable ex_policy))" "distinct (map ism_segment_id ex_metas)"
    by (simp_all add: ex_defs sme_segment_id_def)
  with merge_candidates_sound [OF this(1,2) ex_run] show ?thesis using ex_run by auto
qed

theorem mutable_segments_converted_witness:
  "\<exists>cs. compute_merge_candidates ism_max_doc ex_policy ex_metas =
     Some (ex_policy\<lparr>lp_already_processed := True\<rparr>, cs) \<and> [3] \<in> set cs"
proof -
  have "[3] \<in> set [[3], [1, 2 :: segment_id]]"
    by (rule mutable_segments_converted [OF ex_run, of 3
        "new_mutable 3 4 0 \<lparr>em_header_block = 9, em_num_deleted_docs = 1, em_frozen = True\<rparr>"])
      (simp_all add: ex_defs is_mutable_def sme_segment_id_def)
  then show ?thesis using ex_run by blast
qed

theorem merge_candidates_once_witness:
  "\<exists>cs. merge_calls ism_max_doc ex_policy [ex_metas, ex_metas] = Some [[[3], [1, 2]], cs] \<and> cs = []"
proof -
  have "lp_mergeable ex_policy \<noteq> []" "sum_list (map (\<lambda>(_, e). num_docs e + num_deleted_docs e) (lp_mergeable ex_policy)) \<noteq> 0"
    "distinct (map fst (lp_mergeable ex_policy))" "\<forall>metas\<in>set [ex_metas, ex_metas]. distinct (map ism_segment_id metas)"
    by (simp_all add: ex_defs sme_segment_id_def num_docs_def num_deleted_docs_def sme_max_doc_def)
  from merge_candidates_once [OF this, of ism_max_doc] ex_run obtain cs where
    "merge_calls ism_max_doc ex_policy [ex_metas, ex_metas] = Some [[[3], [1, 2]], cs]" "length (filter (\<lambda>cs. cs \<noteq> []) [[[3], [1, 2 :: segment_id]], cs]) \<le> 1"
    by (auto split: bind_splits)
  then show ?thesis by (auto split: if_splits)
qed

theorem adjusted_le_actual_witness:
  "unat (adjusted_byte_size ism_max_doc [(1, ex_immutable 1 90)] 0 (as_tantivy (ex_immutable 1 90))) \<le>
   unat (actual_byte_size ism_max_doc [(1, ex_immutable 1 90)] 0 (as_tantivy (ex_immutable 1 90)))"
  using adjusted_le_actual [of "[(1, ex_immutable 1 90)]" "as_tantivy (ex_immutable 1 90)" "ex_immutable 1 90" ism_max_doc 0]
  by (simp add: ex_defs byte_size_def num_deleted_docs_def sme_segment_id_def)

end
