(* ===== verification/Avl.thy ===== *)
theory Avl
  imports Pdb_Prelude
begin

text \<open>
  The array-backed AVL tree map of \<^verbatim>\<open>pg_search/src/postgres/storage/avl.rs\<close>.  The tree and its
  free list live in one array of slots (the arena) and are linked by 16-bit indices; the free
  space manager keeps the arena on its root page.
\<close>

unbundle bit_operations_syntax

section \<open>Slots\<close>

text \<open>
  A link is an \<open>Option<NonZeroU16>\<close>: index \<open>i\<close> is stored as \<open>i + 1\<close>, truncated to 16 bits.
  The addition wraps (release builds have no overflow checks), and \<open>NonZeroU16::new\<close> of 0 is
  \<open>None\<close>.
\<close>

definition ix_some :: "nat \<Rightarrow> u16 option" where
  "ix_some i = (let w = (of_nat i :: u16) + 1 in if w = 0 then None else Some w)"

definition ix_to_usize :: "u16 option \<Rightarrow> nat option" where
  "ix_to_usize nz = map_option (\<lambda>w. unat (w - 1)) nz"

definition meta_height :: "u8 \<Rightarrow> u8" where
  "meta_height m = m AND 0x7F"

definition meta_set_used :: "u8 \<Rightarrow> bool \<Rightarrow> u8" where
  "meta_set_used m used = (m AND 0x7F) OR push_bit 7 (if used then 1 else 0)"

definition meta_is_used :: "u8 \<Rightarrow> bool" where
  "meta_is_used m \<longleftrightarrow> (m AND 0x80) \<noteq> 0"

definition meta_set_height :: "u8 \<Rightarrow> u8 \<Rightarrow> u8" where
  "meta_set_height m h = (m AND 0x80) OR (h AND 0x7F)"

record ('k, 'v, 't) slot =
  s_left :: "u16 option"
  s_right :: "u16 option"
  s_tag :: 't
  s_key :: 'k
  s_val :: 'v
  s_meta :: u8

definition slot_is_used :: "('k, 'v, 't) slot \<Rightarrow> bool" where
  "slot_is_used n = meta_is_used (s_meta n)"

definition slot_set_used :: "bool \<Rightarrow> ('k, 'v, 't) slot \<Rightarrow> ('k, 'v, 't) slot" where
  "slot_set_used u n = n\<lparr>s_meta := meta_set_used (s_meta n) u\<rparr>"

definition slot_height :: "('k, 'v, 't) slot \<Rightarrow> u8" where
  "slot_height n = meta_height (s_meta n)"

definition slot_set_height :: "u8 \<Rightarrow> ('k, 'v, 't) slot \<Rightarrow> ('k, 'v, 't) slot" where
  "slot_set_height h n = n\<lparr>s_meta := meta_set_height (s_meta n) h\<rparr>"

definition slot_l :: "('k, 'v, 't) slot \<Rightarrow> nat option" where
  "slot_l n = ix_to_usize (s_left n)"

definition slot_r :: "('k, 'v, 't) slot \<Rightarrow> nat option" where
  "slot_r n = ix_to_usize (s_right n)"

definition slot_set_l :: "nat option \<Rightarrow> ('k, 'v, 't) slot \<Rightarrow> ('k, 'v, 't) slot" where
  "slot_set_l i n = n\<lparr>s_left := Option.bind i ix_some\<rparr>"

definition slot_set_r :: "nat option \<Rightarrow> ('k, 'v, 't) slot \<Rightarrow> ('k, 'v, 't) slot" where
  "slot_set_r i n = n\<lparr>s_right := Option.bind i ix_some\<rparr>"

text \<open>\<open>Default for Slot\<close>: the key, value and tag are zeroed memory, given as arguments.\<close>

definition slot_default :: "'k \<Rightarrow> 'v \<Rightarrow> 't \<Rightarrow> ('k, 'v, 't) slot" where
  "slot_default k v t =
     \<lparr>s_left = None, s_right = None, s_tag = t, s_key = k, s_val = v, s_meta = 0\<rparr>"

section \<open>The map\<close>

datatype avl_error = Full

record avl_header =
  h_root :: "nat option"
  h_free_head :: "nat option"
  h_len :: nat

record ('k, 'v, 't) avl_map =
  header :: avl_header
  arena :: "('k, 'v, 't) slot list"

subsection \<open>The read-only view\<close>

definition avl_len :: "('k, 'v, 't) avl_map \<Rightarrow> nat" where
  "avl_len m = h_len (header m)"

definition capacity :: "('k, 'v, 't) avl_map \<Rightarrow> nat" where
  "capacity m = length (arena m)"

definition avl_is_empty :: "('k, 'v, 't) avl_map \<Rightarrow> bool" where
  "avl_is_empty m \<longleftrightarrow> h_len (header m) = 0"

partial_function (option) get_loop ::
  "('k::linorder, 'v, 't) slot list \<Rightarrow> 'k \<Rightarrow> nat option \<Rightarrow> ('v \<times> 't) option option"
where
  "get_loop ar k cur =
     (case cur of
        None \<Rightarrow> Some None
      | Some i \<Rightarrow> do {
          n \<leftarrow> get_at ar i;
          if k = s_key n then Some (Some (s_val n, s_tag n))
          else if k < s_key n then get_loop ar k (slot_l n)
          else get_loop ar k (slot_r n)
        })"

definition avl_get :: "('k::linorder, 'v, 't) avl_map \<Rightarrow> 'k \<Rightarrow> ('v \<times> 't) option option" where
  "avl_get m k = get_loop (arena m) k (h_root (header m))"

definition contains :: "('k::linorder, 'v, 't) avl_map \<Rightarrow> 'k \<Rightarrow> bool option" where
  "contains m k = map_option (\<lambda>r. r \<noteq> None) (avl_get m k)"

partial_function (option) get_lte_loop ::
  "('k::linorder, 'v, 't) slot list \<Rightarrow> 'k \<Rightarrow> nat option \<Rightarrow> nat option \<Rightarrow> ('k \<times> 'v \<times> 't) option option"
where
  "get_lte_loop ar k cur best =
     (case cur of
        None \<Rightarrow>
          (case best of
             None \<Rightarrow> Some None
           | Some i \<Rightarrow> do { n \<leftarrow> get_at ar i; Some (Some (s_key n, s_val n, s_tag n)) })
      | Some i \<Rightarrow> do {
          n \<leftarrow> get_at ar i;
          if k = s_key n then Some (Some (s_key n, s_val n, s_tag n))
          else if k < s_key n then get_lte_loop ar k (slot_l n) best
          else get_lte_loop ar k (slot_r n) (Some i)
        })"

definition get_lte ::
  "('k::linorder, 'v, 't) avl_map \<Rightarrow> 'k \<Rightarrow> ('k \<times> 'v \<times> 't) option option" where
  "get_lte m k = get_lte_loop (arena m) k (h_root (header m)) None"

text \<open>Heights are \<open>i16\<close> values in the code; they stay below 128, so \<open>int\<close> is exact here.\<close>

definition height_ix :: "('k, 'v, 't) slot list \<Rightarrow> nat option \<Rightarrow> int option" where
  "height_ix ar i =
     (case i of None \<Rightarrow> Some 0
      | Some ix \<Rightarrow> do { n \<leftarrow> get_at ar ix; Some (uint (slot_height n)) })"

definition balance_factor :: "('k, 'v, 't) slot list \<Rightarrow> nat \<Rightarrow> int option" where
  "balance_factor ar i = do {
     n \<leftarrow> get_at ar i;
     lh \<leftarrow> height_ix ar (slot_l n);
     rh \<leftarrow> height_ix ar (slot_r n);
     Some (lh - rh)
   }"

partial_function (option) min_index :: "('k, 'v, 't) slot list \<Rightarrow> nat \<Rightarrow> nat option" where
  "min_index ar i = do {
     n \<leftarrow> get_at ar i;
     (case slot_l n of None \<Rightarrow> Some i | Some l \<Rightarrow> min_index ar l)
   }"

subsection \<open>Initialisation, rotations and rebalancing\<close>

text \<open>
  \<open>AvlTreeMap::new\<close> walks the arena from the last slot down, marking each slot free and
  pushing it on the free list; \<open>init_slots n ar fh\<close> handles the slots \<open>n - 1, \<dots>, 0\<close>.
\<close>

fun init_slots ::
  "nat \<Rightarrow> ('k, 'v, 't) slot list \<Rightarrow> nat option \<Rightarrow> ('k, 'v, 't) slot list \<times> nat option" where
  "init_slots 0 ar fh = (ar, fh)"
| "init_slots (Suc i) ar fh =
     init_slots i
       (ar[i := slot_set_l fh (slot_set_r None (slot_set_height 0 (slot_set_used False (ar ! i))))])
       (Some i)"

definition avl_new :: "('k, 'v, 't) slot list \<Rightarrow> ('k, 'v, 't) avl_map" where
  "avl_new ar =
     (let (ar', fh) = init_slots (length ar) ar None
      in \<lparr>header = \<lparr>h_root = None, h_free_head = fh, h_len = 0\<rparr>, arena = ar'\<rparr>)"

definition update_height :: "('k, 'v, 't) slot list \<Rightarrow> nat \<Rightarrow> ('k, 'v, 't) slot list option" where
  "update_height ar i = do {
     n \<leftarrow> get_at ar i;
     lh \<leftarrow> height_ix ar (slot_l n);
     rh \<leftarrow> height_ix ar (slot_r n);
     modify_at ar i (slot_set_height (word_of_int (1 + max lh rh)))
   }"

definition rotate_right ::
  "('k, 'v, 't) slot list \<Rightarrow> nat \<Rightarrow> (('k, 'v, 't) slot list \<times> nat) option" where
  "rotate_right ar y = do {
     ny \<leftarrow> get_at ar y;
     x \<leftarrow> slot_l ny;
     nx \<leftarrow> get_at ar x;
     let t2 = slot_r nx;
     ar \<leftarrow> modify_at ar x (slot_set_r (Some y));
     ar \<leftarrow> modify_at ar y (slot_set_l t2);
     ar \<leftarrow> update_height ar y;
     ar \<leftarrow> update_height ar x;
     Some (ar, x)
   }"

definition rotate_left ::
  "('k, 'v, 't) slot list \<Rightarrow> nat \<Rightarrow> (('k, 'v, 't) slot list \<times> nat) option" where
  "rotate_left ar x = do {
     nx \<leftarrow> get_at ar x;
     y \<leftarrow> slot_r nx;
     ny \<leftarrow> get_at ar y;
     let t2 = slot_l ny;
     ar \<leftarrow> modify_at ar y (slot_set_l (Some x));
     ar \<leftarrow> modify_at ar x (slot_set_r t2);
     ar \<leftarrow> update_height ar x;
     ar \<leftarrow> update_height ar y;
     Some (ar, y)
   }"

definition rebalance ::
  "('k, 'v, 't) slot list \<Rightarrow> nat \<Rightarrow> (('k, 'v, 't) slot list \<times> nat) option" where
  "rebalance ar i = do {
     ar \<leftarrow> update_height ar i;
     bf \<leftarrow> balance_factor ar i;
     if bf > 1 then do {
       n \<leftarrow> get_at ar i;
       l \<leftarrow> slot_l n;
       lbf \<leftarrow> balance_factor ar l;
       ar \<leftarrow> (if lbf < 0
              then do { (ar, nl) \<leftarrow> rotate_left ar l; modify_at ar i (slot_set_l (Some nl)) }
              else Some ar);
       rotate_right ar i
     }
     else if bf < -1 then do {
       n \<leftarrow> get_at ar i;
       r \<leftarrow> slot_r n;
       rbf \<leftarrow> balance_factor ar r;
       ar \<leftarrow> (if rbf > 0
              then do { (ar, nr) \<leftarrow> rotate_right ar r; modify_at ar i (slot_set_r (Some nr)) }
              else Some ar);
       rotate_left ar i
     }
     else Some (ar, i)
   }"

subsection \<open>The free list\<close>

definition alloc_slot ::
  "('k, 'v, 't) avl_map \<Rightarrow> 'k \<Rightarrow> 'v option \<Rightarrow> (('k, 'v, 't) avl_map \<times> (avl_error + nat)) option"
where
  "alloc_slot m k v =
     (case h_free_head (header m) of
        None \<Rightarrow> Some (m, Inl Full)
      | Some idx \<Rightarrow> do {
          n \<leftarrow> get_at (arena m) idx;
          let n1 = n\<lparr>s_key := k\<rparr>;
          let n2 = (case v of None \<Rightarrow> n1 | Some v' \<Rightarrow> n1\<lparr>s_val := v'\<rparr>);
          let n3 = slot_set_used True (slot_set_height 1 (slot_set_r None (slot_set_l None n2)));
          Some (m\<lparr>header := (header m)\<lparr>h_free_head := slot_l n\<rparr>,
                  arena := (arena m)[idx := n3]\<rparr>, Inr idx)
        })"

definition free_slot :: "('k, 'v, 't) avl_map \<Rightarrow> nat \<Rightarrow> ('k, 'v, 't) avl_map option" where
  "free_slot m idx = do {
     ar \<leftarrow> modify_at (arena m) idx
            (\<lambda>n. slot_set_l (h_free_head (header m))
                   (slot_set_r None (slot_set_height 0 (slot_set_used False n))));
     Some (m\<lparr>header := (header m)\<lparr>h_free_head := Some idx\<rparr>, arena := ar\<rparr>)
   }"

subsection \<open>Insertion\<close>

text \<open>The four \<open>&mut\<close> out-parameters of \<open>insert_rec\<close>.\<close>

record ('v, 't) insert_out =
  out_old :: "'v option"
  out_tag :: "'t option"
  inserted_new :: bool
  occupied_at :: nat

partial_function (option) insert_rec ::
  "('k::linorder, 'v, 't) avl_map \<Rightarrow> nat option \<Rightarrow> 'k \<Rightarrow> 'v option \<Rightarrow> ('v, 't) insert_out \<Rightarrow>
   (('k, 'v, 't) avl_map \<times> ('v, 't) insert_out \<times> (avl_error + nat option)) option"
where
  "insert_rec m root k v out =
     (case root of
        None \<Rightarrow> do {
          (m, res) \<leftarrow> alloc_slot m k v;
          (case res of
             Inl e \<Rightarrow> Some (m, out\<lparr>inserted_new := True\<rparr>, Inl e)
           | Inr slot \<Rightarrow> do {
               n \<leftarrow> get_at (arena m) slot;
               Some (m, out\<lparr>inserted_new := True, out_tag := Some (s_tag n), occupied_at := slot\<rparr>,
                     Inr (Some slot))
             })
        }
      | Some i \<Rightarrow> do {
          n \<leftarrow> get_at (arena m) i;
          if k = s_key n then do {
            ar \<leftarrow> modify_at (arena m) i (\<lambda>n. case v of None \<Rightarrow> n | Some v' \<Rightarrow> n\<lparr>s_val := v'\<rparr>);
            Some (m\<lparr>arena := ar\<rparr>,
                  out\<lparr>out_old := Some (s_val n), out_tag := Some (s_tag n), occupied_at := i\<rparr>,
                  Inr (Some i))
          }
          else if k < s_key n then do {
            (m, out, res) \<leftarrow> insert_rec m (slot_l n) k v out;
            (case res of
               Inl e \<Rightarrow> Some (m, out, Inl e)
             | Inr left \<Rightarrow> do {
                 ar \<leftarrow> modify_at (arena m) i (slot_set_l left);
                 (ar, new_i) \<leftarrow> rebalance ar i;
                 Some (m\<lparr>arena := ar\<rparr>, out, Inr (Some new_i))
               })
          }
          else do {
            (m, out, res) \<leftarrow> insert_rec m (slot_r n) k v out;
            (case res of
               Inl e \<Rightarrow> Some (m, out, Inl e)
             | Inr right \<Rightarrow> do {
                 ar \<leftarrow> modify_at (arena m) i (slot_set_r right);
                 (ar, new_i) \<leftarrow> rebalance ar i;
                 Some (m\<lparr>arena := ar\<rparr>, out, Inr (Some new_i))
               })
          }
        })"

definition insert_out_init :: "('v, 't) insert_out" where
  "insert_out_init = \<lparr>out_old = None, out_tag = None, inserted_new = False, occupied_at = 0\<rparr>"

definition avl_insert ::
  "('k::linorder, 'v, 't) avl_map \<Rightarrow> 'k \<Rightarrow> 'v \<Rightarrow>
   (('k, 'v, 't) avl_map \<times> (avl_error + 'v option \<times> 't)) option"
where
  "avl_insert m k v = do {
     (m, out, res) \<leftarrow> insert_rec m (h_root (header m)) k (Some v) insert_out_init;
     (case res of
        Inl e \<Rightarrow> Some (m, Inl e)
      | Inr root \<Rightarrow> do {
          let m = m\<lparr>header := (header m)\<lparr>h_root := root\<rparr>\<rparr>;
          let m = (if inserted_new out
                   then m\<lparr>header := (header m)\<lparr>h_len := h_len (header m) + 1\<rparr>\<rparr> else m);
          tag \<leftarrow> out_tag out;
          Some (m, Inr (out_old out, tag))
        })
   }"

subsection \<open>Removal\<close>

text \<open>
  The out-parameters \<open>removed_val\<close> and \<open>did_remove\<close> are threaded as a pair.  The inner call
  that deletes the successor gets fresh ones, which are dropped.
\<close>

partial_function (option) delete_rec ::
  "('k::linorder, 'v, 't) avl_map \<Rightarrow> nat option \<Rightarrow> 'k \<Rightarrow> 'v option \<times> bool \<Rightarrow>
   (('k, 'v, 't) avl_map \<times> ('v option \<times> bool) \<times> nat option) option"
where
  "delete_rec m root k out =
     (case root of
        None \<Rightarrow> Some (m, out, None)
      | Some i \<Rightarrow> do {
          n \<leftarrow> get_at (arena m) i;
          if k < s_key n then do {
            (m, out, left) \<leftarrow> delete_rec m (slot_l n) k out;
            ar \<leftarrow> modify_at (arena m) i (slot_set_l left);
            (ar, new_i) \<leftarrow> rebalance ar i;
            Some (m\<lparr>arena := ar\<rparr>, out, Some new_i)
          }
          else if s_key n < k then do {
            (m, out, right) \<leftarrow> delete_rec m (slot_r n) k out;
            ar \<leftarrow> modify_at (arena m) i (slot_set_r right);
            (ar, new_i) \<leftarrow> rebalance ar i;
            Some (m\<lparr>arena := ar\<rparr>, out, Some new_i)
          }
          else
            (case (slot_l n, slot_r n) of
               (None, None) \<Rightarrow> do {
                 m \<leftarrow> free_slot m i;
                 Some (m, (Some (s_val n), True), None)
               }
             | (Some c, None) \<Rightarrow> do {
                 m \<leftarrow> free_slot m i;
                 Some (m, (Some (s_val n), True), Some c)
               }
             | (None, Some c) \<Rightarrow> do {
                 m \<leftarrow> free_slot m i;
                 Some (m, (Some (s_val n), True), Some c)
               }
             | (Some _, Some r) \<Rightarrow> do {
                 succ \<leftarrow> min_index (arena m) r;
                 s \<leftarrow> get_at (arena m) succ;
                 ar \<leftarrow> modify_at (arena m) i
                        (\<lambda>n. n\<lparr>s_key := s_key s, s_val := s_val s, s_tag := s_tag s\<rparr>);
                 ar \<leftarrow> modify_at ar succ (\<lambda>x. x\<lparr>s_tag := s_tag n\<rparr>);
                 n' \<leftarrow> get_at ar i;
                 (m, ignored, right) \<leftarrow> delete_rec (m\<lparr>arena := ar\<rparr>) (slot_r n') (s_key s) (None, False);
                 ar \<leftarrow> modify_at (arena m) i (slot_set_r right);
                 (ar, new_i) \<leftarrow> rebalance ar i;
                 Some (m\<lparr>arena := ar\<rparr>, (Some (s_val n), True), Some new_i)
               })
        })"

definition avl_remove ::
  "('k::linorder, 'v, 't) avl_map \<Rightarrow> 'k \<Rightarrow> (('k, 'v, 't) avl_map \<times> 'v option) option" where
  "avl_remove m k = do {
     (m, (removed_val, did_remove), root) \<leftarrow> delete_rec m (h_root (header m)) k (None, False);
     let m = m\<lparr>header := (header m)\<lparr>h_root := root\<rparr>\<rparr>;
     let m = (if did_remove
              then m\<lparr>header := (header m)\<lparr>h_len := h_len (header m) - 1\<rparr>\<rparr> else m);
     Some (m, removed_val)
   }"

subsection \<open>Slots handed out for mutation\<close>

text \<open>
  \<open>get_slot_mut\<close> and \<open>get_max_slot\<close> return \<open>&mut Slot\<close>; the model returns the slot's index in
  the arena, through which the caller writes.
\<close>

partial_function (option) slot_mut_loop ::
  "('k::linorder, 'v, 't) slot list \<Rightarrow> 'k \<Rightarrow> nat option \<Rightarrow> nat option option"
where
  "slot_mut_loop ar k cur =
     (case cur of
        None \<Rightarrow> Some None
      | Some i \<Rightarrow> do {
          n \<leftarrow> get_at ar i;
          if k = s_key n then Some (Some i)
          else if k < s_key n then slot_mut_loop ar k (slot_l n)
          else slot_mut_loop ar k (slot_r n)
        })"

definition get_slot_mut :: "('k::linorder, 'v, 't) avl_map \<Rightarrow> 'k \<Rightarrow> nat option option" where
  "get_slot_mut m k = slot_mut_loop (arena m) k (h_root (header m))"

partial_function (option) max_slot_loop ::
  "('k, 'v, 't) slot list \<Rightarrow> nat option \<Rightarrow> nat option \<Rightarrow> nat option option"
where
  "max_slot_loop ar cur mx =
     (case cur of
        None \<Rightarrow> Some mx
      | Some i \<Rightarrow> do { n \<leftarrow> get_at ar i; max_slot_loop ar (slot_r n) (Some i) })"

definition get_max_slot :: "('k, 'v, 't) avl_map \<Rightarrow> nat option option" where
  "get_max_slot m = max_slot_loop (arena m) (h_root (header m)) None"

subsection \<open>In-order iteration\<close>

definition MAX_HEIGHT :: nat where "MAX_HEIGHT = 128"

record avl_iter =
  it_stack :: "nat list"
  it_sp :: nat
  it_cursor :: "nat option"

definition avl_iter :: "('k, 'v, 't) avl_map \<Rightarrow> avl_iter" where
  "avl_iter m = \<lparr>it_stack = replicate MAX_HEIGHT 0, it_sp = 0, it_cursor = h_root (header m)\<rparr>"

partial_function (option) push_left_chain ::
  "('k, 'v, 't) slot list \<Rightarrow> avl_iter \<Rightarrow> avl_iter option"
where
  "push_left_chain ar it =
     (case it_cursor it of
        None \<Rightarrow> Some it
      | Some i \<Rightarrow> do {
          st \<leftarrow> modify_at (it_stack it) (it_sp it) (\<lambda>_. i);
          n \<leftarrow> get_at ar i;
          push_left_chain ar (it\<lparr>it_stack := st, it_sp := it_sp it + 1, it_cursor := slot_l n\<rparr>)
        })"

definition iter_next ::
  "('k, 'v, 't) slot list \<Rightarrow> avl_iter \<Rightarrow> (avl_iter \<times> ('k \<times> 'v) option) option" where
  "iter_next ar it = do {
     it \<leftarrow> push_left_chain ar it;
     if it_sp it = 0 then Some (it, None)
     else do {
       let sp = it_sp it - 1;
       i \<leftarrow> get_at (it_stack it) sp;
       n \<leftarrow> get_at ar i;
       Some (it\<lparr>it_sp := sp, it_cursor := slot_r n\<rparr>, Some (s_key n, s_val n))
     }
   }"

text \<open>Consuming the iterator: \<open>next\<close> is called until it yields \<open>None\<close>.\<close>

partial_function (option) iter_collect ::
  "('k, 'v, 't) slot list \<Rightarrow> avl_iter \<Rightarrow> ('k \<times> 'v) list option"
where
  "iter_collect ar it = do {
     (it, x) \<leftarrow> iter_next ar it;
     (case x of
        None \<Rightarrow> Some []
      | Some kv \<Rightarrow> do { rest \<leftarrow> iter_collect ar it; Some (kv # rest) })
   }"

subsection \<open>The debug-build self check\<close>

text \<open>
  \<open>assert_ok\<close> and its inner \<open>dfs\<close>: a failed assertion is \<open>None\<close>.  Heights are \<open>i8\<close> there; the
  cast of the stored 7-bit height is exact.
\<close>

partial_function (option) assert_dfs ::
  "('k::linorder, 'v, 't) slot list \<Rightarrow> nat option \<Rightarrow> (int \<times> 'k \<times> 'k) option"
where
  "assert_dfs ar i = do {
     ix \<leftarrow> i;
     n \<leftarrow> get_at ar ix;
     (lh, lmin, lmax) \<leftarrow>
       (case slot_l n of
          Some li \<Rightarrow> do {
            (h, min_k, max_k) \<leftarrow> assert_dfs ar (Some li);
            if max_k \<le> s_key n then Some (h, min_k, max_k) else None
          }
        | None \<Rightarrow> Some (0, s_key n, s_key n));
     (rh, rmin, rmax) \<leftarrow>
       (case slot_r n of
          Some ri \<Rightarrow> do {
            (h, min_k, max_k) \<leftarrow> assert_dfs ar (Some ri);
            if s_key n \<le> min_k then Some (h, min_k, max_k) else None
          }
        | None \<Rightarrow> Some (0, s_key n, s_key n));
     let h = 1 + max lh rh;
     if uint (slot_height n) = h \<and> abs (lh - rh) \<le> 1
     then Some (h, min (min lmin (s_key n)) rmin, max (max rmax (s_key n)) lmax)
     else None
   }"

definition assert_ok :: "('k::linorder, 'v, 't) avl_map \<Rightarrow> unit option" where
  "assert_ok m = do {
     (case h_root (header m) of
        None \<Rightarrow> Some ()
      | Some r \<Rightarrow> do { _ \<leftarrow> assert_dfs (arena m) (Some r); Some () });
     if avl_len m \<le> capacity m then Some () else None
   }"

text \<open>The partial functions compute by their defining equations.\<close>

lemmas [code] =
  get_loop.simps get_lte_loop.simps min_index.simps insert_rec.simps delete_rec.simps
  slot_mut_loop.simps max_slot_loop.simps push_left_chain.simps iter_collect.simps
  assert_dfs.simps

end
