(* ===== verification/Avl_Tree.thy ===== *)
theory Avl_Tree
  imports Avl "HOL-Library.Tree" "HOL-Library.Multiset"
begin

unbundle bit_operations_syntax

text \<open>
  The arena as a tree.  \<open>repr ar p t\<close> says that the link \<open>p\<close> leads to the tree \<open>t\<close> of slot
  indices; \<open>hts\<close> says that the stored heights are the real ones.  The rotations and the
  rebalancing step are shown to do on the arena what they do on the tree.
\<close>

section \<open>Slot fields\<close>

named_theorems slot_simps "reading a slot field after a write"

text \<open>The two masks, bit by bit.\<close>

lemma bit_masks: "bit (0x7F :: u8) n \<longleftrightarrow> n < 7" "bit (0x80 :: u8) n \<longleftrightarrow> n = 7"
proof -
  have m: "(0x7F :: u8) = mask 7" "(0x80 :: u8) = push_bit 7 1"
    by (simp_all add: mask_eq_exp_minus_1 push_bit_eq_mult)
  show "bit (0x7F :: u8) n \<longleftrightarrow> n < 7"
    unfolding m by (simp only: bit_mask_iff possible_bit_word) auto
  show "bit (0x80 :: u8) n \<longleftrightarrow> n = 7"
    unfolding m by (simp only: bit_push_bit_iff possible_bit_word bit_1_iff) auto
qed

lemmas mask_bits = bit_masks bit_and_iff bit_or_iff bit_push_bit_iff

lemma meta_height_set_used [slot_simps]: "meta_height (meta_set_used m u) = meta_height m"
  unfolding meta_height_def meta_set_used_def
  by (rule bit_word_eqI) (auto simp only: mask_bits)

lemma meta_height_set_height [slot_simps]: "meta_height (meta_set_height m h) = h AND 0x7F"
  unfolding meta_height_def meta_set_height_def
  by (rule bit_word_eqI) (auto simp only: mask_bits)

lemma meta_is_used_iff: "meta_is_used m \<longleftrightarrow> bit m 7"
proof -
  have "(m AND 0x80 = 0) \<longleftrightarrow> (\<forall>n < 8. \<not> (bit m n \<and> n = 7))"
    by (simp only: bit_eq_iff [of "m AND 0x80" 0] possible_bit_word mask_bits bit_0_eq bot_apply
        bot_bool_def) simp
  then show ?thesis by (simp add: meta_is_used_def)
qed

lemma meta_is_used_set_used [slot_simps]: "meta_is_used (meta_set_used m u) = u"
  unfolding meta_is_used_iff meta_set_used_def mask_bits by (simp add: possible_bit_word)

lemma meta_is_used_set_height [slot_simps]: "meta_is_used (meta_set_height m h) = meta_is_used m"
  unfolding meta_is_used_iff meta_set_height_def mask_bits by simp

lemma meta_height_zero [slot_simps]: "meta_height 0 = 0"
  by (simp add: meta_height_def)

lemma meta_is_used_zero [slot_simps]: "\<not> meta_is_used 0"
  by (simp add: meta_is_used_def)

text \<open>Links: an index below 65535 survives the 16-bit encoding.\<close>

lemma ix_roundtrip: "i < 65535 \<Longrightarrow> ix_to_usize (ix_some i) = Some i"
proof -
  assume i: "i < 65535"
  have u: "unat ((of_nat i :: u16) + 1) = i + 1"
    using i by (simp add: unat_word_ariths unat_of_nat)
  then have nz: "(of_nat i :: u16) + 1 \<noteq> 0"
    by (metis Suc_eq_plus1 nat.distinct(1) unat_0)
  have "unat (of_nat i :: u16) = i"
    using i by (simp add: unat_of_nat)
  with nz show ?thesis
    by (simp add: ix_some_def ix_to_usize_def Let_def)
qed

definition link_ok :: "nat option \<Rightarrow> bool" where
  "link_ok p \<longleftrightarrow> (\<forall>i. p = Some i \<longrightarrow> i < 65535)"

lemma link_ok_simps [simp]: "link_ok None" "link_ok (Some i) \<longleftrightarrow> i < 65535"
  by (auto simp: link_ok_def)

lemma link_roundtrip: "link_ok p \<Longrightarrow> ix_to_usize (Option.bind p ix_some) = p"
proof (cases p)
  case None
  then show ?thesis by (simp add: ix_to_usize_def)
next
  case (Some i)
  then show "link_ok p \<Longrightarrow> ?thesis" using ix_roundtrip [of i] by simp
qed

lemma slot_l_set_l [slot_simps]: "link_ok p \<Longrightarrow> slot_l (slot_set_l p n) = p"
  by (simp add: slot_l_def slot_set_l_def link_roundtrip)

lemma slot_r_set_r [slot_simps]: "link_ok p \<Longrightarrow> slot_r (slot_set_r p n) = p"
  by (simp add: slot_r_def slot_set_r_def link_roundtrip)

lemma slot_other [slot_simps]:
  "slot_l (slot_set_r p n) = slot_l n" "slot_r (slot_set_l p n) = slot_r n"
  "slot_l (slot_set_height h n) = slot_l n" "slot_r (slot_set_height h n) = slot_r n"
  "slot_l (slot_set_used u n) = slot_l n" "slot_r (slot_set_used u n) = slot_r n"
  "slot_height (slot_set_l p n) = slot_height n" "slot_height (slot_set_r p n) = slot_height n"
  "slot_height (slot_set_used u n) = slot_height n"
  "slot_height (slot_set_height h n) = h AND 0x7F"
  "slot_is_used (slot_set_used u n) = u" "slot_is_used (slot_set_height h n) = slot_is_used n"
  "slot_is_used (slot_set_l p n) = slot_is_used n" "slot_is_used (slot_set_r p n) = slot_is_used n"
  by (simp_all add: slot_l_def slot_r_def slot_set_l_def slot_set_r_def slot_height_def
      slot_set_height_def slot_set_used_def slot_is_used_def slot_simps)

lemma slot_content [slot_simps]:
  "s_key (slot_set_l p n) = s_key n" "s_val (slot_set_l p n) = s_val n"
  "s_tag (slot_set_l p n) = s_tag n" "s_key (slot_set_r p n) = s_key n"
  "s_val (slot_set_r p n) = s_val n" "s_tag (slot_set_r p n) = s_tag n"
  "s_key (slot_set_height h n) = s_key n" "s_val (slot_set_height h n) = s_val n"
  "s_tag (slot_set_height h n) = s_tag n" "s_key (slot_set_used u n) = s_key n"
  "s_val (slot_set_used u n) = s_val n" "s_tag (slot_set_used u n) = s_tag n"
  by (simp_all add: slot_set_l_def slot_set_r_def slot_set_height_def slot_set_used_def)

lemma slot_update_content [slot_simps]:
  "slot_l (n\<lparr>s_key := k\<rparr>) = slot_l n" "slot_r (n\<lparr>s_key := k\<rparr>) = slot_r n"
  "slot_height (n\<lparr>s_key := k\<rparr>) = slot_height n" "slot_is_used (n\<lparr>s_key := k\<rparr>) = slot_is_used n"
  "slot_l (n\<lparr>s_val := v\<rparr>) = slot_l n" "slot_r (n\<lparr>s_val := v\<rparr>) = slot_r n"
  "slot_height (n\<lparr>s_val := v\<rparr>) = slot_height n" "slot_is_used (n\<lparr>s_val := v\<rparr>) = slot_is_used n"
  "slot_l (n\<lparr>s_tag := t\<rparr>) = slot_l n" "slot_r (n\<lparr>s_tag := t\<rparr>) = slot_r n"
  "slot_height (n\<lparr>s_tag := t\<rparr>) = slot_height n" "slot_is_used (n\<lparr>s_tag := t\<rparr>) = slot_is_used n"
  by (simp_all add: slot_l_def slot_r_def slot_height_def slot_is_used_def)

text \<open>A height below 128 survives the 7-bit field.\<close>

lemma uint_height_field: "h < 128 \<Longrightarrow> uint ((word_of_int (int h) :: u8) AND 0x7F) = int h"
proof -
  assume h: "h < 128"
  have "(word_of_int (int h) :: u8) AND 0x7F = take_bit 7 (word_of_int (int h))"
    by (simp add: take_bit_eq_mask mask_eq_exp_minus_1)
  also have "uint \<dots> = int h"
    using h by (simp only: unsigned_take_bit_eq) (simp add: take_bit_eq_mod unsigned_of_nat)
  finally show ?thesis .
qed

section \<open>The arena as a tree of indices\<close>

text \<open>What a slot holds besides its links and its height.\<close>

definition payload :: "('k, 'v, 't) slot \<Rightarrow> 'k \<times> 'v \<times> 't \<times> bool" where
  "payload n = (s_key n, s_val n, s_tag n, slot_is_used n)"

definition same_payload :: "('k, 'v, 't) slot list \<Rightarrow> ('k, 'v, 't) slot list \<Rightarrow> bool" where
  "same_payload ar ar' \<longleftrightarrow> map payload ar' = map payload ar"

text \<open>Two arenas agree on a set of slots.\<close>

definition agree :: "nat set \<Rightarrow> ('k, 'v, 't) slot list \<Rightarrow> ('k, 'v, 't) slot list \<Rightarrow> bool" where
  "agree S ar ar' \<longleftrightarrow> length ar' = length ar \<and> (\<forall>i\<in>S. ar' ! i = ar ! i)"

lemma agree_refl [simp]: "agree S ar ar"
  by (simp add: agree_def)

lemma agree_trans: "agree S a b \<Longrightarrow> agree S b c \<Longrightarrow> agree S a c"
  by (simp add: agree_def)

lemma agree_mono: "agree S a b \<Longrightarrow> T \<subseteq> S \<Longrightarrow> agree T a b"
  by (auto simp: agree_def)

lemma agree_update: "i \<notin> S \<Longrightarrow> agree S ar (ar[i := x])"
  by (metis agree_def length_list_update nth_list_update_neq)

lemma same_payload_refl [simp]: "same_payload ar ar"
  by (simp add: same_payload_def)

lemma same_payload_trans: "same_payload a b \<Longrightarrow> same_payload b c \<Longrightarrow> same_payload a c"
  by (simp add: same_payload_def)

lemma same_payload_update:
  "payload x = payload (ar ! i) \<Longrightarrow> same_payload ar (ar[i := x])"
  by (metis list_update_id map_update same_payload_def)

lemma payload_links [slot_simps]:
  "payload (slot_set_l p n) = payload n" "payload (slot_set_r p n) = payload n"
  "payload (slot_set_height h n) = payload n"
  by (simp_all add: payload_def slot_simps)

fun repr :: "('k, 'v, 't) slot list \<Rightarrow> nat option \<Rightarrow> nat tree \<Rightarrow> bool" where
  "repr ar p \<langle>\<rangle> \<longleftrightarrow> p = None"
| "repr ar p \<langle>l, i, r\<rangle> \<longleftrightarrow>
     p = Some i \<and> i < length ar \<and> repr ar (slot_l (ar ! i)) l \<and> repr ar (slot_r (ar ! i)) r"

fun hts :: "('k, 'v, 't) slot list \<Rightarrow> nat tree \<Rightarrow> bool" where
  "hts ar \<langle>\<rangle> \<longleftrightarrow> True"
| "hts ar \<langle>l, i, r\<rangle> \<longleftrightarrow>
     uint (slot_height (ar ! i)) = int (max (height l) (height r) + 1) \<and> hts ar l \<and> hts ar r"

fun avl :: "'a tree \<Rightarrow> bool" where
  "avl \<langle>\<rangle> \<longleftrightarrow> True"
| "avl \<langle>l, a, r\<rangle> \<longleftrightarrow> height l \<le> height r + 1 \<and> height r \<le> height l + 1 \<and> avl l \<and> avl r"

lemma repr_agree: "agree S ar ar' \<Longrightarrow> set_tree t \<subseteq> S \<Longrightarrow> repr ar' p t = repr ar p t"
  by (induction t arbitrary: p) (auto simp: agree_def)

lemma hts_agree: "agree S ar ar' \<Longrightarrow> set_tree t \<subseteq> S \<Longrightarrow> hts ar' t = hts ar t"
  by (induction t) (auto simp: agree_def)

lemma repr_bound: "repr ar p t \<Longrightarrow> set_tree t \<subseteq> {..<length ar}"
  by (induction t arbitrary: p) auto

lemma repr_root: "repr ar p t \<Longrightarrow> p = (case t of \<langle>\<rangle> \<Rightarrow> None | \<langle>l, i, r\<rangle> \<Rightarrow> Some i)"
  by (cases t) auto

lemma repr_link_ok: "repr ar p t \<Longrightarrow> length ar \<le> 65535 \<Longrightarrow> link_ok p"
  by (cases t) auto

lemma repr_unique: "repr ar p t \<Longrightarrow> repr ar p t' \<Longrightarrow> t = t'"
proof (induction t arbitrary: p t')
  case Leaf
  then show ?case by (cases t') auto
next
  case (Node l i r)
  then show ?case by (cases t') auto
qed

lemma height_ix_repr: "repr ar p t \<Longrightarrow> hts ar t \<Longrightarrow> height_ix ar p = Some (int (height t))"
  by (cases t) (auto simp: height_ix_def)

lemma balance_factor_repr:
  "repr ar (Some i) \<langle>l, i, r\<rangle> \<Longrightarrow> hts ar l \<Longrightarrow> hts ar r \<Longrightarrow>
   balance_factor ar i = Some (int (height l) - int (height r))"
  by (auto simp: balance_factor_def height_ix_repr)

section \<open>Rotations and rebalancing\<close>

text \<open>
  Heights in a well-formed arena stay far below 128 (lemma \<open>avl_height_bound\<close> below); the
  lemmas of this section only need that the heights involved fit the 7-bit field.
\<close>

lemma update_height_repr:
  assumes "repr ar (Some i) \<langle>l, i, r\<rangle>" "hts ar l" "hts ar r" "i \<notin> set_tree l \<union> set_tree r"
    and "height l < 127" "height r < 127"
  obtains ar' where "update_height ar i = Some ar'"
    "repr ar' (Some i) \<langle>l, i, r\<rangle>" "hts ar' \<langle>l, i, r\<rangle>" "same_payload ar ar'" "agree (- {i}) ar ar'"
proof -
  define h where "h = max (height l) (height r) + 1"
  define w :: u8 where "w = word_of_int (int h)"
  let ?ar = "ar[i := slot_set_height w (ar ! i)]"
  have i: "i < length ar" using assms(1) by simp
  have "update_height ar i =
      modify_at ar i (slot_set_height (word_of_int (1 + max (int (height l)) (int (height r)))))"
    using assms by (auto simp: update_height_def height_ix_repr)
  moreover have "1 + max (int (height l)) (int (height r)) = int h" by (simp add: h_def)
  ultimately have u: "update_height ar i = Some ?ar"
    by (simp only: w_def modify_at_in [OF i])
  have ag: "agree (- {i}) ar ?ar" by (rule agree_update) simp
  have sub: "set_tree l \<subseteq> - {i}" "set_tree r \<subseteq> - {i}" using assms(4) by auto
  have "repr ?ar (Some i) \<langle>l, i, r\<rangle>"
    using assms(1) i by (simp add: slot_simps repr_agree [OF ag sub(1)] repr_agree [OF ag sub(2)])
  moreover have "hts ?ar \<langle>l, i, r\<rangle>"
    using assms(2,3,5,6) i uint_height_field [of h, folded w_def]
    by (simp add: slot_simps hts_agree [OF ag sub(1)] hts_agree [OF ag sub(2)] h_def)
  moreover have "same_payload ar ?ar"
    by (rule same_payload_update) (simp add: slot_simps)
  ultimately show thesis using that [OF u] ag by blast
qed



text \<open>
  The common part of the two rotations: two links change, then the heights of the lower node
  \<open>d\<close> and of the new top \<open>u\<close> are recomputed.  The tree \<open>other\<close> is the subtree of \<open>u\<close> that does not
  move.
\<close>

lemma relink_heights:
  assumes low: "repr ar2 (Some d) \<langle>l, d, r\<rangle>" "hts ar2 l" "hts ar2 r"
    and top: "repr ar2 (Some u) t" "t = \<langle>other, u, \<langle>l, d, r\<rangle>\<rangle> \<or> t = \<langle>\<langle>l, d, r\<rangle>, u, other\<rangle>"
    and hto: "hts ar2 other" and dist: "distinct (inorder t)"
    and hb: "height l < 126" "height r < 126" "height other < 126"
  obtains ar3 ar4 where "update_height ar2 d = Some ar3" "update_height ar3 u = Some ar4"
    "repr ar4 (Some u) t" "hts ar4 t" "same_payload ar2 ar4" "agree (- {u, d}) ar2 ar4"
proof -
  have ddist: "d \<notin> set_tree l \<union> set_tree r" and do: "set_tree other \<subseteq> - {d}" and ud: "u \<noteq> d"
    and udist: "u \<notin> set_tree other \<union> set_tree \<langle>l, d, r\<rangle>"
    using top(2) dist by auto
  have hb': "height l < 127" "height r < 127" "height other < 127" "height \<langle>l, d, r\<rangle> < 127"
    using hb by auto
  obtain ar3 where u3: "update_height ar2 d = Some ar3"
    and r3: "repr ar3 (Some d) \<langle>l, d, r\<rangle>" and h3: "hts ar3 \<langle>l, d, r\<rangle>"
    and s3: "same_payload ar2 ar3" and ag3: "agree (- {d}) ar2 ar3"
    by (rule update_height_repr [OF low ddist hb'(1,2)])
  have x3: "ar3 ! u = ar2 ! u" "length ar3 = length ar2" using ag3 ud by (auto simp: agree_def)
  have ho3: "hts ar3 other" using hto hts_agree [OF ag3 do] by simp
  have rep3: "repr ar3 (Some u) t"
    using top low(1) r3 x3 repr_agree [OF ag3 do] by auto
  obtain ar4 where u4: "update_height ar3 u = Some ar4" and r4: "repr ar4 (Some u) t"
    and h4: "hts ar4 t" and s4: "same_payload ar3 ar4" and ag4: "agree (- {u}) ar3 ar4"
    using top(2)
  proof
    assume t: "t = \<langle>other, u, \<langle>l, d, r\<rangle>\<rangle>"
    show thesis
      by (rule update_height_repr [OF rep3 [unfolded t] ho3 h3 udist hb'(3,4)])
        (auto simp: t intro: that)
  next
    assume t: "t = \<langle>\<langle>l, d, r\<rangle>, u, other\<rangle>"
    show thesis
      by (rule update_height_repr [OF rep3 [unfolded t] h3 ho3 _ hb'(4,3)])
        (use udist in \<open>auto simp: t intro: that\<close>)
  qed
  have "agree (- {u, d}) ar2 ar4"
    using agree_mono [OF ag3, of "- {u, d}"] agree_mono [OF ag4, of "- {u, d}"]
    by (blast intro: agree_trans)
  then show thesis using that u3 u4 r4 h4 s3 s4 by (blast intro: same_payload_trans)
qed

lemma rotate_right_repr:
  assumes rep: "repr ar (Some y) \<langle>\<langle>t1, x, t2\<rangle>, y, t3\<rangle>"
    and dist: "distinct (inorder \<langle>\<langle>t1, x, t2\<rangle>, y, t3\<rangle>)"
    and hts: "hts ar t1" "hts ar t2" "hts ar t3"
    and len: "length ar \<le> 65535"
    and hb: "height t1 < 126" "height t2 < 126" "height t3 < 126"
  obtains ar' where "rotate_right ar y = Some (ar', x)"
    "repr ar' (Some x) \<langle>t1, x, \<langle>t2, y, t3\<rangle>\<rangle>" "hts ar' \<langle>t1, x, \<langle>t2, y, t3\<rangle>\<rangle>"
    "same_payload ar ar'" "agree (- {x, y}) ar ar'"
proof -
  define p2 where "p2 = slot_r (ar ! x)"
  define ar1 where "ar1 = ar[x := slot_set_r (Some y) (ar ! x)]"
  define ar2 where "ar2 = ar1[y := slot_set_l p2 (ar1 ! y)]"
  have xy: "x < length ar" "y < length ar" "x \<noteq> y" using rep dist by auto
  have p2: "repr ar p2 t2" "link_ok p2"
    using rep len by (auto simp: p2_def intro: repr_link_ok)
  have ag2: "agree (- {x, y}) ar ar2"
    unfolding ar2_def ar1_def by (intro agree_trans [OF agree_update agree_update]) auto
  have sub: "set_tree t1 \<subseteq> - {x, y}" "set_tree t2 \<subseteq> - {x, y}" "set_tree t3 \<subseteq> - {x, y}"
    using dist by auto
  have links: "slot_l (ar2 ! x) = slot_l (ar ! x)" "slot_r (ar2 ! x) = Some y"
    "slot_l (ar2 ! y) = p2" "slot_r (ar2 ! y) = slot_r (ar ! y)" "length ar2 = length ar"
    using xy len p2(2) by (auto simp: ar2_def ar1_def slot_simps)
  have low: "repr ar2 (Some y) \<langle>t2, y, t3\<rangle>"
    using rep p2(1) links xy repr_agree [OF ag2 sub(2)] repr_agree [OF ag2 sub(3)] by simp
  have top: "repr ar2 (Some x) \<langle>t1, x, \<langle>t2, y, t3\<rangle>\<rangle>"
    using rep low links xy repr_agree [OF ag2 sub(1)] by simp
  have h2: "hts ar2 t1" "hts ar2 t2" "hts ar2 t3"
    using hts by (simp_all add: hts_agree [OF ag2 sub(1)] hts_agree [OF ag2 sub(2)]
        hts_agree [OF ag2 sub(3)])
  have d: "distinct (inorder \<langle>t1, x, \<langle>t2, y, t3\<rangle>\<rangle>)" using dist by simp
  obtain ar3 ar4 where u: "update_height ar2 y = Some ar3" "update_height ar3 x = Some ar4"
    and r4: "repr ar4 (Some x) \<langle>t1, x, \<langle>t2, y, t3\<rangle>\<rangle>" "hts ar4 \<langle>t1, x, \<langle>t2, y, t3\<rangle>\<rangle>"
    and s4: "same_payload ar2 ar4" and ag4: "agree (- {x, y}) ar2 ar4"
    by (rule relink_heights [OF low h2(2,3) top disjI1 [OF refl] h2(1) d hb(2,3,1)])
  have "rotate_right ar y = Some (ar4, x)"
    using xy rep u by (simp add: rotate_right_def p2_def [symmetric] ar1_def ar2_def)
  moreover have "same_payload ar ar2"
    unfolding ar1_def ar2_def
    by (rule same_payload_trans; rule same_payload_update) (simp_all add: slot_simps)
  ultimately show thesis
    using that r4 s4 agree_trans [OF ag2 ag4] by (blast intro: same_payload_trans)
qed

lemma rotate_left_repr:
  assumes rep: "repr ar (Some x) \<langle>t1, x, \<langle>t2, y, t3\<rangle>\<rangle>"
    and dist: "distinct (inorder \<langle>t1, x, \<langle>t2, y, t3\<rangle>\<rangle>)"
    and hts: "hts ar t1" "hts ar t2" "hts ar t3"
    and len: "length ar \<le> 65535"
    and hb: "height t1 < 126" "height t2 < 126" "height t3 < 126"
  obtains ar' where "rotate_left ar x = Some (ar', y)"
    "repr ar' (Some y) \<langle>\<langle>t1, x, t2\<rangle>, y, t3\<rangle>" "hts ar' \<langle>\<langle>t1, x, t2\<rangle>, y, t3\<rangle>"
    "same_payload ar ar'" "agree (- {y, x}) ar ar'"
proof -
  define p2 where "p2 = slot_l (ar ! y)"
  define ar1 where "ar1 = ar[y := slot_set_l (Some x) (ar ! y)]"
  define ar2 where "ar2 = ar1[x := slot_set_r p2 (ar1 ! x)]"
  have xy: "x < length ar" "y < length ar" "x \<noteq> y" using rep dist by auto
  have p2: "repr ar p2 t2" "link_ok p2"
    using rep len by (auto simp: p2_def intro: repr_link_ok)
  have ag2: "agree (- {y, x}) ar ar2"
    unfolding ar2_def ar1_def by (intro agree_trans [OF agree_update agree_update]) auto
  have sub: "set_tree t1 \<subseteq> - {y, x}" "set_tree t2 \<subseteq> - {y, x}" "set_tree t3 \<subseteq> - {y, x}"
    using dist by auto
  have links: "slot_l (ar2 ! y) = Some x" "slot_r (ar2 ! y) = slot_r (ar ! y)"
    "slot_l (ar2 ! x) = slot_l (ar ! x)" "slot_r (ar2 ! x) = p2" "length ar2 = length ar"
    using xy len p2(2) by (auto simp: ar2_def ar1_def slot_simps)
  have low: "repr ar2 (Some x) \<langle>t1, x, t2\<rangle>"
    using rep p2(1) links xy repr_agree [OF ag2 sub(2)] repr_agree [OF ag2 sub(1)] by simp
  have top: "repr ar2 (Some y) \<langle>\<langle>t1, x, t2\<rangle>, y, t3\<rangle>"
    using rep low links xy repr_agree [OF ag2 sub(3)] by simp
  have h2: "hts ar2 t1" "hts ar2 t2" "hts ar2 t3"
    using hts by (simp_all add: hts_agree [OF ag2 sub(1)] hts_agree [OF ag2 sub(2)]
        hts_agree [OF ag2 sub(3)])
  have d: "distinct (inorder \<langle>\<langle>t1, x, t2\<rangle>, y, t3\<rangle>)" using dist by simp
  obtain ar3 ar4 where u: "update_height ar2 x = Some ar3" "update_height ar3 y = Some ar4"
    and r4: "repr ar4 (Some y) \<langle>\<langle>t1, x, t2\<rangle>, y, t3\<rangle>" "hts ar4 \<langle>\<langle>t1, x, t2\<rangle>, y, t3\<rangle>"
    and s4: "same_payload ar2 ar4" and ag4: "agree (- {y, x}) ar2 ar4"
    by (rule relink_heights [OF low h2(1,2) top disjI2 [OF refl] h2(3) d hb])
  have "rotate_left ar x = Some (ar4, y)"
    using xy rep u by (simp add: rotate_left_def p2_def [symmetric] ar1_def ar2_def)
  moreover have "same_payload ar ar2"
    unfolding ar1_def ar2_def
    by (rule same_payload_trans; rule same_payload_update) (simp_all add: slot_simps)
  ultimately show thesis
    using that r4 s4 agree_trans [OF ag2 ag4] by (blast intro: same_payload_trans)
qed


text \<open>The rebalancing step on trees.\<close>

fun bal :: "nat tree \<Rightarrow> nat \<Rightarrow> nat tree \<Rightarrow> nat tree" where
  "bal l i r =
     (if height l > height r + 1 then
        (case l of \<langle>ll, j, lr\<rangle> \<Rightarrow>
           if height ll < height lr then
             (case lr of \<langle>lrl, k, lrr\<rangle> \<Rightarrow> \<langle>\<langle>ll, j, lrl\<rangle>, k, \<langle>lrr, i, r\<rangle>\<rangle> | \<langle>\<rangle> \<Rightarrow> \<langle>l, i, r\<rangle>)
           else \<langle>ll, j, \<langle>lr, i, r\<rangle>\<rangle>
         | \<langle>\<rangle> \<Rightarrow> \<langle>l, i, r\<rangle>)
      else if height r > height l + 1 then
        (case r of \<langle>rl, j, rr\<rangle> \<Rightarrow>
           if height rl > height rr then
             (case rl of \<langle>rll, k, rlr\<rangle> \<Rightarrow> \<langle>\<langle>l, i, rll\<rangle>, k, \<langle>rlr, j, rr\<rangle>\<rangle> | \<langle>\<rangle> \<Rightarrow> \<langle>l, i, r\<rangle>)
           else \<langle>\<langle>l, i, rl\<rangle>, j, rr\<rangle>
         | \<langle>\<rangle> \<Rightarrow> \<langle>l, i, r\<rangle>)
      else \<langle>l, i, r\<rangle>)"

declare bal.simps [simp del]

lemma inorder_bal [simp]: "inorder (bal l i r) = inorder l @ i # inorder r"
  by (simp add: bal.simps split: tree.split)

lemma set_tree_bal [simp]: "set_tree (bal l i r) = set_tree l \<union> {i} \<union> set_tree r"
  by (simp flip: set_inorder)

text \<open>
  Two balanced subtrees whose heights differ by at most 2 are put together to a balanced tree.
\<close>

lemma height_Suc_Node: "height t = Suc n \<Longrightarrow> \<exists>l a r. t = \<langle>l, a, r\<rangle>"
  by (cases t) auto

lemma bal_left_heavy:
  assumes "avl l" "avl r" "height l = height r + 2"
  shows "avl (bal l i r) \<and> height (bal l i r) \<in> {height l, height l + 1}"
proof -
  obtain ll j lr where l: "l = \<langle>ll, j, lr\<rangle>" using assms(3) height_Suc_Node [of l] by auto
  show ?thesis
  proof (cases "height ll < height lr")
    case True
    then obtain a k b where lr: "lr = \<langle>a, k, b\<rangle>" by (cases lr) auto
    have "height a \<le> height r" "height b \<le> height r" "height ll = height r"
      "height a = height r \<or> height b = height r" "height a \<le> height b + 1" "height b \<le> height a + 1"
      using assms True unfolding l lr by (auto simp: max_def split: if_splits)
    with assms True show ?thesis unfolding l lr by (auto simp: bal.simps max_def)
  next
    case False
    with assms show ?thesis unfolding l by (auto simp: bal.simps max_def split: if_splits)
  qed
qed

lemma bal_right_heavy:
  assumes "avl l" "avl r" "height r = height l + 2"
  shows "avl (bal l i r) \<and> height (bal l i r) \<in> {height r, height r + 1}"
proof -
  obtain rl j rr where r: "r = \<langle>rl, j, rr\<rangle>" using assms(3) height_Suc_Node [of r] by auto
  show ?thesis
  proof (cases "height rl > height rr")
    case True
    then obtain a k b where rl: "rl = \<langle>a, k, b\<rangle>" by (cases rl) auto
    have "height a \<le> height l" "height b \<le> height l" "height rr = height l"
      "height a = height l \<or> height b = height l" "height a \<le> height b + 1" "height b \<le> height a + 1"
      using assms True unfolding r rl by (auto simp: max_def split: if_splits)
    with assms True show ?thesis unfolding r rl by (auto simp: bal.simps max_def)
  next
    case False
    with assms show ?thesis unfolding r by (auto simp: bal.simps max_def split: if_splits)
  qed
qed

lemma avl_bal:
  assumes "avl l" "avl r" "height l \<le> height r + 2" "height r \<le> height l + 2"
  shows "avl (bal l i r)"
    and "height (bal l i r) \<in> {max (height l) (height r), max (height l) (height r) + 1}"
proof -
  consider "height l = height r + 2" | "height r = height l + 2"
    | "height l \<le> height r + 1" "height r \<le> height l + 1"
    using assms(3,4) by linarith
  then have "avl (bal l i r) \<and>
      height (bal l i r) \<in> {max (height l) (height r), max (height l) (height r) + 1}"
  proof cases
    case 1 then show ?thesis using bal_left_heavy [OF assms(1,2)] by (simp add: max_def)
  next
    case 2 then show ?thesis using bal_right_heavy [OF assms(1,2)] by (simp add: max_def)
  next
    case 3 then show ?thesis using assms(1,2) by (simp add: bal.simps)
  qed
  then show "avl (bal l i r)"
    and "height (bal l i r) \<in> {max (height l) (height r), max (height l) (height r) + 1}" by auto
qed

lemma bal_balanced:
  assumes "height l \<le> height r + 1" "height r \<le> height l + 1"
  shows "bal l i r = \<langle>l, i, r\<rangle>"
  using assms by (simp add: bal.simps)


text \<open>Storing a new subtree under a node.\<close>

lemma relink_l:
  assumes "i < length ar" "repr ar p l" "hts ar l" "repr ar (slot_r (ar ! i)) r" "hts ar r"
    and i: "i \<notin> set_tree l \<union> set_tree r" and len: "length ar \<le> 65535"
    and ar': "ar' = ar[i := slot_set_l p (ar ! i)]"
  shows "repr ar' (Some i) \<langle>l, i, r\<rangle>" "hts ar' l" "hts ar' r" "same_payload ar ar'" "agree (- {i}) ar ar'"
proof -
  have ok: "link_ok p" using assms(2) len by (rule repr_link_ok)
  have ag: "agree (- {i}) ar ar'" unfolding ar' by (rule agree_update) simp
  have sub: "set_tree l \<subseteq> - {i}" "set_tree r \<subseteq> - {i}" using i by auto
  show "repr ar' (Some i) \<langle>l, i, r\<rangle>"
    using assms(1,2,4) ok repr_agree [OF ag sub(1)] repr_agree [OF ag sub(2)]
    by (simp add: ar' slot_simps)
  show "hts ar' l" "hts ar' r"
    using assms(3,5) hts_agree [OF ag sub(1)] hts_agree [OF ag sub(2)] by auto
  show "same_payload ar ar'" unfolding ar' by (rule same_payload_update) (simp add: slot_simps)
  show "agree (- {i}) ar ar'" by (rule ag)
qed

lemma relink_r:
  assumes "i < length ar" "repr ar p r" "hts ar r" "repr ar (slot_l (ar ! i)) l" "hts ar l"
    and i: "i \<notin> set_tree l \<union> set_tree r" and len: "length ar \<le> 65535"
    and ar': "ar' = ar[i := slot_set_r p (ar ! i)]"
  shows "repr ar' (Some i) \<langle>l, i, r\<rangle>" "hts ar' l" "hts ar' r" "same_payload ar ar'" "agree (- {i}) ar ar'"
proof -
  have ok: "link_ok p" using assms(2) len by (rule repr_link_ok)
  have ag: "agree (- {i}) ar ar'" unfolding ar' by (rule agree_update) simp
  have sub: "set_tree l \<subseteq> - {i}" "set_tree r \<subseteq> - {i}" using i by auto
  show "repr ar' (Some i) \<langle>l, i, r\<rangle>"
    using assms(1,2,4) ok repr_agree [OF ag sub(1)] repr_agree [OF ag sub(2)]
    by (simp add: ar' slot_simps)
  show "hts ar' l" "hts ar' r"
    using assms(3,5) hts_agree [OF ag sub(1)] hts_agree [OF ag sub(2)] by auto
  show "same_payload ar ar'" unfolding ar' by (rule same_payload_update) (simp add: slot_simps)
  show "agree (- {i}) ar ar'" by (rule ag)
qed

text \<open>
  What the rebalancing helpers establish of an arena \<open>ar'\<close>, a root \<open>p\<close> and a tree \<open>t\<close>, when started
  on \<open>ar\<close>.
\<close>

definition rebuilt ::
  "('k, 'v, 't) slot list \<Rightarrow> ('k, 'v, 't) slot list \<Rightarrow> nat option \<Rightarrow> nat tree \<Rightarrow> bool" where
  "rebuilt ar ar' p t \<longleftrightarrow>
     repr ar' p t \<and> hts ar' t \<and> same_payload ar ar' \<and> agree (- set_tree t) ar ar'"

lemma rebuiltI:
  "repr ar' p t \<Longrightarrow> hts ar' t \<Longrightarrow> same_payload ar ar' \<Longrightarrow> agree S ar ar' \<Longrightarrow> - set_tree t \<subseteq> S \<Longrightarrow>
   rebuilt ar ar' p t"
  by (auto simp: rebuilt_def intro: agree_mono)

lemma rebuilt_trans:
  "same_payload ar ar1 \<Longrightarrow> agree S ar ar1 \<Longrightarrow> - set_tree t \<subseteq> S \<Longrightarrow> rebuilt ar1 ar2 p t \<Longrightarrow>
   rebuilt ar ar2 p t"
  by (auto simp: rebuilt_def intro: agree_mono agree_trans same_payload_trans)

lemma left_heavy_repr:
  assumes rep: "repr ar (Some i) \<langle>l, i, r\<rangle>" and hts: "hts ar l" "hts ar r"
    and dist: "distinct (inorder \<langle>l, i, r\<rangle>)" and len: "length ar \<le> 65535"
    and hb: "height l < 125" and heavy: "height l > height r + 1"
  shows "\<exists>ar' j. (do { n \<leftarrow> get_at ar i; l \<leftarrow> slot_l n; lbf \<leftarrow> balance_factor ar l;
       ar \<leftarrow> (if lbf < 0
              then do { (ar, nl) \<leftarrow> rotate_left ar l; modify_at ar i (slot_set_l (Some nl)) }
              else Some ar);
       rotate_right ar i }) = Some (ar', j) \<and> rebuilt ar ar' (Some j) (bal l i r)"
proof -
  obtain ll j lr where l: "l = \<langle>ll, j, lr\<rangle>" using heavy by (cases l) auto
  have ri: "i < length ar" "slot_l (ar ! i) = Some j" "repr ar (Some j) \<langle>ll, j, lr\<rangle>"
    "repr ar (slot_r (ar ! i)) r" using rep by (auto simp: l)
  have bf: "balance_factor ar j = Some (int (height ll) - int (height lr))"
    using balance_factor_repr [OF ri(3)] hts(1) by (simp add: l)
  show ?thesis
  proof (cases "height ll < height lr")
    case True
    then obtain a k b where lr: "lr = \<langle>a, k, b\<rangle>" by (cases lr) auto
    have dl: "distinct (inorder \<langle>ll, j, \<langle>a, k, b\<rangle>\<rangle>)"
      and di: "distinct (inorder \<langle>\<langle>\<langle>ll, j, a\<rangle>, k, b\<rangle>, i, r\<rangle>)" using dist by (auto simp: l lr)
    have hl: "hts ar ll" "hts ar a" "hts ar b" "height ll < 126" "height a < 126" "height b < 126"
      "height \<langle>ll, j, a\<rangle> < 126" "height r < 126"
      using hts(1) hb heavy by (auto simp: l lr)
    obtain ar1 where rot: "rotate_left ar j = Some (ar1, k)"
      and r1: "repr ar1 (Some k) \<langle>\<langle>ll, j, a\<rangle>, k, b\<rangle>" "hts ar1 \<langle>\<langle>ll, j, a\<rangle>, k, b\<rangle>"
      and s1: "same_payload ar ar1" and ag1: "agree (- {k, j}) ar ar1"
      by (rule rotate_left_repr [OF ri(3) [unfolded lr] dl hl(1-3) len hl(4-6)])
    define ar2 where "ar2 = ar1[i := slot_set_l (Some k) (ar1 ! i)]"
    have same: "ar1 ! i = ar ! i" "length ar1 = length ar" "set_tree r \<subseteq> - {k, j}"
      using ag1 dist by (auto simp: agree_def l lr)
    have r: "repr ar1 (slot_r (ar1 ! i)) r" "hts ar1 r"
      using ri(4) hts(2) same repr_agree [OF ag1 same(3)] hts_agree [OF ag1 same(3)] by simp_all
    have "i < length ar1" "i \<notin> set_tree \<langle>\<langle>ll, j, a\<rangle>, k, b\<rangle> \<union> set_tree r" "length ar1 \<le> 65535"
      using ri(1) dist len same by (auto simp: l lr)
    note rl = relink_l [OF this(1) r1 r this(2,3) ar2_def]
    have h2: "hts ar2 \<langle>ll, j, a\<rangle>" "hts ar2 b" "hts ar2 r" "length ar2 \<le> 65535"
      using rl(2,3) same len by (auto simp: ar2_def)
    obtain ar3 where rot2: "rotate_right ar2 i = Some (ar3, k)"
      and r3: "repr ar3 (Some k) \<langle>\<langle>ll, j, a\<rangle>, k, \<langle>b, i, r\<rangle>\<rangle>" "hts ar3 \<langle>\<langle>ll, j, a\<rangle>, k, \<langle>b, i, r\<rangle>\<rangle>"
      and s3: "same_payload ar2 ar3" and ag3: "agree (- {k, i}) ar2 ar3"
      by (rule rotate_right_repr [OF rl(1) di h2 hl(7,6,8)])
    have t: "bal l i r = \<langle>\<langle>ll, j, a\<rangle>, k, \<langle>b, i, r\<rangle>\<rangle>"
      using heavy True by (simp add: bal.simps l lr)
    have "rebuilt ar2 ar3 (Some k) (bal l i r)" using r3 s3 ag3 unfolding t by (rule rebuiltI) auto
    from rebuilt_trans [OF rl(4,5) _ this] have "rebuilt ar1 ar3 (Some k) (bal l i r)"
      by (auto simp: l lr)
    from rebuilt_trans [OF s1 ag1 _ this] have "rebuilt ar ar3 (Some k) (bal l i r)"
      by (auto simp: l lr)
    then show ?thesis using ri bf True rot rot2 same by (simp add: ar2_def)
  next
    case False
    have t: "bal l i r = \<langle>ll, j, \<langle>lr, i, r\<rangle>\<rangle>" using heavy False by (simp add: bal.simps l)
    have hl: "hts ar ll" "hts ar lr" "hts ar r" "length ar \<le> 65535" "height ll < 126"
      "height lr < 126" "height r < 126"
      using hts len hb heavy by (auto simp: l)
    obtain ar1 where rot: "rotate_right ar i = Some (ar1, j)"
      and r1: "repr ar1 (Some j) \<langle>ll, j, \<langle>lr, i, r\<rangle>\<rangle>" "hts ar1 \<langle>ll, j, \<langle>lr, i, r\<rangle>\<rangle>"
      and s1: "same_payload ar ar1" and ag1: "agree (- {j, i}) ar ar1"
      by (rule rotate_right_repr [OF rep [unfolded l] dist [unfolded l] hl])
    have "rebuilt ar ar1 (Some j) (bal l i r)" using r1 s1 ag1 unfolding t by (rule rebuiltI) auto
    then show ?thesis using ri bf False rot by simp
  qed
qed


lemma right_heavy_repr:
  assumes rep: "repr ar (Some i) \<langle>l, i, r\<rangle>" and hts: "hts ar l" "hts ar r"
    and dist: "distinct (inorder \<langle>l, i, r\<rangle>)" and len: "length ar \<le> 65535"
    and hb: "height r < 125" and heavy: "height r > height l + 1"
  shows "\<exists>ar' j. (do { n \<leftarrow> get_at ar i; r \<leftarrow> slot_r n; rbf \<leftarrow> balance_factor ar r;
       ar \<leftarrow> (if rbf > 0
              then do { (ar, nr) \<leftarrow> rotate_right ar r; modify_at ar i (slot_set_r (Some nr)) }
              else Some ar);
       rotate_left ar i }) = Some (ar', j) \<and> rebuilt ar ar' (Some j) (bal l i r)"
proof -
  obtain rl j rr where r: "r = \<langle>rl, j, rr\<rangle>" using heavy by (cases r) auto
  have ri: "i < length ar" "slot_r (ar ! i) = Some j" "repr ar (Some j) \<langle>rl, j, rr\<rangle>"
    "repr ar (slot_l (ar ! i)) l" using rep by (auto simp: r)
  have bf: "balance_factor ar j = Some (int (height rl) - int (height rr))"
    using balance_factor_repr [OF ri(3)] hts(2) by (simp add: r)
  show ?thesis
  proof (cases "height rr < height rl")
    case True
    then obtain a k b where rl: "rl = \<langle>a, k, b\<rangle>" by (cases rl) auto
    have dl: "distinct (inorder \<langle>\<langle>a, k, b\<rangle>, j, rr\<rangle>)"
      and di: "distinct (inorder \<langle>l, i, \<langle>a, k, \<langle>b, j, rr\<rangle>\<rangle>\<rangle>)" using dist by (auto simp: r rl)
    have hl: "hts ar a" "hts ar b" "hts ar rr" "height a < 126" "height b < 126" "height rr < 126"
      "height \<langle>b, j, rr\<rangle> < 126" "height l < 126"
      using hts(2) hb heavy by (auto simp: r rl)
    obtain ar1 where rot: "rotate_right ar j = Some (ar1, k)"
      and r1: "repr ar1 (Some k) \<langle>a, k, \<langle>b, j, rr\<rangle>\<rangle>" "hts ar1 \<langle>a, k, \<langle>b, j, rr\<rangle>\<rangle>"
      and s1: "same_payload ar ar1" and ag1: "agree (- {k, j}) ar ar1"
      by (rule rotate_right_repr [OF ri(3) [unfolded rl] dl hl(1-3) len hl(4-6)])
    define ar2 where "ar2 = ar1[i := slot_set_r (Some k) (ar1 ! i)]"
    have same: "ar1 ! i = ar ! i" "length ar1 = length ar" "set_tree l \<subseteq> - {k, j}"
      using ag1 dist by (auto simp: agree_def r rl)
    have l: "repr ar1 (slot_l (ar1 ! i)) l" "hts ar1 l"
      using ri(4) hts(1) same repr_agree [OF ag1 same(3)] hts_agree [OF ag1 same(3)] by simp_all
    have "i < length ar1" "i \<notin> set_tree l \<union> set_tree \<langle>a, k, \<langle>b, j, rr\<rangle>\<rangle>" "length ar1 \<le> 65535"
      using ri(1) dist len same by (auto simp: r rl)
    note rl' = relink_r [OF this(1) r1 l this(2,3) ar2_def]
    have h2: "hts ar2 l" "hts ar2 a" "hts ar2 \<langle>b, j, rr\<rangle>" "length ar2 \<le> 65535"
      using rl'(2,3) same len by (auto simp: ar2_def)
    obtain ar3 where rot2: "rotate_left ar2 i = Some (ar3, k)"
      and r3: "repr ar3 (Some k) \<langle>\<langle>l, i, a\<rangle>, k, \<langle>b, j, rr\<rangle>\<rangle>" "hts ar3 \<langle>\<langle>l, i, a\<rangle>, k, \<langle>b, j, rr\<rangle>\<rangle>"
      and s3: "same_payload ar2 ar3" and ag3: "agree (- {k, i}) ar2 ar3"
      by (rule rotate_left_repr [OF rl'(1) di h2 hl(8,4,7)])
    have t: "bal l i r = \<langle>\<langle>l, i, a\<rangle>, k, \<langle>b, j, rr\<rangle>\<rangle>"
      using heavy True by (simp add: bal.simps r rl)
    have "rebuilt ar2 ar3 (Some k) (bal l i r)" using r3 s3 ag3 unfolding t by (rule rebuiltI) auto
    from rebuilt_trans [OF rl'(4,5) _ this] have "rebuilt ar1 ar3 (Some k) (bal l i r)"
      by (auto simp: r rl)
    from rebuilt_trans [OF s1 ag1 _ this] have "rebuilt ar ar3 (Some k) (bal l i r)"
      by (auto simp: r rl)
    then show ?thesis using ri bf True rot rot2 same by (simp add: ar2_def)
  next
    case False
    have t: "bal l i r = \<langle>\<langle>l, i, rl\<rangle>, j, rr\<rangle>" using heavy False by (simp add: bal.simps r)
    have hl: "hts ar l" "hts ar rl" "hts ar rr" "length ar \<le> 65535" "height l < 126"
      "height rl < 126" "height rr < 126"
      using hts len hb heavy by (auto simp: r)
    obtain ar1 where rot: "rotate_left ar i = Some (ar1, j)"
      and r1: "repr ar1 (Some j) \<langle>\<langle>l, i, rl\<rangle>, j, rr\<rangle>" "hts ar1 \<langle>\<langle>l, i, rl\<rangle>, j, rr\<rangle>"
      and s1: "same_payload ar ar1" and ag1: "agree (- {j, i}) ar ar1"
      by (rule rotate_left_repr [OF rep [unfolded r] dist [unfolded r] hl])
    have "rebuilt ar ar1 (Some j) (bal l i r)" using r1 s1 ag1 unfolding t by (rule rebuiltI) auto
    then show ?thesis using ri bf False rot by simp
  qed
qed

lemma rebalance_repr:
  assumes rep: "repr ar (Some i) \<langle>l, i, r\<rangle>" and hts: "hts ar l" "hts ar r"
    and dist: "distinct (inorder \<langle>l, i, r\<rangle>)" and len: "length ar \<le> 65535"
    and hb: "height l < 125" "height r < 125"
  obtains ar' j where "rebalance ar i = Some (ar', j)" "rebuilt ar ar' (Some j) (bal l i r)"
proof -
  have i: "i \<notin> set_tree l \<union> set_tree r" "height l < 127" "height r < 127" using dist hb by auto
  obtain ar0 where u: "update_height ar i = Some ar0"
    and r0: "repr ar0 (Some i) \<langle>l, i, r\<rangle>" "hts ar0 \<langle>l, i, r\<rangle>"
    and s0: "same_payload ar ar0" and ag0: "agree (- {i}) ar ar0"
    by (rule update_height_repr [OF rep hts i])
  have h0: "hts ar0 l" "hts ar0 r" and len0: "length ar0 \<le> 65535"
    using r0(2) len ag0 by (auto simp: agree_def)
  have bf: "balance_factor ar0 i = Some (int (height l) - int (height r))"
    by (rule balance_factor_repr [OF r0(1) h0])
  have "\<exists>ar' j. rebalance ar i = Some (ar', j) \<and> rebuilt ar0 ar' (Some j) (bal l i r)"
  proof -
    consider "height l > height r + 1" | "height r > height l + 1"
      | "height l \<le> height r + 1" "height r \<le> height l + 1" by linarith
    then show ?thesis
    proof cases
      case 1
      then show ?thesis
        using left_heavy_repr [OF r0(1) h0 dist len0 hb(1) 1] by (simp add: rebalance_def u bf)
    next
      case 2
      then show ?thesis
        using right_heavy_repr [OF r0(1) h0 dist len0 hb(2) 2] by (simp add: rebalance_def u bf)
    next
      case 3
      then show ?thesis
        using r0 by (simp add: rebalance_def u bf rebuilt_def bal_balanced)
    qed
  qed
  then obtain ar' j where "rebalance ar i = Some (ar', j)" "rebuilt ar0 ar' (Some j) (bal l i r)" by blast
  moreover have "rebuilt ar ar' (Some j) (bal l i r)"
    by (rule rebuilt_trans [OF s0 ag0 _ calculation(2)]) auto
  ultimately show thesis using that by blast
qed

end
