(* ===== verification/Avl_Map.thy ===== *)
theory Avl_Map
  imports Avl_Tree
begin

text \<open>
  The arena as a finite map with a stack of free tags: what \<open>get\<close>, \<open>get_lte\<close>, \<open>insert\<close>,
  \<open>remove\<close>, \<open>get_slot_mut\<close>, \<open>get_max_slot\<close>, the iterator and the self check do, for an arena
  of at most 65535 slots.
\<close>

section \<open>Heights\<close>

lemma avl_size: "avl t \<Longrightarrow> 2 ^ (height t div 2) \<le> size1 t"
proof (induction t)
  case Leaf
  then show ?case by simp
next
  case (Node l a r)
  define h where "h = max (height l) (height r)"
  have m: "h div 2 \<le> height l div 2 \<or> h div 2 \<le> height r div 2"
    "(h - 1) div 2 \<le> height l div 2" "(h - 1) div 2 \<le> height r div 2"
    using Node.prems by (auto simp: h_def max_def intro: div_le_mono)
  have mono: "x \<le> y \<Longrightarrow> (2::nat) ^ x \<le> 2 ^ y" for x y by (simp add: power_increasing)
  have l: "2 ^ (height l div 2) \<le> size1 l" and r: "2 ^ (height r div 2) \<le> size1 r"
    using Node by auto
  have "2 ^ ((h - 1) div 2) \<le> size1 l" "2 ^ ((h - 1) div 2) \<le> size1 r"
    using mono [OF m(2)] mono [OF m(3)] l r by linarith+
  then have two: "2 * 2 ^ ((h - 1) div 2) \<le> size1 l + size1 r" by linarith
  show ?case
  proof (cases "h = 0")
    case True
    then show ?thesis by (simp add: h_def)
  next
    case False
    then have "(h + 1) div 2 = Suc ((h - 1) div 2)" by presburger
    then show ?thesis using two by (simp add: h_def [symmetric])
  qed
qed

lemma avl_height_bound:
  fixes t :: "nat tree"
  assumes "avl t" "distinct (inorder t)" "set_tree t \<subseteq> {..<n}" "n \<le> 65535"
  shows "height t \<le> 33"
proof (rule ccontr)
  assume "\<not> height t \<le> 33"
  then have "17 \<le> height t div 2" by linarith
  then have "(2::nat) ^ 17 \<le> 2 ^ (height t div 2)" by (rule power_increasing) simp
  also have "\<dots> \<le> size1 t" using assms(1) by (rule avl_size)
  also have "size1 t = card (set_tree t) + 1"
    using assms(2) by (metis Suc_eq_plus1 distinct_card length_inorder set_inorder size1_size)
  also have "card (set_tree t) \<le> n"
    using card_mono [OF _ assms(3)] by simp
  finally show False using assms(4) by simp
qed

section \<open>Subtrees and the free list\<close>

definition entry :: "('k, 'v, 't) slot \<Rightarrow> 'k \<times> 'v \<times> 't" where
  "entry n = (s_key n, s_val n, s_tag n)"

definition contents :: "('k, 'v, 't) slot list \<Rightarrow> nat tree \<Rightarrow> ('k \<times> 'v \<times> 't) list" where
  "contents ar t = map (\<lambda>i. entry (ar ! i)) (inorder t)"

definition sorted_keys :: "('k::linorder \<times> 'v \<times> 't) list \<Rightarrow> bool" where
  "sorted_keys xs \<longleftrightarrow> sorted_wrt (<) (map fst xs)"

definition sub_ok :: "('k::linorder, 'v, 't) slot list \<Rightarrow> nat option \<Rightarrow> nat tree \<Rightarrow> bool" where
  "sub_ok ar p t \<longleftrightarrow>
     repr ar p t \<and> hts ar t \<and> avl t \<and> distinct (inorder t) \<and> sorted_keys (contents ar t) \<and>
     (\<forall>i\<in>set_tree t. slot_is_used (ar ! i)) \<and> length ar \<le> 65535"

fun chain :: "('k, 'v, 't) slot list \<Rightarrow> nat option \<Rightarrow> nat list \<Rightarrow> bool" where
  "chain ar p [] \<longleftrightarrow> p = None"
| "chain ar p (i # is) \<longleftrightarrow> p = Some i \<and> i < length ar \<and> chain ar (slot_l (ar ! i)) is"

definition free_ok :: "('k, 'v, 't) slot list \<Rightarrow> nat option \<Rightarrow> nat list \<Rightarrow> bool" where
  "free_ok ar p fs \<longleftrightarrow> chain ar p fs \<and> distinct fs \<and> (\<forall>i\<in>set fs. \<not> slot_is_used (ar ! i))"

definition tags :: "('k, 'v, 't) slot list \<Rightarrow> nat list \<Rightarrow> 't list" where
  "tags ar fs = map (\<lambda>i. s_tag (ar ! i)) fs"

lemma contents_simps [simp]:
  "contents ar \<langle>\<rangle> = []" "contents ar \<langle>l, i, r\<rangle> = contents ar l @ entry (ar ! i) # contents ar r"
  by (simp_all add: contents_def)

lemma contents_bal: "contents ar (bal l i r) = contents ar l @ entry (ar ! i) # contents ar r"
  by (simp add: contents_def)

lemma contents_agree: "agree S ar ar' \<Longrightarrow> set_tree t \<subseteq> S \<Longrightarrow> contents ar' t = contents ar t"
  by (auto simp: agree_def contents_def subset_iff)

lemma sorted_keys_simps [simp]:
  "sorted_keys []"
  "sorted_keys (x # xs) \<longleftrightarrow> sorted_keys xs \<and> (\<forall>y\<in>set xs. fst x < fst y)"
  "sorted_keys (xs @ ys) \<longleftrightarrow>
     sorted_keys xs \<and> sorted_keys ys \<and> (\<forall>x\<in>set xs. \<forall>y\<in>set ys. fst x < fst y)"
  by (auto simp: sorted_keys_def sorted_wrt_append)

lemma chain_agree: "agree S ar ar' \<Longrightarrow> set fs \<subseteq> S \<Longrightarrow> chain ar' p fs = chain ar p fs"
  by (induction fs arbitrary: p) (auto simp: agree_def)

lemma free_ok_agree: "agree S ar ar' \<Longrightarrow> set fs \<subseteq> S \<Longrightarrow> free_ok ar' p fs = free_ok ar p fs"
  using chain_agree [of S ar ar' fs p] by (auto simp: free_ok_def agree_def subset_iff)

lemma tags_agree: "agree S ar ar' \<Longrightarrow> set fs \<subseteq> S \<Longrightarrow> tags ar' fs = tags ar fs"
  by (auto simp: tags_def agree_def)

lemma sub_ok_agree: "agree S ar ar' \<Longrightarrow> set_tree t \<subseteq> S \<Longrightarrow> sub_ok ar' p t = sub_ok ar p t"
  using repr_agree [of S ar ar' t p] hts_agree [of S ar ar' t] contents_agree [of S ar ar' t]
  by (auto simp: sub_ok_def agree_def subset_iff)

lemma chain_bound: "chain ar p fs \<Longrightarrow> set fs \<subseteq> {..<length ar}"
  by (induction fs arbitrary: p) auto

lemma sub_ok_Leaf [simp]: "sub_ok ar p \<langle>\<rangle> \<longleftrightarrow> p = None \<and> length ar \<le> 65535"
  by (auto simp: sub_ok_def)

lemma sub_ok_height: "sub_ok ar p t \<Longrightarrow> height t \<le> 33"
  unfolding sub_ok_def using avl_height_bound repr_bound by blast

lemma sub_ok_Node:
  assumes "sub_ok ar p \<langle>l, i, r\<rangle>"
  shows "p = Some i" "i < length ar" "sub_ok ar (slot_l (ar ! i)) l" "sub_ok ar (slot_r (ar ! i)) r"
    "i \<notin> set_tree l" "i \<notin> set_tree r" "set_tree l \<inter> set_tree r = {}"
    "height l \<le> height r + 1" "height r \<le> height l + 1" "slot_is_used (ar ! i)"
    "\<forall>x\<in>set (contents ar l). fst x < s_key (ar ! i)"
    "\<forall>x\<in>set (contents ar r). s_key (ar ! i) < fst x"
  using assms by (auto simp: sub_ok_def entry_def)

lemma sub_ok_NodeI:
  assumes "sub_ok ar (slot_l (ar ! i)) l" "sub_ok ar (slot_r (ar ! i)) r" "i < length ar"
    "i \<notin> set_tree l" "i \<notin> set_tree r" "set_tree l \<inter> set_tree r = {}"
    "height l \<le> height r + 1" "height r \<le> height l + 1" "slot_is_used (ar ! i)"
    "uint (slot_height (ar ! i)) = int (max (height l) (height r) + 1)"
    "\<forall>x\<in>set (contents ar l). fst x < s_key (ar ! i)"
    "\<forall>x\<in>set (contents ar r). s_key (ar ! i) < fst x"
  shows "sub_ok ar (Some i) \<langle>l, i, r\<rangle>"
proof -
  have "fst x < fst y" if "x \<in> set (contents ar l)" "y \<in> set (contents ar r)" for x y
    using assms(11,12) that by (blast intro: less_trans)
  then show ?thesis using assms by (simp add: sub_ok_def entry_def ball_Un)
qed

lemma same_payload_nth:
  "same_payload ar ar' \<Longrightarrow> length ar' = length ar \<and>
     (i < length ar \<longrightarrow> entry (ar' ! i) = entry (ar ! i) \<and> slot_is_used (ar' ! i) = slot_is_used (ar ! i))"
proof -
  assume eq: "same_payload ar ar'"
  then have len: "length ar' = length ar"
    unfolding same_payload_def by (rule map_eq_imp_length_eq)
  have "payload (ar' ! i) = payload (ar ! i)" if "i < length ar"
    using arg_cong [OF eq [unfolded same_payload_def], of "\<lambda>xs. xs ! i"] that len by simp
  with len show ?thesis by (auto simp: payload_def entry_def)
qed

lemma contents_payload:
  "same_payload ar ar' \<Longrightarrow> set_tree t \<subseteq> {..<length ar} \<Longrightarrow> contents ar' t = contents ar t"
  using same_payload_nth [of ar ar'] by (auto simp: contents_def subset_iff)

text \<open>
  Reattaching a changed subtree and rebalancing: the step both \<open>insert_rec\<close> and \<open>delete_rec\<close> end
  with at every inner node.
\<close>

lemma reattach:
  assumes l: "sub_ok ar1 pl l" and r: "sub_ok ar1 pr r" and i: "i < length ar1"
    and d: "i \<notin> set_tree l" "i \<notin> set_tree r" "set_tree l \<inter> set_tree r = {}"
    and used: "slot_is_used (ar1 ! i)"
    and key: "\<forall>x\<in>set (contents ar1 l). fst x < s_key (ar1 ! i)"
      "\<forall>x\<in>set (contents ar1 r). s_key (ar1 ! i) < fst x"
    and h: "height l \<le> height r + 2" "height r \<le> height l + 2"
    and ar2: "ar2 = ar1[i := slot_set_l pl (ar1 ! i)] \<and> pr = slot_r (ar1 ! i) \<or>
              ar2 = ar1[i := slot_set_r pr (ar1 ! i)] \<and> pl = slot_l (ar1 ! i)"
  obtains ar3 j where "rebalance ar2 i = Some (ar3, j)" "sub_ok ar3 (Some j) (bal l i r)"
    "contents ar3 (bal l i r) = contents ar1 l @ entry (ar1 ! i) # contents ar1 r"
    "agree (- (set_tree l \<union> {i} \<union> set_tree r)) ar1 ar3"
proof -
  have len: "length ar1 \<le> 65535" and rep: "repr ar1 pl l" "repr ar1 pr r"
    and ht: "hts ar1 l" "hts ar1 r" and i': "i \<notin> set_tree l \<union> set_tree r"
    using l r d by (auto simp: sub_ok_def)
  have 2: "repr ar2 (Some i) \<langle>l, i, r\<rangle>" "hts ar2 l" "hts ar2 r" "same_payload ar1 ar2"
    "agree (- {i}) ar1 ar2"
    using ar2 relink_l [OF i rep(1) ht(1) _ ht(2) i' len, of ar2]
      relink_r [OF i rep(2) ht(2) _ ht(1) i' len, of ar2] rep by auto
  have len2: "length ar2 \<le> 65535" using 2(5) len by (simp add: agree_def)
  have di: "distinct (inorder \<langle>l, i, r\<rangle>)" using l r d by (auto simp: sub_ok_def)
  have hb: "height l < 125" "height r < 125" using sub_ok_height [OF l] sub_ok_height [OF r] by auto
  obtain ar3 j where reb: "rebalance ar2 i = Some (ar3, j)"
    and b: "rebuilt ar2 ar3 (Some j) (bal l i r)"
    by (rule rebalance_repr [OF 2(1-3) di len2 hb])
  have sp: "same_payload ar1 ar3" and ag: "agree (- set_tree (bal l i r)) ar1 ar3"
    using b 2(4,5) by (auto simp: rebuilt_def intro: same_payload_trans agree_trans agree_mono)
  have sub: "set_tree (bal l i r) \<subseteq> {..<length ar1}"
    using repr_bound [OF rep(1)] repr_bound [OF rep(2)] i by auto
  have c: "contents ar3 (bal l i r) = contents ar1 l @ entry (ar1 ! i) # contents ar1 r"
    using contents_payload [OF sp sub] by (simp add: contents_bal)
  have "sub_ok ar3 (Some j) (bal l i r)"
    unfolding sub_ok_def
  proof (intro conjI)
    show "repr ar3 (Some j) (bal l i r)" "hts ar3 (bal l i r)" using b by (auto simp: rebuilt_def)
    show "avl (bal l i r)" using avl_bal(1) l r h by (auto simp: sub_ok_def)
    show "distinct (inorder (bal l i r))" using di by simp
    have "fst x < fst y" if "x \<in> set (contents ar1 l)" "y \<in> set (contents ar1 r)" for x y
      using key that by (blast intro: less_trans)
    then show "sorted_keys (contents ar3 (bal l i r))"
      unfolding c using l r key by (simp add: sub_ok_def entry_def)
    show "\<forall>i\<in>set_tree (bal l i r). slot_is_used (ar3 ! i)"
      using same_payload_nth [OF sp] sub l r used by (auto simp: sub_ok_def)
    show "length ar3 \<le> 65535" using ag len by (simp add: agree_def)
  qed
  then show thesis using that reb c ag by simp
qed


section \<open>Insertion\<close>

text \<open>The effect of an insertion on the sorted contents; \<open>t\<close> is the tag of the next free slot.\<close>

fun ins_entry :: "'k::linorder \<Rightarrow> 'v \<Rightarrow> 't \<Rightarrow> ('k \<times> 'v \<times> 't) list \<Rightarrow> ('k \<times> 'v \<times> 't) list" where
  "ins_entry k v t [] = [(k, v, t)]"
| "ins_entry k v t ((k', v', t') # xs) =
     (if k = k' then (k, v, t') # xs
      else if k < k' then (k, v, t) # (k', v', t') # xs
      else (k', v', t') # ins_entry k v t xs)"

lemma ins_entry_left:
  "k < fst x \<Longrightarrow> ins_entry k v t (xs @ x # ys) = ins_entry k v t xs @ x # ys"
  by (induction xs) (cases x; auto)+

lemma ins_entry_right:
  "\<forall>z\<in>set (xs @ [x]). fst z < k \<Longrightarrow>
   ins_entry k v t (xs @ x # ys) = xs @ x # ins_entry k v t ys"
  by (induction xs) (cases x; auto)+

lemma ins_entry_keys: "fst ` set (ins_entry k v t xs) = insert k (fst ` set xs)"
  by (induction k v t xs rule: ins_entry.induct) auto

lemma ins_entry_sorted: "sorted_keys xs \<Longrightarrow> sorted_keys (ins_entry k v t xs)"
proof (induction k v t xs rule: ins_entry.induct)
  case (2 k v t k' v' t' xs)
  have "k' < fst y" if "y \<in> set (ins_entry k v t xs)" "k' < k" for y
  proof -
    have "fst y \<in> insert k (fst ` set xs)"
      unfolding ins_entry_keys [of k v t xs, symmetric] using that(1) by simp
    then show ?thesis using that(2) 2(2) by auto
  qed
  with 2 show ?case by auto
qed simp

lemma map_of_ins_entry:
  "sorted_keys xs \<Longrightarrow> map_of (ins_entry k v t xs) =
     (map_of xs)(k \<mapsto> (v, case map_of xs k of Some (_, t') \<Rightarrow> t' | None \<Rightarrow> t))"
  by (induction k v t xs rule: ins_entry.induct)
    (auto simp: fun_eq_iff split: option.splits dest!: map_of_SomeD)

lemma alloc_slot_free:
  assumes "free_ok (arena m) (h_free_head (header m)) (f # fs)" "length (arena m) \<le> 65535"
  obtains ar' fh' where
    "alloc_slot m k (Some v) =
       Some (m\<lparr>header := (header m)\<lparr>h_free_head := fh'\<rparr>, arena := ar'\<rparr>, Inr f)"
    "free_ok ar' fh' fs" "sub_ok ar' (Some f) \<langle>\<langle>\<rangle>, f, \<langle>\<rangle>\<rangle>" "f < length ar'"
    "entry (ar' ! f) = (k, v, s_tag (arena m ! f))" "agree (- {f}) (arena m) ar'"
proof -
  define n where "n = slot_set_used True (slot_set_height 1 (slot_set_r None (slot_set_l None
    ((arena m ! f)\<lparr>s_key := k, s_val := v\<rparr>))))"
  define ar' where "ar' = (arena m)[f := n]"
  have f: "f < length (arena m)" "f \<notin> set fs" "chain (arena m) (slot_l (arena m ! f)) fs"
    "h_free_head (header m) = Some f" "\<forall>i\<in>set fs. \<not> slot_is_used (arena m ! i)" "distinct fs"
    using assms(1) by (auto simp: free_ok_def)
  have ag: "agree (- {f}) (arena m) ar'" unfolding ar'_def by (rule agree_update) simp
  have n: "slot_l n = None" "slot_r n = None" "slot_is_used n" "uint (slot_height n) = 1"
    "entry n = (k, v, s_tag (arena m ! f))"
    using uint_height_field [of 1] by (auto simp: n_def slot_simps entry_def)
  show thesis
  proof (rule that [of ar' "slot_l (arena m ! f)"])
    show "alloc_slot m k (Some v) = Some (m\<lparr>header := (header m)\<lparr>h_free_head := slot_l (arena m ! f)\<rparr>,
        arena := ar'\<rparr>, Inr f)"
      using f by (simp add: alloc_slot_def ar'_def n_def)
    have "free_ok (arena m) (slot_l (arena m ! f)) fs" using f by (simp add: free_ok_def)
    then show "free_ok ar' (slot_l (arena m ! f)) fs"
      using free_ok_agree [OF ag, of fs] f(2) by auto
    show "sub_ok ar' (Some f) \<langle>\<langle>\<rangle>, f, \<langle>\<rangle>\<rangle>"
      using f n assms(2) by (simp add: sub_ok_def ar'_def)
  qed (use f n ag in \<open>simp_all add: ar'_def\<close>)
qed


fun root_ix :: "nat tree \<Rightarrow> nat option" where
  "root_ix \<langle>\<rangle> = None"
| "root_ix \<langle>l, i, r\<rangle> = Some i"

lemma sub_ok_root: "sub_ok ar p t \<Longrightarrow> p = root_ix t"
  by (cases t) (auto simp: sub_ok_def)

lemma map_of_left:
  fixes k :: "'k::linorder"
  shows "k < fst x \<Longrightarrow> \<forall>y\<in>set ys. fst x < fst y \<Longrightarrow> map_of (xs @ x # ys) k = map_of xs k"
proof (induction xs)
  case Nil
  then have "k \<notin> fst ` set (x # ys)" by force
  then show ?case unfolding append_Nil by (metis map_of.simps(1) map_of_eq_None_iff)
qed auto

lemma map_of_right:
  fixes k :: "'k::linorder"
  shows "fst x < k \<Longrightarrow> \<forall>y\<in>set xs. fst y < fst x \<Longrightarrow> map_of (xs @ x # ys) k = map_of ys k"
  by (induction xs) auto

text \<open>
  What an insertion into a subtree \<open>t\<close> with free slots \<open>fs\<close> establishes; a new key takes the first
  free slot and its tag.
\<close>

definition ins_post ::
  "('k::linorder, 'v, 't) avl_map \<Rightarrow> 'k \<Rightarrow> 'v \<Rightarrow> ('v, 't) insert_out \<Rightarrow> nat tree \<Rightarrow> nat list \<Rightarrow>
   ('k, 'v, 't) slot list \<Rightarrow> nat option \<Rightarrow> ('v, 't) insert_out \<Rightarrow> nat \<Rightarrow> nat tree \<Rightarrow> bool" where
  "ins_post m k v out t fs ar' fh' out' j t' \<longleftrightarrow>
     (let old = map_of (contents (arena m) t) k; new = (old = None); tag = s_tag (arena m ! hd fs)
      in insert_rec m (root_ix t) k (Some v) out =
           Some (m\<lparr>header := (header m)\<lparr>h_free_head := fh'\<rparr>, arena := ar'\<rparr>, out', Inr (Some j)) \<and>
         sub_ok ar' (Some j) t' \<and> free_ok ar' fh' (if new then tl fs else fs) \<and>
         contents ar' t' = ins_entry k v tag (contents (arena m) t) \<and>
         height t' \<in> {height t, height t + 1} \<and>
         set_tree t' = set_tree t \<union> (if new then {hd fs} else {}) \<and>
         agree (- set_tree t') (arena m) ar' \<and>
         inserted_new out' = (new \<or> inserted_new out) \<and>
         out_old out' = (if new then out_old out else map_option fst old) \<and>
         out_tag out' = (if new then Some tag else map_option snd old))"

lemma insert_rec_leaf:
  assumes "free_ok (arena m) (h_free_head (header m)) fs" "fs \<noteq> []" "length (arena m) \<le> 65535"
  shows "\<exists>ar' fh' out' j t'. ins_post m k v out \<langle>\<rangle> fs ar' fh' out' j t'"
proof -
  obtain f fs' where fs: "fs = f # fs'" using assms(2) by (cases fs) auto
  obtain ar' fh' where
    a: "alloc_slot m k (Some v) =
       Some (m\<lparr>header := (header m)\<lparr>h_free_head := fh'\<rparr>, arena := ar'\<rparr>, Inr f)"
    "free_ok ar' fh' fs'" "sub_ok ar' (Some f) \<langle>\<langle>\<rangle>, f, \<langle>\<rangle>\<rangle>" "f < length ar'"
    "entry (ar' ! f) = (k, v, s_tag (arena m ! f))" "agree (- {f}) (arena m) ar'"
    by (rule alloc_slot_free [OF assms(1) [unfolded fs] assms(3)])
  have "ins_post m k v out \<langle>\<rangle> fs ar' fh'
      (out\<lparr>inserted_new := True, out_tag := Some (s_tag (ar' ! f)), occupied_at := f\<rparr>) f \<langle>\<langle>\<rangle>, f, \<langle>\<rangle>\<rangle>"
    using a by (simp add: ins_post_def insert_rec.simps fs entry_def)
  then show ?thesis by blast
qed


lemma insert_rec_equal:
  assumes t: "sub_ok (arena m) p \<langle>l, i, r\<rangle>" and k: "k = s_key (arena m ! i)"
    and fs: "free_ok (arena m) (h_free_head (header m)) fs" "set_tree \<langle>l, i, r\<rangle> \<inter> set fs = {}"
  shows "\<exists>ar' fh' out' j t'. ins_post m k v out \<langle>l, i, r\<rangle> fs ar' fh' out' j t'"
proof -
  note n = sub_ok_Node [OF t]
  define e where "e = arena m ! i"
  define ar' where "ar' = (arena m)[i := e\<lparr>s_val := v\<rparr>]"
  have ag: "agree (- {i}) (arena m) ar'" unfolding ar'_def by (rule agree_update) simp
  have e': "ar' ! i = e\<lparr>s_val := v\<rparr>" using n(2) by (simp add: ar'_def)
  have c: "contents ar' l = contents (arena m) l" "contents ar' r = contents (arena m) r"
    using contents_agree [OF ag] n(5,6) by auto
  have "sub_ok ar' (slot_l (arena m ! i)) l" "sub_ok ar' (slot_r (arena m ! i)) r"
    using n sub_ok_agree [OF ag, of l] sub_ok_agree [OF ag, of r] by auto
  then have "sub_ok ar' (Some i) \<langle>l, i, r\<rangle>"
    using n t ag by (intro sub_ok_NodeI) (auto simp: e' c slot_simps e_def agree_def sub_ok_def)
  moreover have "free_ok ar' (h_free_head (header m)) fs"
    using fs free_ok_agree [OF ag, of fs] by auto
  moreover have "map_of (contents (arena m) \<langle>l, i, r\<rangle>) k = Some (s_val e, s_tag e)"
    using n(11) k by (auto simp: map_add_def entry_def e_def split: option.splits dest!: map_of_SomeD)
  moreover have "contents ar' \<langle>l, i, r\<rangle> = ins_entry k v t0 (contents (arena m) \<langle>l, i, r\<rangle>)" for t0
  proof -
    have "ins_entry k v t0 (xs @ entry e # ys) = xs @ (k, v, s_tag e) # ys"
      if "\<forall>x\<in>set xs. fst x < k" for xs ys
      using that by (induction xs) (auto simp: entry_def k e_def)
    then show ?thesis using n(11) k by (simp add: c e' entry_def e_def)
  qed
  ultimately have "ins_post m k v out \<langle>l, i, r\<rangle> fs ar' (h_free_head (header m))
     (out\<lparr>out_old := Some (s_val e), out_tag := Some (s_tag e), occupied_at := i\<rparr>) i \<langle>l, i, r\<rangle>"
    using n(2) k agree_mono [OF ag, of "- set_tree \<langle>l, i, r\<rangle>"]
    by (simp add: ins_post_def insert_rec.simps [of m "Some i"] e_def ar'_def)
  then show ?thesis by blast
qed



lemmas reattach_l = reattach [OF _ _ _ _ _ _ _ _ _ _ _ disjI1 [OF conjI [OF refl refl]]]
lemmas reattach_r = reattach [OF _ _ _ _ _ _ _ _ _ _ _ disjI2 [OF conjI [OF refl refl]]]

lemma ins_entry_bounds:
  "k < a \<Longrightarrow> \<forall>x\<in>set xs. fst x < a \<Longrightarrow> \<forall>x\<in>set (ins_entry k v t xs). fst x < a"
  "a < k \<Longrightarrow> \<forall>x\<in>set xs. a < fst x \<Longrightarrow> \<forall>x\<in>set (ins_entry k v t xs). a < fst x"
  by (induction k v t xs rule: ins_entry.induct) auto

text \<open>The frame of an insertion into a child \<open>c\<close> of node \<open>i\<close> whose other child is \<open>d\<close>.\<close>

lemma ins_child:
  assumes ih: "ins_post m k v out c fs ar1 fh1 out1 j1 c1"
    and d: "sub_ok (arena m) pd d" "i \<notin> set_tree c" "i \<notin> set_tree d" "set_tree c \<inter> set_tree d = {}"
    and fs: "set_tree \<langle>c, i, d\<rangle> \<inter> set fs = {}"
      "free_ok (arena m) (h_free_head (header m)) fs"
      "map_of (contents (arena m) c) k = None \<Longrightarrow> fs \<noteq> []"
  shows "ar1 ! i = arena m ! i" "length ar1 = length (arena m)" "sub_ok ar1 pd d"
    "contents ar1 d = contents (arena m) d" "i \<notin> set_tree c1" "set_tree c1 \<inter> set_tree d = {}"
    "set (if map_of (contents (arena m) c) k = None then tl fs else fs) \<subseteq> - set_tree \<langle>c1, i, d\<rangle>"
proof -
  have c1: "set_tree c1 = set_tree c \<union> (if map_of (contents (arena m) c) k = None then {hd fs} else {})"
    and ag: "agree (- set_tree c1) (arena m) ar1"
    using ih unfolding ins_post_def Let_def by blast+
  have hd: "map_of (contents (arena m) c) k = None \<Longrightarrow> hd fs \<in> set fs \<and> hd fs \<notin> set (tl fs)"
    using fs(2,3) by (cases fs) (auto simp: free_ok_def)
  have tl: "set (tl fs) \<subseteq> set fs" by (cases fs) auto
  show i: "i \<notin> set_tree c1" and dis: "set_tree c1 \<inter> set_tree d = {}"
    using c1 d fs(1) hd by (auto split: if_splits)
  show "set (if map_of (contents (arena m) c) k = None then tl fs else fs) \<subseteq> - set_tree \<langle>c1, i, d\<rangle>"
    using c1 d fs(1) hd tl by (auto split: if_splits)
  show "ar1 ! i = arena m ! i" "length ar1 = length (arena m)" using ag i by (auto simp: agree_def)
  have "set_tree d \<subseteq> - set_tree c1" using dis by auto
  then show "sub_ok ar1 pd d" "contents ar1 d = contents (arena m) d"
    using d(1) sub_ok_agree [OF ag] contents_agree [OF ag] by auto
qed

text \<open>Growing one side of a balanced node by at most 1.\<close>

lemma height_bal_grow:
  assumes "avl l" "avl r" "height l \<in> {hl, hl + 1} \<and> height r = hr \<or> height l = hl \<and> height r \<in> {hr, hr + 1}"
    "hl \<le> hr + 1" "hr \<le> hl + 1"
  shows "height (bal l i r) \<in> {max hl hr + 1, max hl hr + 2}"
proof (cases "height l \<le> height r + 1 \<and> height r \<le> height l + 1")
  case True
  then have "bal l i r = \<langle>l, i, r\<rangle>" by (intro bal_balanced) auto
  then show ?thesis using assms(3-5) by auto
next
  case False
  then have "height l \<le> height r + 2" "height r \<le> height l + 2" using assms(3-5) by auto
  from avl_bal(2) [OF assms(1,2) this, of i] show ?thesis using False assms(3-5) by auto
qed

lemma insert_rec_left:
  assumes t: "sub_ok (arena m) p \<langle>l, i, r\<rangle>" and k: "k < s_key (arena m ! i)"
    and fs: "set_tree \<langle>l, i, r\<rangle> \<inter> set fs = {}" "free_ok (arena m) (h_free_head (header m)) fs"
    and new: "map_of (contents (arena m) l) k = None \<Longrightarrow> fs \<noteq> []"
    and ih: "ins_post m k v out l fs ar1 fh1 out1 j1 l1"
  shows "\<exists>ar' fh' out' j t'. ins_post m k v out \<langle>l, i, r\<rangle> fs ar' fh' out' j t'"
proof -
  note n = sub_ok_Node [OF t]
  note c = ins_child [OF ih n(4,5,6,7) fs new]
  note p = ih [unfolded ins_post_def Let_def]
  have l1: "sub_ok ar1 (Some j1) l1"
    "contents ar1 l1 = ins_entry k v (s_tag (arena m ! hd fs)) (contents (arena m) l)"
    "height l1 \<in> {height l, height l + 1}" "agree (- set_tree l1) (arena m) ar1"
    using p by blast+
  have pr: "slot_r (arena m ! i) = slot_r (ar1 ! i)" using c(1) by simp
  have key: "\<forall>x\<in>set (contents ar1 l1). fst x < s_key (ar1 ! i)"
    "\<forall>x\<in>set (contents ar1 r). s_key (ar1 ! i) < fst x"
    using n(11,12) k c(1,4) by (simp_all add: l1(2) ins_entry_bounds)
  have i1: "i < length ar1" "slot_is_used (ar1 ! i)" "height l1 \<le> height r + 2" "height r \<le> height l1 + 2"
    using n(2,8,9,10) c(1,2) l1(3) by auto
  obtain ar3 j where a3: "rebalance (ar1[i := slot_set_l (Some j1) (ar1 ! i)]) i = Some (ar3, j)"
    "sub_ok ar3 (Some j) (bal l1 i r)"
    "contents ar3 (bal l1 i r) = contents ar1 l1 @ entry (ar1 ! i) # contents ar1 r"
    "agree (- (set_tree l1 \<union> {i} \<union> set_tree r)) ar1 ar3"
    by (rule reattach_l [OF l1(1) c(3) [unfolded pr] i1(1) c(5) n(6) c(6) i1(2) key i1(3,4)])
  have "height (bal l1 i r) \<in> {height \<langle>l, i, r\<rangle>, height \<langle>l, i, r\<rangle> + 1}"
    using height_bal_grow [of l1 r "height l" "height r" i] n l1 by (auto simp: sub_ok_def)
  moreover have "agree (- set_tree (bal l1 i r)) (arena m) ar3"
    unfolding set_tree_bal by (rule agree_trans [OF agree_mono [OF l1(4)] a3(4)]) auto
  moreover have "map_of (contents (arena m) \<langle>l, i, r\<rangle>) k = map_of (contents (arena m) l) k"
    unfolding contents_simps by (rule map_of_left) (use n k in \<open>auto simp: entry_def\<close>)
  moreover have "contents ar3 (bal l1 i r) =
      ins_entry k v (s_tag (arena m ! hd fs)) (contents (arena m) \<langle>l, i, r\<rangle>)"
    using a3(3) c(1,4) l1(2) k by (simp add: ins_entry_left entry_def)
  moreover have "free_ok ar3 fh1 (if map_of (contents (arena m) l) k = None then tl fs else fs)"
    using free_ok_agree [OF a3(4)] c(7) p by auto
  moreover have "insert_rec m (Some i) k (Some v) out =
      Some (m\<lparr>header := (header m)\<lparr>h_free_head := fh1\<rparr>, arena := ar3\<rparr>, out1, Inr (Some j))"
    using p n(2) k less_imp_neq [OF k] a3(1) c(2) sub_ok_root [OF n(3)] by (subst insert_rec.simps) simp
  ultimately have "ins_post m k v out \<langle>l, i, r\<rangle> fs ar3 fh1 out1 j (bal l1 i r)"
    unfolding ins_post_def Let_def using p a3(2) by (simp add: Un_commute Un_left_commute)
  then show ?thesis by blast
qed

lemma insert_rec_right:
  assumes t: "sub_ok (arena m) p \<langle>l, i, r\<rangle>" and k: "s_key (arena m ! i) < k"
    and fs: "set_tree \<langle>r, i, l\<rangle> \<inter> set fs = {}" "free_ok (arena m) (h_free_head (header m)) fs"
    and new: "map_of (contents (arena m) r) k = None \<Longrightarrow> fs \<noteq> []"
    and ih: "ins_post m k v out r fs ar1 fh1 out1 j1 r1"
  shows "\<exists>ar' fh' out' j t'. ins_post m k v out \<langle>l, i, r\<rangle> fs ar' fh' out' j t'"
proof -
  note n = sub_ok_Node [OF t]
  have dis: "set_tree r \<inter> set_tree l = {}" using n(7) by auto
  note c = ins_child [OF ih n(3,6,5) dis fs new]
  note p = ih [unfolded ins_post_def Let_def]
  have r1: "sub_ok ar1 (Some j1) r1"
    "contents ar1 r1 = ins_entry k v (s_tag (arena m ! hd fs)) (contents (arena m) r)"
    "height r1 \<in> {height r, height r + 1}" "agree (- set_tree r1) (arena m) ar1"
    using p by blast+
  have pl: "slot_l (arena m ! i) = slot_l (ar1 ! i)" using c(1) by simp
  have key: "\<forall>x\<in>set (contents ar1 l). fst x < s_key (ar1 ! i)"
    "\<forall>x\<in>set (contents ar1 r1). s_key (ar1 ! i) < fst x"
    using n(11,12) k c(1,4) by (simp_all add: r1(2) ins_entry_bounds)
  have i1: "i < length ar1" "slot_is_used (ar1 ! i)" "height l \<le> height r1 + 2" "height r1 \<le> height l + 2"
    "set_tree l \<inter> set_tree r1 = {}"
    using n(2,8,9,10) c(1,2,6) r1(3) by auto
  obtain ar3 j where a3: "rebalance (ar1[i := slot_set_r (Some j1) (ar1 ! i)]) i = Some (ar3, j)"
    "sub_ok ar3 (Some j) (bal l i r1)"
    "contents ar3 (bal l i r1) = contents ar1 l @ entry (ar1 ! i) # contents ar1 r1"
    "agree (- (set_tree l \<union> {i} \<union> set_tree r1)) ar1 ar3"
    by (rule reattach_r [OF c(3) [unfolded pl] r1(1) i1(1) n(5) c(5) i1(5,2) key i1(3,4)])
  have "height (bal l i r1) \<in> {height \<langle>l, i, r\<rangle>, height \<langle>l, i, r\<rangle> + 1}"
    using height_bal_grow [of l r1 "height l" "height r" i] n r1 by (auto simp: sub_ok_def)
  moreover have "agree (- set_tree (bal l i r1)) (arena m) ar3"
    unfolding set_tree_bal by (rule agree_trans [OF agree_mono [OF r1(4)] a3(4)]) auto
  moreover have "map_of (contents (arena m) \<langle>l, i, r\<rangle>) k = map_of (contents (arena m) r) k"
    unfolding contents_simps by (rule map_of_right) (use n k in \<open>auto simp: entry_def\<close>)
  moreover have "contents ar3 (bal l i r1) =
      ins_entry k v (s_tag (arena m ! hd fs)) (contents (arena m) \<langle>l, i, r\<rangle>)"
  proof -
    have "\<forall>z\<in>set (contents (arena m) l @ [entry (arena m ! i)]). fst z < k"
      using n(11) k by (auto simp: entry_def)
    from ins_entry_right [OF this] show ?thesis using a3(3) c(1,4) r1(2) by simp
  qed
  moreover have "free_ok ar3 fh1 (if map_of (contents (arena m) r) k = None then tl fs else fs)"
  proof -
    have "set (if map_of (contents (arena m) r) k = None then tl fs else fs) \<subseteq>
        - (set_tree l \<union> {i} \<union> set_tree r1)" using c(7) by auto
    from free_ok_agree [OF a3(4) this] show ?thesis using p by blast
  qed
  moreover have "insert_rec m (Some i) k (Some v) out =
      Some (m\<lparr>header := (header m)\<lparr>h_free_head := fh1\<rparr>, arena := ar3\<rparr>, out1, Inr (Some j))"
    using p n(2) k less_not_sym [OF k] less_imp_neq [OF k] a3(1) c(2) sub_ok_root [OF n(4)] by (subst insert_rec.simps) simp
  ultimately have "ins_post m k v out \<langle>l, i, r\<rangle> fs ar3 fh1 out1 j (bal l i r1)"
    unfolding ins_post_def Let_def using p a3(2) by (simp add: Un_commute Un_left_commute)
  then show ?thesis by blast
qed


lemma insert_rec_spec:
  assumes "sub_ok (arena m) p t" "free_ok (arena m) (h_free_head (header m)) fs"
    "set_tree t \<inter> set fs = {}" "map_of (contents (arena m) t) k = None \<Longrightarrow> fs \<noteq> []"
  shows "\<exists>ar' fh' out' j t'. ins_post m k v out t fs ar' fh' out' j t'"
  using assms
proof (induction t arbitrary: p)
  case Leaf
  then show ?case by (intro insert_rec_leaf) auto
next
  case (Node l i r)
  note n = sub_ok_Node [OF Node.prems(1)]
  show ?case
  proof (cases k "s_key (arena m ! i)" rule: linorder_cases)
    case less
    have "map_of (contents (arena m) \<langle>l, i, r\<rangle>) k = map_of (contents (arena m) l) k"
      unfolding contents_simps by (rule map_of_left) (use n less in \<open>auto simp: entry_def\<close>)
    with Node.prems(4) have new: "map_of (contents (arena m) l) k = None \<Longrightarrow> fs \<noteq> []" by simp
    obtain ar1 fh1 out1 j1 l1 where "ins_post m k v out l fs ar1 fh1 out1 j1 l1"
      using Node.IH(1) [OF n(3) Node.prems(2) _ new] Node.prems(3) by (auto simp: Int_Un_distrib2)
    with insert_rec_left [OF Node.prems(1) less Node.prems(3,2) new] show ?thesis by blast
  next
    case equal
    with insert_rec_equal [OF Node.prems(1) _ Node.prems(2,3)] show ?thesis by simp
  next
    case greater
    have "map_of (contents (arena m) \<langle>l, i, r\<rangle>) k = map_of (contents (arena m) r) k"
      unfolding contents_simps by (rule map_of_right) (use n greater in \<open>auto simp: entry_def\<close>)
    with Node.prems(4) have new: "map_of (contents (arena m) r) k = None \<Longrightarrow> fs \<noteq> []" by simp
    have dis: "set_tree \<langle>r, i, l\<rangle> \<inter> set fs = {}" using Node.prems(3) by auto
    obtain ar1 fh1 out1 j1 r1 where "ins_post m k v out r fs ar1 fh1 out1 j1 r1"
      using Node.IH(2) [OF n(4) Node.prems(2) _ new] dis by (auto simp: Int_Un_distrib2)
    with insert_rec_right [OF Node.prems(1) greater dis Node.prems(2) new] show ?thesis by blast
  qed
qed

text \<open>Without a free slot a new key is refused, and nothing has been written.\<close>

lemma insert_rec_full:
  assumes "sub_ok (arena m) p t" "h_free_head (header m) = None"
    "map_of (contents (arena m) t) k = None"
  shows "insert_rec m p k v out = Some (m, out\<lparr>inserted_new := True\<rparr>, Inl Full)"
  using assms
proof (induction t arbitrary: p)
  case Leaf
  then show ?case by (simp add: insert_rec.simps alloc_slot_def)
next
  case (Node l i r)
  note n = sub_ok_Node [OF Node.prems(1)]
  have k: "k \<noteq> s_key (arena m ! i)" "map_of (contents (arena m) l) k = None"
    "map_of (contents (arena m) r) k = None"
    using Node.prems(3) unfolding map_of_eq_None_iff by (auto simp: entry_def)
  show ?case
    using n(2) k(1) Node.IH(1) [OF n(3) Node.prems(2) k(2)] Node.IH(2) [OF n(4) Node.prems(2) k(3)]
    unfolding n(1) by (subst insert_rec.simps) simp
qed



section \<open>Removal\<close>

lemma free_slot_ok:
  assumes fs: "free_ok (arena m) (h_free_head (header m)) fs" and i: "i < length (arena m)" "i \<notin> set fs"
    and len: "length (arena m) \<le> 65535"
  obtains ar' where
    "free_slot m i = Some (m\<lparr>header := (header m)\<lparr>h_free_head := Some i\<rparr>, arena := ar'\<rparr>)"
    "free_ok ar' (Some i) (i # fs)" "s_tag (ar' ! i) = s_tag (arena m ! i)" "agree (- {i}) (arena m) ar'"
proof -
  define fh where "fh = h_free_head (header m)"
  define n where "n = slot_set_l fh (slot_set_r None (slot_set_height 0 (slot_set_used False (arena m ! i))))"
  define ar' where "ar' = (arena m)[i := n]"
  have ag: "agree (- {i}) (arena m) ar'" unfolding ar'_def by (rule agree_update) simp
  have ok: "link_ok fh" using fs len by (cases fs) (auto simp: free_ok_def fh_def)
  have n: "slot_l n = fh" "\<not> slot_is_used n" "s_tag n = s_tag (arena m ! i)"
    using ok by (auto simp: n_def slot_simps)
  have "free_ok ar' fh fs" using fs free_ok_agree [OF ag, of fs] i(2) by (auto simp: fh_def)
  then have "free_ok ar' (Some i) (i # fs)" using i n by (auto simp: free_ok_def ar'_def)
  moreover have "free_slot m i = Some (m\<lparr>header := (header m)\<lparr>h_free_head := Some i\<rparr>, arena := ar'\<rparr>)"
    using i(1) by (simp add: free_slot_def ar'_def n_def fh_def)
  ultimately show thesis using that ag n(3) i(1) by (simp add: ar'_def)
qed

lemma min_index_repr: "repr ar (Some j) t \<Longrightarrow> min_index ar j = Some (hd (inorder t))"
proof (induction t arbitrary: j)
  case (Node l i r)
  show ?case
  proof (cases l)
    case Leaf
    then show ?thesis using Node.prems by (auto simp: min_index.simps)
  next
    case (Node l' i' r')
    then have "hd (inorder l @ i # inorder r) = hd (inorder l)" by (simp add: hd_append)
    then show ?thesis
      using Node.prems Node.IH(1) [of i'] \<open>l = _\<close> by (subst min_index.simps) (auto simp: hd_append)
  qed
qed simp

text \<open>
  What a removal from a subtree \<open>t\<close> establishes; \<open>gs\<close> lists the freed slot, if the key was
  there.  The freed slot carries the tag of the removed key.
\<close>

definition del_post ::
  "('k::linorder, 'v, 't) avl_map \<Rightarrow> 'k \<Rightarrow> 'v option \<times> bool \<Rightarrow> nat tree \<Rightarrow> nat list \<Rightarrow>
   ('k, 'v, 't) slot list \<Rightarrow> nat option \<Rightarrow> 'v option \<times> bool \<Rightarrow> nat list \<Rightarrow> nat tree \<Rightarrow> bool" where
  "del_post m k out t fs ar' fh' out' gs t' \<longleftrightarrow>
     (let old = map_of (contents (arena m) t) k
      in delete_rec m (root_ix t) k out =
           Some (m\<lparr>header := (header m)\<lparr>h_free_head := fh'\<rparr>, arena := ar'\<rparr>, out', root_ix t') \<and>
         sub_ok ar' (root_ix t') t' \<and> free_ok ar' fh' (gs @ fs) \<and>
         contents ar' t' = filter (\<lambda>x. fst x \<noteq> k) (contents (arena m) t) \<and>
         height t' \<le> height t \<and> height t \<le> height t' + 1 \<and>
         set gs \<subseteq> set_tree t \<and> set_tree t' = set_tree t - set gs \<and>
         tags ar' gs = (case old of None \<Rightarrow> [] | Some (_, tg) \<Rightarrow> [tg]) \<and>
         out' = (case old of None \<Rightarrow> out | Some (v, _) \<Rightarrow> (Some v, True)) \<and>
         agree (- set_tree t) (arena m) ar')"

lemma filter_key_id: "\<forall>x\<in>set xs. fst x \<noteq> k \<Longrightarrow> filter (\<lambda>x. fst x \<noteq> k) xs = xs"
  by (induction xs) auto

lemma map_of_node:
  assumes "sub_ok ar p \<langle>l, i, r\<rangle>"
  shows "map_of (contents ar \<langle>l, i, r\<rangle>) (s_key (ar ! i)) = Some (s_val (ar ! i), s_tag (ar ! i))"
  using sub_ok_Node(11) [OF assms]
  by (auto simp: map_add_def entry_def split: option.splits dest!: map_of_SomeD)

text \<open>A node with at most one child \<open>c\<close> is replaced by that child.\<close>

lemma delete_rec_unlink:
  assumes t: "sub_ok (arena m) p \<langle>l, i, r\<rangle>" and k: "k = s_key (arena m ! i)"
    and fs: "free_ok (arena m) (h_free_head (header m)) fs" "set_tree \<langle>l, i, r\<rangle> \<inter> set fs = {}"
    and c: "l = \<langle>\<rangle> \<and> c = r \<or> r = \<langle>\<rangle> \<and> c = l"
  shows "\<exists>ar' fh' out' gs t'. del_post m k out \<langle>l, i, r\<rangle> fs ar' fh' out' gs t'"
proof -
  note n = sub_ok_Node [OF t]
  have ifs: "i \<notin> set fs" and len: "length (arena m) \<le> 65535" using fs(2) t by (auto simp: sub_ok_def)
  obtain ar' where fr: "free_slot m i = Some (m\<lparr>header := (header m)\<lparr>h_free_head := Some i\<rparr>, arena := ar'\<rparr>)"
    "free_ok ar' (Some i) (i # fs)" "s_tag (ar' ! i) = s_tag (arena m ! i)" "agree (- {i}) (arena m) ar'"
    by (rule free_slot_ok [OF fs(1) n(2) ifs len])
  have ci: "i \<notin> set_tree c" "set_tree \<langle>l, i, r\<rangle> - {i} = set_tree c" using n(5,6) c by auto
  have cs: "contents (arena m) \<langle>l, i, r\<rangle> = contents (arena m) l @ (k, s_val (arena m ! i), s_tag (arena m ! i)) # contents (arena m) r"
    by (simp add: entry_def k)
  have flt: "filter (\<lambda>x. fst x \<noteq> k) (contents (arena m) \<langle>l, i, r\<rangle>) = contents (arena m) c"
    unfolding cs using n(11,12) c k by (fastforce intro!: filter_key_id)
  have sub: "sub_ok ar' (root_ix c) c" "contents ar' c = contents (arena m) c"
    using n(3,4) c sub_ok_root [of "arena m" _ c] ci(1) sub_ok_agree [OF fr(4), of c]
      contents_agree [OF fr(4), of c] by auto
  have "delete_rec m (Some i) k out =
      Some (m\<lparr>header := (header m)\<lparr>h_free_head := Some i\<rparr>, arena := ar'\<rparr>, (Some (s_val (arena m ! i)), True), root_ix c)"
    using c n(2,3,4) fr(1) k sub_ok_root [OF n(3)] sub_ok_root [OF n(4)]
    by (subst delete_rec.simps) (cases l; cases r; auto)
  moreover have "height c \<le> height \<langle>l, i, r\<rangle>" "height \<langle>l, i, r\<rangle> \<le> height c + 1" "i \<in> set_tree \<langle>l, i, r\<rangle>"
    using c n(8,9) by auto
  moreover have "agree (- set_tree \<langle>l, i, r\<rangle>) (arena m) ar'" by (rule agree_mono [OF fr(4)]) auto
  ultimately have "del_post m k out \<langle>l, i, r\<rangle> fs ar' (Some i) (Some (s_val (arena m ! i)), True) [i] c"
    unfolding del_post_def Let_def flt map_of_node [OF t, folded k] using fr(2,3) sub ci(2)
    by (simp add: tags_def del: contents_simps tree.set height_tree.simps)
  then show ?thesis by blast
qed

lemma height_bal_shrink:
  assumes "avl l" "avl r"
    "height l \<le> hl \<and> hl \<le> height l + 1 \<and> height r = hr \<or> height l = hl \<and> height r \<le> hr \<and> hr \<le> height r + 1"
    "hl \<le> hr + 1" "hr \<le> hl + 1"
  shows "height (bal l i r) \<le> max hl hr + 1" "max hl hr + 1 \<le> height (bal l i r) + 1"
proof -
  have "height l \<le> height r + 2" "height r \<le> height l + 2" using assms(3-5) by auto
  note b = avl_bal(2) [OF assms(1,2) this, of i]
  have "height (bal l i r) \<le> max hl hr + 1 \<and> max hl hr + 1 \<le> height (bal l i r) + 1"
  proof (cases "height l \<le> height r + 1 \<and> height r \<le> height l + 1")
    case True
    then have "bal l i r = \<langle>l, i, r\<rangle>" by (intro bal_balanced) auto
    then show ?thesis using assms(3-5) by auto
  next
    case False
    then show ?thesis using b assms(3-5) by auto
  qed
  then show "height (bal l i r) \<le> max hl hr + 1" "max hl hr + 1 \<le> height (bal l i r) + 1" by auto
qed

text \<open>The frame of a removal from a child \<open>c\<close> of node \<open>i\<close> whose other child is \<open>d\<close>.\<close>

lemma del_child:
  assumes ih: "del_post m k out c fs ar1 fh1 out1 gs c1"
    and d: "sub_ok (arena m) pd d" "i \<notin> set_tree c" "i \<notin> set_tree d" "set_tree c \<inter> set_tree d = {}"
    and fs: "set_tree \<langle>c, i, d\<rangle> \<inter> set fs = {}"
  shows "ar1 ! i = arena m ! i" "length ar1 = length (arena m)" "sub_ok ar1 pd d"
    "contents ar1 d = contents (arena m) d" "i \<notin> set_tree c1" "set_tree c1 \<inter> set_tree d = {}"
    "set (gs @ fs) \<subseteq> - set_tree \<langle>c1, i, d\<rangle>"
proof -
  have c1: "set_tree c1 = set_tree c - set gs" "set gs \<subseteq> set_tree c"
    and ag: "agree (- set_tree c) (arena m) ar1"
    using ih unfolding del_post_def Let_def by blast+
  show "i \<notin> set_tree c1" "set_tree c1 \<inter> set_tree d = {}" "set (gs @ fs) \<subseteq> - set_tree \<langle>c1, i, d\<rangle>"
    using c1 d fs by auto
  show "ar1 ! i = arena m ! i" "length ar1 = length (arena m)" using ag d(2) by (auto simp: agree_def)
  have "set_tree d \<subseteq> - set_tree c" using d(4) by auto
  then show "sub_ok ar1 pd d" "contents ar1 d = contents (arena m) d"
    using d(1) sub_ok_agree [OF ag] contents_agree [OF ag] by auto
qed

lemma delete_rec_left:
  assumes t: "sub_ok (arena m) p \<langle>l, i, r\<rangle>" and k: "k < s_key (arena m ! i)"
    and fs: "set_tree \<langle>l, i, r\<rangle> \<inter> set fs = {}"
    and ih: "del_post m k out l fs ar1 fh1 out1 gs l1"
  shows "\<exists>ar' fh' out' gs t'. del_post m k out \<langle>l, i, r\<rangle> fs ar' fh' out' gs t'"
proof -
  note n = sub_ok_Node [OF t]
  note c = del_child [OF ih n(4,5,6,7) fs]
  note p = ih [unfolded del_post_def Let_def]
  have l1: "sub_ok ar1 (root_ix l1) l1" "contents ar1 l1 = filter (\<lambda>x. fst x \<noteq> k) (contents (arena m) l)"
    "height l1 \<le> height l \<and> height l \<le> height l1 + 1" "agree (- set_tree l) (arena m) ar1"
    using p by blast+
  have pr: "slot_r (arena m ! i) = slot_r (ar1 ! i)" using c(1) by simp
  have key: "\<forall>x\<in>set (contents ar1 l1). fst x < s_key (ar1 ! i)"
    "\<forall>x\<in>set (contents ar1 r). s_key (ar1 ! i) < fst x"
    using n(11,12) k c(1,4) by (simp_all add: l1(2))
  have i1: "i < length ar1" "slot_is_used (ar1 ! i)" "height l1 \<le> height r + 2" "height r \<le> height l1 + 2"
    using n(2,8,9,10) c(1,2) l1(3) by auto
  obtain ar3 j where a3: "rebalance (ar1[i := slot_set_l (root_ix l1) (ar1 ! i)]) i = Some (ar3, j)"
    "sub_ok ar3 (Some j) (bal l1 i r)"
    "contents ar3 (bal l1 i r) = contents ar1 l1 @ entry (ar1 ! i) # contents ar1 r"
    "agree (- (set_tree l1 \<union> {i} \<union> set_tree r)) ar1 ar3"
    by (rule reattach_l [OF l1(1) c(3) [unfolded pr] i1(1) c(5) n(6) c(6) i1(2) key i1(3,4)])
  have root: "root_ix (bal l1 i r) = Some j" using sub_ok_root [OF a3(2)] by simp
  have hb: "height (bal l1 i r) \<le> height \<langle>l, i, r\<rangle>" "height \<langle>l, i, r\<rangle> \<le> height (bal l1 i r) + 1"
    using height_bal_shrink [of l1 r "height l" "height r" i] n l1(1,3) by (auto simp: sub_ok_def)
  have "agree (- set_tree \<langle>l, i, r\<rangle>) (arena m) ar3"
    by (rule agree_trans [OF agree_mono [OF l1(4)] agree_mono [OF a3(4)]]) (use p in auto)
  moreover have "map_of (contents (arena m) \<langle>l, i, r\<rangle>) k = map_of (contents (arena m) l) k"
    unfolding contents_simps by (rule map_of_left) (use n k in \<open>auto simp: entry_def\<close>)
  moreover have "contents ar3 (bal l1 i r) = filter (\<lambda>x. fst x \<noteq> k) (contents (arena m) \<langle>l, i, r\<rangle>)"
    using a3(3) c(1,4) l1(2) k n(12) by (force simp: entry_def intro!: filter_key_id [symmetric])
  moreover have "free_ok ar3 fh1 (gs @ fs)" "tags ar3 gs = tags ar1 gs"
    using free_ok_agree [OF a3(4), of "gs @ fs"] tags_agree [OF a3(4), of gs] c(7) p by auto
  moreover have "delete_rec m (Some i) k out =
      Some (m\<lparr>header := (header m)\<lparr>h_free_head := fh1\<rparr>, arena := ar3\<rparr>, out1, Some j)"
    using p n(2) k a3(1) c(2) sub_ok_root [OF n(3)] by (subst delete_rec.simps) simp
  ultimately have "del_post m k out \<langle>l, i, r\<rangle> fs ar3 fh1 out1 gs (bal l1 i r)"
    unfolding del_post_def Let_def using p a3(2) root hb n(5,6,7) by (auto simp del: contents_simps)
  then show ?thesis by blast
qed


lemma delete_rec_right:
  assumes t: "sub_ok (arena m) p \<langle>l, i, r\<rangle>" and k: "s_key (arena m ! i) < k"
    and fs: "set_tree \<langle>r, i, l\<rangle> \<inter> set fs = {}"
    and ih: "del_post m k out r fs ar1 fh1 out1 gs r1"
  shows "\<exists>ar' fh' out' gs t'. del_post m k out \<langle>l, i, r\<rangle> fs ar' fh' out' gs t'"
proof -
  note n = sub_ok_Node [OF t]
  have dis: "set_tree r \<inter> set_tree l = {}" using n(7) by auto
  note c = del_child [OF ih n(3,6,5) dis fs]
  note p = ih [unfolded del_post_def Let_def]
  have r1: "sub_ok ar1 (root_ix r1) r1" "contents ar1 r1 = filter (\<lambda>x. fst x \<noteq> k) (contents (arena m) r)"
    "height r1 \<le> height r \<and> height r \<le> height r1 + 1" "agree (- set_tree r) (arena m) ar1"
    using p by blast+
  have pl: "slot_l (arena m ! i) = slot_l (ar1 ! i)" using c(1) by simp
  have key: "\<forall>x\<in>set (contents ar1 l). fst x < s_key (ar1 ! i)"
    "\<forall>x\<in>set (contents ar1 r1). s_key (ar1 ! i) < fst x"
    using n(11,12) k c(1,4) by (simp_all add: r1(2))
  have i1: "i < length ar1" "slot_is_used (ar1 ! i)" "height l \<le> height r1 + 2" "height r1 \<le> height l + 2"
    "set_tree l \<inter> set_tree r1 = {}"
    using n(2,8,9,10) c(1,2,6) r1(3) by auto
  obtain ar3 j where a3: "rebalance (ar1[i := slot_set_r (root_ix r1) (ar1 ! i)]) i = Some (ar3, j)"
    "sub_ok ar3 (Some j) (bal l i r1)"
    "contents ar3 (bal l i r1) = contents ar1 l @ entry (ar1 ! i) # contents ar1 r1"
    "agree (- (set_tree l \<union> {i} \<union> set_tree r1)) ar1 ar3"
    by (rule reattach_r [OF c(3) [unfolded pl] r1(1) i1(1) n(5) c(5) i1(5,2) key i1(3,4)])
  have root: "root_ix (bal l i r1) = Some j" using sub_ok_root [OF a3(2)] by simp
  have hb: "height (bal l i r1) \<le> height \<langle>l, i, r\<rangle>" "height \<langle>l, i, r\<rangle> \<le> height (bal l i r1) + 1"
    using height_bal_shrink [of l r1 "height l" "height r" i] n r1(1,3) by (auto simp: sub_ok_def)
  have "agree (- set_tree \<langle>l, i, r\<rangle>) (arena m) ar3"
    by (rule agree_trans [OF agree_mono [OF r1(4)] agree_mono [OF a3(4)]]) (use p in auto)
  moreover have "map_of (contents (arena m) \<langle>l, i, r\<rangle>) k = map_of (contents (arena m) r) k"
    unfolding contents_simps by (rule map_of_right) (use n k in \<open>auto simp: entry_def\<close>)
  moreover have "contents ar3 (bal l i r1) = filter (\<lambda>x. fst x \<noteq> k) (contents (arena m) \<langle>l, i, r\<rangle>)"
    using a3(3) c(1,4) r1(2) k n(11) by (force simp: entry_def intro!: filter_key_id [symmetric])
  moreover have "set (gs @ fs) \<subseteq> - (set_tree l \<union> {i} \<union> set_tree r1)" using c(7) by auto
  then have "free_ok ar3 fh1 (gs @ fs)" "tags ar3 gs = tags ar1 gs"
    using free_ok_agree [OF a3(4), of "gs @ fs"] tags_agree [OF a3(4), of gs] p by auto
  moreover have "delete_rec m (Some i) k out =
      Some (m\<lparr>header := (header m)\<lparr>h_free_head := fh1\<rparr>, arena := ar3\<rparr>, out1, Some j)"
    using p n(2) k less_not_sym [OF k] a3(1) c(2) sub_ok_root [OF n(4)]
    by (subst delete_rec.simps) simp
  ultimately have "del_post m k out \<langle>l, i, r\<rangle> fs ar3 fh1 out1 gs (bal l i r1)"
    unfolding del_post_def Let_def using p a3(2) root hb n(5,6,7) by (auto simp del: contents_simps)
  then show ?thesis by blast
qed

text \<open>
  A node with two children takes over the key, value and tag of its successor \<open>s\<close>, the leftmost
  slot of the right subtree, which gets the node's tag in exchange and is then unlinked.
\<close>

lemma successor_swap:
  assumes t: "sub_ok ar p \<langle>l, i, r\<rangle>" and r: "r \<noteq> \<langle>\<rangle>" and s: "s = hd (inorder r)"
    and ar2: "ar2 = (ar[i := (ar ! i)\<lparr>s_key := s_key (ar ! s), s_val := s_val (ar ! s), s_tag := s_tag (ar ! s)\<rparr>])
                [s := (ar ! s)\<lparr>s_tag := s_tag (ar ! i)\<rparr>]"
  shows "s \<in> set_tree r" "sub_ok ar2 (slot_r (ar ! i)) r" "sub_ok ar2 (slot_l (ar ! i)) l"
    "contents ar2 l = contents ar l"
    "contents ar r = entry (ar ! s) # tl (contents ar r)"
    "contents ar2 r = (s_key (ar ! s), s_val (ar ! s), s_tag (ar ! i)) # tl (contents ar r)"
    "entry (ar2 ! i) = entry (ar ! s)" "slot_l (ar2 ! i) = slot_l (ar ! i)"
    "slot_r (ar2 ! i) = slot_r (ar ! i)" "slot_is_used (ar2 ! i)" "agree (- {i, s}) ar ar2"
proof -
  note n = sub_ok_Node [OF t]
  obtain xs where xs: "inorder r = s # xs" using r s by (cases "inorder r") auto
  show sr: "s \<in> set_tree r" using xs by (simp flip: set_inorder)
  have si: "s \<noteq> i" "s \<notin> set_tree l" "s < length ar"
    using sr n(4,6,7) repr_bound [of ar _ r] by (auto simp: sub_ok_def)
  have dx: "s \<notin> set xs" "set xs \<subseteq> set_tree r" using n(4) xs by (auto simp: sub_ok_def simp flip: set_inorder)
  have nth: "ar2 ! j = ar ! j" if "j \<noteq> i" "j \<noteq> s" for j using that by (simp add: ar2)
  have e: "ar2 ! s = (ar ! s)\<lparr>s_tag := s_tag (ar ! i)\<rparr>" using si by (simp add: ar2)
  show ei: "entry (ar2 ! i) = entry (ar ! s)" "slot_l (ar2 ! i) = slot_l (ar ! i)"
    "slot_r (ar2 ! i) = slot_r (ar ! i)" "slot_is_used (ar2 ! i)"
    using si n(2,10) by (simp_all add: ar2 entry_def slot_simps)
  show ag: "agree (- {i, s}) ar ar2" using nth by (auto simp: agree_def ar2)
  show "sub_ok ar2 (slot_l (ar ! i)) l" "contents ar2 l = contents ar l"
    using n(3) sub_ok_agree [OF ag, of l] contents_agree [OF ag, of l] n(5) si(2) by auto
  show c1: "contents ar r = entry (ar ! s) # tl (contents ar r)" using xs by (simp add: contents_def)
  show c2: "contents ar2 r = (s_key (ar ! s), s_val (ar ! s), s_tag (ar ! i)) # tl (contents ar r)"
  proof -
    have "ar2 ! j = ar ! j" if "j \<in> set xs" for j using nth [of j] that dx n(6) by auto
    then show ?thesis using xs e by (simp add: contents_def entry_def)
  qed
  have links: "slot_l (ar2 ! j) = slot_l (ar ! j)" "slot_r (ar2 ! j) = slot_r (ar ! j)"
    "slot_height (ar2 ! j) = slot_height (ar ! j)" "slot_is_used (ar2 ! j) = slot_is_used (ar ! j)" for j
    using nth [of j] e si n(2) by (cases "j = i"; cases "j = s"; simp add: ar2 slot_simps)+
  have len: "length ar2 = length ar" by (simp add: ar2)
  have "repr ar2 q u = repr ar q u" "hts ar2 u = hts ar u" for q u
    by (induction u arbitrary: q) (auto simp: links len)
  moreover have "sorted_keys (contents ar2 r)"
    using n(4) c1 unfolding c2 sub_ok_def by (metis (no_types) entry_def fst_conv sorted_keys_simps(2))
  ultimately show "sub_ok ar2 (slot_r (ar ! i)) r" using n(4) by (simp add: sub_ok_def links len)
qed


lemma delete_rec_both_eq:
  assumes t: "sub_ok (arena m) p \<langle>l, i, r\<rangle>" and lr: "l \<noteq> \<langle>\<rangle>" "r \<noteq> \<langle>\<rangle>"
    and k: "k = s_key (arena m ! i)" and s: "s = hd (inorder r)"
    and ar2: "ar2 = ((arena m)[i := (arena m ! i)\<lparr>s_key := s_key (arena m ! s),
                s_val := s_val (arena m ! s), s_tag := s_tag (arena m ! s)\<rparr>])
                [s := (arena m ! s)\<lparr>s_tag := s_tag (arena m ! i)\<rparr>]"
    and rec: "delete_rec (m\<lparr>arena := ar2\<rparr>) (slot_r (arena m ! i)) (s_key (arena m ! s)) (None, False) =
        Some (m3, out3, q)"
    and reb: "i < length (arena m3)" "rebalance ((arena m3)[i := slot_set_r q (arena m3 ! i)]) i = Some (ar4, j)"
  shows "delete_rec m (Some i) k out = Some (m3\<lparr>arena := ar4\<rparr>, (Some (s_val (arena m ! i)), True), Some j)"
proof -
  note n = sub_ok_Node [OF t]
  note sw = successor_swap [OF t lr(2) s ar2]
  obtain jl where jl: "slot_l (arena m ! i) = Some jl" using sub_ok_root [OF n(3)] lr(1) by (cases l) auto
  obtain jr where jr: "slot_r (arena m ! i) = Some jr" using sub_ok_root [OF n(4)] lr(2) by (cases r) auto
  have min: "min_index (arena m) jr = Some s"
    using min_index_repr [of "arena m" jr r] n(4) jr s by (simp add: sub_ok_def)
  have si: "s < length (arena m)" "s \<noteq> i" "i < length ar2"
    using sw(1,11) n(2,4,6) repr_bound [of "arena m" _ r] by (auto simp: sub_ok_def agree_def)
  show ?thesis
    using n(2) k jl jr min si rec reb sw(9) by (subst delete_rec.simps) (simp add: ar2)
qed

lemma delete_rec_both:
  assumes t: "sub_ok (arena m) p \<langle>l, i, r\<rangle>" and lr: "l \<noteq> \<langle>\<rangle>" "r \<noteq> \<langle>\<rangle>"
    and k: "k = s_key (arena m ! i)" and s: "s = hd (inorder r)"
    and ar2: "ar2 = ((arena m)[i := (arena m ! i)\<lparr>s_key := s_key (arena m ! s),
                s_val := s_val (arena m ! s), s_tag := s_tag (arena m ! s)\<rparr>])
                [s := (arena m ! s)\<lparr>s_tag := s_tag (arena m ! i)\<rparr>]"
    and fs: "set_tree \<langle>r, i, l\<rangle> \<inter> set fs = {}"
    and ih: "del_post (m\<lparr>arena := ar2\<rparr>) (s_key (arena m ! s)) (None, False) r fs ar3 fh3 out3 gs r1"
  shows "\<exists>ar' fh' out' gs t'. del_post m k out \<langle>l, i, r\<rangle> fs ar' fh' out' gs t'"
proof -
  note n = sub_ok_Node [OF t]
  note sw = successor_swap [OF t lr(2) s ar2]
  have dis: "set_tree r \<inter> set_tree l = {}" and l2: "sub_ok (arena (m\<lparr>arena := ar2\<rparr>)) (slot_l (arena m ! i)) l"
    using n(7) sw(3) by auto
  note c = del_child [OF ih l2 n(6,5) dis fs, simplified]
  define sk where "sk = s_key (arena m ! s)"
  define tr where "tr = tl (contents (arena m) r)"
  have big: "\<forall>x\<in>set (tl (contents (arena m) r)). sk < fst x" "k < sk"
    using n(4,12) k unfolding sub_ok_def sk_def tr_def [symmetric] sw(5) [folded tr_def]
    by (simp_all add: entry_def)
  have flt: "filter (\<lambda>x. fst x \<noteq> sk) (contents ar2 r) = tl (contents (arena m) r)"
    and old: "map_of (contents ar2 r) sk = Some (s_val (arena m ! s), s_tag (arena m ! i))"
    unfolding sw(6) using big(1) by (fastforce simp: sk_def intro!: filter_key_id)+
  note p = ih [folded sk_def, unfolded del_post_def Let_def, simplified, unfolded flt old, simplified]
  have r1: "sub_ok ar3 (root_ix r1) r1" "contents ar3 r1 = tl (contents (arena m) r)"
    "height r1 \<le> height r \<and> height r \<le> height r1 + 1" "agree (- set_tree r) ar2 ar3"
    using p by auto
  have e3: "entry (ar3 ! i) = entry (arena m ! s)" "slot_l (ar3 ! i) = slot_l (arena m ! i)" "s_key (ar3 ! i) = sk"
    using sw(7,8) c(1) by (simp_all add: entry_def sk_def)
  have key: "\<forall>x\<in>set (contents ar3 l). fst x < s_key (ar3 ! i)"
    "\<forall>x\<in>set (contents ar3 r1). s_key (ar3 ! i) < fst x"
    using n(11) big k unfolding e3 c(4) sw(4) r1(2) by (auto intro: less_trans)
  have i1: "i < length ar3" "slot_is_used (ar3 ! i)" "height l \<le> height r1 + 2" "height r1 \<le> height l + 2"
    "set_tree l \<inter> set_tree r1 = {}"
    using n(2,8,9) sw(10,11) c(1,2,6) r1(3) by (auto simp: agree_def)
  obtain ar4 j where a4: "rebalance (ar3[i := slot_set_r (root_ix r1) (ar3 ! i)]) i = Some (ar4, j)"
    "sub_ok ar4 (Some j) (bal l i r1)"
    "contents ar4 (bal l i r1) = contents ar3 l @ entry (ar3 ! i) # contents ar3 r1"
    "agree (- (set_tree l \<union> {i} \<union> set_tree r1)) ar3 ar4"
    by (rule reattach_r [OF c(3) [folded e3(2)] r1(1) i1(1) n(5) c(5) i1(5,2) key i1(3,4)])
  have root: "root_ix (bal l i r1) = Some j" using sub_ok_root [OF a4(2)] by simp
  have hb: "height (bal l i r1) \<le> height \<langle>l, i, r\<rangle>" "height \<langle>l, i, r\<rangle> \<le> height (bal l i r1) + 1"
    using height_bal_shrink [of l r1 "height l" "height r" i] n r1(1,3) by (auto simp: sub_ok_def)
  have ag: "agree (- set_tree \<langle>l, i, r\<rangle>) (arena m) ar4"
    by (rule agree_trans [OF agree_trans [OF agree_mono [OF sw(11)] agree_mono [OF r1(4)]] agree_mono [OF a4(4)]])
      (use p sw(1) in auto)
  have cont: "contents ar4 (bal l i r1) = filter (\<lambda>x. fst x \<noteq> k) (contents (arena m) \<langle>l, i, r\<rangle>)"
  proof -
    have "\<forall>x\<in>set (contents (arena m) l). fst x \<noteq> k" "\<forall>x\<in>set (contents (arena m) r). fst x \<noteq> k"
      using n(11,12) k by auto
    then show ?thesis
      using a4(3) sw(5) k unfolding e3 c(4) sw(4) r1(2) by (simp add: filter_key_id entry_def)
  qed
  have "set (gs @ fs) \<subseteq> - (set_tree l \<union> {i} \<union> set_tree r1)" using c(7) by auto
  then have free: "free_ok ar4 fh3 (gs @ fs)" "tags ar4 gs = [s_tag (arena m ! i)]"
    using free_ok_agree [OF a4(4), of "gs @ fs"] tags_agree [OF a4(4), of gs] p by auto
  have rec: "delete_rec m (Some i) k out =
      Some (m\<lparr>header := (header m)\<lparr>h_free_head := fh3\<rparr>, arena := ar4\<rparr>, (Some (s_val (arena m ! i)), True), Some j)"
  proof -
    have "delete_rec (m\<lparr>arena := ar2\<rparr>) (slot_r (arena m ! i)) sk (None, False) =
        Some (m\<lparr>header := (header m)\<lparr>h_free_head := fh3\<rparr>, arena := ar3\<rparr>, out3, root_ix r1)"
      using p sub_ok_root [OF n(4)] by simp
    from delete_rec_both_eq [OF t lr k s ar2 this [unfolded sk_def], of ar4 j] show ?thesis
      using i1(1) a4(1) by simp
  qed
  have "del_post m k out \<langle>l, i, r\<rangle> fs ar4 fh3 (Some (s_val (arena m ! i)), True) gs (bal l i r1)"
    unfolding del_post_def Let_def map_of_node [OF t, folded k]
    using rec root a4(2) hb ag cont free p n(5,6,7) by (auto simp del: contents_simps)
  then show ?thesis by blast
qed


lemma delete_rec_spec:
  assumes "sub_ok (arena m) p t" "free_ok (arena m) (h_free_head (header m)) fs" "set_tree t \<inter> set fs = {}"
  shows "\<exists>ar' fh' out' gs t'. del_post m k out t fs ar' fh' out' gs t'"
  using assms
proof (induction t arbitrary: m k out p)
  case Leaf
  then have "del_post m k out \<langle>\<rangle> fs (arena m) (h_free_head (header m)) out [] \<langle>\<rangle>"
    by (simp add: del_post_def delete_rec.simps tags_def)
  then show ?case by blast
next
  case (Node l i r)
  note n = sub_ok_Node [OF Node.prems(1)]
  have dl: "set_tree l \<inter> set fs = {}" and dr: "set_tree r \<inter> set fs = {}"
    and d': "set_tree \<langle>r, i, l\<rangle> \<inter> set fs = {}" using Node.prems(3) by auto
  consider "k < s_key (arena m ! i)" | "s_key (arena m ! i) < k"
    | "k = s_key (arena m ! i)" "l = \<langle>\<rangle> \<or> r = \<langle>\<rangle>" | "k = s_key (arena m ! i)" "l \<noteq> \<langle>\<rangle>" "r \<noteq> \<langle>\<rangle>"
    by fastforce
  then show ?case
  proof cases
    case 1
    with Node.IH(1) [OF n(3) Node.prems(2) dl] delete_rec_left [OF Node.prems(1) 1 Node.prems(3)]
    show ?thesis by blast
  next
    case 2
    with Node.IH(2) [OF n(4) Node.prems(2) dr] delete_rec_right [OF Node.prems(1) 2 d']
    show ?thesis by blast
  next
    case 3
    then obtain c where "l = \<langle>\<rangle> \<and> c = r \<or> r = \<langle>\<rangle> \<and> c = l" by blast
    with delete_rec_unlink [OF Node.prems(1) 3(1) Node.prems(2,3)] show ?thesis by blast
  next
    case 4
    define s where "s = hd (inorder r)"
    define ar2 where "ar2 = ((arena m)[i := (arena m ! i)\<lparr>s_key := s_key (arena m ! s),
                s_val := s_val (arena m ! s), s_tag := s_tag (arena m ! s)\<rparr>])
                [s := (arena m ! s)\<lparr>s_tag := s_tag (arena m ! i)\<rparr>]"
    note sw = successor_swap [OF Node.prems(1) 4(3) s_def ar2_def]
    have "set fs \<subseteq> - {i, s}" using Node.prems(3) sw(1) by auto
    then have "free_ok ar2 (h_free_head (header m)) fs"
      using free_ok_agree [OF sw(11)] Node.prems(2) by blast
    then obtain ar3 fh3 out3 gs r1 where
      "del_post (m\<lparr>arena := ar2\<rparr>) (s_key (arena m ! s)) (None, False) r fs ar3 fh3 out3 gs r1"
      using Node.IH(2) [of "m\<lparr>arena := ar2\<rparr>"] sw(2) dr by fastforce
    from delete_rec_both [OF Node.prems(1) 4(2,3,1) s_def ar2_def d' this] show ?thesis .
  qed
qed

end
