(* ===== verification/Avl_Contract.thy ===== *)
theory Avl_Contract
  imports Avl_Map
begin

text \<open>
  The contract of the AVL map: the arena implements a finite map together with a stack of free
  tags.  The contract is stated as the locale \<open>tag_map\<close>, interpreted on the operations of
  \<^verbatim>\<open>avl.rs\<close>, and as a simulation of every sequence of operations by a sorted list.
\<close>

section \<open>The map and its free tags\<close>

text \<open>
  \<open>avl_rel m xs ts\<close>: the arena holds the entries \<open>xs\<close>, sorted by key, and the tags \<open>ts\<close> on its
  free slots, in the order in which the free list hands them out.
\<close>

definition avl_rel :: "('k::linorder, 'v, 't) avl_map \<Rightarrow> ('k \<times> 'v \<times> 't) list \<Rightarrow> 't list \<Rightarrow> bool" where
  "avl_rel m xs ts \<longleftrightarrow>
     (\<exists>t fs. sub_ok (arena m) (h_root (header m)) t \<and>
        free_ok (arena m) (h_free_head (header m)) fs \<and>
        set_tree t \<inter> set fs = {} \<and> set_tree t \<union> set fs = {..<length (arena m)} \<and>
        h_len (header m) = length xs \<and> xs = contents (arena m) t \<and> ts = tags (arena m) fs)"

lemma avl_rel_sorted: "avl_rel m xs ts \<Longrightarrow> sorted_keys xs"
  by (auto simp: avl_rel_def sub_ok_def)

lemma avl_rel_capacity: "avl_rel m xs ts \<Longrightarrow> length xs + length ts = capacity m"
proof -
  assume "avl_rel m xs ts"
  then obtain t fs where t: "sub_ok (arena m) (h_root (header m)) t"
    "free_ok (arena m) (h_free_head (header m)) fs" "set_tree t \<inter> set fs = {}"
    "set_tree t \<union> set fs = {..<length (arena m)}" "xs = contents (arena m) t" "ts = tags (arena m) fs"
    by (auto simp: avl_rel_def)
  have "length xs = card (set_tree t)" "length ts = card (set fs)"
    using t by (auto simp: contents_def tags_def sub_ok_def free_ok_def distinct_card simp flip: set_inorder)
  moreover have "card (set_tree t) + card (set fs) = length (arena m)"
    using card_Un_disjoint [OF _ _ t(3)] t(4) by simp
  ultimately show ?thesis by (simp add: capacity_def)
qed

lemma filter_key_length:
  "sorted_keys xs \<Longrightarrow> map_of xs k \<noteq> None \<Longrightarrow> length (filter (\<lambda>x. fst x \<noteq> k) xs) = length xs - 1"
proof (induction xs)
  case (Cons x xs)
  show ?case
  proof (cases "fst x = k")
    case True
    then have "filter (\<lambda>x. fst x \<noteq> k) xs = xs" using Cons.prems(1) by (intro filter_key_id) auto
    then show ?thesis using True by simp
  next
    case False
    then show ?thesis using Cons by (cases xs) (auto split: if_splits)
  qed
qed simp

lemma ins_entry_length:
  "sorted_keys xs \<Longrightarrow> length (ins_entry k v t xs) = length xs + (if map_of xs k = None then 1 else 0)"
  by (induction k v t xs rule: ins_entry.induct) (auto simp: map_of_eq_None_iff)


subsection \<open>Insertion and removal\<close>

lemma ins_entry_old:
  "sorted_keys xs \<Longrightarrow> map_of xs k = Some z \<Longrightarrow> ins_entry k v t xs = ins_entry k v t' xs"
  by (induction k v t xs rule: ins_entry.induct) (auto split: if_splits dest!: map_of_SomeD)

lemma avl_insert_old:
  assumes "avl_rel m xs ts" "map_of xs k = Some (v0, t0)"
  shows "\<exists>m'. avl_insert m k v = Some (m', Inr (Some v0, t0)) \<and> avl_rel m' (ins_entry k v t0 xs) ts"
proof -
  obtain t fs where t: "sub_ok (arena m) (h_root (header m)) t"
    "free_ok (arena m) (h_free_head (header m)) fs" "set_tree t \<inter> set fs = {}"
    "set_tree t \<union> set fs = {..<length (arena m)}" "h_len (header m) = length xs"
    "xs = contents (arena m) t" "ts = tags (arena m) fs"
    using assms(1) by (auto simp: avl_rel_def)
  obtain ar' fh' out' j t' where p: "ins_post m k v insert_out_init t fs ar' fh' out' j t'"
    using insert_rec_spec [OF t(1-3), of k v insert_out_init] assms(2) t(6) by auto
  note p' = p [unfolded ins_post_def Let_def, folded t(6), unfolded assms(2), simplified]
  have sub: "set fs \<subseteq> - set_tree t'" using p' t(3) by auto
  have same: "ins_entry k v t1 xs = ins_entry k v t0 xs" for t1
    by (rule ins_entry_old [OF avl_rel_sorted [OF assms(1)] assms(2)])
  have "avl_rel (m\<lparr>header := (header m)\<lparr>h_free_head := fh', h_root := Some j\<rparr>, arena := ar'\<rparr>)
      (ins_entry k v t0 xs) ts"
    unfolding avl_rel_def using p' t(3,4,5,7) same [of "s_tag (arena m ! hd fs)"] tags_agree [of "- set_tree t'" "arena m" ar' fs] sub
      ins_entry_length [OF avl_rel_sorted [OF assms(1)], of k v t0] assms(2)
    by (intro exI [of _ t'] exI [of _ fs]) (auto simp: agree_def)
  moreover have "avl_insert m k v = Some (m\<lparr>header := (header m)\<lparr>h_free_head := fh', h_root := Some j\<rparr>,
      arena := ar'\<rparr>, Inr (Some v0, t0))"
    using p' sub_ok_root [OF t(1)] by (simp add: avl_insert_def insert_out_init_def)
  ultimately show ?thesis by blast
qed


lemma avl_insert_new:
  assumes "avl_rel m xs (tg # ts)" "map_of xs k = None"
  shows "\<exists>m'. avl_insert m k v = Some (m', Inr (None, tg)) \<and> avl_rel m' (ins_entry k v tg xs) ts"
proof -
  obtain t f fs where t: "sub_ok (arena m) (h_root (header m)) t"
    "free_ok (arena m) (h_free_head (header m)) (f # fs)" "set_tree t \<inter> set (f # fs) = {}"
    "set_tree t \<union> set (f # fs) = {..<length (arena m)}" "h_len (header m) = length xs"
    "xs = contents (arena m) t" "ts = tags (arena m) fs" "tg = s_tag (arena m ! f)"
    using assms(1) by (auto simp: avl_rel_def tags_def Cons_eq_map_conv)
  obtain ar' fh' out' j t' where p: "ins_post m k v insert_out_init t (f # fs) ar' fh' out' j t'"
    using insert_rec_spec [OF t(1-3), of k v insert_out_init] by auto
  note p' = p [unfolded ins_post_def Let_def, folded t(6), unfolded assms(2), simplified, folded t(8)]
  have sub: "set fs \<subseteq> - set_tree t'" using p' t(2,3) by (auto simp: free_ok_def)
  have "avl_rel (m\<lparr>header := (header m)\<lparr>h_free_head := fh', h_root := Some j, h_len := h_len (header m) + 1\<rparr>,
      arena := ar'\<rparr>) (ins_entry k v tg xs) ts"
    unfolding avl_rel_def using p' t(3,4,5,7) tags_agree [of "- set_tree t'" "arena m" ar' fs] sub
      ins_entry_length [OF avl_rel_sorted [OF assms(1)], of k v tg] assms(2)
    by (intro exI [of _ t'] exI [of _ fs]) (auto simp: agree_def)
  moreover have "avl_insert m k v = Some (m\<lparr>header := (header m)\<lparr>h_free_head := fh', h_root := Some j,
      h_len := h_len (header m) + 1\<rparr>, arena := ar'\<rparr>, Inr (None, tg))"
    using p' sub_ok_root [OF t(1)] by (simp add: avl_insert_def insert_out_init_def)
  ultimately show ?thesis by blast
qed

lemma avl_insert_full:
  assumes "avl_rel m xs []" "map_of xs k = None"
  shows "avl_insert m k v = Some (m, Inl Full)"
proof -
  obtain t where t: "sub_ok (arena m) (h_root (header m)) t" "h_free_head (header m) = None"
    "xs = contents (arena m) t"
    using assms(1) by (auto simp: avl_rel_def tags_def free_ok_def)
  show ?thesis
    using insert_rec_full [OF t(1,2)] assms(2) t(3) by (simp add: avl_insert_def)
qed

lemma avl_remove_ok:
  assumes "avl_rel m xs ts"
  shows "\<exists>m'. avl_remove m k = Some (m', map_option fst (map_of xs k)) \<and>
     avl_rel m' (filter (\<lambda>x. fst x \<noteq> k) xs) (case map_of xs k of None \<Rightarrow> ts | Some (_, tg) \<Rightarrow> tg # ts)"
proof -
  obtain t fs where t: "sub_ok (arena m) (h_root (header m)) t"
    "free_ok (arena m) (h_free_head (header m)) fs" "set_tree t \<inter> set fs = {}"
    "set_tree t \<union> set fs = {..<length (arena m)}" "h_len (header m) = length xs"
    "xs = contents (arena m) t" "ts = tags (arena m) fs"
    using assms by (auto simp: avl_rel_def)
  obtain ar' fh' out' gs t' where p: "del_post m k (None, False) t fs ar' fh' out' gs t'"
    using delete_rec_spec [OF t(1-3), of k "(None, False)"] by auto
  note p' = p [unfolded del_post_def Let_def, folded t(6)]
  define ln where "ln = (if snd out' then h_len (header m) - 1 else h_len (header m))"
  define m' where "m' = m\<lparr>header := (header m)\<lparr>h_free_head := fh', h_root := root_ix t', h_len := ln\<rparr>, arena := ar'\<rparr>"
  have "map_of xs k = None \<Longrightarrow> filter (\<lambda>x. fst x \<noteq> k) xs = xs"
    by (rule filter_key_id) (auto simp: map_of_eq_None_iff)
  then have ln: "ln = length (filter (\<lambda>x. fst x \<noteq> k) xs)"
    using filter_key_length [OF avl_rel_sorted [OF assms], of k] p' t(5)
    by (auto simp: ln_def split: option.splits)
  have tg: "tags ar' (gs @ fs) = (case map_of xs k of None \<Rightarrow> ts | Some (_, tg) \<Rightarrow> tg # ts)"
    using tags_agree [of "- set_tree t" "arena m" ar' fs] p' t(3,7)
    by (auto simp: tags_def split: option.splits)
  have "avl_rel m' (filter (\<lambda>x. fst x \<noteq> k) xs) (case map_of xs k of None \<Rightarrow> ts | Some (_, tg) \<Rightarrow> tg # ts)"
    unfolding avl_rel_def m'_def using p' t(3,4) ln tg
    by (intro exI [of _ t'] exI [of _ "gs @ fs"]) (auto simp: agree_def)
  moreover have "avl_remove m k = Some (m', map_option fst (map_of xs k))"
    using p' sub_ok_root [OF t(1)] by (auto simp: avl_remove_def m'_def ln_def split: option.splits)
  ultimately show ?thesis by blast
qed

subsection \<open>Lookup\<close>

lemma get_loop_ok: "sub_ok ar p t \<Longrightarrow> get_loop ar k p = Some (map_of (contents ar t) k)"
proof (induction t arbitrary: p)
  case Leaf
  then show ?case by (simp add: get_loop.simps)
next
  case (Node l i r)
  note n = sub_ok_Node [OF Node.prems]
  show ?case
  proof (cases k "s_key (ar ! i)" rule: linorder_cases)
    case less
    have "map_of (contents ar \<langle>l, i, r\<rangle>) k = map_of (contents ar l) k"
      unfolding contents_simps by (rule map_of_left) (use n less in \<open>auto simp: entry_def\<close>)
    then show ?thesis
      using less n(1,2) Node.IH(1) [OF n(3)] by (subst get_loop.simps) auto
  next
    case equal
    then show ?thesis
      using n(1,2) map_of_node [OF Node.prems] by (subst get_loop.simps) simp
  next
    case greater
    have "map_of (contents ar \<langle>l, i, r\<rangle>) k = map_of (contents ar r) k"
      unfolding contents_simps by (rule map_of_right) (use n greater in \<open>auto simp: entry_def\<close>)
    then show ?thesis
      using greater n(1,2) Node.IH(2) [OF n(4)] by (subst get_loop.simps) auto
  qed
qed

lemma avl_get_ok: "avl_rel m xs ts \<Longrightarrow> avl_get m k = Some (map_of xs k)"
  using get_loop_ok by (auto simp: avl_rel_def avl_get_def)


text \<open>The entry with the greatest key that is at most \<open>k\<close>.\<close>

definition lte_entry :: "'k::linorder \<Rightarrow> ('k \<times> 'v \<times> 't) list \<Rightarrow> ('k \<times> 'v \<times> 't) option" where
  "lte_entry k xs = (let ys = filter (\<lambda>x. fst x \<le> k) xs in if ys = [] then None else Some (last ys))"

lemma get_lte_loop_ok:
  assumes "sub_ok ar p t" "\<And>b. best = Some b \<Longrightarrow> b < length ar"
  shows "get_lte_loop ar k p best =
     Some (case lte_entry k (contents ar t) of None \<Rightarrow> map_option (\<lambda>b. entry (ar ! b)) best | Some e \<Rightarrow> Some e)"
  using assms
proof (induction t arbitrary: p best)
  case Leaf
  then show ?case by (cases best) (auto simp: get_lte_loop.simps lte_entry_def entry_def)
next
  case (Node l i r)
  note n = sub_ok_Node [OF Node.prems(1)]
  show ?case
  proof (cases k "s_key (ar ! i)" rule: linorder_cases)
    case less
    have "filter (\<lambda>x. fst x \<le> k) (contents ar r) = []"
      using n(12) less by (fastforce simp: filter_empty_conv)
    then have "lte_entry k (contents ar \<langle>l, i, r\<rangle>) = lte_entry k (contents ar l)"
      using less leD by (auto simp: lte_entry_def entry_def Let_def)
    then show ?thesis
      using less n(1,2) Node.IH(1) [OF n(3) Node.prems(2)] by (subst get_lte_loop.simps) auto
  next
    case equal
    have "filter (\<lambda>x. fst x \<le> k) (contents ar r) = []"
      using n(12) equal by (fastforce simp: filter_empty_conv)
    then have "lte_entry k (contents ar \<langle>l, i, r\<rangle>) = Some (entry (ar ! i))"
      using equal by (simp add: lte_entry_def entry_def)
    then show ?thesis
      using equal n(1,2) by (subst get_lte_loop.simps) (simp add: entry_def)
  next
    case greater
    then have "lte_entry k (contents ar \<langle>l, i, r\<rangle>) =
        (case lte_entry k (contents ar r) of None \<Rightarrow> Some (entry (ar ! i)) | Some e \<Rightarrow> Some e)"
      by (auto simp: lte_entry_def entry_def Let_def)
    then show ?thesis
      using greater n(1,2) Node.IH(2) [OF n(4), of "Some i"]
      by (subst get_lte_loop.simps) (auto split: option.splits)
  qed
qed

lemma get_lte_ok:
  assumes "avl_rel m xs ts"
  shows "get_lte m k = Some (lte_entry k xs)"
proof -
  obtain t where t: "sub_ok (arena m) (h_root (header m)) t" "xs = contents (arena m) t"
    using assms by (auto simp: avl_rel_def)
  from get_lte_loop_ok [OF t(1), of None k] show ?thesis
    by (cases "lte_entry k xs") (simp_all add: get_lte_def t(2))
qed

lemma slot_mut_loop_ok:
  "sub_ok ar p t \<Longrightarrow> slot_mut_loop ar k p = Some (find (\<lambda>i. s_key (ar ! i) = k) (inorder t))"
proof (induction t arbitrary: p)
  case Leaf
  then show ?case by (simp add: slot_mut_loop.simps)
next
  case (Node l i r)
  note n = sub_ok_Node [OF Node.prems]
  have fnd: "find P (xs @ ys) = (case find P xs of None \<Rightarrow> find P ys | Some z \<Rightarrow> Some z)" for P :: "nat \<Rightarrow> bool" and xs ys
    by (induction xs) auto
  have nl: "find (\<lambda>i. s_key (ar ! i) = k) (inorder l) = None" if "\<not> k < s_key (ar ! i)"
    using that n(11) by (auto simp: find_None_iff contents_def entry_def)
  have nr: "find (\<lambda>i. s_key (ar ! i) = k) (inorder r) = None" if "\<not> s_key (ar ! i) < k"
    using that n(12) by (auto simp: find_None_iff contents_def entry_def)
  show ?case
    using n(1,2) Node.IH(1) [OF n(3)] Node.IH(2) [OF n(4)] nl nr
    by (subst slot_mut_loop.simps) (auto simp: fnd split: option.splits)
qed

lemma max_slot_loop_ok:
  "repr ar p t \<Longrightarrow> max_slot_loop ar p mx = Some (if t = \<langle>\<rangle> then mx else Some (last (inorder t)))"
  by (induction t arbitrary: p mx) (auto simp: max_slot_loop.simps)


lemma get_slot_mut_ok:
  assumes "avl_rel m xs ts"
  shows "map_of xs k = None \<Longrightarrow> get_slot_mut m k = Some None"
    and "map_of xs k = Some (v, tg) \<Longrightarrow>
      \<exists>i. get_slot_mut m k = Some (Some i) \<and> i < capacity m \<and> entry (arena m ! i) = (k, v, tg)"
proof -
  obtain t where t: "sub_ok (arena m) (h_root (header m)) t" "xs = contents (arena m) t"
    using assms by (auto simp: avl_rel_def)
  note g = slot_mut_loop_ok [OF t(1), of k]
  show "map_of xs k = None \<Longrightarrow> get_slot_mut m k = Some None"
    using g t(2) by (force simp: get_slot_mut_def find_None_iff map_of_eq_None_iff contents_def entry_def)
  assume "map_of xs k = Some (v, tg)"
  then have kin: "(k, v, tg) \<in> set xs" by (rule map_of_SomeD)
  then obtain i where i: "find (\<lambda>i. s_key (arena m ! i) = k) (inorder t) = Some i"
    using t(2) by (cases "find (\<lambda>i. s_key (arena m ! i) = k) (inorder t)")
      (auto simp: find_None_iff contents_def entry_def)
  then have it: "i \<in> set_tree t" "s_key (arena m ! i) = k"
    by (auto simp: find_Some_iff simp flip: set_inorder)
  then have "entry (arena m ! i) \<in> set xs" by (auto simp: t(2) contents_def)
  moreover have "inj_on fst (set xs)"
    using avl_rel_sorted [OF assms] strict_sorted_iff [of "map fst xs"]
    by (simp add: sorted_keys_def distinct_map)
  ultimately have "entry (arena m ! i) = (k, v, tg)"
    using kin it(2) inj_onD [of fst "set xs" "entry (arena m ! i)" "(k, v, tg)"] by (simp add: entry_def)
  moreover have "i < length (arena m)"
    using it(1) t(1) repr_bound by (fastforce simp: sub_ok_def)
  ultimately show "\<exists>i. get_slot_mut m k = Some (Some i) \<and> i < capacity m \<and> entry (arena m ! i) = (k, v, tg)"
    using g i by (auto simp: get_slot_mut_def capacity_def)
qed

lemma get_max_slot_ok:
  assumes "avl_rel m xs ts"
  shows "xs = [] \<Longrightarrow> get_max_slot m = Some None"
    and "xs \<noteq> [] \<Longrightarrow> \<exists>i. get_max_slot m = Some (Some i) \<and> i < capacity m \<and> entry (arena m ! i) = last xs"
proof -
  obtain t where t: "repr (arena m) (h_root (header m)) t" "xs = contents (arena m) t"
    using assms by (auto simp: avl_rel_def sub_ok_def)
  note g = max_slot_loop_ok [OF t(1), of None]
  have nil: "xs = [] \<longleftrightarrow> t = \<langle>\<rangle>" by (cases t) (auto simp: t(2))
  show "xs = [] \<Longrightarrow> get_max_slot m = Some None" using g nil by (simp add: get_max_slot_def)
  assume "xs \<noteq> []"
  then have "inorder t \<noteq> []" "t \<noteq> \<langle>\<rangle>" using nil by (cases t; simp)+
  moreover from this have "last (inorder t) \<in> set_tree t" by (simp flip: set_inorder)
  ultimately show "\<exists>i. get_max_slot m = Some (Some i) \<and> i < capacity m \<and> entry (arena m ! i) = last xs"
    using g repr_bound [OF t(1)] by (auto simp: get_max_slot_def capacity_def t(2) contents_def last_map)
qed


subsection \<open>Writing through a slot\<close>

text \<open>
  The free space manager writes the tag and the key of the slot that \<open>get_slot_mut\<close> or
  \<open>get_max_slot\<close> returns.  Links, heights and the used flag stay, so the tree keeps its shape.
\<close>

definition same_links :: "('k, 'v, 't) slot list \<Rightarrow> ('k, 'v, 't) slot list \<Rightarrow> bool" where
  "same_links ar ar' \<longleftrightarrow> length ar' = length ar \<and>
     (\<forall>i < length ar. s_left (ar' ! i) = s_left (ar ! i) \<and> s_right (ar' ! i) = s_right (ar ! i) \<and>
        s_meta (ar' ! i) = s_meta (ar ! i))"

lemma same_links_repr: "same_links ar ar' \<Longrightarrow> repr ar p t \<Longrightarrow> repr ar' p t"
  by (induction t arbitrary: p) (auto simp: same_links_def slot_l_def slot_r_def)

lemma same_links_hts: "same_links ar ar' \<Longrightarrow> set_tree t \<subseteq> {..<length ar} \<Longrightarrow> hts ar t \<Longrightarrow> hts ar' t"
  by (induction t) (auto simp: same_links_def slot_height_def)

lemma same_links_chain: "same_links ar ar' \<Longrightarrow> chain ar p fs \<Longrightarrow> chain ar' p fs"
  by (induction fs arbitrary: p) (auto simp: same_links_def slot_l_def)

lemma same_links_rel:
  assumes "same_links (arena m) ar'" "sub_ok (arena m) (h_root (header m)) t"
    "free_ok (arena m) (h_free_head (header m)) fs"
    "set_tree t \<inter> set fs = {}" "set_tree t \<union> set fs = {..<length (arena m)}"
    "h_len (header m) = length (inorder t)" "sorted_keys (contents ar' t)" "agree (- set_tree t) (arena m) ar'"
  shows "avl_rel (m\<lparr>arena := ar'\<rparr>) (contents ar' t) (tags (arena m) fs)"
proof -
  have b: "set_tree t \<subseteq> {..<length (arena m)}" "set fs \<subseteq> {..<length (arena m)}" using assms(5) by auto
  have u: "slot_is_used (ar' ! i) = slot_is_used (arena m ! i)" if "i < length (arena m)" for i
    using assms(1) that by (simp add: same_links_def slot_is_used_def)
  have "sub_ok ar' (h_root (header m)) t"
    using assms(2,7) b(1) u same_links_repr [OF assms(1)] same_links_hts [OF assms(1) b(1)]
      assms(1) [unfolded same_links_def, THEN conjunct1]
    by (auto simp: sub_ok_def subset_iff)
  moreover have "free_ok ar' (h_free_head (header m)) fs"
    using assms(3) b(2) u same_links_chain [OF assms(1)] by (auto simp: free_ok_def subset_iff)
  moreover have "tags ar' fs = tags (arena m) fs" using assms(4,8) by (auto intro!: tags_agree)
  moreover have "length ar' = length (arena m)" using assms(1) by (simp add: same_links_def)
  ultimately show ?thesis
    using assms(4-6) unfolding avl_rel_def
    by (intro exI [of _ t] exI [of _ fs]) (simp add: contents_def)
qed

lemma same_links_update:
  "i < length ar \<Longrightarrow> s_left n = s_left (ar ! i) \<Longrightarrow> s_right n = s_right (ar ! i) \<Longrightarrow> s_meta n = s_meta (ar ! i) \<Longrightarrow>
     same_links ar (ar[i := n])"
  by (auto simp: same_links_def nth_list_update)

lemma slot_retag_ok:
  assumes "avl_rel m xs ts" "map_of xs k = Some (v, tg)"
  obtains i where "get_slot_mut m k = Some (Some i)" "i < capacity m" "s_tag (arena m ! i) = tg"
    "avl_rel (m\<lparr>arena := (arena m)[i := (arena m ! i)\<lparr>s_tag := tg'\<rparr>]\<rparr>)
       (map (\<lambda>(k', v, t). (k', v, if k' = k then tg' else t)) xs) ts"
proof -
  obtain t fs where t: "sub_ok (arena m) (h_root (header m)) t"
    "free_ok (arena m) (h_free_head (header m)) fs" "set_tree t \<inter> set fs = {}"
    "set_tree t \<union> set fs = {..<length (arena m)}" "h_len (header m) = length xs"
    "xs = contents (arena m) t" "ts = tags (arena m) fs"
    using assms(1) by (auto simp: avl_rel_def)
  obtain i where f: "find (\<lambda>i. s_key (arena m ! i) = k) (inorder t) = Some i"
    using map_of_SomeD [OF assms(2)] t(6)
    by (cases "find (\<lambda>i. s_key (arena m ! i) = k) (inorder t)") (auto simp: find_None_iff contents_def entry_def)
  then have i: "i \<in> set_tree t" "s_key (arena m ! i) = k"
    by (auto simp: find_Some_iff simp flip: set_inorder)
  have srt: "sorted_keys xs" by (rule avl_rel_sorted [OF assms(1)])
  then have inj: "distinct (map fst xs)" by (simp add: sorted_keys_def strict_sorted_iff)
  have ki: "j = i" if "j \<in> set_tree t" "s_key (arena m ! j) = k" for j
  proof -
    have "inj_on (\<lambda>j. s_key (arena m ! j)) (set (inorder t))"
      using inj by (simp add: t(6) contents_def o_def entry_def distinct_map)
    then show ?thesis using i that by (auto dest: inj_onD)
  qed
  have "(k, v, tg) \<in> set xs" by (rule map_of_SomeD [OF assms(2)])
  then obtain j where "j \<in> set_tree t" "entry (arena m ! j) = (k, v, tg)" by (auto simp: t(6) contents_def)
  with ki have e: "entry (arena m ! i) = (k, v, tg)" by (auto simp: entry_def)
  have il: "i < length (arena m)" using i(1) t(4) by auto
  define ar' where "ar' = (arena m)[i := (arena m ! i)\<lparr>s_tag := tg'\<rparr>]"
  have c: "contents ar' t = map (\<lambda>(k', v, t). (k', v, if k' = k then tg' else t)) xs"
    unfolding t(6) contents_def map_map
  proof (rule map_cong [OF refl])
    fix j assume "j \<in> set (inorder t)"
    then have "s_key (arena m ! j) = k \<longleftrightarrow> j = i" using ki i(2) by auto
    then show "entry (ar' ! j) = ((\<lambda>(k', v, t). (k', v, if k' = k then tg' else t)) \<circ> (\<lambda>i. entry (arena m ! i))) j"
      using il by (cases "j = i") (auto simp: ar'_def entry_def)
  qed
  have "map fst (contents ar' t) = map fst xs" by (simp add: c o_def case_prod_beta)
  then have s': "sorted_keys (contents ar' t)" using srt by (simp add: sorted_keys_def)
  have "avl_rel (m\<lparr>arena := ar'\<rparr>) (contents ar' t) (tags (arena m) fs)"
  proof (rule same_links_rel [OF _ t(1-4) _ s'])
    show "same_links (arena m) ar'" unfolding ar'_def by (rule same_links_update [OF il]) auto
    show "h_len (header m) = length (inorder t)" using t(5,6) by (simp add: contents_def)
    show "agree (- set_tree t) (arena m) ar'" using i(1) il by (auto simp: ar'_def agree_def nth_list_update)
  qed
  note r = this [unfolded c, folded t(7), unfolded ar'_def]
  show ?thesis
    using that [OF _ _ _ r] slot_mut_loop_ok [OF t(1), of k] f il e by (simp add: get_slot_mut_def capacity_def entry_def)
qed

lemma max_slot_rekey_ok:
  assumes "avl_rel m xs ts" "xs = ys @ [(k, v, tg)]"
  obtains i where "get_max_slot m = Some (Some i)" "i < capacity m" "s_key (arena m ! i) = k" "s_tag (arena m ! i) = tg"
    "k < k' \<Longrightarrow> avl_rel (m\<lparr>arena := (arena m)[i := (arena m ! i)\<lparr>s_key := k'\<rparr>]\<rparr>) (ys @ [(k', v, tg)]) ts"
proof -
  obtain t fs where t: "sub_ok (arena m) (h_root (header m)) t"
    "free_ok (arena m) (h_free_head (header m)) fs" "set_tree t \<inter> set fs = {}"
    "set_tree t \<union> set fs = {..<length (arena m)}" "h_len (header m) = length xs"
    "xs = contents (arena m) t" "ts = tags (arena m) fs"
    using assms(1) by (auto simp: avl_rel_def)
  have ne: "inorder t \<noteq> []" using assms(2) t(6) by (auto simp: contents_def)
  define i where "i = last (inorder t)"
  have spl: "inorder t = butlast (inorder t) @ [i]" using ne by (simp add: i_def)
  have i: "i \<in> set_tree t" using ne by (simp add: i_def flip: set_inorder)
  have il: "i < length (arena m)" using i t(4) by auto
  have c0: "map (\<lambda>i. entry (arena m ! i)) (butlast (inorder t)) @ [entry (arena m ! i)] = ys @ [(k, v, tg)]"
    using assms(2) t(6) spl unfolding contents_def by (metis list.simps(8,9) map_append)
  then have e: "entry (arena m ! i) = (k, v, tg)" and c1: "map (\<lambda>i. entry (arena m ! i)) (butlast (inorder t)) = ys" by auto
  have dist: "distinct (butlast (inorder t) @ [i])" using t(1) spl by (simp add: sub_ok_def)
  define ar' where "ar' = (arena m)[i := (arena m ! i)\<lparr>s_key := k'\<rparr>]"
  have c: "contents ar' t = ys @ [(k', v, tg)]"
  proof -
    have "contents ar' t = map (\<lambda>i. entry (ar' ! i)) (butlast (inorder t)) @ [entry (ar' ! i)]"
      using spl unfolding contents_def by (metis list.simps(8,9) map_append)
    also have "map (\<lambda>i. entry (ar' ! i)) (butlast (inorder t)) = ys"
      unfolding c1 [symmetric] by (rule map_cong) (use dist il in \<open>auto simp: ar'_def nth_list_update\<close>)
    finally show ?thesis using e il by (simp add: ar'_def entry_def)
  qed
  have mx: "get_max_slot m = Some (Some i)"
    using max_slot_loop_ok [of "arena m" "h_root (header m)" t None] t(1) ne
    by (cases t) (auto simp: get_max_slot_def sub_ok_def i_def)
  have "avl_rel (m\<lparr>arena := ar'\<rparr>) (contents ar' t) (tags (arena m) fs)" if "k < k'"
  proof (rule same_links_rel [OF _ t(1-4)])
    show "same_links (arena m) ar'" unfolding ar'_def by (rule same_links_update [OF il]) auto
    show "h_len (header m) = length (inorder t)" using t(5,6) by (simp add: contents_def)
    show "agree (- set_tree t) (arena m) ar'" using i il by (auto simp: ar'_def agree_def nth_list_update)
    show "sorted_keys (contents ar' t)"
      using avl_rel_sorted [OF assms(1)] that unfolding c assms(2) by (auto intro: less_trans)
  qed
  note r = this [unfolded c, folded t(7), unfolded ar'_def]
  show ?thesis using that [OF mx _ _ _ r] il e by (simp add: capacity_def entry_def)
qed


subsection \<open>Iteration\<close>

text \<open>
  The iterator's stack as a list of pending nodes, top first, each with its right subtree.
  \<open>frames_ok\<close> bounds the stack depth at which each right subtree will be walked.
\<close>

fun frames_ok :: "('k, 'v, 't) slot list \<Rightarrow> (nat \<times> nat tree) list \<Rightarrow> bool" where
  "frames_ok ar [] \<longleftrightarrow> True"
| "frames_ok ar ((i, r) # fr) \<longleftrightarrow>
     i < length ar \<and> repr ar (slot_r (ar ! i)) r \<and> length fr + height r \<le> MAX_HEIGHT \<and> frames_ok ar fr"

definition pending :: "('k, 'v, 't) slot list \<Rightarrow> nat tree \<Rightarrow> (nat \<times> nat tree) list \<Rightarrow> ('k \<times> 'v \<times> 't) list" where
  "pending ar t fr = contents ar t @ concat (map (\<lambda>(i, r). entry (ar ! i) # contents ar r) fr)"

lemma pending_simps [simp]:
  "pending ar \<langle>\<rangle> [] = []" "pending ar \<langle>\<rangle> ((i, r) # fr) = entry (ar ! i) # pending ar r fr"
  "pending ar \<langle>l, i, r\<rangle> fr = pending ar l ((i, r) # fr)"
  by (simp_all add: pending_def)

definition iter_rel :: "('k, 'v, 't) slot list \<Rightarrow> avl_iter \<Rightarrow> nat tree \<Rightarrow> (nat \<times> nat tree) list \<Rightarrow> bool" where
  "iter_rel ar it t fr \<longleftrightarrow>
     repr ar (it_cursor it) t \<and> length (it_stack it) = MAX_HEIGHT \<and> it_sp it = length fr \<and>
     take (it_sp it) (it_stack it) = rev (map fst fr) \<and> frames_ok ar fr \<and>
     length fr + height t \<le> MAX_HEIGHT"

lemma push_left_chain_ok:
  "iter_rel ar it t fr \<Longrightarrow>
   \<exists>it' fr'. push_left_chain ar it = Some it' \<and> iter_rel ar it' \<langle>\<rangle> fr' \<and> pending ar \<langle>\<rangle> fr' = pending ar t fr"
proof (induction t arbitrary: it fr)
  case Leaf
  then have "push_left_chain ar it = Some it" by (subst push_left_chain.simps) (simp add: iter_rel_def)
  with Leaf show ?case by blast
next
  case (Node l i r)
  let ?it = "it\<lparr>it_stack := (it_stack it)[it_sp it := i], it_sp := it_sp it + 1, it_cursor := slot_l (ar ! i)\<rparr>"
  have p: "it_cursor it = Some i" "i < length ar" "it_sp it < length (it_stack it)"
    using Node.prems by (auto simp: iter_rel_def)
  have "iter_rel ar ?it l ((i, r) # fr)"
    using Node.prems p(3) by (auto simp: iter_rel_def take_Suc_conv_app_nth take_update_cancel)
  from Node.IH(1) [OF this] obtain it' fr' where
    "push_left_chain ar ?it = Some it'" "iter_rel ar it' \<langle>\<rangle> fr'"
    "pending ar \<langle>\<rangle> fr' = pending ar l ((i, r) # fr)" by blast
  moreover have "push_left_chain ar it = push_left_chain ar ?it"
    using p by (subst push_left_chain.simps) simp
  ultimately show ?case by auto
qed

lemma iter_next_ok:
  assumes "iter_rel ar it t fr"
  shows "pending ar t fr = [] \<Longrightarrow> \<exists>it'. iter_next ar it = Some (it', None)"
    and "pending ar t fr = (k, v, tg) # ys \<Longrightarrow>
      \<exists>it' t' fr'. iter_next ar it = Some (it', Some (k, v)) \<and> iter_rel ar it' t' fr' \<and> pending ar t' fr' = ys"
proof -
  obtain it1 fr1 where p: "push_left_chain ar it = Some it1" "iter_rel ar it1 \<langle>\<rangle> fr1"
    "pending ar \<langle>\<rangle> fr1 = pending ar t fr"
    using push_left_chain_ok [OF assms] by blast
  {
    assume "pending ar t fr = []"
    with p(3) have "fr1 = []" by (cases fr1) auto
    then show "\<exists>it'. iter_next ar it = Some (it', None)"
      using p(1,2) by (simp add: iter_rel_def iter_next_def)
  }
  assume c: "pending ar t fr = (k, v, tg) # ys"
  then obtain i r fr2 where f: "fr1 = (i, r) # fr2" "entry (ar ! i) = (k, v, tg)" "pending ar r fr2 = ys"
    using p(3) by (cases fr1) auto
  have tk: "take (Suc (length fr2)) (it_stack it1) = rev (map fst fr2) @ [i]" "it_sp it1 = Suc (length fr2)"
    "length (it_stack it1) = MAX_HEIGHT" "Suc (length fr2) \<le> MAX_HEIGHT"
    using p(2) f(1) by (auto simp: iter_rel_def)
  then have "it_stack it1 ! length fr2 = i" "take (length fr2) (it_stack it1) = rev (map fst fr2)"
    by (auto simp: take_Suc_conv_app_nth)
  then show "\<exists>it' t' fr'. iter_next ar it = Some (it', Some (k, v)) \<and> iter_rel ar it' t' fr' \<and> pending ar t' fr' = ys"
    using p f tk
    by (intro exI [of _ "it1\<lparr>it_sp := length fr2, it_cursor := slot_r (ar ! i)\<rparr>"] exI [of _ r] exI [of _ fr2])
      (auto simp: iter_next_def iter_rel_def entry_def)
qed

lemma iter_collect_ok:
  "iter_rel ar it t fr \<Longrightarrow> pending ar t fr = xs \<Longrightarrow>
   iter_collect ar it = Some (map (\<lambda>(k, v, tg). (k, v)) xs)"
proof (induction xs arbitrary: it t fr)
  case Nil
  with iter_next_ok(1) [OF Nil.prems] show ?case by (subst iter_collect.simps) auto
next
  case (Cons x xs)
  obtain k v tg where x: "x = (k, v, tg)" by (cases x) auto
  from iter_next_ok(2) [OF Cons.prems(1) Cons.prems(2) [unfolded x]] obtain it' t' fr' where
    "iter_next ar it = Some (it', Some (k, v))" "iter_rel ar it' t' fr'" "pending ar t' fr' = xs" by blast
  with Cons.IH [OF this(2,3)] show ?case by (subst iter_collect.simps) (simp add: x)
qed

lemma avl_iter_ok:
  assumes "avl_rel m xs ts"
  shows "iter_collect (arena m) (avl_iter m) = Some (map (\<lambda>(k, v, tg). (k, v)) xs)"
proof -
  obtain t where t: "sub_ok (arena m) (h_root (header m)) t" "xs = contents (arena m) t"
    using assms by (auto simp: avl_rel_def)
  have "iter_rel (arena m) (avl_iter m) t []"
    using t(1) sub_ok_height [OF t(1)] by (auto simp: iter_rel_def avl_iter_def MAX_HEIGHT_def sub_ok_def)
  from iter_collect_ok [OF this] show ?thesis by (simp add: pending_def t(2))
qed


subsection \<open>The self check\<close>

lemma assert_dfs_ok:
  "sub_ok ar p t \<Longrightarrow> t \<noteq> \<langle>\<rangle> \<Longrightarrow>
   assert_dfs ar p = Some (int (height t), fst (hd (contents ar t)), fst (last (contents ar t)))"
proof (induction t arbitrary: p)
  case (Node l i r)
  note n = sub_ok_Node [OF Node.prems(1)]
  have nl: "l \<noteq> \<langle>\<rangle> \<Longrightarrow> contents ar l \<noteq> []" and nr: "r \<noteq> \<langle>\<rangle> \<Longrightarrow> contents ar r \<noteq> []"
    by (cases l; simp) (cases r; simp)
  have ordl: "fst (hd (contents ar l)) < s_key (ar ! i)" "fst (last (contents ar l)) < s_key (ar ! i)" if "l \<noteq> \<langle>\<rangle>"
    using n(11) nl [OF that] by auto
  have ordr: "s_key (ar ! i) < fst (hd (contents ar r))" "s_key (ar ! i) < fst (last (contents ar r))" if "r \<noteq> \<langle>\<rangle>"
    using n(12) nr [OF that] by auto
  have ht: "uint (slot_height (ar ! i)) = 1 + max (int (height l)) (int (height r))"
    "\<bar>int (height l) - int (height r)\<bar> \<le> 1"
    using Node.prems(1) by (auto simp: sub_ok_def)
  have rl: "slot_l (ar ! i) = root_ix l" "slot_r (ar ! i) = root_ix r"
    using sub_ok_root [OF n(3)] sub_ok_root [OF n(4)] by auto
  note ihl = Node.IH(1) [OF n(3)] and ihr = Node.IH(2) [OF n(4)]
  define al where "al = (if l = \<langle>\<rangle> then s_key (ar ! i) else fst (hd (contents ar l)))"
  define zl where "zl = (if l = \<langle>\<rangle> then s_key (ar ! i) else fst (last (contents ar l)))"
  define ar' where "ar' = (if r = \<langle>\<rangle> then s_key (ar ! i) else fst (hd (contents ar r)))"
  define zr where "zr = (if r = \<langle>\<rangle> then s_key (ar ! i) else fst (last (contents ar r)))"
  have L: "(case slot_l (ar ! i) of Some li \<Rightarrow> do {
            (h, min_k, max_k) \<leftarrow> assert_dfs ar (Some li);
            if max_k \<le> s_key (ar ! i) then Some (h, min_k, max_k) else None }
        | None \<Rightarrow> Some (0, s_key (ar ! i), s_key (ar ! i))) = Some (int (height l), al, zl)"
    using ihl ordl rl by (cases l) (auto simp: al_def zl_def)
  have R: "(case slot_r (ar ! i) of Some ri \<Rightarrow> do {
            (h, min_k, max_k) \<leftarrow> assert_dfs ar (Some ri);
            if s_key (ar ! i) \<le> min_k then Some (h, min_k, max_k) else None }
        | None \<Rightarrow> Some (0, s_key (ar ! i), s_key (ar ! i))) = Some (int (height r), ar', zr)"
    using ihr ordr rl by (cases r) (auto simp: ar'_def zr_def)
  have "min (min al (s_key (ar ! i))) ar' = fst (hd (contents ar \<langle>l, i, r\<rangle>))"
    "max (max zr (s_key (ar ! i))) zl = fst (last (contents ar \<langle>l, i, r\<rangle>))"
    using ordl ordr nl nr
    by (auto simp: al_def ar'_def zl_def zr_def min_def max_def entry_def hd_append)
  then show ?case
    using n(1,2) ht by (subst assert_dfs.simps) (simp add: L R del: contents_simps)
qed simp

lemma assert_ok_ok: "avl_rel m xs ts \<Longrightarrow> assert_ok m = Some ()"
proof -
  assume rel: "avl_rel m xs ts"
  then obtain t where t: "sub_ok (arena m) (h_root (header m)) t" "h_len (header m) = length xs"
    by (auto simp: avl_rel_def)
  have "length xs \<le> capacity m" using avl_rel_capacity [OF rel] by simp
  then show ?thesis
    using assert_dfs_ok [OF t(1)] sub_ok_root [OF t(1)] t(2)
    by (cases t) (auto simp: assert_ok_def avl_len_def)
qed

subsection \<open>Initialisation\<close>

lemma init_slots_ok:
  assumes "init_slots n ar fh = (ar', fh')" "n \<le> length ar" "length ar \<le> 65535"
    "chain ar fh [n..<length ar]" "\<forall>i\<in>{n..<length ar}. \<not> slot_is_used (ar ! i)"
  shows "free_ok ar' fh' [0..<length ar] \<and> map s_tag ar' = map s_tag ar"
  using assms
proof (induction n ar fh arbitrary: ar' fh' rule: init_slots.induct)
  case (1 ar fh)
  then show ?case by (auto simp: free_ok_def)
next
  case (2 i ar fh)
  define nd where "nd = slot_set_l fh (slot_set_r None (slot_set_height 0 (slot_set_used False (ar ! i))))"
  let ?ar = "ar[i := nd]"
  note p = "2.prems"
  have ok: "link_ok fh" using p(3,4) by (cases "[Suc i..<length ar]") auto
  have ag: "agree (- {i}) ar ?ar" by (rule agree_update) simp
  have "chain ?ar fh [Suc i..<length ar]" using p(4) chain_agree [OF ag, of "[Suc i..<length ar]"] by auto
  then have c: "chain ?ar (Some i) [i..<length ?ar]"
    using p(2) ok by (simp add: upt_conv_Cons nd_def slot_simps)
  have u: "\<forall>j\<in>{i..<length ?ar}. \<not> slot_is_used (?ar ! j)"
    using p(2,5) by (auto simp: nth_list_update nd_def slot_simps)
  have t: "map s_tag ?ar = map s_tag ar"
    by (simp add: map_update nd_def slot_simps) (metis list_update_id map_update)
  have "init_slots i ?ar (Some i) = (ar', fh')" using p(1) by (simp add: nd_def)
  with "2.IH" [folded nd_def, of ar' fh'] c u t p(2,3) show ?case by simp
qed

lemma avl_new_ok:
  assumes "length ar \<le> 65535"
  shows "avl_rel (avl_new ar) [] (map s_tag ar)"
proof -
  obtain ar' fh where i: "init_slots (length ar) ar None = (ar', fh)" by (cases "init_slots (length ar) ar None")
  have f: "free_ok ar' fh [0..<length ar]" "map s_tag ar' = map s_tag ar"
    using init_slots_ok [OF i] assms by auto
  have len: "length ar' = length ar" using f(2) by (rule map_eq_imp_length_eq)
  have "tags ar' [0..<length ar] = map s_tag ar'"
    unfolding tags_def len [symmetric] by (rule nth_equalityI) auto
  then show ?thesis
    unfolding avl_rel_def avl_new_def i using f assms len
    by (intro exI [of _ "\<langle>\<rangle>"] exI [of _ "[0..<length ar]"]) auto
qed


section \<open>The contract\<close>

text \<open>
  What the free space manager relies on: a finite map from keys to a value and a tag, where the tag
  of a new key comes from a stack of free tags and goes back to it when the key is removed.
\<close>

locale tag_map =
  fixes rel :: "'m \<Rightarrow> ('k::linorder \<times> 'v \<times> 't) list \<Rightarrow> 't list \<Rightarrow> bool"
    and lookup :: "'m \<Rightarrow> 'k \<Rightarrow> ('v \<times> 't) option option"
    and ins :: "'m \<Rightarrow> 'k \<Rightarrow> 'v \<Rightarrow> ('m \<times> (avl_error + 'v option \<times> 't)) option"
    and rem :: "'m \<Rightarrow> 'k \<Rightarrow> ('m \<times> 'v option) option"
  assumes rel_sorted: "rel m xs ts \<Longrightarrow> sorted_keys xs"
    and lookup_law: "rel m xs ts \<Longrightarrow> lookup m k = Some (map_of xs k)"
    and ins_old: "rel m xs ts \<Longrightarrow> map_of xs k = Some (v0, t0) \<Longrightarrow>
      \<exists>m'. ins m k v = Some (m', Inr (Some v0, t0)) \<and> rel m' (ins_entry k v t0 xs) ts"
    and ins_new: "rel m xs (tg # ts) \<Longrightarrow> map_of xs k = None \<Longrightarrow>
      \<exists>m'. ins m k v = Some (m', Inr (None, tg)) \<and> rel m' (ins_entry k v tg xs) ts"
    and ins_full: "rel m xs [] \<Longrightarrow> map_of xs k = None \<Longrightarrow> ins m k v = Some (m, Inl Full)"
    and rem_law: "rel m xs ts \<Longrightarrow>
      \<exists>m'. rem m k = Some (m', map_option fst (map_of xs k)) \<and>
        rel m' (filter (\<lambda>x. fst x \<noteq> k) xs) (case map_of xs k of None \<Rightarrow> ts | Some (_, tg) \<Rightarrow> tg # ts)"
begin

lemma ins_lookup:
  assumes "rel m xs ts" "ins m k v = Some (m', Inr (old, tg))"
  shows "lookup m' k' = Some (if k' = k then Some (v, tg) else map_of xs k')"
    and "old = map_option fst (map_of xs k)"
proof -
  have s: "sorted_keys xs" by (rule rel_sorted [OF assms(1)])
  have "old = map_option fst (map_of xs k) \<and>
      lookup m' k' = Some (if k' = k then Some (v, tg) else map_of xs k')"
  proof (cases "map_of xs k")
    case None
    show ?thesis
    proof (cases ts)
      case Nil
      with ins_full [OF assms(1) [unfolded Nil] None, of v] assms(2) show ?thesis by simp
    next
      case (Cons t1 ts')
      from ins_new [OF assms(1) [unfolded Cons] None, of v] assms(2)
      have ts: "t1 = tg" "old = None" "rel m' (ins_entry k v tg xs) ts'" by auto
      then show ?thesis using None lookup_law [OF ts(3)] map_of_ins_entry [OF s, of k v tg] by simp
    qed
  next
    case (Some z)
    then obtain v0 t0 where z: "map_of xs k = Some (v0, t0)" by (cases z) auto
    with ins_old [OF assms(1) z, of v] assms(2) have ts: "old = Some v0" "tg = t0"
      "rel m' (ins_entry k v t0 xs) ts" by auto
    then show ?thesis using z lookup_law [OF ts(3)] map_of_ins_entry [OF s, of k v t0] by simp
  qed
  then show "lookup m' k' = Some (if k' = k then Some (v, tg) else map_of xs k')"
    and "old = map_option fst (map_of xs k)" by auto
qed

lemma rem_lookup:
  assumes "rel m xs ts" "rem m k = Some (m', old)"
  shows "lookup m' k' = Some (if k' = k then None else map_of xs k')"
proof -
  obtain ts' where r: "rel m' (filter (\<lambda>x. fst x \<noteq> k) xs) ts'" using rem_law [OF assms(1), of k] assms(2) by auto
  have "map_of (filter (\<lambda>x. fst x \<noteq> k) xs) k' = (if k' = k then None else map_of xs k')"
    by (induction xs) auto
  with lookup_law [OF r, of k'] show ?thesis by simp
qed

end

interpretation avlm: tag_map avl_rel avl_get avl_insert avl_remove
  by unfold_locales
    (rule avl_rel_sorted avl_get_ok avl_insert_old avl_insert_new avl_insert_full avl_remove_ok; assumption)+


section \<open>Sequences of operations\<close>

datatype ('k, 'v) map_op =
  OpInsert 'k 'v | OpRemove 'k | OpGet 'k | OpContains 'k | OpGetLte 'k | OpLen | OpIter | OpAssertOk

datatype ('k, 'v, 't) map_res =
  RInsert "avl_error + 'v option \<times> 't" | RRemove "'v option" | RGet "('v \<times> 't) option"
| RContains bool | RGetLte "('k \<times> 'v \<times> 't) option" | RLen nat | RIter "('k \<times> 'v) list" | RDone

text \<open>One call on the map.\<close>

fun avl_step ::
  "('k::linorder, 'v, 't) avl_map \<Rightarrow> ('k, 'v) map_op \<Rightarrow> (('k, 'v, 't) avl_map \<times> ('k, 'v, 't) map_res) option" where
  "avl_step m (OpInsert k v) = map_option (\<lambda>(m, r). (m, RInsert r)) (avl_insert m k v)"
| "avl_step m (OpRemove k) = map_option (\<lambda>(m, r). (m, RRemove r)) (avl_remove m k)"
| "avl_step m (OpGet k) = map_option (\<lambda>r. (m, RGet r)) (avl_get m k)"
| "avl_step m (OpContains k) = map_option (\<lambda>r. (m, RContains r)) (contains m k)"
| "avl_step m (OpGetLte k) = map_option (\<lambda>r. (m, RGetLte r)) (get_lte m k)"
| "avl_step m OpLen = Some (m, RLen (avl_len m))"
| "avl_step m OpIter = map_option (\<lambda>r. (m, RIter r)) (iter_collect (arena m) (avl_iter m))"
| "avl_step m OpAssertOk = map_option (\<lambda>_. (m, RDone)) (assert_ok m)"

text \<open>The same call on a sorted list of entries and a stack of free tags.\<close>

fun map_step ::
  "('k::linorder \<times> 'v \<times> 't) list \<times> 't list \<Rightarrow> ('k, 'v) map_op \<Rightarrow>
   (('k \<times> 'v \<times> 't) list \<times> 't list) \<times> ('k, 'v, 't) map_res" where
  "map_step (xs, ts) (OpInsert k v) =
     (case map_of xs k of
        Some (v0, t0) \<Rightarrow> ((ins_entry k v t0 xs, ts), RInsert (Inr (Some v0, t0)))
      | None \<Rightarrow>
          (case ts of
             [] \<Rightarrow> ((xs, ts), RInsert (Inl Full))
           | tg # ts' \<Rightarrow> ((ins_entry k v tg xs, ts'), RInsert (Inr (None, tg)))))"
| "map_step (xs, ts) (OpRemove k) =
     (case map_of xs k of
        None \<Rightarrow> ((xs, ts), RRemove None)
      | Some (v0, t0) \<Rightarrow> ((filter (\<lambda>x. fst x \<noteq> k) xs, t0 # ts), RRemove (Some v0)))"
| "map_step (xs, ts) (OpGet k) = ((xs, ts), RGet (map_of xs k))"
| "map_step (xs, ts) (OpContains k) = ((xs, ts), RContains (k \<in> fst ` set xs))"
| "map_step (xs, ts) (OpGetLte k) = ((xs, ts), RGetLte (lte_entry k xs))"
| "map_step (xs, ts) OpLen = ((xs, ts), RLen (length xs))"
| "map_step (xs, ts) OpIter = ((xs, ts), RIter (map (\<lambda>(k, v, tg). (k, v)) xs))"
| "map_step (xs, ts) OpAssertOk = ((xs, ts), RDone)"

lemma avl_step_sim:
  assumes "avl_rel m xs ts"
  shows "\<exists>m'. avl_step m op = Some (m', snd (map_step (xs, ts) op)) \<and>
    (case fst (map_step (xs, ts) op) of (xs', ts') \<Rightarrow> avl_rel m' xs' ts')"
proof (cases op)
  case (OpInsert k v)
  show ?thesis
  proof (cases "map_of xs k")
    case None
    then show ?thesis
      using OpInsert assms avlm.ins_full [of m xs k v] avlm.ins_new [of m xs _ _ k v] by (cases ts) auto
  next
    case (Some z)
    then show ?thesis
      using OpInsert avlm.ins_old [OF assms, of k "fst z" "snd z" v] by (cases z) auto
  qed
next
  case (OpRemove k)
  have "map_of xs k = None \<Longrightarrow> filter (\<lambda>x. fst x \<noteq> k) xs = xs"
    by (rule filter_key_id) (auto simp: map_of_eq_None_iff)
  then show ?thesis using OpRemove avlm.rem_law [OF assms, of k] by (auto split: option.splits)
next
  case (OpContains k)
  then show ?thesis
    using assms avl_get_ok [OF assms, of k] map_of_eq_None_iff [of xs k]
    by (cases "map_of xs k") (auto simp: contains_def)
next
  case OpLen
  then show ?thesis using assms by (auto simp: avl_len_def avl_rel_def)
qed (use assms in \<open>simp_all add: avl_get_ok get_lte_ok avl_iter_ok assert_ok_ok\<close>)

interpretation avls: simulation "\<lambda>m (xs, ts). avl_rel m xs ts" avl_step map_step
  by unfold_locales (use avl_step_sim in fastforce)

text \<open>No tag is lost or duplicated: the tags in use and the free tags together stay the same.\<close>

definition all_tags :: "('k \<times> 'v \<times> 't) list \<times> 't list \<Rightarrow> 't multiset" where
  "all_tags a = mset (map (snd \<circ> snd) (fst a)) + mset (snd a)"

lemma ins_entry_tags:
  "sorted_keys xs \<Longrightarrow> mset (map (snd \<circ> snd) (ins_entry k v t xs)) =
     mset (map (snd \<circ> snd) xs) + (if map_of xs k = None then {#t#} else {#})"
  unfolding map_of_eq_None_iff by (induction k v t xs rule: ins_entry.induct) auto

lemma filter_key_tags:
  "sorted_keys xs \<Longrightarrow> map_of xs k = Some (v, t) \<Longrightarrow>
   add_mset t (mset (map (snd \<circ> snd) (filter (\<lambda>x. fst x \<noteq> k) xs))) = mset (map (snd \<circ> snd) xs)"
proof (induction xs)
  case (Cons x xs)
  show ?case
  proof (cases "fst x = k")
    case True
    then have "filter (\<lambda>x. fst x \<noteq> k) xs = xs" using Cons.prems(1) by (intro filter_key_id) auto
    then show ?thesis using True Cons.prems(2) by (cases x) auto
  next
    case False
    then show ?thesis using Cons by (cases x) (auto simp: add_mset_commute)
  qed
qed simp


lemma map_step_inv:
  assumes "sorted_keys (fst a)"
  shows "sorted_keys (fst (fst (map_step a op))) \<and> all_tags (fst (map_step a op)) = all_tags a"
proof -
  obtain xs ts where a: "a = (xs, ts)" by (cases a)
  have s: "sorted_keys xs" using assms a by simp
  have f: "sorted_keys (filter P xs)" for P
    using s by (induction xs) auto
  show ?thesis
  proof (cases op)
    case (OpInsert k v)
    show ?thesis
    proof (cases "map_of xs k")
      case None
      then show ?thesis
        using OpInsert s ins_entry_sorted [OF s] ins_entry_tags [OF s, of k v]
        by (cases ts) (simp_all add: a all_tags_def)
    next
      case (Some z)
      then show ?thesis
        using OpInsert s ins_entry_sorted [OF s] ins_entry_tags [OF s, of k v]
        by (cases z) (simp add: a all_tags_def)
    qed
  next
    case (OpRemove k)
    then show ?thesis
      using s f filter_key_tags [OF s, of k] by (auto simp: a all_tags_def split: option.splits)
  qed (use s in \<open>simp_all add: a all_tags_def\<close>)
qed

text \<open>The tags of the arena are the tags in use and the free tags.\<close>

lemma avl_rel_tags: "avl_rel m xs ts \<Longrightarrow> mset (map s_tag (arena m)) = all_tags (xs, ts)"
proof -
  assume "avl_rel m xs ts"
  then obtain t fs where t: "sub_ok (arena m) (h_root (header m)) t"
    "free_ok (arena m) (h_free_head (header m)) fs" "set_tree t \<inter> set fs = {}"
    "set_tree t \<union> set fs = {..<length (arena m)}" "xs = contents (arena m) t" "ts = tags (arena m) fs"
    by (auto simp: avl_rel_def)
  have "mset (inorder t @ fs) = mset [0..<length (arena m)]"
    using t by (intro set_eq_iff_mset_eq_distinct [THEN iffD1])
      (auto simp: sub_ok_def free_ok_def lessThan_atLeast0)
  then have "mset (map (\<lambda>i. s_tag (arena m ! i)) (inorder t @ fs)) =
      mset (map (\<lambda>i. s_tag (arena m ! i)) [0..<length (arena m)])"
    unfolding mset_map by simp
  moreover have "map (\<lambda>i. s_tag (arena m ! i)) [0..<length (arena m)] = map s_tag (arena m)"
    by (rule nth_equalityI) auto
  ultimately show ?thesis
    by (simp add: all_tags_def t(5,6) contents_def tags_def entry_def comp_def)
qed

section \<open>Properties\<close>

text \<open>
  C3.  Every sequence of calls on a freshly initialised arena of at most 65535 slots returns (no
  panic, no endless loop), with exactly the results of a sorted list of entries and a stack of free
  tags, and leaves a well-formed balanced tree.  This covers \<open>insert\<close> (new key, existing key, full
  arena), \<open>remove\<close>, \<open>get\<close>, \<open>contains\<close>, \<open>get_lte\<close>, \<open>len\<close>, the in-order iterator with its fixed stack
  of 128 entries, and the self check \<open>assert_ok\<close>.
\<close>

theorem avl_refines_map:
  assumes "length ar \<le> 65535"
  shows "\<exists>m'. run_ops avl_step (avl_new ar) ops =
      Some (m', snd (run_spec map_step ([], map s_tag ar) ops)) \<and>
    (case fst (run_spec map_step ([], map s_tag ar) ops) of (xs, ts) \<Rightarrow> avl_rel m' xs ts)"
  using avls.run_sim [of "avl_new ar" "([], map s_tag ar)" ops] avl_new_ok [OF assms] by simp

theorem avl_refines_map_witness:
  "\<exists>m'. run_ops avl_step (avl_new (map (\<lambda>tg. slot_default 0 CHR ''_'' tg) [10, 11 :: nat]))
     [OpInsert (5 :: nat) CHR ''a'', OpInsert 3 CHR ''b'', OpInsert 9 CHR ''c'', OpInsert 5 CHR ''d'',
      OpGetLte 4, OpRemove 3, OpInsert 9 CHR ''c'', OpIter, OpLen, OpAssertOk] =
   Some (m', [RInsert (Inr (None, 10)), RInsert (Inr (None, 11)), RInsert (Inl Full),
      RInsert (Inr (Some CHR ''a'', 10)), RGetLte (Some (3, CHR ''b'', 11)), RRemove (Some CHR ''b''),
      RInsert (Inr (None, 11)), RIter [(5, CHR ''d''), (9, CHR ''c'')], RLen 2, RDone])"
  using avl_refines_map [of "map (\<lambda>tg. slot_default 0 CHR ''_'' tg) [10, 11 :: nat]"
      "[OpInsert (5 :: nat) CHR ''a'', OpInsert 3 CHR ''b'', OpInsert 9 CHR ''c'', OpInsert 5 CHR ''d'',
      OpGetLte 4, OpRemove 3, OpInsert 9 CHR ''c'', OpIter, OpLen, OpAssertOk]"]
  by (auto simp: slot_default_def lte_entry_def)

text \<open>
  C25.  No sequence of calls loses or duplicates a tag (the free space manager keeps the block number
  of a list of free blocks in it): the tags stored in the arena remain a permutation of the initial
  ones, and every entry of the map, with the free slots, accounts for each of them once.
\<close>

theorem avl_tags_conserved:
  assumes "length ar \<le> 65535" "run_ops avl_step (avl_new ar) ops = Some (m, rs)"
  shows "mset (map s_tag (arena m)) = mset (map s_tag ar) \<and>
    (\<exists>xs ts. avl_rel m xs ts \<and> mset (map (snd \<circ> snd) xs) + mset ts = mset (map s_tag ar))"
proof -
  obtain xs ts where r: "fst (run_spec map_step ([], map s_tag ar) ops) = (xs, ts)"
    by (cases "fst (run_spec map_step ([], map s_tag ar) ops)")
  have rel: "avl_rel m xs ts"
    using avls.run_sim [of "avl_new ar" "([], map s_tag ar)" ops] avl_new_ok [OF assms(1)] assms(2) r by simp
  have "sorted_keys (fst (xs, ts)) \<and> all_tags (xs, ts) = all_tags ([], map s_tag ar)"
    unfolding r [symmetric] by (rule avls.run_invariant) (use map_step_inv in \<open>auto simp: all_tags_def\<close>)
  then show ?thesis using rel avl_rel_tags [OF rel] by (auto simp: all_tags_def)
qed


theorem avl_tags_conserved_witness:
  "\<exists>m rs. run_ops avl_step (avl_new (map (\<lambda>tg. slot_default 0 CHR ''_'' tg) [10, 11, 12 :: nat]))
     [OpInsert (5 :: nat) CHR ''a'', OpInsert 3 CHR ''b'', OpInsert 9 CHR ''c'', OpRemove 5] = Some (m, rs) \<and>
   mset (map s_tag (arena m)) = {#10, 11, 12#}"
proof -
  let ?ar = "map (\<lambda>tg. slot_default 0 CHR ''_'' tg) [10, 11, 12 :: nat] :: (nat, char, nat) slot list"
  let ?ops = "[OpInsert (5 :: nat) CHR ''a'', OpInsert 3 CHR ''b'', OpInsert 9 CHR ''c'', OpRemove 5]"
  have len: "length ?ar \<le> 65535" by simp
  obtain m rs where run: "run_ops avl_step (avl_new ?ar) ?ops = Some (m, rs)"
    using avls.run_sim [of "avl_new ?ar" "([], map s_tag ?ar)" ?ops] avl_new_ok [OF len] by auto
  have "mset (map s_tag ?ar) = {#10, 11, 12#}" by (simp add: slot_default_def)
  then have "mset (map s_tag (arena m)) = {#10, 11, 12#}"
    using avl_tags_conserved [OF len run] by simp
  with run show ?thesis by blast
qed

end
