(* ===== verification/Pages.thy ===== *)
theory Pages
  imports Avl_Contract "HOL-Library.Code_Target_Nat"
begin

text \<open>
  Block storage: the pages of an index relation, what the code keeps in their content area, and the
  primitives of \<^verbatim>\<open>buffer.rs\<close> and \<^verbatim>\<open>utils.rs\<close> that extend the relation, initialise a page and append
  to it.

  The relation is a list of pages indexed by block number.  A page has the special area of
  \<open>BM25PageSpecialData\<close> (the next block and \<open>xmax\<close>) and a body.  The code casts the content area to
  the struct it expects; here the body is a datatype with one constructor per struct, and reading a
  page as a struct it does not hold gives no result.  A page that \<open>PageInit\<close> has just zeroed reads as
  the zero value of any struct.
\<close>

section \<open>Structs on pages\<close>

record linked_list_data =
  ll_start :: block_number
  ll_last :: block_number
  ll_blocklist :: block_number

record line_pointer =
  lp_dead :: bool
  lp_data :: "u8 list"

record avl_leaf =
  lf_len :: nat
  lf_entries :: "block_number list"

record v1_block =
  vb_empty :: bool
  vb_entries :: "(block_number \<times> xid) list"

record vacuum_list_data =
  vl_segment_ids :: "u8 list list"
  vl_nentries :: u16

datatype bgmerger_state = Stopped | Starting | Running

record meta_page_data =
  active_vacuum_list :: block_number
  ambulkdelete_sentinel :: block_number
  merge_lock :: block_number
  cleanup_lock :: block_number
  schema_start :: block_number
  settings_start :: block_number
  segment_metas_start :: block_number
  v1_fsm :: block_number
  segment_meta_garbage :: block_number
  ambulkdelete_epoch :: u32
  v2_fsm :: block_number
  bgmerger :: block_number

datatype page_body =
    Uninit
  | Blank
  | Bytes "u8 list"
  | Items "line_pointer list"
  | ListHeader linked_list_data
  | FsmV1 v1_block
  | FsmRoot "(nat, unit, block_number) avl_map"
  | FsmLeaf avl_leaf
  | VacuumPage vacuum_list_data
  | MergeLockPage block_number
  | BgMergerPage int bgmerger_state
  | MetaPage meta_page_data

record page =
  pg_next :: block_number
  pg_xmax :: xid
  pg_body :: page_body

type_synonym store = "page list"

definition block_number_is_valid :: "block_number \<Rightarrow> bool" where
  "block_number_is_valid b \<longleftrightarrow> b \<noteq> 0 \<and> b \<noteq> InvalidBlockNumber"

definition BLCKSZ :: nat where "BLCKSZ = 8192"

text \<open>Both the special area (8 bytes) and the page header (24 bytes) are aligned already.\<close>

definition bm25_max_free_space :: nat where "bm25_max_free_space = BLCKSZ - 8 - 24"

section \<open>Reading and writing pages\<close>

definition set_body :: "store \<Rightarrow> block_number \<Rightarrow> page_body \<Rightarrow> store option" where
  "set_body s b c = modify_at s b (\<lambda>p. p\<lparr>pg_body := c\<rparr>)"

definition set_next :: "store \<Rightarrow> block_number \<Rightarrow> block_number \<Rightarrow> store option" where
  "set_next s b n = modify_at s b (\<lambda>p. p\<lparr>pg_next := n\<rparr>)"

definition next_blockno :: "store \<Rightarrow> block_number \<Rightarrow> block_number option" where
  "next_blockno s b = map_option pg_next (get_at s b)"

definition body_of :: "store \<Rightarrow> block_number \<Rightarrow> page_body option" where
  "body_of s b = map_option pg_body (get_at s b)"

definition zero_page :: page where
  "zero_page = \<lparr>pg_next = 0, pg_xmax = 0, pg_body = Uninit\<rparr>"

definition blank_page :: page where
  "blank_page = \<lparr>pg_next = InvalidBlockNumber, pg_xmax = InvalidTransactionId, pg_body = Blank\<rparr>"

definition init_page :: "store \<Rightarrow> block_number \<Rightarrow> store option" where
  "init_page s b = modify_at s b (\<lambda>_. blank_page)"

text \<open>\<open>RBM_ZERO_AND_LOCK\<close>: the page is handed out as zero bytes.\<close>

definition zero_block :: "store \<Rightarrow> block_number \<Rightarrow> store option" where
  "zero_block s b = modify_at s b (\<lambda>_. zero_page)"

section \<open>Extending the relation\<close>

text \<open>Postgres refuses to extend a relation past \<open>InvalidBlockNumber\<close> blocks.\<close>

definition extend_by_one_buffer :: "store \<Rightarrow> (store \<times> block_number) option" where
  "extend_by_one_buffer s =
     (if length s < InvalidBlockNumber then Some (s @ [zero_page], length s) else None)"

fun bulk_extend_relation :: "store \<Rightarrow> nat \<Rightarrow> (store \<times> block_number list) option" where
  "bulk_extend_relation s 0 = Some (s, [])"
| "bulk_extend_relation s (Suc n) = do {
     (s, b) \<leftarrow> extend_by_one_buffer s;
     (s, bs) \<leftarrow> bulk_extend_relation s n;
     Some (s, b # bs)
   }"

definition MAX_BUFFERS_TO_EXTEND_BY :: nat where "MAX_BUFFERS_TO_EXTEND_BY = 64"

definition init_new_buffer :: "store \<Rightarrow> (store \<times> block_number) option" where
  "init_new_buffer s = do {
     (s, b) \<leftarrow> extend_by_one_buffer s;
     s \<leftarrow> init_page s b;
     Some (s, b)
   }"

section \<open>Bytes on a page\<close>

text \<open>
  \<open>pd_lower\<close> and \<open>pd_upper\<close> are \<open>u16\<close>.  A byte page fills the space between them from below.
\<close>

definition page_bytes :: "page_body \<Rightarrow> u8 list option" where
  "page_bytes c = (case c of Blank \<Rightarrow> Some [] | Bytes bs \<Rightarrow> Some bs | _ \<Rightarrow> None)"

definition pd_lower :: "u8 list \<Rightarrow> u16" where "pd_lower bs = of_nat (24 + length bs)"

definition pd_upper :: u16 where "pd_upper = of_nat (24 + bm25_max_free_space)"

definition free_space :: "u8 list \<Rightarrow> nat" where
  "free_space bs = unat pd_upper - unat (pd_lower bs)"

definition can_fit :: "u8 list \<Rightarrow> nat \<Rightarrow> bool option" where
  "can_fit bs len =
     (if len \<ge> 2 ^ 16 then None else Some (\<not> pd_lower bs + of_nat len > pd_upper))"

definition append_bytes :: "store \<Rightarrow> block_number \<Rightarrow> u8 list \<Rightarrow> (store \<times> bool) option" where
  "append_bytes s b new = do {
     c \<leftarrow> body_of s b;
     bs \<leftarrow> page_bytes c;
     fits \<leftarrow> can_fit bs (length new);
     (if fits then do { s \<leftarrow> set_body s b (Bytes (bs @ new)); Some (s, True) } else Some (s, False))
   }"

section \<open>Chains of pages\<close>

text \<open>
  \<open>lseg s b bs e\<close>: following \<open>next_blockno\<close> from \<open>b\<close> visits the blocks \<open>bs\<close> and arrives at \<open>e\<close>.  A list
  on disk is a segment that ends at \<open>InvalidBlockNumber\<close>.
\<close>

fun lseg :: "store \<Rightarrow> block_number \<Rightarrow> block_number list \<Rightarrow> block_number \<Rightarrow> bool" where
  "lseg s b [] e \<longleftrightarrow> b = e"
| "lseg s b (x # xs) e \<longleftrightarrow>
     b = x \<and> x \<noteq> InvalidBlockNumber \<and> x < length s \<and> lseg s (pg_next (s ! x)) xs e"

abbreviation pages_from :: "store \<Rightarrow> block_number \<Rightarrow> block_number list \<Rightarrow> bool" where
  "pages_from s b bs \<equiv> lseg s b bs InvalidBlockNumber"

text \<open>Walking a list: the block numbers from \<open>b\<close> on.\<close>

partial_function (option) walk_pages :: "store \<Rightarrow> block_number \<Rightarrow> block_number list option" where
  "walk_pages s b =
     (if b = InvalidBlockNumber then Some []
      else do { next \<leftarrow> next_blockno s b; bs \<leftarrow> walk_pages s next; Some (b # bs) })"

lemmas [code] = walk_pages.simps

text \<open>\<open>frame U s s'\<close>: from \<open>s\<close> to \<open>s'\<close> only the blocks in \<open>U\<close> and new blocks changed.\<close>

definition frame :: "block_number set \<Rightarrow> store \<Rightarrow> store \<Rightarrow> bool" where
  "frame U s s' \<longleftrightarrow> length s \<le> length s' \<and> (\<forall>b. b < length s \<longrightarrow> b \<notin> U \<longrightarrow> s' ! b = s ! b)"

section \<open>Facts about the primitives\<close>

lemma set_body_in [simp]: "b < length s \<Longrightarrow> set_body s b c = Some (s[b := (s ! b)\<lparr>pg_body := c\<rparr>])"
  by (simp add: set_body_def)

lemma set_next_in [simp]: "b < length s \<Longrightarrow> set_next s b n = Some (s[b := (s ! b)\<lparr>pg_next := n\<rparr>])"
  by (simp add: set_next_def)

lemma next_blockno_in [simp]: "b < length s \<Longrightarrow> next_blockno s b = Some (pg_next (s ! b))"
  by (simp add: next_blockno_def)

lemma body_of_in [simp]: "b < length s \<Longrightarrow> body_of s b = Some (pg_body (s ! b))"
  by (simp add: body_of_def)

lemma init_page_in [simp]: "b < length s \<Longrightarrow> init_page s b = Some (s[b := blank_page])"
  by (simp add: init_page_def)

lemma zero_block_in [simp]: "b < length s \<Longrightarrow> zero_block s b = Some (s[b := zero_page])"
  by (simp add: zero_block_def)

lemma blank_page_simps [simp]:
  "pg_next blank_page = InvalidBlockNumber" "pg_body blank_page = Blank"
  by (simp_all add: blank_page_def)

lemma init_new_buffer_ok [simp]:
  "length s < InvalidBlockNumber \<Longrightarrow> init_new_buffer s = Some (s @ [blank_page], length s)"
  by (simp add: init_new_buffer_def extend_by_one_buffer_def)

lemma init_new_buffer_Some:
  "init_new_buffer s = Some (s', b) \<Longrightarrow> s' = s @ [blank_page] \<and> b = length s \<and> length s < InvalidBlockNumber"
  by (cases "length s < InvalidBlockNumber") (auto simp: init_new_buffer_def extend_by_one_buffer_def)

lemma bulk_extend_ok:
  "length s + n \<le> InvalidBlockNumber \<Longrightarrow>
     bulk_extend_relation s n = Some (s @ replicate n zero_page, [length s..<length s + n])"
proof (induction n arbitrary: s)
  case (Suc n)
  then have "bulk_extend_relation (s @ [zero_page]) n =
      Some ((s @ [zero_page]) @ replicate n zero_page, [length s + 1..<length s + 1 + n])"
    using Suc.IH [of "s @ [zero_page]"] by simp
  moreover have "length s # [length s + 1..<length s + 1 + n] = [length s..<length s + Suc n]"
    by (simp add: upt_conv_Cons)
  ultimately show ?case using Suc.prems by (simp add: extend_by_one_buffer_def)
qed simp

subsection \<open>Bytes\<close>

lemma pd_upper_val: "unat pd_upper = 24 + bm25_max_free_space"
  by (simp add: pd_upper_def bm25_max_free_space_def BLCKSZ_def)

lemma pd_lower_val: "length bs \<le> bm25_max_free_space \<Longrightarrow> unat (pd_lower bs) = 24 + length bs"
  unfolding pd_lower_def unsigned_of_nat
  by (simp add: bm25_max_free_space_def BLCKSZ_def take_bit_nat_eq_self)

lemma free_space_ok: "length bs \<le> bm25_max_free_space \<Longrightarrow> free_space bs = bm25_max_free_space - length bs"
  by (simp add: free_space_def pd_upper_val pd_lower_val)

subsection \<open>Chains\<close>

lemma lseg_append: "lseg s b (xs @ ys) e \<longleftrightarrow> (\<exists>m. lseg s b xs m \<and> lseg s m ys e)"
  by (induction xs arbitrary: b) auto

lemma lseg_snoc:
  "lseg s b (xs @ [y]) e \<longleftrightarrow> lseg s b xs y \<and> y \<noteq> InvalidBlockNumber \<and> y < length s \<and> pg_next (s ! y) = e"
  by (auto simp: lseg_append)

lemma lseg_bound: "lseg s b xs e \<Longrightarrow> x \<in> set xs \<Longrightarrow> x < length s \<and> x \<noteq> InvalidBlockNumber"
  by (induction xs arbitrary: b) auto

lemma lseg_cong:
  assumes "lseg s b xs e" "\<And>x. x \<in> set xs \<Longrightarrow> x < length s' \<and> pg_next (s' ! x) = pg_next (s ! x)"
  shows "lseg s' b xs e"
  using assms by (induction xs arbitrary: b) auto

lemma lseg_hd: "lseg s b (x # xs) e \<Longrightarrow> x = b" by simp

lemma pages_from_Nil: "pages_from s b bs \<Longrightarrow> bs = [] \<longleftrightarrow> b = InvalidBlockNumber"
  by (cases bs) auto

lemma walk_pages_ok: "pages_from s b bs \<Longrightarrow> walk_pages s b = Some bs"
  by (induction bs arbitrary: b) (simp_all add: walk_pages.simps)

lemma lseg_frame:
  assumes "lseg s b xs e" "frame U s s'" "set xs \<inter> U = {}"
  shows "lseg s' b xs e"
proof (rule lseg_cong [OF assms(1)])
  fix x assume "x \<in> set xs"
  with lseg_bound [OF assms(1)] assms(2,3) show "x < length s' \<and> pg_next (s' ! x) = pg_next (s ! x)"
    by (fastforce simp: frame_def)
qed

lemma lseg_relink:
  assumes "lseg s b (xs @ [y]) e" "distinct (xs @ [y])"
  shows "lseg (s[y := (s ! y)\<lparr>pg_next := e'\<rparr>]) b (xs @ [y]) e'"
proof -
  note y = assms(1) [unfolded lseg_snoc]
  have "lseg (s[y := (s ! y)\<lparr>pg_next := e'\<rparr>]) b xs y"
  proof (rule lseg_cong [OF conjunct1 [OF y]])
    fix x assume "x \<in> set xs"
    then have "x < length s" "x \<noteq> y" using lseg_bound [OF conjunct1 [OF y]] assms(2) by auto
    then show "x < length (s[y := (s ! y)\<lparr>pg_next := e'\<rparr>]) \<and>
        pg_next (s[y := (s ! y)\<lparr>pg_next := e'\<rparr>] ! x) = pg_next (s ! x)" by simp
  qed
  then show ?thesis using y by (simp add: lseg_snoc)
qed

lemma lseg_body [simp]:
  "lseg (s[y := (s ! y)\<lparr>pg_body := c\<rparr>]) b xs e \<longleftrightarrow> lseg s b xs e"
proof -
  have n: "pg_next (s[y := (s ! y)\<lparr>pg_body := c\<rparr>] ! x) = pg_next (s ! x)" for x
    by (cases "x = y"; cases "y < length s") (auto simp: list_update_beyond)
  show ?thesis by (induction xs arbitrary: b) (simp_all add: n)
qed

subsection \<open>Frames\<close>

lemma frame_refl [simp]: "frame U s s"
  by (simp add: frame_def)

lemma frame_trans: "frame U s s' \<Longrightarrow> frame V s' s'' \<Longrightarrow> frame (U \<union> V) s s''"
  by (auto simp: frame_def)

lemma frame_mono: "frame U s s' \<Longrightarrow> U \<subseteq> V \<Longrightarrow> frame V s s'"
  by (auto simp: frame_def)

lemma frame_new: "frame U s s' \<Longrightarrow> frame (U \<union> {length s..}) s' s'' \<Longrightarrow> frame U s s''"
  unfolding frame_def by (metis UnE atLeast_iff leD le_trans order_less_le_trans)

lemma frame_update [simp]: "b \<in> U \<Longrightarrow> frame U s (s[b := p])"
  by (auto simp: frame_def intro!: nth_list_update_neq)

lemma frame_step: "frame U s s' \<Longrightarrow> b \<in> U \<Longrightarrow> frame U s (s'[b := p])"
  unfolding frame_def by (metis length_list_update nth_list_update_neq)

lemma nth_update_outside: "x \<in> U \<Longrightarrow> b \<notin> U \<Longrightarrow> s[b := p] ! x = s ! x"
  by (metis nth_list_update_neq)

lemma frame_extend [simp]: "frame U s (s @ ps)"
  by (auto simp: frame_def nth_append)

lemma frame_nth: "frame U s s' \<Longrightarrow> b < length s \<Longrightarrow> b \<notin> U \<Longrightarrow> s' ! b = s ! b"
  by (auto simp: frame_def)

lemma frame_length: "frame U s s' \<Longrightarrow> length s \<le> length s'"
  by (auto simp: frame_def)

end
