(* ===== verification/Fsm_V2.thy ===== *)
theory Fsm_V2
  imports Pages "HOL-Library.Multiset"
begin

text \<open>
  The free space manager of \<^verbatim>\<open>fsm.rs\<close>, module \<^verbatim>\<open>v2\<close>.  Its root page holds an AVL map from a
  transaction id to a tag, and the tag is the first block of a chain of leaf pages that list the
  blocks which become reusable at that transaction.

  One backend runs the operations of the model.  What other backends do shows only through
  \<open>can_lock\<close>, the outcome of a conditional lock, on which no theorem makes an assumption unless it
  says so.
\<close>

section \<open>The model\<close>

text \<open>What the code asks of Postgres: the transaction counters and the outcome of a conditional lock.\<close>

record fsm_env =
  current_xid :: nat
  next_xid :: nat
  create_index :: bool
  can_lock :: "block_number \<Rightarrow> bool"

definition MAX_SLOTS :: nat where "MAX_SLOTS = (bm25_max_free_space - (4 + 40)) div 24"

definition MAX_ENTRIES :: nat where "MAX_ENTRIES = (bm25_max_free_space - 4) div 4"

definition leaf_default :: avl_leaf where
  "leaf_default = \<lparr>lf_len = 0, lf_entries = replicate MAX_ENTRIES InvalidBlockNumber\<rparr>"

text \<open>\<open>contents::<AvlLeaf>()\<close>: a page that was only initialised is a leaf of zero bytes.\<close>

definition as_leaf :: "page_body \<Rightarrow> avl_leaf option" where
  "as_leaf c = (case c of
      Blank \<Rightarrow> Some \<lparr>lf_len = 0, lf_entries = replicate MAX_ENTRIES 0\<rparr>
    | FsmLeaf l \<Rightarrow> Some l
    | _ \<Rightarrow> None)"

definition leaf_at :: "store \<Rightarrow> block_number \<Rightarrow> avl_leaf option" where
  "leaf_at s b = Option.bind (body_of s b) as_leaf"

definition init_new_leaf :: "store \<Rightarrow> (store \<times> block_number) option" where
  "init_new_leaf s = do {
     (s, b) \<leftarrow> init_new_buffer s;
     s \<leftarrow> set_body s b (FsmLeaf leaf_default);
     Some (s, b)
   }"

definition avl_ref :: "store \<Rightarrow> block_number \<Rightarrow> (nat, unit, block_number) avl_map option" where
  "avl_ref s root = do {
     c \<leftarrow> body_of s root;
     (case c of FsmRoot m \<Rightarrow> Some m | _ \<Rightarrow> None)
   }"

subsection \<open>Creation\<close>

fun create_tags :: "store \<Rightarrow> nat \<Rightarrow> (store \<times> block_number list) option" where
  "create_tags s 0 = Some (s, [])"
| "create_tags s (Suc n) = do {
     (s, b) \<leftarrow> init_new_buffer s;
     (s, bs) \<leftarrow> create_tags s n;
     Some (s, b # bs)
   }"

definition v2_create :: "store \<Rightarrow> (store \<times> block_number) option" where
  "v2_create s = do {
     (s, root) \<leftarrow> init_new_buffer s;
     (s, bs) \<leftarrow> create_tags s MAX_SLOTS;
     s \<leftarrow> set_body s root (FsmRoot (avl_new (map (\<lambda>b. slot_default 0 () b) bs)));
     Some (s, root)
   }"

subsection \<open>Adding blocks\<close>

text \<open>The loop that copies blocks to the free entries of one leaf.\<close>

fun fill_leaf :: "avl_leaf \<Rightarrow> block_number list \<Rightarrow> avl_leaf \<times> block_number list" where
  "fill_leaf l [] = (l, [])"
| "fill_leaf l (w # ws) =
     (if lf_len l < length (lf_entries l)
      then fill_leaf (l\<lparr>lf_entries := (lf_entries l)[lf_len l := w], lf_len := lf_len l + 1\<rparr>) ws
      else (l, w # ws))"

partial_function (option) extend_freelist ::
  "store \<Rightarrow> block_number \<Rightarrow> block_number list \<Rightarrow> (store \<times> block_number) option"
where
  "extend_freelist s b ws = do {
     l \<leftarrow> leaf_at s b;
     next \<leftarrow> next_blockno s b;
     if lf_len l = length (lf_entries l) \<and> next \<noteq> InvalidBlockNumber
     then do {
       (s, nb) \<leftarrow> init_new_leaf s;
       (s, last_block) \<leftarrow> extend_freelist s nb ws;
       s \<leftarrow> set_next s last_block next;
       s \<leftarrow> set_next s b nb;
       Some (s, last_block)
     }
     else do {
       let (l, ws) = fill_leaf l ws;
       s \<leftarrow> set_body s b (FsmLeaf l);
       if ws = [] then Some (s, b)
       else if next = InvalidBlockNumber
       then do {
         (s, nb) \<leftarrow> init_new_leaf s;
         s \<leftarrow> set_next s b nb;
         extend_freelist s nb ws
       }
       else extend_freelist s next ws
     }
   }"

definition handle_full_tree :: "store \<Rightarrow> block_number \<Rightarrow> nat \<Rightarrow> (store \<times> block_number) option" where
  "handle_full_tree s root when_recyclable = do {
     m \<leftarrow> avl_ref s root;
     ix \<leftarrow> get_max_slot m;
     i \<leftarrow> ix;
     n \<leftarrow> get_at (arena m) i;
     s \<leftarrow> (if when_recyclable > s_key n
           then set_body s root (FsmRoot (m\<lparr>arena := (arena m)[i := n\<lparr>s_key := when_recyclable\<rparr>]\<rparr>))
           else Some s);
     Some (s, s_tag n)
   }"

definition extend_with_when_recyclable ::
  "fsm_env \<Rightarrow> store \<Rightarrow> block_number \<Rightarrow> nat \<Rightarrow> block_number list \<Rightarrow> store option" where
  "extend_with_when_recyclable env s root when_recyclable ws = do {
     let w = (if create_index env then FirstNormalTransactionId else when_recyclable);
     if ws = [] then Some s
     else do {
       m \<leftarrow> avl_ref s root;
       found \<leftarrow> avl_get m w;
       (s, tag) \<leftarrow> (case found of
           Some (_, tag) \<Rightarrow> Some (s, tag)
         | None \<Rightarrow> do {
             (m', r) \<leftarrow> avl_insert m w ();
             s \<leftarrow> set_body s root (FsmRoot m');
             (case r of
                Inr (_, tag) \<Rightarrow> Some (s, tag)
              | Inl Full \<Rightarrow> handle_full_tree s root w)
           });
       (s, _) \<leftarrow> extend_freelist s tag ws;
       Some s
     }
   }"

definition fsm_extend :: "fsm_env \<Rightarrow> store \<Rightarrow> block_number \<Rightarrow> block_number list \<Rightarrow> store option" where
  "fsm_extend env s root ws =
     extend_with_when_recyclable env s root (max (current_xid env) FirstNormalTransactionId) ws"

subsection \<open>Taking blocks\<close>

fun pop_entries :: "nat \<Rightarrow> nat \<Rightarrow> avl_leaf \<Rightarrow> block_number list \<Rightarrow> (avl_leaf \<times> block_number list) option" where
  "pop_entries many 0 l blocks = Some (l\<lparr>lf_len := 0\<rparr>, blocks)"
| "pop_entries many (Suc n) l blocks =
     (if length blocks < many
      then do { e \<leftarrow> get_at (lf_entries l) n; pop_entries many n l (blocks @ [e]) }
      else Some (l\<lparr>lf_len := Suc n\<rparr>, blocks))"

definition unlink_head ::
  "store \<Rightarrow> block_number \<Rightarrow> nat \<Rightarrow> block_number \<Rightarrow> block_number \<Rightarrow> (store \<times> bool) option" where
  "unlink_head s root found_xid head next = do {
     m \<leftarrow> avl_ref s root;
     slot \<leftarrow> get_slot_mut m found_xid;
     (case slot of
        None \<Rightarrow> Some (s, False)
      | Some i \<Rightarrow> do {
          n \<leftarrow> get_at (arena m) i;
          if s_tag n = head
          then do {
            s \<leftarrow> set_body s root (FsmRoot (m\<lparr>arena := (arena m)[i := n\<lparr>s_tag := next\<rparr>]\<rparr>));
            Some (s, True)
          }
          else Some (s, False)
        })
   }"

definition remove_key :: "store \<Rightarrow> block_number \<Rightarrow> nat \<Rightarrow> store option" where
  "remove_key s root found_xid = do {
     m \<leftarrow> avl_ref s root;
     (m', _) \<leftarrow> avl_remove m found_xid;
     set_body s root (FsmRoot m')
   }"

text \<open>Reading one page: an empty head is left alone, any other page gives up what is needed of it.\<close>

definition visit_page ::
  "nat \<Rightarrow> store \<Rightarrow> block_number list \<Rightarrow> block_number \<Rightarrow> block_number \<Rightarrow> nat \<Rightarrow> avl_leaf \<Rightarrow> block_number \<Rightarrow>
     (store \<times> block_number list \<times> nat \<times> bool) option" where
  "visit_page many s blocks head blockno cnt l next =
     (if lf_len l = 0 \<and> head = blockno then Some (s, blocks, cnt, False)
      else do {
        (l', blocks') \<leftarrow> pop_entries many (lf_len l) l blocks;
        s \<leftarrow> (if lf_len l' = lf_len l then Some s else set_body s blockno (FsmLeaf l'));
        Some (s, blocks', cnt + lf_len l', blockno = head \<and> lf_len l' = 0 \<and> next \<noteq> InvalidBlockNumber)
      })"

text \<open>
  The inner loop of \<open>drain\<close>, over the chain of one key.  It ends with \<open>ChainDone\<close> when its condition
  fails, and with \<open>NextKey\<close> when the code leaves it to look at the next smaller key.
\<close>

datatype chain_exit = ChainDone | NextKey

partial_function (option) drain_chain ::
  "fsm_env \<Rightarrow> block_number \<Rightarrow> nat \<Rightarrow> nat \<Rightarrow> store \<Rightarrow> block_number list \<Rightarrow> block_number \<Rightarrow> block_number \<Rightarrow> nat
     \<Rightarrow> (store \<times> block_number list \<times> chain_exit) option"
where
  "drain_chain env root many found_xid s blocks head blockno cnt =
     (if length blocks < many \<and> blockno \<noteq> InvalidBlockNumber
      then if \<not> can_lock env blockno then Some (s, blocks, NextKey)
      else do {
        l \<leftarrow> leaf_at s blockno;
        next \<leftarrow> next_blockno s blockno;
        (s, blocks, cnt, should_unlink) \<leftarrow> visit_page many s blocks head blockno cnt l next;
        if should_unlink then do {
          (s, did_update_head) \<leftarrow> unlink_head s root found_xid head next;
          s \<leftarrow> (if did_update_head
                then extend_with_when_recyclable env s root (next_xid env) [head] else Some s);
          drain_chain env root many found_xid s blocks (if did_update_head then next else head) next cnt
        }
        else if next = InvalidBlockNumber \<and> cnt = 0 then do {
          s \<leftarrow> remove_key s root found_xid;
          Some (s, blocks, NextKey)
        }
        else drain_chain env root many found_xid s blocks head next cnt
      }
      else Some (s, blocks, ChainDone))"

text \<open>\<open>found_xid - 1\<close> is \<open>u64\<close> arithmetic; it would wrap for a key of 0.\<close>

definition xid_pred :: "nat \<Rightarrow> nat" where
  "xid_pred x = (if x = 0 then 2 ^ 64 - 1 else x - 1)"

partial_function (option) drain_loop ::
  "fsm_env \<Rightarrow> block_number \<Rightarrow> nat \<Rightarrow> store \<Rightarrow> block_number list \<Rightarrow> nat \<Rightarrow> (store \<times> block_number list) option"
where
  "drain_loop env root many s blocks xid =
     (if length blocks < many
      then do {
        m \<leftarrow> avl_ref s root;
        found \<leftarrow> get_lte m xid;
        (case found of
           None \<Rightarrow> Some (s, blocks)
         | Some (found_xid, _, tag) \<Rightarrow> do {
             (s, blocks, exit) \<leftarrow> drain_chain env root many found_xid s blocks tag tag 0;
             if exit = ChainDone \<and> length blocks = many then Some (s, blocks)
             else if xid_pred found_xid < FirstNormalTransactionId then Some (s, blocks)
             else drain_loop env root many s blocks (xid_pred found_xid)
           })
      }
      else Some (s, blocks))"

definition drain :: "fsm_env \<Rightarrow> store \<Rightarrow> block_number \<Rightarrow> nat \<Rightarrow> (store \<times> block_number list) option" where
  "drain env s root many = drain_loop env root many s [] (max (current_xid env) FirstNormalTransactionId)"

definition fsm_pop :: "fsm_env \<Rightarrow> store \<Rightarrow> block_number \<Rightarrow> (store \<times> block_number option) option" where
  "fsm_pop env s root = do {
     (s, blocks) \<leftarrow> drain env s root 1;
     Some (s, case blocks of [] \<Rightarrow> None | b # _ \<Rightarrow> Some b)
   }"

section \<open>Leaf pages\<close>

definition leaf_ok :: "store \<Rightarrow> block_number \<Rightarrow> bool" where
  "leaf_ok s b \<longleftrightarrow> (\<exists>l. leaf_at s b = Some l \<and> lf_len l \<le> length (lf_entries l))"

definition leaf_blocks :: "store \<Rightarrow> block_number \<Rightarrow> block_number list" where
  "leaf_blocks s b = (case leaf_at s b of Some l \<Rightarrow> take (lf_len l) (lf_entries l) | None \<Rightarrow> [])"

definition stored :: "store \<Rightarrow> block_number list \<Rightarrow> block_number list" where
  "stored s bs = concat (map (leaf_blocks s) bs)"

lemma stored_simps [simp]:
  "stored s [] = []" "stored s (b # bs) = leaf_blocks s b @ stored s bs"
  "stored s (bs @ cs) = stored s bs @ stored s cs"
  by (simp_all add: stored_def)

lemma leaf_at_in [simp]: "b < length s \<Longrightarrow> leaf_at s b = as_leaf (pg_body (s ! b))"
  by (simp add: leaf_at_def)

lemma as_leaf_FsmLeaf [simp]: "as_leaf (FsmLeaf l) = Some l"
  by (simp add: as_leaf_def)

lemma leaf_ok_cong: "b < length s \<Longrightarrow> b < length s' \<Longrightarrow> pg_body (s' ! b) = pg_body (s ! b) \<Longrightarrow> leaf_ok s' b = leaf_ok s b"
  by (simp add: leaf_ok_def)

lemma leaf_blocks_cong:
  "b < length s \<Longrightarrow> b < length s' \<Longrightarrow> pg_body (s' ! b) = pg_body (s ! b) \<Longrightarrow> leaf_blocks s' b = leaf_blocks s b"
  by (simp add: leaf_blocks_def)

lemma stored_cong:
  assumes "\<And>b. b \<in> set bs \<Longrightarrow> b < length s \<and> b < length s' \<and> pg_body (s' ! b) = pg_body (s ! b)"
  shows "stored s' bs = stored s bs"
  unfolding stored_def using assms leaf_blocks_cong by (intro arg_cong [of _ _ concat] map_cong) auto

lemma stored_frame:
  assumes "frame U s s'" "set bs \<subseteq> {..<length s}" "set bs \<inter> U = {}"
  shows "stored s' bs = stored s bs"
proof (rule stored_cong)
  fix b assume "b \<in> set bs"
  with assms have "b < length s" "b \<notin> U" by auto
  with assms(1) show "b < length s \<and> b < length s' \<and> pg_body (s' ! b) = pg_body (s ! b)"
    by (auto simp: frame_def)
qed

lemma leaf_ok_frame: "frame U s s' \<Longrightarrow> b < length s \<Longrightarrow> b \<notin> U \<Longrightarrow> leaf_ok s' b = leaf_ok s b"
  by (rule leaf_ok_cong) (auto simp: frame_def)

definition leaf_page :: page where "leaf_page = blank_page\<lparr>pg_body := FsmLeaf leaf_default\<rparr>"

lemma init_new_leaf_ok [simp]:
  "length s < InvalidBlockNumber \<Longrightarrow> init_new_leaf s = Some (s @ [leaf_page], length s)"
  by (simp add: init_new_leaf_def leaf_page_def list_update_append)

lemma leaf_page_simps [simp]:
  "pg_next leaf_page = InvalidBlockNumber" "pg_body leaf_page = FsmLeaf leaf_default"
  by (simp_all add: leaf_page_def)

lemma leaf_default_simps [simp]: "lf_len leaf_default = 0" "length (lf_entries leaf_default) = 2039"
  by (simp_all add: leaf_default_def MAX_ENTRIES_def bm25_max_free_space_def BLCKSZ_def)

lemma fill_leaf_ok:
  assumes "lf_len l \<le> length (lf_entries l)" "fill_leaf l ws = (l', ws')"
  shows "length (lf_entries l') = length (lf_entries l) \<and> lf_len l' \<le> length (lf_entries l') \<and>
     take (lf_len l') (lf_entries l') @ ws' = take (lf_len l) (lf_entries l) @ ws \<and>
     (ws' \<noteq> [] \<longrightarrow> lf_len l' = length (lf_entries l')) \<and> length ws' \<le> length ws \<and>
     (ws \<noteq> [] \<longrightarrow> lf_len l < length (lf_entries l) \<longrightarrow> length ws' < length ws)"
  using assms
proof (induction l ws rule: fill_leaf.induct)
  case (2 l w ws)
  show ?case
  proof (cases "lf_len l < length (lf_entries l)")
    case True
    let ?l = "l\<lparr>lf_entries := (lf_entries l)[lf_len l := w], lf_len := lf_len l + 1\<rparr>"
    have f: "fill_leaf ?l ws = (l', ws')" using "2.prems"(2) True by simp
    note h = "2.IH" [OF True _ f]
    have "take (lf_len l + 1) ((lf_entries l)[lf_len l := w]) = take (lf_len l) (lf_entries l) @ [w]"
      using True by (simp add: take_Suc_conv_app_nth)
    then show ?thesis using h True by auto
  qed (use 2 in auto)
qed auto

section \<open>Appending to a chain\<close>

text \<open>
  On the last page of a chain, \<open>extend_freelist\<close> fills the page and adds new pages for the rest.
  \<open>pages_needed\<close> bounds the number of new pages: every new page takes at least one block.
\<close>

definition pages_needed :: "avl_leaf \<Rightarrow> block_number list \<Rightarrow> nat" where
  "pages_needed l ws = (if lf_len l < length (lf_entries l) then length ws - 1 else length ws)"

definition extends_chain ::
  "store \<Rightarrow> block_number list \<Rightarrow> block_number list \<Rightarrow> store \<Rightarrow> block_number list \<Rightarrow> bool" where
  "extends_chain s bs ws s' bs' \<longleftrightarrow>
     frame (set bs) s s' \<and> length s' \<le> length s + length ws \<and>
     hd bs' = hd bs \<and> distinct bs' \<and> set bs' = set bs \<union> {length s..<length s'} \<and> pages_from s' (hd bs) bs' \<and>
     (\<forall>x\<in>set bs'. leaf_ok s' x) \<and> mset (stored s' bs') = mset (stored s bs) + mset ws"

lemma extends_chain_cons:
  assumes "extends_chain s2 [length s] ws' s' (length s # [Suc (length s)..<length s'])"
    "length s2 = Suc (length s)" "frame {b} s s2" "b < length s" "pg_next (s2 ! b) = length s" "leaf_ok s2 b"
    "leaf_blocks s2 (length s) = []" "leaf_blocks s2 b @ ws' = leaf_blocks s b @ ws"
    "length s' \<le> length s + length ws" "length s < InvalidBlockNumber"
  shows "extends_chain s [b] ws s' (b # [length s..<length s'])"
proof -
  note e = assms(1) [unfolded extends_chain_def]
  have len: "Suc (length s) \<le> length s'" using e assms(2) by (auto simp: frame_def)
  have upt: "[length s..<length s'] = length s # [Suc (length s)..<length s']" using len by (simp add: upt_conv_Cons)
  have b: "s' ! b = s2 ! b" using e assms(2,4) by (auto simp: frame_def)
  have fr: "frame {b} s s'"
    using assms(2,3) e len by (auto simp: frame_def)
  have lb: "leaf_blocks s' b = leaf_blocks s2 b" "leaf_ok s' b"
    using b assms(2,4,6) len leaf_blocks_cong [of b s2 s'] leaf_ok_cong [of b s2 s'] by auto
  have "mset (leaf_blocks s2 b) + mset ws' = mset (leaf_blocks s b) + mset ws"
    using arg_cong [OF assms(8), of mset] by simp
  moreover have "mset (leaf_blocks s' (length s)) + mset (stored s' [Suc (length s)..<length s']) = mset ws'"
    using e assms(7) by simp
  ultimately have ms: "mset (stored s' (b # [length s..<length s'])) = mset (stored s [b]) + mset ws"
    using lb(1) unfolding upt by (simp add: ac_simps)
  have pf: "pages_from s' b (b # [length s..<length s'])"
    using e assms(4,5,10) b len unfolding upt by simp
  have "leaf_ok s' x" if "x \<in> {length s..<length s'}" for x
    using e that unfolding upt [symmetric] by auto
  then show ?thesis
    unfolding extends_chain_def using fr lb(2) assms(4,9) ms pf by auto
qed

lemma extend_freelist_last:
  assumes "leaf_at s b = Some l" "lf_len l \<le> length (lf_entries l)" "b < length s"
    "pg_next (s ! b) = InvalidBlockNumber" "length s + pages_needed l ws \<le> InvalidBlockNumber"
  shows "\<exists>s'. extend_freelist s b ws = Some (s', last (b # [length s..<length s'])) \<and>
     length s' \<le> length s + pages_needed l ws \<and> extends_chain s [b] ws s' (b # [length s..<length s'])"
  using assms
proof (induction "2 * length ws + (if lf_len l < length (lf_entries l) then 0 else 1)"
    arbitrary: s b ws l rule: less_induct)
  case less
  obtain l' ws' where f: "fill_leaf l ws = (l', ws')" by (cases "fill_leaf l ws")
  note h = fill_leaf_ok [OF less.prems(2) f]
  define s1 where "s1 = s[b := (s ! b)\<lparr>pg_body := FsmLeaf l'\<rparr>]"
  have s1: "length s1 = length s" "leaf_at s1 b = Some l'" "pg_next (s1 ! b) = InvalidBlockNumber" "frame {b} s s1"
    using less.prems(3,4) by (auto simp: s1_def)
  have bi: "b \<noteq> InvalidBlockNumber" using less.prems(3,5) by auto
  have blk: "leaf_blocks s1 b @ ws' = leaf_blocks s b @ ws"
    using h s1(2) less.prems(1) by (simp add: leaf_blocks_def)
  show ?case
  proof (cases "ws' = []")
    case True
    have "extend_freelist s b ws = Some (s1, b)"
      using True less.prems f by (subst extend_freelist.simps) (simp add: s1_def)
    moreover have "extends_chain s [b] ws s1 [b]"
      using True arg_cong [OF blk, of mset] h s1 less.prems(3) bi by (auto simp: extends_chain_def leaf_ok_def)
    ultimately show ?thesis using s1(1) by (intro exI [of _ s1]) simp
  next
    case False
    then have ws: "ws \<noteq> []" using h by auto
    have room: "length s < InvalidBlockNumber" using False h less.prems(5) ws
      by (cases ws; cases ws') (auto simp: pages_needed_def split: if_splits)
    define s2 where "s2 = (s1 @ [leaf_page])[b := (s1 ! b)\<lparr>pg_next := length s\<rparr>]"
    have s2: "length s2 = Suc (length s)" "s2 ! length s = leaf_page" "s2 ! b = (s1 ! b)\<lparr>pg_next := length s\<rparr>"
      "frame {b} s s2"
      using less.prems(3) s1(1,4) by (auto simp: s2_def nth_append frame_def nth_list_update)
    have ef: "extend_freelist s b ws = extend_freelist s2 (length s) ws'"
      using False less.prems f room h s1(1)
      by (subst extend_freelist.simps) (simp add: s1_def s2_def nth_append)
    have ln: "leaf_at s2 (length s) = Some leaf_default" using s2 by simp
    have need: "Suc (pages_needed leaf_default ws') \<le> pages_needed l ws"
      using h ws False less.prems(2) by (cases ws') (auto simp: pages_needed_def)
    have dec: "2 * length ws' + (if lf_len leaf_default < length (lf_entries leaf_default) then 0 else 1)
        < 2 * length ws + (if lf_len l < length (lf_entries l) then 0 else 1)"
      using h ws by auto
    obtain s' where s': "extend_freelist s2 (length s) ws' = Some (s', last (length s # [length s2..<length s']))"
      "length s' \<le> length s2 + pages_needed leaf_default ws'"
      "extends_chain s2 [length s] ws' s' (length s # [length s2..<length s'])"
      using less.hyps [OF dec ln] s2(1,2) need less.prems(5) by auto
    have "leaf_ok s2 b" "leaf_blocks s2 b = leaf_blocks s1 b" "leaf_blocks s2 (length s) = []"
      using s1(1,2) s2 less.prems(3) h by (auto simp: leaf_ok_def leaf_blocks_def)
    moreover have "pages_needed l ws \<le> length ws" by (simp add: pages_needed_def)
    ultimately have "extends_chain s [b] ws s' (b # [length s..<length s'])"
      using s'(2) need blk s2(1)
      by (intro extends_chain_cons [OF s'(3) [unfolded s2(1)] s2(1,4) less.prems(3) _ _ _ _ _ room]) (simp_all add: s2(3))
    moreover have "length s < length s'" using s'(3) s2(1) by (simp add: extends_chain_def frame_def)
    then have "last (b # [length s..<length s']) = last (length s # [length s2..<length s'])"
      by (simp add: upt_conv_Cons s2(1))
    ultimately show ?thesis using s'(1,2) ef need s2(1) by (intro exI [of _ s']) simp
  qed
qed

text \<open>
  In the middle of a chain a full page gets a new list of pages behind it, and a page with room is
  filled before the next one is tried.
\<close>

lemma nth_relink_body: "pg_body (s[z := (s ! z)\<lparr>pg_next := n\<rparr>] ! x) = pg_body (s ! x)"
  by (cases "x = z"; cases "z < length s") (auto simp: list_update_beyond)

lemma extend_freelist_splice:
  assumes "pages_from s b (b # c # cs)" "distinct (b # c # cs)" "\<forall>x\<in>set (b # c # cs). leaf_ok s x"
    "leaf_at s b = Some l" "lf_len l = length (lf_entries l)"
    "ws \<noteq> []" "length s + length ws \<le> InvalidBlockNumber"
  shows "\<exists>s' z. extend_freelist s b ws = Some (s', z) \<and>
    extends_chain s (b # c # cs) ws s' (b # [length s..<length s'] @ c # cs)"
proof -
  define s1 where "s1 = s @ [leaf_page]"
  have bl: "x < length s" if "x \<in> set (b # c # cs)" for x using lseg_bound [OF assms(1) that] by simp
  have room: "length s < InvalidBlockNumber" using assms(6,7) by (cases ws) auto
  have ln: "leaf_at s1 (length s) = Some leaf_default" by (simp add: s1_def)
  have "length s1 + pages_needed leaf_default ws \<le> InvalidBlockNumber"
    using assms(6,7) by (cases ws) (auto simp: s1_def pages_needed_def)
  from extend_freelist_last [OF ln _ _ _ this] obtain s2 where
    ef: "extend_freelist s1 (length s) ws = Some (s2, last (length s # [Suc (length s)..<length s2]))"
    and need: "length s2 \<le> length s1 + pages_needed leaf_default ws"
    and e0: "extends_chain s1 [length s] ws s2 (length s # [Suc (length s)..<length s2])"
    by (auto simp: s1_def)
  define F where "F = length s # [Suc (length s)..<length s2]"
  have len: "length s < length s2" using e0 by (auto simp: extends_chain_def frame_def s1_def)
  have F: "F = [length s..<length s2]" using len by (simp add: F_def upt_conv_Cons)
  note e = e0 [folded F_def, unfolded extends_chain_def]
  define z where "z = last F"
  have "F \<noteq> []" by (simp add: F_def)
  then have zF: "z \<in> set F" "F = butlast F @ [z]" unfolding z_def by simp_all
  define s3 where "s3 = s2[z := (s2 ! z)\<lparr>pg_next := c\<rparr>]"
  define s4 where "s4 = s3[b := (s3 ! b)\<lparr>pg_next := length s\<rparr>]"
  have l4: "length s4 = length s2" by (simp add: s4_def s3_def)
  have zl: "z < length s2" "length s \<le> z" using zF(1) by (auto simp: F)
  have old: "s2 ! x = s ! x" if "x < length s" for x
    using e that by (auto simp: frame_def s1_def nth_append)
  have old4: "s4 ! x = s ! x" if "x < length s" "x \<noteq> b" for x
    using that zl old by (simp add: s4_def s3_def)
  have b4: "s4 ! b = (s ! b)\<lparr>pg_next := length s\<rparr>"
    using bl [of b] zl len old [of b] by (simp add: s4_def s3_def)
  have body4: "pg_body (s4 ! x) = pg_body (s2 ! x)" for x by (simp add: s4_def s3_def nth_relink_body)
  have run: "extend_freelist s b ws = Some (s4, z)"
    using assms(1,4,5) room ef zl len bl [of b]
    by (subst extend_freelist.simps) (simp add: s1_def s3_def s4_def z_def F_def)
  have "pages_from s2 (length s) F" "distinct F" using e by auto
  then have "lseg s3 (length s) F c"
    using lseg_relink [of s2 "length s" "butlast F" z InvalidBlockNumber c]
    unfolding s3_def by (metis zF(2))
  then have seg: "lseg s4 (length s) F c"
  proof (rule lseg_cong)
    fix x assume "x \<in> set F"
    then show "x < length s4 \<and> pg_next (s4 ! x) = pg_next (s3 ! x)"
      using bl [of b] l4 by (auto simp: s4_def F)
  qed
  have tail: "pages_from s4 c (c # cs)"
  proof (rule lseg_cong)
    show "pages_from s c (c # cs)" using assms(1) by simp
    fix x assume "x \<in> set (c # cs)"
    then have "x < length s" "x \<noteq> b" using bl assms(2) by auto
    then show "x < length s4 \<and> pg_next (s4 ! x) = pg_next (s ! x)" using len l4 old4 by simp
  qed
  have fr: "frame (set (b # c # cs)) s s4" using old4 len by (auto simp: frame_def l4)
  have st: "stored s4 F = stored s2 F" by (rule stored_cong) (auto simp: l4 body4 F)
  have st': "stored s4 (c # cs) = stored s (c # cs)"
  proof (rule stored_cong)
    fix x assume "x \<in> set (c # cs)"
    then have "x < length s" "x \<noteq> b" using bl assms(2) by auto
    then show "x < length s \<and> x < length s4 \<and> pg_body (s4 ! x) = pg_body (s ! x)" using len l4 old4 by simp
  qed
  have lb: "leaf_blocks s4 b = leaf_blocks s b"
    using bl [of b] b4 len by (intro leaf_blocks_cong) (auto simp: l4)
  have lok: "leaf_ok s4 x" if "x \<in> set (b # F @ c # cs)" for x
  proof (cases "x \<in> set F")
    case True
    then show ?thesis using e leaf_ok_cong [of x s2 s4] body4 l4 by (auto simp: F)
  next
    case False
    then have "x \<in> set (b # c # cs)" using that by auto
    then show ?thesis using assms(3) leaf_ok_cong [of x s s4] bl [of x] len l4 old4 [of x] b4 by (cases "x = b") auto
  qed
  have ms: "mset (stored s2 F) = mset ws" using e by (simp add: leaf_blocks_def s1_def)
  have pf: "pages_from s4 b (b # F @ c # cs)"
    using assms(1) bl [of b] b4 len seg tail lseg_append [of s4 "length s" F "c # cs" InvalidBlockNumber]
    by (auto simp: l4)
  have le: "length s2 \<le> length s + length ws"
    using need assms(6) by (cases ws) (auto simp: s1_def pages_needed_def)
  have "set (b # c # cs) \<inter> set F = {}" using bl leD by (fastforce simp: F)
  then have dist: "distinct (b # F @ c # cs)" using assms(2) by (auto simp: F)
  have seteq: "set (b # F @ c # cs) = set (b # c # cs) \<union> {length s..<length s4}" by (auto simp: F l4)
  have sto: "stored s4 (b # F @ c # cs) = leaf_blocks s b @ stored s2 F @ stored s (c # cs)"
    using lb st st' by simp
  have "extends_chain s (b # c # cs) ws s4 (b # F @ c # cs)"
    unfolding extends_chain_def sto
    by (intro conjI ballI fr lok dist seteq) (use le pf ms l4 in \<open>simp_all add: ac_simps\<close>)
  then show ?thesis using run by (auto simp: F l4)
qed

lemma extends_chain_step:
  assumes "pages_from s b (b # c # cs)" "distinct (b # c # cs)" "\<forall>x\<in>set (b # c # cs). leaf_ok s x"
    "s1 = s[b := (s ! b)\<lparr>pg_body := FsmLeaf l'\<rparr>]" "lf_len l' \<le> length (lf_entries l')"
    "leaf_blocks s1 b @ ws' = leaf_blocks s b @ ws" "length ws' \<le> length ws"
    "extends_chain s1 (c # cs) ws' s' cs'"
  shows "extends_chain s (b # c # cs) ws s' (b # cs')"
proof -
  note e = assms(8) [unfolded extends_chain_def]
  have bl: "x < length s" if "x \<in> set (b # c # cs)" for x using lseg_bound [OF assms(1) that] by simp
  have len: "length s1 = length s" "length s \<le> length s'" using e by (auto simp: assms(4) frame_def)
  have b': "s' ! b = s1 ! b" using e bl [of b] assms(2) len(1) by (auto simp: frame_def)
  have fr: "frame (set (b # c # cs)) s s'"
    using e frame_trans [of "{b}" s s1 "set (c # cs)" s'] by (simp add: assms(4) insert_commute)
  have st: "stored s1 (c # cs) = stored s (c # cs)"
    using assms(2) by (intro stored_frame [of "{b}"]) (use bl in \<open>auto simp: assms(4)\<close>)
  have lb: "leaf_blocks s' b = leaf_blocks s1 b" "leaf_ok s' b"
    using b' bl [of b] len leaf_blocks_cong [of b s1 s'] assms(4,5) by (auto simp: leaf_ok_def)
  have set': "set (b # cs') = set (b # c # cs) \<union> {length s..<length s'}" using e len(1) by auto
  have "b \<notin> set cs'" using e assms(2) bl [of b] len(1) by auto
  then have dist: "distinct (b # cs')" using e by simp
  have lok: "leaf_ok s' x" if "x \<in> set (b # cs')" for x using e lb(2) that by auto
  have "mset (stored s' (b # cs')) = mset (leaf_blocks s1 b) + (mset (stored s (c # cs)) + mset ws')"
    using e lb(1) unfolding st by simp
  also have "\<dots> = mset (leaf_blocks s1 b @ ws') + mset (stored s (c # cs))" by simp
  finally have ms: "mset (stored s' (b # cs')) = mset (stored s (b # c # cs)) + mset ws"
    unfolding assms(6) by simp
  have "pg_next (s1 ! b) = c" using assms(1,4) bl [of b] by simp
  then have "pages_from s' b (b # cs')" using e assms(1) b' bl [of b] len by auto
  then show ?thesis
    unfolding extends_chain_def ms by (intro conjI ballI fr lok dist set') (use e len assms(7) in auto)
qed

lemma extends_chain_refl:
  "pages_from s b (b # bs) \<Longrightarrow> distinct (b # bs) \<Longrightarrow> \<forall>x\<in>set (b # bs). leaf_ok s x \<Longrightarrow>
     extends_chain s (b # bs) [] s (b # bs)"
  by (auto simp: extends_chain_def)

lemma extend_freelist_chain:
  assumes "pages_from s b bs" "bs \<noteq> []" "distinct bs" "\<forall>x\<in>set bs. leaf_ok s x" "ws \<noteq> []"
    "length s + length ws \<le> InvalidBlockNumber"
  shows "\<exists>s' z bs'. extend_freelist s b ws = Some (s', z) \<and> extends_chain s bs ws s' bs'"
  using assms
proof (induction bs arbitrary: s b ws)
  case (Cons b0 bs)
  then have b: "b0 = b" "b < length s" by auto
  obtain l where l: "leaf_at s b = Some l" "lf_len l \<le> length (lf_entries l)"
    using Cons.prems(4) b by (auto simp: leaf_ok_def)
  show ?case
  proof (cases bs)
    case Nil
    have nx: "pg_next (s ! b) = InvalidBlockNumber" using Cons.prems(1) Nil b by simp
    have "length s + pages_needed l ws \<le> InvalidBlockNumber" using Cons.prems(6) unfolding pages_needed_def by arith
    from extend_freelist_last [OF l b(2) nx this] show ?thesis unfolding Nil b(1) by blast
  next
    case (Cons c cs)
    note p = Cons.prems [unfolded Cons b(1)]
    show ?thesis
    proof (cases "lf_len l = length (lf_entries l)")
      case True
      from extend_freelist_splice [OF p(1,3,4) l(1) True p(5,6)] Cons b(1) show ?thesis by blast
    next
      case False
      obtain l' ws' where f: "fill_leaf l ws = (l', ws')" by (cases "fill_leaf l ws")
      note h = fill_leaf_ok [OF l(2) f]
      define s1 where "s1 = s[b := (s ! b)\<lparr>pg_body := FsmLeaf l'\<rparr>]"
      have s1: "length s1 = length s" "leaf_at s1 b = Some l'" using b by (auto simp: s1_def)
      have blk: "leaf_blocks s1 b @ ws' = leaf_blocks s b @ ws"
        using h s1(2) l(1) by (simp add: leaf_blocks_def)
      have nx: "pg_next (s ! b) = c" "c \<noteq> InvalidBlockNumber" using p(1) by auto
      have s1': "pages_from s1 c (c # cs)" using p(1) unfolding s1_def lseg_body by simp
      have lok: "\<forall>x\<in>set (c # cs). leaf_ok s1 x"
      proof
        fix x assume x: "x \<in> set (c # cs)"
        then have "x \<noteq> b" using p(3) by auto
        then have "s1 ! x = s ! x" by (simp add: s1_def)
        then show "leaf_ok s1 x" using x p(4) s1(1) leaf_ok_cong [of x s s1] lseg_bound [OF p(1), of x] by auto
      qed
      have step: "extend_freelist s b ws = (if ws' = [] then Some (s1, b) else extend_freelist s1 c ws')"
        using False l b(2) f nx by (subst extend_freelist.simps) (simp add: s1_def)
      have "\<exists>s' z cs'. extend_freelist s b ws = Some (s', z) \<and> extends_chain s1 (c # cs) ws' s' cs'"
      proof (cases "ws' = []")
        case True
        then show ?thesis using step extends_chain_refl [OF s1' _ lok] p(3) by auto
      next
        case ne: False
        have "length s1 + length ws' \<le> InvalidBlockNumber" using p(6) h s1(1) by simp
        with Cons.IH [unfolded Cons, OF s1' _ _ lok ne] p(3) step ne show ?thesis by simp
      qed
      then show ?thesis
        using extends_chain_step [OF p(1,3,4) s1_def _ blk] h unfolding Cons b(1) by blast
    qed
  qed
qed simp

section \<open>The state of the free space manager\<close>

definition fsm_tags :: "(nat \<times> unit \<times> block_number) list \<Rightarrow> block_number list \<Rightarrow> block_number list" where
  "fsm_tags xs ts = map (\<lambda>x. snd (snd x)) xs @ ts"

text \<open>\<open>G\<close> gives the pages of the chain behind a tag.\<close>

definition fsm_pages ::
  "(block_number \<Rightarrow> block_number list) \<Rightarrow> (nat \<times> unit \<times> block_number) list \<Rightarrow> block_number list \<Rightarrow> block_number list" where
  "fsm_pages G xs ts = concat (map G (fsm_tags xs ts))"

text \<open>The blocks on record, each with the transaction id it is filed under.\<close>

definition fsm_entries ::
  "store \<Rightarrow> (block_number \<Rightarrow> block_number list) \<Rightarrow> (nat \<times> unit \<times> block_number) list \<Rightarrow> (nat \<times> block_number) multiset" where
  "fsm_entries s G xs = (\<Sum>x\<in>#mset xs. image_mset (Pair (fst x)) (mset (stored s (G (snd (snd x))))))"

definition fsm_inv ::
  "store \<Rightarrow> block_number \<Rightarrow> (nat \<times> unit \<times> block_number) list \<Rightarrow> block_number list \<Rightarrow>
     (block_number \<Rightarrow> block_number list) \<Rightarrow> bool" where
  "fsm_inv s root xs ts G \<longleftrightarrow>
     length s \<le> InvalidBlockNumber \<and> root < length s \<and>
     (\<exists>m. pg_body (s ! root) = FsmRoot m \<and> avl_rel m xs ts) \<and>
     (\<forall>t\<in>set (fsm_tags xs ts). pages_from s t (G t) \<and> G t \<noteq> []) \<and>
     distinct (root # fsm_pages G xs ts) \<and>
     (\<forall>b\<in>set (fsm_pages G xs ts). leaf_ok s b) \<and>
     (\<forall>t\<in>set ts. stored s (G t) = []) \<and>
     (\<forall>x\<in>set xs. FirstNormalTransactionId \<le> fst x)"

lemma fsm_inv_dest:
  assumes "fsm_inv s root xs ts G"
  shows "length s \<le> InvalidBlockNumber" "root < length s" "\<exists>m. pg_body (s ! root) = FsmRoot m \<and> avl_rel m xs ts"
    "\<And>t. t \<in> set (fsm_tags xs ts) \<Longrightarrow> pages_from s t (G t)" "\<And>t. t \<in> set (fsm_tags xs ts) \<Longrightarrow> G t \<noteq> []"
    "distinct (root # fsm_pages G xs ts)" "\<And>b. b \<in> set (fsm_pages G xs ts) \<Longrightarrow> leaf_ok s b"
    "\<And>t. t \<in> set ts \<Longrightarrow> stored s (G t) = []" "\<And>x. x \<in> set xs \<Longrightarrow> FirstNormalTransactionId \<le> fst x"
  using assms unfolding fsm_inv_def by blast+

lemma fsm_pages_bound: "fsm_inv s root xs ts G \<Longrightarrow> b \<in> set (fsm_pages G xs ts) \<Longrightarrow> b < length s"
  unfolding fsm_pages_def using fsm_inv_dest(4) lseg_bound by fastforce

lemma concat_map_distinct:
  assumes "distinct (concat (map G ts))" "\<forall>t\<in>set ts. G t \<noteq> []"
  shows "distinct ts" "\<And>t t'. t \<in> set ts \<Longrightarrow> t' \<in> set ts \<Longrightarrow> t \<noteq> t' \<Longrightarrow> set (G t) \<inter> set (G t') = {}"
    "\<And>t. t \<in> set ts \<Longrightarrow> distinct (G t)"
  using assms
proof (induction ts)
  case (Cons a ts)
  {
    case 1
    have "a \<notin> set ts"
    proof
      assume "a \<in> set ts"
      then have "set (G a) \<subseteq> set (concat (map G ts))" by auto
      then show False using 1 by (cases "G a") auto
    qed
    then show ?case using Cons.IH(1) 1 by simp
  next
    case 2
    then show ?case using Cons.IH(2) by (auto simp: disjoint_iff)
  next
    case 3
    then show ?case using Cons.IH(3) by auto
  }
qed simp_all

lemma concat_map_distinctI:
  "distinct ts \<Longrightarrow> (\<And>t. t \<in> set ts \<Longrightarrow> distinct (G t)) \<Longrightarrow>
     (\<And>t t'. t \<in> set ts \<Longrightarrow> t' \<in> set ts \<Longrightarrow> t \<noteq> t' \<Longrightarrow> set (G t) \<inter> set (G t') = {}) \<Longrightarrow>
     distinct (concat (map G ts))"
proof (induction ts)
  case (Cons a ts)
  have "set (G a) \<inter> set (G t) = {}" if "t \<in> set ts" for t
    using Cons.prems(1) Cons.prems(3) [of a t] that by auto
  then have "set (G a) \<inter> set (concat (map G ts)) = {}" by auto
  moreover have "distinct (concat (map G ts))" using Cons by simp
  ultimately show ?case using Cons.prems(2) [of a] by simp
qed simp

lemma fsm_inv_chains:
  assumes "fsm_inv s root xs ts G"
  shows "distinct (fsm_tags xs ts)"
    "\<And>t t'. t \<in> set (fsm_tags xs ts) \<Longrightarrow> t' \<in> set (fsm_tags xs ts) \<Longrightarrow> t \<noteq> t' \<Longrightarrow> set (G t) \<inter> set (G t') = {}"
    "\<And>t. t \<in> set (fsm_tags xs ts) \<Longrightarrow> distinct (G t)"
    "\<And>t. t \<in> set (fsm_tags xs ts) \<Longrightarrow> root \<notin> set (G t)"
    "\<And>t b. t \<in> set (fsm_tags xs ts) \<Longrightarrow> b \<in> set (G t) \<Longrightarrow> leaf_ok s b"
    "\<And>t b. t \<in> set (fsm_tags xs ts) \<Longrightarrow> b \<in> set (G t) \<Longrightarrow> b < length s"
proof -
  note d = fsm_inv_dest [OF assms]
  have d6: "distinct (concat (map G (fsm_tags xs ts)))" using d(6) by (simp add: fsm_pages_def)
  have ne: "\<forall>t\<in>set (fsm_tags xs ts). G t \<noteq> []" using d(5) by blast
  note c = concat_map_distinct [OF d6 ne]
  show "distinct (fsm_tags xs ts)" by (rule c(1))
  show "set (G t) \<inter> set (G t') = {}" if "t \<in> set (fsm_tags xs ts)" "t' \<in> set (fsm_tags xs ts)" "t \<noteq> t'" for t t'
    using c(2) that by blast
  show "distinct (G t)" if "t \<in> set (fsm_tags xs ts)" for t using c(3) that by blast
  show "root \<notin> set (G t)" if "t \<in> set (fsm_tags xs ts)" for t using d(6) that by (auto simp: fsm_pages_def)
  show "leaf_ok s b" if "t \<in> set (fsm_tags xs ts)" "b \<in> set (G t)" for t b
    using d(7) that by (auto simp: fsm_pages_def)
  show "b < length s" if "t \<in> set (fsm_tags xs ts)" "b \<in> set (G t)" for t b
    using lseg_bound [OF d(4) [OF that(1)] that(2)] by simp
qed

text \<open>One chain changes, the others and the root stay.\<close>

lemma fsm_inv_chain:
  assumes inv: "fsm_inv s root xs ts G" and t: "t \<in> set (fsm_tags xs ts)"
    and fr: "frame (set (G t)) s s'" and len: "length s' \<le> InvalidBlockNumber"
    and bs: "pages_from s' t bs'" "bs' \<noteq> []" "distinct bs'" "set bs' \<subseteq> set (G t) \<union> {length s..<length s'}"
      "\<forall>b\<in>set bs'. leaf_ok s' b" and free: "t \<in> set ts \<Longrightarrow> stored s' bs' = []"
  shows "fsm_inv s' root xs ts (G(t := bs'))"
    and "\<And>t'. t' \<in> set (fsm_tags xs ts) \<Longrightarrow> t' \<noteq> t \<Longrightarrow> stored s' (G t') = stored s (G t')"
proof -
  note d = fsm_inv_dest [OF inv] and c = fsm_inv_chains [OF inv]
  let ?G = "G(t := bs')"
  have oth: "set (G t') \<inter> set (G t) = {}" if "t' \<in> set (fsm_tags xs ts)" "t' \<noteq> t" for t'
    using c(2) [OF that(1) t that(2)] .
  show st: "stored s' (G t') = stored s (G t')" if "t' \<in> set (fsm_tags xs ts)" "t' \<noteq> t" for t'
    using c(6) [OF that(1)] oth [OF that] by (intro stored_frame [OF fr]) auto
  have root: "s' ! root = s ! root" "root < length s'"
    using frame_nth [OF fr d(2) c(4) [OF t]] frame_length [OF fr] d(2) by auto
  have new: "b \<in> set (G t) \<or> length s \<le> b" if "b \<in> set bs'" for b using bs(4) that by auto
  have disj: "set (?G t1) \<inter> set (?G t2) = {}"
    if "t1 \<in> set (fsm_tags xs ts)" "t2 \<in> set (fsm_tags xs ts)" "t1 \<noteq> t2" for t1 t2
  proof -
    have "set bs' \<inter> set (G t') = {}" if "t' \<in> set (fsm_tags xs ts)" "t' \<noteq> t" for t'
      using oth [OF that] new c(6) [OF that(1)] by (auto simp: disjoint_iff) (meson leD)
    then show ?thesis using that c(2) by (cases "t1 = t"; cases "t2 = t") auto
  qed
  have dist: "distinct (concat (map ?G (fsm_tags xs ts)))"
    by (rule concat_map_distinctI [OF c(1)]) (use c(3) bs(3) disj in auto)
  have "root \<notin> set (?G t')" if "t' \<in> set (fsm_tags xs ts)" for t'
    using c(4) [OF that] c(4) [OF t] new d(2) leD by (cases "t' = t") fastforce+
  then have "root \<notin> set (fsm_pages ?G xs ts)" unfolding fsm_pages_def set_concat set_map by blast
  then have r: "distinct (root # fsm_pages ?G xs ts)" using dist unfolding fsm_pages_def by simp
  have lok: "leaf_ok s' b" if b: "b \<in> set (fsm_pages ?G xs ts)" for b
  proof -
    obtain t' where t': "t' \<in> set (fsm_tags xs ts)" "b \<in> set (?G t')"
      using b unfolding fsm_pages_def set_concat set_map by blast
    show ?thesis
    proof (cases "t' = t")
      case False
      then have "b \<notin> set (G t)" "b \<in> set (G t')" using oth [OF t'(1)] t'(2) by auto
      then show ?thesis using leaf_ok_frame [OF fr c(6) [OF t'(1)]] c(5) [OF t'(1)] by simp
    qed (use bs(5) t'(2) in auto)
  qed
  have pf: "pages_from s' t' (?G t') \<and> ?G t' \<noteq> []" if "t' \<in> set (fsm_tags xs ts)" for t'
    using bs(1,2) lseg_frame [OF d(4) [OF that] fr] oth [OF that] d(5) [OF that] by (cases "t' = t") auto
  have fe: "stored s' (?G t') = []" if "t' \<in> set ts" for t'
    using that free d(8) [OF that] st [of t'] by (cases "t' = t") (auto simp: fsm_tags_def)
  show "fsm_inv s' root xs ts ?G"
    unfolding fsm_inv_def using len root d(3,9) r lok pf fe by simp
qed

text \<open>The root page changes, the leaves stay.\<close>

lemma fsm_inv_root:
  assumes inv: "fsm_inv s root xs ts G" and m': "avl_rel m' xs' ts'"
    and s': "s' = s[root := (s ! root)\<lparr>pg_body := FsmRoot m'\<rparr>]"
    and pf: "\<And>t. t \<in> set (fsm_tags xs' ts') \<Longrightarrow> pages_from s t (G' t) \<and> G' t \<noteq> []"
    and dist: "distinct (fsm_pages G' xs' ts')" "set (fsm_pages G' xs' ts') \<subseteq> set (fsm_pages G xs ts)"
    and free: "\<And>t. t \<in> set ts' \<Longrightarrow> stored s (G' t) = []"
    and keys: "\<And>x. x \<in> set xs' \<Longrightarrow> FirstNormalTransactionId \<le> fst x"
  shows "fsm_inv s' root xs' ts' G'"
    and "\<And>bs. set bs \<subseteq> set (fsm_pages G xs ts) \<Longrightarrow> stored s' bs = stored s bs"
proof -
  note d = fsm_inv_dest [OF inv]
  have fr: "frame {root} s s'" by (simp add: s')
  have root: "root \<notin> set (fsm_pages G xs ts)" using d(6) by simp
  show st: "stored s' bs = stored s bs" if "set bs \<subseteq> set (fsm_pages G xs ts)" for bs
    using root that fsm_pages_bound [OF inv] by (intro stored_frame [OF fr]) auto
  have sub: "set (G' t) \<subseteq> set (fsm_pages G xs ts)" if "t \<in> set (fsm_tags xs' ts')" for t
    using dist(2) that by (auto simp: fsm_pages_def)
  have "pages_from s' t (G' t)" if "t \<in> set (fsm_tags xs' ts')" for t
    using pf [OF that] by (simp add: s')
  moreover have "leaf_ok s' b" if "b \<in> set (fsm_pages G' xs' ts')" for b
    using leaf_ok_frame [OF fr] fsm_pages_bound [OF inv] d(7) dist(2) root that by blast
  moreover have "stored s' (G' t) = []" if "t \<in> set ts'" for t
    using st [OF sub [of t]] free [OF that] that by (simp add: fsm_tags_def)
  moreover have "root \<notin> set (fsm_pages G' xs' ts')" using root dist(2) by blast
  ultimately show "fsm_inv s' root xs' ts' G'"
    unfolding fsm_inv_def using d(1,2) m' pf dist(1) keys by (auto simp: s')
qed

lemma fsm_pages_mset: "mset (fsm_pages G xs ts) = (\<Sum>t\<in>#mset (fsm_tags xs ts). mset (G t))"
  by (simp add: fsm_pages_def mset_concat sum_mset_sum_list [symmetric] image_mset.compositionality comp_def)

lemma fsm_entries_cong:
  "(\<And>x. x \<in> set xs \<Longrightarrow> stored s' (G' (snd (snd x))) = stored s (G (snd (snd x)))) \<Longrightarrow>
     fsm_entries s' G' xs = fsm_entries s G xs"
  unfolding fsm_entries_def by (intro arg_cong [of _ _ sum_mset] image_mset_cong) simp

lemma fsm_entries_change:
  assumes "(k, u, t) \<in> set xs" "distinct (fsm_tags xs ts)"
    "\<And>t'. t' \<in> set (fsm_tags xs ts) \<Longrightarrow> t' \<noteq> t \<Longrightarrow> stored s' (G' t') = stored s (G t')"
    "mset (stored s' (G' t)) + A = mset (stored s (G t)) + B"
  shows "fsm_entries s' G' xs + image_mset (Pair k) A = fsm_entries s G xs + image_mset (Pair k) B"
proof -
  obtain ys zs where xs: "xs = ys @ (k, u, t) # zs" using split_list [OF assms(1)] by blast
  have "stored s' (G' (snd (snd x))) = stored s (G (snd (snd x)))" if "x \<in> set ys \<union> set zs" for x
  proof (rule assms(3))
    show "snd (snd x) \<in> set (fsm_tags xs ts)" using that by (auto simp: xs fsm_tags_def)
    show "snd (snd x) \<noteq> t" using that assms(2) by (auto simp: xs fsm_tags_def)
  qed
  then have "fsm_entries s' G' ys = fsm_entries s G ys" "fsm_entries s' G' zs = fsm_entries s G zs"
    by (simp_all cong: fsm_entries_cong)
  moreover have "image_mset (Pair k) (mset (stored s' (G' t))) + image_mset (Pair k) A =
      image_mset (Pair k) (mset (stored s (G t))) + image_mset (Pair k) B"
    using arg_cong [OF assms(4), of "image_mset (Pair k)"] by simp
  ultimately show ?thesis by (simp add: xs fsm_entries_def ac_simps)
qed

lemma mset_ins_entry: "map_of xs k = None \<Longrightarrow> sorted_keys xs \<Longrightarrow> mset (ins_entry k v t xs) = add_mset (k, v, t) (mset xs)"
  unfolding map_of_eq_None_iff by (induction k v t xs rule: ins_entry.induct) auto

lemma fsm_tag_in: "map_of xs k = Some (u, t) \<Longrightarrow> t \<in> set (fsm_tags xs ts)"
  by (drule map_of_SomeD) (force simp: fsm_tags_def)

text \<open>A new key takes the first free tag, whose chain is empty.\<close>

lemma fsm_insert_key:
  assumes inv: "fsm_inv s root xs (tg # ts) G" and m: "pg_body (s ! root) = FsmRoot m" "avl_rel m xs (tg # ts)"
    and new: "map_of xs w = None" and w: "FirstNormalTransactionId \<le> w"
    and xs': "xs' = ins_entry w () tg xs"
  obtains m' where "avl_insert m w () = Some (m', Inr (None, tg))"
    "fsm_inv (s[root := (s ! root)\<lparr>pg_body := FsmRoot m'\<rparr>]) root xs' ts G"
    "fsm_entries (s[root := (s ! root)\<lparr>pg_body := FsmRoot m'\<rparr>]) G xs' = fsm_entries s G xs"
    "mset (fsm_tags xs' ts) = mset (fsm_tags xs (tg # ts))"
proof -
  obtain m' where i: "avl_insert m w () = Some (m', Inr (None, tg))" "avl_rel m' xs' ts"
    using avl_insert_new [OF m(2) new] xs' by blast
  define s' where "s' = s[root := (s ! root)\<lparr>pg_body := FsmRoot m'\<rparr>]"
  have ms: "mset xs' = add_mset (w, (), tg) (mset xs)" unfolding xs' by (rule mset_ins_entry [OF new avl_rel_sorted [OF m(2)]])
  have tags: "mset (fsm_tags xs' ts) = mset (fsm_tags xs (tg # ts))"
    using ms by (simp add: fsm_tags_def)
  note d = fsm_inv_dest [OF inv]
  have pages: "mset (fsm_pages G xs' ts) = mset (fsm_pages G xs (tg # ts))" by (simp add: fsm_pages_mset tags)
  have "set xs' = insert (w, (), tg) (set xs)" using arg_cong [OF ms, of set_mset] by simp
  then have keys: "FirstNormalTransactionId \<le> fst x" if "x \<in> set xs'" for x
    using that d(9) [of x] w by auto
  have st: "set (fsm_tags xs' ts) = set (fsm_tags xs (tg # ts))" using mset_eq_setD [OF tags] .
  have pset: "set (fsm_pages G xs' ts) = set (fsm_pages G xs (tg # ts))" by (rule mset_eq_setD [OF pages])
  have dst: "distinct (fsm_pages G xs' ts)" using d(6) mset_eq_imp_distinct_iff [OF pages] by simp
  have pf: "pages_from s t (G t) \<and> G t \<noteq> []" if "t \<in> set (fsm_tags xs' ts)" for t
    using d(4,5) that st by blast
  have fe: "stored s (G t) = []" if "t \<in> set ts" for t using d(8) that by simp
  note r = fsm_inv_root [OF inv i(2) s'_def pf dst equalityD1 [OF pset] fe keys]
  have inv': "fsm_inv s' root xs' ts G" by (rule r(1))
  have "stored s' (G (snd (snd x))) = stored s (G (snd (snd x)))" if "x \<in> set xs'" for x
  proof (rule r(2))
    have "snd (snd x) \<in> set (fsm_tags xs' ts)" using that by (auto simp: fsm_tags_def)
    then show "set (G (snd (snd x))) \<subseteq> set (fsm_pages G xs (tg # ts))" unfolding pset [symmetric] by (auto simp: fsm_pages_def)
  qed
  then have "fsm_entries s' G xs' = fsm_entries s G xs'" by (rule fsm_entries_cong)
  also have "\<dots> = fsm_entries s G xs" using d(8) by (simp add: fsm_entries_def ms)
  finally show thesis using that i(1) inv' tags unfolding s'_def by blast
qed

section \<open>Adding blocks\<close>

lemma fsm_pages_change:
  assumes "t \<in> set (fsm_tags xs ts)" "distinct (fsm_tags xs ts)" "mset bs' = mset (G t) + A"
  shows "mset (fsm_pages (G(t := bs')) xs ts) = mset (fsm_pages G xs ts) + A"
proof -
  obtain ys zs where t: "fsm_tags xs ts = ys @ t # zs" using split_list [OF assms(1)] by blast
  have m: "map (G(t := bs')) ys = map G ys" "map (G(t := bs')) zs = map G zs"
    using assms(2) by (auto simp: t)
  show ?thesis unfolding fsm_pages_def t map_append list.map m by (simp add: assms(3) ac_simps)
qed

lemma extend_tag:
  assumes inv: "fsm_inv s root xs ts G" and t: "map_of xs w = Some (u, t)" and ws: "ws \<noteq> []"
    and room: "length s + length ws \<le> InvalidBlockNumber"
  obtains s' z bs' where "extend_freelist s t ws = Some (s', z)" "frame (set (G t)) s s'"
    "length s' \<le> length s + length ws" "fsm_inv s' root xs ts (G(t := bs'))"
    "fsm_entries s' (G(t := bs')) xs = fsm_entries s G xs + image_mset (Pair w) (mset ws)"
    "mset (fsm_pages (G(t := bs')) xs ts) = mset (fsm_pages G xs ts) + mset [length s..<length s']"
proof -
  have tt: "t \<in> set (fsm_tags xs ts)" by (rule fsm_tag_in [OF t])
  note d = fsm_inv_dest [OF inv] and c = fsm_inv_chains [OF inv]
  have lok: "\<forall>x\<in>set (G t). leaf_ok s x" using c(5) [OF tt] by blast
  obtain s' z bs' where e: "extend_freelist s t ws = Some (s', z)" and x: "extends_chain s (G t) ws s' bs'"
    using extend_freelist_chain [OF d(4) [OF tt] d(5) [OF tt] c(3) [OF tt] lok ws room] by blast
  note x' = x [unfolded extends_chain_def]
  have hd: "hd (G t) = t" using d(4) [OF tt] d(5) [OF tt] by (cases "G t") auto
  have ne: "bs' \<noteq> []" using x' d(5) [OF tt] by auto
  have nf: "t \<notin> set ts" using c(1) map_of_SomeD [OF t] by (force simp: fsm_tags_def)
  have len: "length s' \<le> InvalidBlockNumber" using x' room by linarith
  have pf: "pages_from s' t bs'" using x' hd by simp
  have fr: "frame (set (G t)) s s'" using x' by blast
  have sub: "set bs' \<subseteq> set (G t) \<union> {length s..<length s'}" using x' by blast
  have lok': "\<forall>b\<in>set bs'. leaf_ok s' b" and dist: "distinct bs'" using x' by blast+
  note i = fsm_inv_chain [OF inv tt fr len pf ne dist sub lok']
  have "mset (stored s' bs') + {#} = mset (stored s (G t)) + mset ws" using x' by simp
  then have en: "fsm_entries s' (G(t := bs')) xs = fsm_entries s G xs + image_mset (Pair w) (mset ws)"
    using fsm_entries_change [OF map_of_SomeD [OF t] c(1), of s' "G(t := bs')" s G "{#}" "mset ws"] i(2) nf by simp
  have "set (G t) \<inter> {length s..} = {}" using c(6) [OF tt] by force
  then have "distinct (G t @ [length s..<length s'])" using c(3) [OF tt] by auto
  then have "mset bs' = mset (G t @ [length s..<length s'])"
    using x' by (subst set_eq_iff_mset_eq_distinct [OF dist, symmetric]) auto
  then have "mset bs' = mset (G t) + mset [length s..<length s']" by simp
  with fsm_pages_change [OF tt c(1), of bs' G] show thesis
    using that [OF e fr _ i(1) en] x' nf by blast
qed

lemma avl_ref_in [simp]: "root < length s \<Longrightarrow> pg_body (s ! root) = FsmRoot m \<Longrightarrow> avl_ref s root = Some m"
  by (simp add: avl_ref_def)

text \<open>With a free slot, or a slot for this transaction id already, the blocks are filed under it.\<close>

lemma extend_room:
  assumes inv: "fsm_inv s root xs ts G" and ws: "ws \<noteq> []"
    and w: "w = (if create_index env then FirstNormalTransactionId else when_recyclable)" "FirstNormalTransactionId \<le> w"
    and space: "length s + length ws \<le> InvalidBlockNumber" and room: "map_of xs w \<noteq> None \<or> ts \<noteq> []"
  obtains s' xs' ts' G' t where "extend_with_when_recyclable env s root when_recyclable ws = Some s'"
    "fsm_inv s' root xs' ts' G'" "frame (insert root (set (G t))) s s'" "length s' \<le> length s + length ws"
    "fsm_entries s' G' xs' = fsm_entries s G xs + image_mset (Pair w) (mset ws)"
    "mset (fsm_pages G' xs' ts') = mset (fsm_pages G xs ts) + mset [length s..<length s']"
    "map_of xs' = (map_of xs)(w \<mapsto> ((), t))" "map_of xs w = Some ((), t) \<or> map_of xs w = None \<and> t \<in> set ts"
    "\<forall>t'. t' \<noteq> t \<longrightarrow> G' t' = G t'" "set (fsm_tags xs' ts') = set (fsm_tags xs ts)"
proof -
  note d = fsm_inv_dest [OF inv]
  obtain m where m: "pg_body (s ! root) = FsmRoot m" "avl_rel m xs ts" using d(3) by blast
  note srt = avl_rel_sorted [OF m(2)]
  have get: "avl_get m w = Some (map_of xs w)" by (rule avl_get_ok [OF m(2)])
  show thesis
  proof (cases "map_of xs w")
    case None
    then obtain t ts' where ts: "ts = t # ts'" using room by (cases ts) auto
    define xs' where "xs' = ins_entry w () t xs"
    obtain m' where i: "avl_insert m w () = Some (m', Inr (None, t))"
      and inv1: "fsm_inv (s[root := (s ! root)\<lparr>pg_body := FsmRoot m'\<rparr>]) root xs' ts' G"
      and en1: "fsm_entries (s[root := (s ! root)\<lparr>pg_body := FsmRoot m'\<rparr>]) G xs' = fsm_entries s G xs"
      and tg: "mset (fsm_tags xs' ts') = mset (fsm_tags xs (t # ts'))"
      by (rule fsm_insert_key [OF inv [unfolded ts] m(1) m(2) [unfolded ts] None w(2) xs'_def])
    define s1 where "s1 = s[root := (s ! root)\<lparr>pg_body := FsmRoot m'\<rparr>]"
    have mo: "map_of xs' = (map_of xs)(w \<mapsto> ((), t))"
      using map_of_ins_entry [OF srt, of w "()" t] None unfolding xs'_def by (auto simp: fun_eq_iff)
    then have mw: "map_of xs' w = Some ((), t)" by simp
    have space1: "length s1 + length ws \<le> InvalidBlockNumber" using space by (simp add: s1_def)
    obtain s' z bs' where e: "extend_freelist s1 t ws = Some (s', z)" "frame (set (G t)) s1 s'"
      "length s' \<le> length s1 + length ws" "fsm_inv s' root xs' ts' (G(t := bs'))"
      "fsm_entries s' (G(t := bs')) xs' = fsm_entries s1 G xs' + image_mset (Pair w) (mset ws)"
      "mset (fsm_pages (G(t := bs')) xs' ts') = mset (fsm_pages G xs' ts') + mset [length s1..<length s']"
      by (rule extend_tag [OF inv1 [folded s1_def] mw ws space1])
    have "extend_with_when_recyclable env s root when_recyclable ws = Some s'"
      unfolding extend_with_when_recyclable_def using ws d(2) m(1) get None i e(1)
      by (simp add: w(1) [symmetric] Let_def s1_def [symmetric])
    moreover have "frame (insert root (set (G t))) s s'"
      using frame_trans [of "{root}" s s1 "set (G t)" s'] e(2) by (simp add: s1_def)
    moreover have "mset (fsm_pages G xs' ts') = mset (fsm_pages G xs ts)" by (simp add: fsm_pages_mset tg ts)
    ultimately show ?thesis
      using that [of s' xs' ts' "G(t := bs')" t] e en1 mo None mset_eq_setD [OF tg] by (simp add: s1_def ts)
  next
    case (Some p)
    then obtain t where t: "map_of xs w = Some ((), t)" by (cases p) auto
    obtain s' z bs' where e: "extend_freelist s t ws = Some (s', z)" "frame (set (G t)) s s'"
      "length s' \<le> length s + length ws" "fsm_inv s' root xs ts (G(t := bs'))"
      "fsm_entries s' (G(t := bs')) xs = fsm_entries s G xs + image_mset (Pair w) (mset ws)"
      "mset (fsm_pages (G(t := bs')) xs ts) = mset (fsm_pages G xs ts) + mset [length s..<length s']"
      by (rule extend_tag [OF inv t ws space])
    have "extend_with_when_recyclable env s root when_recyclable ws = Some s'"
      unfolding extend_with_when_recyclable_def using ws d(2) m(1) get t e(1)
      by (simp add: w(1) [symmetric] Let_def)
    moreover have "frame (insert root (set (G t))) s s'" using e(2) frame_mono by blast
    moreover have "map_of xs = (map_of xs)(w \<mapsto> ((), t))" using t by (simp add: fun_upd_idem)
    ultimately show ?thesis using that [of s' xs ts "G(t := bs')" t] e t by simp
  qed
qed

text \<open>
  Without a free slot the entry with the greatest transaction id takes the blocks, and its id is
  raised when it is smaller.
\<close>

definition raise_key :: "nat \<Rightarrow> nat \<Rightarrow> nat \<times> block_number \<Rightarrow> nat \<times> block_number" where
  "raise_key k k' e = (if fst e = k then k' else fst e, snd e)"

lemma raise_key_other:
  "\<forall>x\<in>set ys. fst x \<noteq> k \<Longrightarrow> image_mset (raise_key k k') (fsm_entries s G ys) = fsm_entries s G ys"
  by (induction ys) (simp_all add: fsm_entries_def image_mset.compositionality comp_def raise_key_def)

lemma map_of_last: "sorted_keys (ys @ [(k, v)]) \<Longrightarrow> map_of (ys @ [(k, v)]) k = Some v"
proof -
  assume "sorted_keys (ys @ [(k, v)])"
  then have "k \<notin> fst ` set ys" by auto
  then have "map_of ys k = None" by (simp add: map_of_eq_None_iff)
  then show ?thesis by (simp add: map_add_def)
qed

lemma rekey_max:
  assumes inv: "fsm_inv s root xs ts G" and xs: "xs = ys @ [(k, (), t)]" and w: "FirstNormalTransactionId \<le> w"
    and xs1: "xs1 = ys @ [(max w k, (), t)]"
  obtains s1 where "handle_full_tree s root w = Some (s1, t)" "fsm_inv s1 root xs1 ts G" "frame {root} s s1"
    "length s1 = length s" "fsm_entries s1 G xs1 = image_mset (raise_key k (max w k)) (fsm_entries s G xs)"
proof -
  note d = fsm_inv_dest [OF inv]
  obtain m where m: "pg_body (s ! root) = FsmRoot m" "avl_rel m xs ts" using d(3) by blast
  obtain i where i: "get_max_slot m = Some (Some i)" "i < capacity m" "s_key (arena m ! i) = k" "s_tag (arena m ! i) = t"
    "k < w \<Longrightarrow> avl_rel (m\<lparr>arena := (arena m)[i := (arena m ! i)\<lparr>s_key := w\<rparr>]\<rparr>) (ys @ [(w, (), t)]) ts"
    using max_slot_rekey_ok [OF m(2) xs, of w] by blast
  have tags: "fsm_tags xs1 ts = fsm_tags xs ts" by (simp add: xs xs1 fsm_tags_def)
  have pages: "fsm_pages G xs1 ts = fsm_pages G xs ts" by (simp add: fsm_pages_def tags)
  have keys: "FirstNormalTransactionId \<le> fst x" if "x \<in> set xs1" for x
    using that d(9) [of x] w by (auto simp: xs xs1)
  have below: "fst x < k" if "x \<in> set ys" for x using avl_rel_sorted [OF m(2)] that by (simp add: xs)
  have "image_mset (raise_key k (max w k)) (fsm_entries s G ys) = fsm_entries s G ys"
    by (rule raise_key_other) (use below in auto)
  then have en: "fsm_entries s G xs1 = image_mset (raise_key k (max w k)) (fsm_entries s G xs)"
    by (simp add: xs xs1 fsm_entries_def image_mset.compositionality comp_def raise_key_def)
  show thesis
  proof (cases "k < w")
    case True
    define m' where "m' = m\<lparr>arena := (arena m)[i := (arena m ! i)\<lparr>s_key := w\<rparr>]\<rparr>"
    define s1 where "s1 = s[root := (s ! root)\<lparr>pg_body := FsmRoot m'\<rparr>]"
    have r: "avl_rel m' xs1 ts" using i(5) True by (simp add: m'_def xs1 max_def)
    have pf: "pages_from s t' (G t') \<and> G t' \<noteq> []" if "t' \<in> set (fsm_tags xs1 ts)" for t'
      using d(4,5) that unfolding tags by blast
    have dst: "distinct (fsm_pages G xs1 ts)" using d(6) by (simp add: pages)
    have sub: "set (fsm_pages G xs1 ts) \<subseteq> set (fsm_pages G xs ts)" by (simp add: pages)
    note f = fsm_inv_root [OF inv r s1_def pf dst sub d(8) keys]
    have "fsm_entries s1 G xs1 = fsm_entries s G xs1"
    proof (rule fsm_entries_cong)
      fix x assume "x \<in> set xs1"
      then have "snd (snd x) \<in> set (fsm_tags xs1 ts)" by (auto simp: fsm_tags_def)
      then show "stored s1 (G (snd (snd x))) = stored s (G (snd (snd x)))"
        by (intro f(2)) (auto simp: fsm_pages_def tags)
    qed
    moreover have "handle_full_tree s root w = Some (s1, t)"
      using True i(1-4) d(2) m(1) by (simp add: handle_full_tree_def s1_def m'_def capacity_def)
    ultimately show ?thesis using that [of s1] f(1) en by (simp add: s1_def)
  next
    case False
    then have "xs1 = xs" by (simp add: xs xs1)
    moreover have "handle_full_tree s root w = Some (s, t)"
      using False i(1-4) d(2) m(1) by (simp add: handle_full_tree_def capacity_def)
    ultimately show ?thesis using that [of s] inv en by simp
  qed
qed

lemma extend_full:
  assumes inv: "fsm_inv s root xs [] G" and ws: "ws \<noteq> []"
    and w: "w = (if create_index env then FirstNormalTransactionId else when_recyclable)" "FirstNormalTransactionId \<le> w"
    and space: "length s + length ws \<le> InvalidBlockNumber" and new: "map_of xs w = None"
    and xs: "xs = ys @ [(k, (), t)]"
  obtains s' G' where "extend_with_when_recyclable env s root when_recyclable ws = Some s'"
    "fsm_inv s' root (ys @ [(max w k, (), t)]) [] G'" "frame (insert root (set (G t))) s s'"
    "length s' \<le> length s + length ws"
    "fsm_entries s' G' (ys @ [(max w k, (), t)]) =
       image_mset (raise_key k (max w k)) (fsm_entries s G xs) + image_mset (Pair (max w k)) (mset ws)"
    "mset (fsm_pages G' (ys @ [(max w k, (), t)]) []) = mset (fsm_pages G xs []) + mset [length s..<length s']"
proof -
  note d = fsm_inv_dest [OF inv]
  obtain m where m: "pg_body (s ! root) = FsmRoot m" "avl_rel m xs []" using d(3) by blast
  define xs1 where "xs1 = ys @ [(max w k, (), t)]"
  obtain s1 where h: "handle_full_tree s root w = Some (s1, t)" "fsm_inv s1 root xs1 [] G" "frame {root} s s1"
    "length s1 = length s" "fsm_entries s1 G xs1 = image_mset (raise_key k (max w k)) (fsm_entries s G xs)"
    by (rule rekey_max [OF inv xs w(2) xs1_def])
  obtain m1 where "avl_rel m1 xs1 []" using fsm_inv_dest(3) [OF h(2)] by blast
  then have mw: "map_of xs1 (max w k) = Some ((), t)"
    unfolding xs1_def by (intro map_of_last) (rule avl_rel_sorted)
  have space1: "length s1 + length ws \<le> InvalidBlockNumber" using space h(4) by simp
  obtain s' z bs' where e: "extend_freelist s1 t ws = Some (s', z)" "frame (set (G t)) s1 s'"
    "length s' \<le> length s1 + length ws" "fsm_inv s' root xs1 [] (G(t := bs'))"
    "fsm_entries s' (G(t := bs')) xs1 = fsm_entries s1 G xs1 + image_mset (Pair (max w k)) (mset ws)"
    "mset (fsm_pages (G(t := bs')) xs1 []) = mset (fsm_pages G xs1 []) + mset [length s1..<length s']"
    by (rule extend_tag [OF h(2) mw ws space1])
  have same: "s[root := (s ! root)\<lparr>pg_body := FsmRoot m\<rparr>] = s" using m(1) d(2) by (simp flip: m(1))
  have "avl_insert m w () = Some (m, Inl Full)" by (rule avl_insert_full [OF m(2) new])
  then have "extend_with_when_recyclable env s root when_recyclable ws = Some s'"
    unfolding extend_with_when_recyclable_def using ws d(2) m(1) avl_get_ok [OF m(2), of w] new e(1) h(1) same
    by (simp add: w(1) [symmetric] Let_def)
  moreover have "frame (insert root (set (G t))) s s'" using frame_trans [OF h(3) e(2)] by simp
  moreover have "fsm_pages G xs1 [] = fsm_pages G xs []" by (simp add: fsm_pages_def fsm_tags_def xs xs1_def)
  ultimately show thesis using that e h(4,5) unfolding xs1_def by simp
qed

end
