(* ===== verification/Fsm_Drain.thy ===== *)
theory Fsm_Drain
  imports Fsm_V2
begin

text \<open>
  What \<open>drain\<close> of the free space manager returns: the blocks come from keys at or below the current
  transaction id, they leave the record, and pages that become empty are themselves filed under the
  next transaction id.
\<close>

section \<open>The ledger of a drain\<close>

text \<open>
  The tree has a free slot for every key of \<open>K\<close> that is not in it: blocks can be filed under each of
  them without the tree being full.
\<close>

definition fsm_spare :: "nat set \<Rightarrow> (nat \<times> unit \<times> block_number) list \<Rightarrow> block_number list \<Rightarrow> bool" where
  "fsm_spare K xs ts \<longleftrightarrow> finite K \<and> card (K - fst ` set xs) \<le> length ts"

lemma fsm_spare_single [simp]: "fsm_spare {w} xs ts \<longleftrightarrow> map_of xs w \<noteq> None \<or> ts \<noteq> []"
  by (auto simp: fsm_spare_def map_of_eq_None_iff insert_Diff_if neq_Nil_conv Suc_le_eq)

lemma fsm_spare_key:
  assumes "fsm_spare K xs ts" "w \<in> K"
  shows "map_of xs w \<noteq> None \<or> ts \<noteq> []"
proof -
  have "w \<in> fst ` set xs" if "card (K - fst ` set xs) = 0"
    using that assms by (auto simp: fsm_spare_def)
  then show ?thesis using assms(1) by (auto simp: fsm_spare_def map_of_eq_None_iff)
qed

lemma fsm_spare_remove: "fsm_spare K xs ts \<Longrightarrow> fsm_spare K (filter (\<lambda>x. fst x \<noteq> k) xs) (t # ts)"
proof -
  assume a: "fsm_spare K xs ts"
  have "K - fst ` set (filter (\<lambda>x. fst x \<noteq> k) xs) \<subseteq> insert k (K - fst ` set xs)" by force
  then have "card (K - fst ` set (filter (\<lambda>x. fst x \<noteq> k) xs)) \<le> card (insert k (K - fst ` set xs))"
    using a by (intro card_mono) (auto simp: fsm_spare_def)
  also have "\<dots> \<le> Suc (card (K - fst ` set xs))" using card_insert_le_m1 by (simp add: card_insert_le_m1 card_insert_if fsm_spare_def)
  finally show ?thesis using a by (simp add: fsm_spare_def)
qed

lemma fsm_spare_insert:
  assumes "fsm_spare K xs ts" "w \<in> K" "distinct (map fst xs)" "distinct (map fst xs')"
    and keys: "dom (map_of xs') = insert w (dom (map_of xs))"
    and len: "length xs' + length ts' = length xs + length ts"
  shows "fsm_spare K xs' ts'"
proof -
  have k: "fst ` set xs' = insert w (fst ` set xs)" using keys by (simp add: dom_map_of_conv_image_fst)
  have fin: "finite K" using assms(1) by (simp add: fsm_spare_def)
  have l: "length xs = card (fst ` set xs)" "length xs' = card (insert w (fst ` set xs))"
    using distinct_card [OF assms(3)] distinct_card [OF assms(4)] k by simp_all
  show ?thesis
  proof (cases "w \<in> fst ` set xs")
    case True
    then show ?thesis using assms(1) len l k by (simp add: fsm_spare_def insert_absorb)
  next
    case False
    then have c: "card (K - fst ` set xs) = Suc (card (K - fst ` set xs'))"
      unfolding k using assms(2) fin by (metis DiffI Diff_insert card.remove finite_Diff)
    have "length xs' = Suc (length xs)" using l False by simp
    then show ?thesis using assms(1) len c by (simp add: fsm_spare_def)
  qed
qed

text \<open>Where the tags are the same, so is the number of slots.\<close>

lemma fsm_inv_keys:
  assumes "fsm_inv s root xs ts G"
  shows "distinct (map fst xs)"
proof -
  obtain m where "avl_rel m xs ts" using fsm_inv_dest(3) [OF assms] by blast
  from avl_rel_sorted [OF this] show ?thesis by (simp add: sorted_keys_def strict_sorted_iff)
qed

lemma fsm_inv_slots:
  assumes "fsm_inv s root xs ts G" "fsm_inv s' root xs' ts' G'" "set (fsm_tags xs' ts') = set (fsm_tags xs ts)"
  shows "length xs' + length ts' = length xs + length ts"
  using distinct_card [OF fsm_inv_chains(1) [OF assms(1)]] distinct_card [OF fsm_inv_chains(1) [OF assms(2)]] assms(3)
  by (simp add: fsm_tags_def)

lemma extend_spare:
  assumes "fsm_inv s root xs ts G" "fsm_inv s' root xs' ts' G'" "set (fsm_tags xs' ts') = set (fsm_tags xs ts)"
    "map_of xs' = (map_of xs)(w \<mapsto> v)" "w \<in> K" "fsm_spare K xs ts"
  shows "fsm_spare K xs' ts'"
  by (rule fsm_spare_insert [OF assms(6,5) fsm_inv_keys [OF assms(1)] fsm_inv_keys [OF assms(2)] _ fsm_inv_slots [OF assms(1,2,3)]])
    (simp add: assms(4))

text \<open>
  From \<open>s\<close> to \<open>s'\<close> the blocks of \<open>P\<close>, each with its key, were handed out, and the pages \<open>U\<close> left the
  chains and were filed under \<open>w\<close>.  Slots kept spare for a set of keys with \<open>w\<close> in it still are.
\<close>

definition fsm_ledger ::
  "block_number \<Rightarrow> nat \<Rightarrow> store \<Rightarrow> (nat \<times> unit \<times> block_number) list \<Rightarrow> block_number list \<Rightarrow>
     (block_number \<Rightarrow> block_number list) \<Rightarrow> (nat \<times> block_number) multiset \<Rightarrow> block_number multiset \<Rightarrow>
     store \<Rightarrow> (nat \<times> unit \<times> block_number) list \<Rightarrow> block_number list \<Rightarrow> (block_number \<Rightarrow> block_number list) \<Rightarrow> bool"
where
  "fsm_ledger root w s xs ts G P U s' xs' ts' G' \<longleftrightarrow>
     fsm_inv s' root xs' ts' G' \<and>
     fsm_entries s' G' xs' + P = fsm_entries s G xs + image_mset (Pair w) U \<and>
     mset (fsm_pages G' xs' ts') + U = mset (fsm_pages G xs ts) + mset [length s..<length s'] \<and>
     frame (insert root (set (fsm_pages G xs ts))) s s' \<and>
     length s' \<le> length s + size U \<and> (map_of xs' w \<noteq> None \<or> ts' \<noteq> []) \<and>
     (\<forall>K. w \<in> K \<longrightarrow> fsm_spare K xs ts \<longrightarrow> fsm_spare K xs' ts')"

lemma ledger_dest:
  assumes "fsm_ledger root w s xs ts G P U s' xs' ts' G'"
  shows "fsm_inv s' root xs' ts' G'" "fsm_entries s' G' xs' + P = fsm_entries s G xs + image_mset (Pair w) U"
    "mset (fsm_pages G' xs' ts') + U = mset (fsm_pages G xs ts) + mset [length s..<length s']"
    "frame (insert root (set (fsm_pages G xs ts))) s s'" "length s' \<le> length s + size U"
    "map_of xs' w \<noteq> None \<or> ts' \<noteq> []" "\<And>K. w \<in> K \<Longrightarrow> fsm_spare K xs ts \<Longrightarrow> fsm_spare K xs' ts'"
  using assms unfolding fsm_ledger_def by blast+

lemma ledger_refl:
  "fsm_inv s root xs ts G \<Longrightarrow> map_of xs w \<noteq> None \<or> ts \<noteq> [] \<Longrightarrow> fsm_ledger root w s xs ts G {#} {#} s xs ts G"
  by (simp add: fsm_ledger_def)

lemma ledger_trans:
  assumes "fsm_ledger root w s xs ts G P U s1 xs1 ts1 G1" "fsm_ledger root w s1 xs1 ts1 G1 P' U' s2 xs2 ts2 G2"
  shows "fsm_ledger root w s xs ts G (P + P') (U + U') s2 xs2 ts2 G2"
proof -
  note a = ledger_dest [OF assms(1)] and b = ledger_dest [OF assms(2)]
  have len: "length s \<le> length s1" "length s1 \<le> length s2" using a(4) b(4) by (auto simp: frame_def)
  then have upt: "mset [length s..<length s2] = mset [length s..<length s1] + mset [length s1..<length s2]"
    using upt_add_eq_append [of "length s" "length s1" "length s2 - length s1"] by simp
  have "mset (fsm_pages G2 xs2 ts2) + (U + U') = (mset (fsm_pages G2 xs2 ts2) + U') + U" by (simp add: ac_simps)
  also have "\<dots> = (mset (fsm_pages G1 xs1 ts1) + U) + mset [length s1..<length s2]" unfolding b(3) by (simp add: ac_simps)
  also have "\<dots> = mset (fsm_pages G xs ts) + mset [length s..<length s2]" unfolding a(3) upt by (simp add: ac_simps)
  finally have pg: "mset (fsm_pages G2 xs2 ts2) + (U + U') = mset (fsm_pages G xs ts) + mset [length s..<length s2]" .
  have "fsm_entries s2 G2 xs2 + (P + P') = (fsm_entries s2 G2 xs2 + P') + P" by (simp add: ac_simps)
  also have "\<dots> = (fsm_entries s1 G1 xs1 + P) + image_mset (Pair w) U'" unfolding b(2) by (simp add: ac_simps)
  also have "\<dots> = fsm_entries s G xs + image_mset (Pair w) (U + U')" unfolding a(2) by (simp add: ac_simps)
  finally have en: "fsm_entries s2 G2 xs2 + (P + P') = fsm_entries s G xs + image_mset (Pair w) (U + U')" .
  have "set (fsm_pages G1 xs1 ts1) \<subseteq> set (fsm_pages G xs ts) \<union> {length s..}"
  proof
    fix x assume "x \<in> set (fsm_pages G1 xs1 ts1)"
    then have "x \<in># mset (fsm_pages G xs ts) + mset [length s..<length s1]" unfolding a(3) [symmetric] by simp
    then show "x \<in> set (fsm_pages G xs ts) \<union> {length s..}" by auto
  qed
  then have "insert root (set (fsm_pages G1 xs1 ts1)) \<subseteq> insert root (set (fsm_pages G xs ts)) \<union> {length s..}" by auto
  from frame_new [OF a(4) frame_mono [OF b(4) this]] show ?thesis
    unfolding fsm_ledger_def using pg en a(5,7) b(1,5-7) by simp
qed

section \<open>One page\<close>

lemma pop_entries_ok:
  "n \<le> length (lf_entries l) \<Longrightarrow>
     \<exists>n' popped. pop_entries many n l blocks = Some (l\<lparr>lf_len := n'\<rparr>, blocks @ popped) \<and> n' \<le> n \<and>
       take n (lf_entries l) = take n' (lf_entries l) @ rev popped \<and> length popped = n - n' \<and>
       (n' = 0 \<or> many \<le> length blocks + length popped) \<and>
       (length blocks \<le> many \<longrightarrow> length blocks + length popped \<le> many) \<and>
       (length blocks < many \<longrightarrow> 0 < n \<longrightarrow> popped \<noteq> [])"
proof (induction n arbitrary: blocks)
  case (Suc n)
  show ?case
  proof (cases "length blocks < many")
    case True
    obtain n' popped where h: "pop_entries many n l (blocks @ [lf_entries l ! n]) = Some (l\<lparr>lf_len := n'\<rparr>, (blocks @ [lf_entries l ! n]) @ popped)"
      "n' \<le> n" "take n (lf_entries l) = take n' (lf_entries l) @ rev popped" "length popped = n - n'"
      "n' = 0 \<or> many \<le> length (blocks @ [lf_entries l ! n]) + length popped"
      "length (blocks @ [lf_entries l ! n]) \<le> many \<longrightarrow> length (blocks @ [lf_entries l ! n]) + length popped \<le> many"
      using Suc.IH [OF Suc_leD [OF Suc.prems], of "blocks @ [lf_entries l ! n]"] by blast
    then show ?thesis
      using True Suc.prems by (intro exI [of _ n'] exI [of _ "(lf_entries l ! n) # popped"]) (auto simp: take_Suc_conv_app_nth)
  qed auto
qed auto

lemma drain_pop:
  assumes inv: "fsm_inv s root xs ts G" and room: "map_of xs w \<noteq> None \<or> ts \<noteq> []"
    and k: "map_of xs k = Some ((), head)" and b: "b \<in> set (G head)" and l: "leaf_at s b = Some l"
  obtains l' s1 popped where "pop_entries many (lf_len l) l blocks = Some (l', blocks @ popped)"
    "(if lf_len l' = lf_len l then Some s else set_body s b (FsmLeaf l')) = Some s1"
    "fsm_ledger root w s xs ts G (image_mset (Pair k) (mset popped)) {#} s1 xs ts G"
    "length (leaf_blocks s1 b) = lf_len l'" "frame {b} s s1" "length s1 = length s"
    "\<forall>x. pg_next (s1 ! x) = pg_next (s ! x)"
    "lf_len l' = 0 \<or> many \<le> length blocks + length popped"
    "length blocks \<le> many \<longrightarrow> length blocks + length popped \<le> many"
    "length blocks < many \<longrightarrow> 0 < lf_len l \<longrightarrow> popped \<noteq> []"
proof -
  have tt: "head \<in> set (fsm_tags xs ts)" by (rule fsm_tag_in [OF k])
  note d = fsm_inv_dest [OF inv] and c = fsm_inv_chains [OF inv]
  have bl: "b < length s" by (rule c(6) [OF tt b])
  have ll: "lf_len l \<le> length (lf_entries l)" using c(5) [OF tt b] l by (auto simp: leaf_ok_def)
  obtain n' popped where p: "pop_entries many (lf_len l) l blocks = Some (l\<lparr>lf_len := n'\<rparr>, blocks @ popped)" "n' \<le> lf_len l"
    "take (lf_len l) (lf_entries l) = take n' (lf_entries l) @ rev popped" "length popped = lf_len l - n'"
    "n' = 0 \<or> many \<le> length blocks + length popped"
    "length blocks \<le> many \<longrightarrow> length blocks + length popped \<le> many"
    "length blocks < many \<longrightarrow> 0 < lf_len l \<longrightarrow> popped \<noteq> []"
    using pop_entries_ok [OF ll, of many blocks] by (elim exE conjE) (rule that)
  define l' where "l' = l\<lparr>lf_len := n'\<rparr>"
  define s1 where "s1 = (if n' = lf_len l then s else s[b := (s ! b)\<lparr>pg_body := FsmLeaf l'\<rparr>])"
  have s1: "length s1 = length s" "frame {b} s s1" "leaf_at s1 b = Some l'" using bl l by (auto simp: s1_def l'_def)
  have nx: "pg_next (s1 ! x) = pg_next (s ! x)" for x
    by (cases "x = b") (auto simp: s1_def bl)
  have lb: "leaf_blocks s b = leaf_blocks s1 b @ rev popped" "length (leaf_blocks s1 b) = n'"
    using p(2,3) l s1(3) ll by (auto simp: leaf_blocks_def l'_def)
  have pf: "pages_from s1 head (G head)"
    using d(4) [OF tt] by (rule lseg_cong) (use c(6) [OF tt] s1(1) nx in auto)
  have lok: "leaf_ok s1 x" if "x \<in> set (G head)" for x
    using leaf_ok_frame [OF s1(2) c(6) [OF tt that]] c(5) [OF tt that] s1(3) p(2) ll by (cases "x = b") (auto simp: leaf_ok_def l'_def)
  have nf: "head \<notin> set ts" using c(1) map_of_SomeD [OF k] by (force simp: fsm_tags_def)
  have fr: "frame (set (G head)) s s1" by (rule frame_mono [OF s1(2)]) (use b in simp)
  have len: "length s1 \<le> InvalidBlockNumber" using d(1) s1(1) by simp
  have sub: "set (G head) \<subseteq> set (G head) \<union> {length s..<length s1}" by blast
  note i = fsm_inv_chain [OF inv tt fr len pf d(5) [OF tt] c(3) [OF tt] sub, unfolded fun_upd_triv]
  have inv1: "fsm_inv s1 root xs ts G" by (rule i(1)) (use lok nf in auto)
  obtain us vs where g: "G head = us @ b # vs" using split_list [OF b] by blast
  have st: "stored s1 bs = stored s bs" if "set bs \<subseteq> set (G head)" "b \<notin> set bs" for bs
    by (rule stored_frame [OF s1(2)]) (use c(6) [OF tt] that in auto)
  have "b \<notin> set us" "b \<notin> set vs" using c(3) [OF tt] unfolding g by simp_all
  then have "stored s1 us = stored s us" "stored s1 vs = stored s vs" using st [of us] st [of vs] g by auto
  then have "mset (stored s1 (G head)) + mset popped = mset (stored s (G head)) + {#}"
    using lb(1) by (simp add: g)
  moreover have "stored s1 (G t') = stored s (G t')" if "t' \<in> set (fsm_tags xs ts)" "t' \<noteq> head" for t'
    by (rule i(2) [OF _ _ that]) (use lok nf in auto)
  ultimately have "fsm_entries s1 G xs + image_mset (Pair k) (mset popped) = fsm_entries s G xs + image_mset (Pair k) {#}"
    by (intro fsm_entries_change [OF map_of_SomeD [OF k] c(1)])
  moreover have "frame (insert root (set (fsm_pages G xs ts))) s s1"
    by (rule frame_mono [OF s1(2)]) (use b tt in \<open>auto simp: fsm_pages_def\<close>)
  ultimately have "fsm_ledger root w s xs ts G (image_mset (Pair k) (mset popped)) {#} s1 xs ts G"
    unfolding fsm_ledger_def using inv1 room s1(1) by simp
  then show thesis
    using that [of l' popped s1] p lb(2) s1 nx bl by (simp add: l'_def s1_def)
qed

section \<open>Unlinking an empty head and removing a key\<close>

definition retag :: "nat \<Rightarrow> block_number \<Rightarrow> (nat \<times> unit \<times> block_number) list \<Rightarrow> (nat \<times> unit \<times> block_number) list" where
  "retag k t xs = map (\<lambda>(k', v, t'). (k', v, if k' = k then t else t')) xs"

lemma map_of_retag: "map_of (retag k t xs) j = (if j = k then map_option (\<lambda>_. ((), t)) (map_of xs k) else map_of xs j)"
  by (induction xs) (auto simp: retag_def)

lemma retag_split:
  assumes "distinct (map fst (ys @ (k, u, t0) # zs))"
  shows "retag k t (ys @ (k, u, t0) # zs) = ys @ (k, u, t) # zs"
proof -
  have "retag k t ys = ys" "retag k t zs = zs"
    using assms by (force simp: retag_def intro!: map_idI)+
  then show ?thesis by (simp add: retag_def)
qed

lemma drain_retag:
  assumes inv: "fsm_inv s root xs ts G" and k: "map_of xs k = Some ((), head)"
    and g: "G head = head # c # cs" and empty: "leaf_blocks s head = []"
  obtains s1 where "unlink_head s root k head c = Some (s1, True)"
    "fsm_inv s1 root (retag k c xs) ts (G(c := c # cs))" "frame {root} s s1" "length s1 = length s"
    "fsm_entries s1 (G(c := c # cs)) (retag k c xs) = fsm_entries s G xs"
    "mset (fsm_pages (G(c := c # cs)) (retag k c xs) ts) + {#head#} = mset (fsm_pages G xs ts)"
proof -
  note d = fsm_inv_dest [OF inv] and c = fsm_inv_chains [OF inv]
  have tt: "head \<in> set (fsm_tags xs ts)" by (rule fsm_tag_in [OF k])
  obtain m where m: "pg_body (s ! root) = FsmRoot m" "avl_rel m xs ts" using d(3) by blast
  obtain i where i: "get_slot_mut m k = Some (Some i)" "i < capacity m" "s_tag (arena m ! i) = head"
    "avl_rel (m\<lparr>arena := (arena m)[i := (arena m ! i)\<lparr>s_tag := c\<rparr>]\<rparr>) (retag k c xs) ts"
    by (rule slot_retag_ok [OF m(2) k, of c, folded retag_def])
  define m' where "m' = m\<lparr>arena := (arena m)[i := (arena m ! i)\<lparr>s_tag := c\<rparr>]\<rparr>"
  define s1 where "s1 = s[root := (s ! root)\<lparr>pg_body := FsmRoot m'\<rparr>]"
  define G1 where "G1 = G(c := c # cs)"
  have run: "unlink_head s root k head c = Some (s1, True)"
    using i(1-3) d(2) m(1) by (simp add: unlink_head_def s1_def m'_def capacity_def)
  obtain ys zs where xs: "xs = ys @ (k, (), head) # zs" using split_list [OF map_of_SomeD [OF k]] by blast
  have "distinct (map fst xs)" using avl_rel_sorted [OF m(2)] by (simp add: sorted_keys_def strict_sorted_iff)
  then have xs1: "retag k c xs = ys @ (k, (), c) # zs" unfolding xs by (rule retag_split)
  have cnt: "t \<noteq> c" if "t \<in> set (fsm_tags xs ts)" "t \<noteq> head" for t
  proof
    assume "t = c"
    moreover have "t \<in> set (G t)" using d(4,5) [OF that(1)] by (cases "G t") auto
    ultimately show False using c(2) [OF that(1) tt that(2)] g by auto
  qed
  have hc: "head \<noteq> c" using c(3) [OF tt] g by auto
  define us where "us = map (\<lambda>x. snd (snd x)) ys"
  define vs where "vs = map (\<lambda>x. snd (snd x)) zs @ ts"
  have tags: "fsm_tags xs ts = us @ head # vs" "fsm_tags (retag k c xs) ts = us @ c # vs"
    unfolding xs1 unfolding xs by (simp_all add: fsm_tags_def us_def vs_def)
  have uv: "t \<in> set (fsm_tags xs ts) \<and> t \<noteq> head" if "t \<in> set us \<union> set vs" for t
    using c(1) that unfolding tags by auto
  have G1: "G1 t = G t" if "t \<in> set us \<union> set vs" for t using cnt uv [OF that] by (auto simp: G1_def)
  have maps: "map G1 us = map G us" "map G1 vs = map G vs" using G1 by auto
  have pages: "mset (fsm_pages G1 (retag k c xs) ts) + {#head#} = mset (fsm_pages G xs ts)"
    unfolding fsm_pages_def tags map_append list.map maps by (simp add: g G1_def)
  have psub: "set (fsm_pages G1 (retag k c xs) ts) \<subseteq> set (fsm_pages G xs ts)"
    using arg_cong [OF pages, of set_mset] by auto
  have "mset (fsm_pages G1 (retag k c xs) ts @ [head]) = mset (fsm_pages G xs ts)" using pages by simp
  then have dist: "distinct (fsm_pages G1 (retag k c xs) ts)"
    using d(6) mset_eq_imp_distinct_iff by fastforce
  have pf: "pages_from s t (G1 t) \<and> G1 t \<noteq> []" if "t \<in> set (fsm_tags (retag k c xs) ts)" for t
  proof (cases "t = c")
    case True
    then show ?thesis using d(4) [OF tt] g by (simp add: G1_def)
  next
    case False
    then have "t \<in> set us \<union> set vs" using that unfolding tags by auto
    then show ?thesis using G1 uv d(4,5) by metis
  qed
  have fe: "stored s (G1 t) = []" if "t \<in> set ts" for t
    using G1 [of t] d(8) [OF that] that by (simp add: vs_def)
  have keys: "FirstNormalTransactionId \<le> fst x" if "x \<in> set (retag k c xs)" for x
    using d(9) [of "(fst x, (), head)"] d(9) [of x] that unfolding xs1 unfolding xs by auto
  note r = fsm_inv_root [OF inv i(4) [folded m'_def] s1_def pf dist psub fe keys]
  have "fsm_entries s1 G1 (retag k c xs) = fsm_entries s G1 (retag k c xs)"
  proof (rule fsm_entries_cong)
    fix x assume "x \<in> set (retag k c xs)"
    then have "snd (snd x) \<in> set (fsm_tags (retag k c xs) ts)" by (simp add: fsm_tags_def)
    then show "stored s1 (G1 (snd (snd x))) = stored s (G1 (snd (snd x)))"
      using psub by (intro r(2)) (auto simp: fsm_pages_def)
  qed
  also have "\<dots> = fsm_entries s G xs"
  proof -
    have "fsm_entries s G1 ys = fsm_entries s G ys" "fsm_entries s G1 zs = fsm_entries s G zs"
      by (rule fsm_entries_cong; simp add: G1 us_def vs_def)+
    then show ?thesis unfolding xs1 unfolding xs by (simp add: fsm_entries_def G1_def g empty)
  qed
  finally show thesis using that [OF run r(1) [unfolded G1_def]] pages unfolding G1_def by (simp add: s1_def)
qed

lemma drain_unlink:
  assumes inv: "fsm_inv s root xs ts G" and room: "map_of xs w \<noteq> None \<or> ts \<noteq> []"
    and k: "map_of xs k = Some ((), head)" and g: "G head = head # c # cs" and empty: "leaf_blocks s head = []"
    and w: "\<not> create_index env" "FirstNormalTransactionId \<le> w" "w \<noteq> k" and space: "length s < InvalidBlockNumber"
  obtains s1 s2 xs2 ts2 G2 where "unlink_head s root k head c = Some (s1, True)"
    "extend_with_when_recyclable env s1 root w [head] = Some s2"
    "fsm_ledger root w s xs ts G {#} {#head#} s2 xs2 ts2 G2" "map_of xs2 k = Some ((), c)" "G2 c = c # cs"
proof -
  note d = fsm_inv_dest [OF inv]
  have tt: "head \<in> set (fsm_tags xs ts)" by (rule fsm_tag_in [OF k])
  obtain s1 where r: "unlink_head s root k head c = Some (s1, True)"
    "fsm_inv s1 root (retag k c xs) ts (G(c := c # cs))" "frame {root} s s1" "length s1 = length s"
    "fsm_entries s1 (G(c := c # cs)) (retag k c xs) = fsm_entries s G xs"
    "mset (fsm_pages (G(c := c # cs)) (retag k c xs) ts) + {#head#} = mset (fsm_pages G xs ts)"
    by (rule drain_retag [OF inv k g empty])
  have mw: "map_of (retag k c xs) w = map_of xs w" "map_of (retag k c xs) k = Some ((), c)"
    using w(3) k by (simp_all add: map_of_retag)
  have w': "w = (if create_index env then FirstNormalTransactionId else w)" using w(1) by simp
  have ne: "[head] \<noteq> []" by simp
  have sp: "length s1 + length [head] \<le> InvalidBlockNumber" using space r(4) by simp
  have rm: "map_of (retag k c xs) w \<noteq> None \<or> ts \<noteq> []" using room mw(1) by simp
  obtain s2 xs2 ts2 G2 t where e: "extend_with_when_recyclable env s1 root w [head] = Some s2"
    "fsm_inv s2 root xs2 ts2 G2" "frame (insert root (set ((G(c := c # cs)) t))) s1 s2" "length s2 \<le> length s1 + length [head]"
    "fsm_entries s2 G2 xs2 = fsm_entries s1 (G(c := c # cs)) (retag k c xs) + image_mset (Pair w) (mset [head])"
    "mset (fsm_pages G2 xs2 ts2) = mset (fsm_pages (G(c := c # cs)) (retag k c xs) ts) + mset [length s1..<length s2]"
    "map_of xs2 = (map_of (retag k c xs))(w \<mapsto> ((), t))"
    "map_of (retag k c xs) w = Some ((), t) \<or> map_of (retag k c xs) w = None \<and> t \<in> set ts"
    "\<forall>t'. t' \<noteq> t \<longrightarrow> G2 t' = (G(c := c # cs)) t'" "set (fsm_tags xs2 ts2) = set (fsm_tags (retag k c xs) ts)"
    by (rule extend_room [OF r(2) ne w' w(2) sp rm])
  note c1 = fsm_inv_chains [OF r(2)]
  have tw: "t \<in> set (fsm_tags (retag k c xs) ts)" using e(8) fsm_tag_in [of "retag k c xs" w "()" t ts] by (auto simp: fsm_tags_def)
  have tc: "t \<noteq> c"
  proof
    assume tc: "t = c"
    obtain ys zs where xs1: "retag k c xs = ys @ (k, (), c) # zs" using split_list [OF map_of_SomeD [OF mw(2)]] by blast
    have "(w, (), c) \<in> set (ys @ zs) \<or> c \<in> set ts" using e(8) w(3) tc unfolding xs1 by (auto dest!: map_of_SomeD split: if_splits)
    then show False using c1(1) unfolding xs1 by (force simp: fsm_tags_def)
  qed
  have "set ((G(c := c # cs)) t) \<subseteq> set (fsm_pages (G(c := c # cs)) (retag k c xs) ts)"
    using tw by (auto simp: fsm_pages_def)
  also have "\<dots> \<subseteq> set (fsm_pages G xs ts)" using arg_cong [OF r(6), of set_mset] by auto
  finally have "insert root (set ((G(c := c # cs)) t)) \<subseteq> insert root (set (fsm_pages G xs ts))" by blast
  then have "{root} \<union> insert root (set ((G(c := c # cs)) t)) \<subseteq> insert root (set (fsm_pages G xs ts))" by blast
  note fr = frame_mono [OF frame_trans [OF r(3) e(3)] this]
  have "fst ` set (retag k c xs) = fst ` set xs" by (force simp: retag_def split: if_splits)
  then have spare: "fsm_spare K xs2 ts2" if "w \<in> K" "fsm_spare K xs ts" for K
    using that by (intro extend_spare [OF r(2) e(2,10,7)]) (simp_all add: fsm_spare_def)
  have "fsm_ledger root w s xs ts G {#} {#head#} s2 xs2 ts2 G2"
    unfolding fsm_ledger_def using e(2,4,5,6,7) r(4,5) fr spare by (simp add: ac_simps flip: r(6))
  then show thesis using that [OF r(1) e(1)] e(7,9) mw(2) w(3) tc by simp
qed

lemma drain_remove:
  assumes inv: "fsm_inv s root xs ts G" and k: "map_of xs k = Some ((), head)" and empty: "stored s (G head) = []"
  obtains s1 where "remove_key s root k = Some s1"
    "fsm_ledger root w s xs ts G {#} {#} s1 (filter (\<lambda>x. fst x \<noteq> k) xs) (head # ts) G"
proof -
  note d = fsm_inv_dest [OF inv]
  obtain m where m: "pg_body (s ! root) = FsmRoot m" "avl_rel m xs ts" using d(3) by blast
  obtain m' where m': "avl_remove m k = Some (m', Some ())" "avl_rel m' (filter (\<lambda>x. fst x \<noteq> k) xs) (head # ts)"
    using avl_remove_ok [OF m(2), of k] k by auto
  define xs1 where "xs1 = filter (\<lambda>x. fst x \<noteq> k) xs"
  define s1 where "s1 = s[root := (s ! root)\<lparr>pg_body := FsmRoot m'\<rparr>]"
  have run: "remove_key s root k = Some s1" using m(1) m'(1) d(2) by (simp add: remove_key_def s1_def)
  obtain ys zs where xs: "xs = ys @ (k, (), head) # zs" using split_list [OF map_of_SomeD [OF k]] by blast
  have "distinct (map fst xs)" using avl_rel_sorted [OF m(2)] by (simp add: sorted_keys_def strict_sorted_iff)
  then have "filter (\<lambda>x. fst x \<noteq> k) ys = ys" "filter (\<lambda>x. fst x \<noteq> k) zs = zs"
    unfolding xs by (auto simp: filter_id_conv)
  then have xs1: "xs1 = ys @ zs" unfolding xs1_def xs by simp
  have tags: "mset (fsm_tags xs1 (head # ts)) = mset (fsm_tags xs ts)" unfolding xs1 xs by (simp add: fsm_tags_def)
  have pages: "mset (fsm_pages G xs1 (head # ts)) = mset (fsm_pages G xs ts)" by (simp add: fsm_pages_mset tags)
  have dst: "distinct (fsm_pages G xs1 (head # ts))" using d(6) mset_eq_imp_distinct_iff [OF pages] by simp
  have pf: "pages_from s t (G t) \<and> G t \<noteq> []" if "t \<in> set (fsm_tags xs1 (head # ts))" for t
    using d(4,5) that mset_eq_setD [OF tags] by blast
  have fe: "stored s (G t) = []" if "t \<in> set (head # ts)" for t using d(8) empty that by auto
  have keys: "FirstNormalTransactionId \<le> fst x" if "x \<in> set xs1" for x using d(9) that by (simp add: xs1_def)
  note r = fsm_inv_root [OF inv m'(2) [folded xs1_def] s1_def pf dst equalityD1 [OF mset_eq_setD [OF pages]] fe keys]
  have "fsm_entries s1 G xs1 = fsm_entries s G xs1"
  proof (rule fsm_entries_cong)
    fix x assume "x \<in> set xs1"
    then have "snd (snd x) \<in> set (fsm_tags xs1 (head # ts))" by (simp add: fsm_tags_def)
    then show "stored s1 (G (snd (snd x))) = stored s (G (snd (snd x)))"
      using mset_eq_setD [OF pages] by (intro r(2)) (auto simp: fsm_pages_def)
  qed
  also have "\<dots> = fsm_entries s G xs" unfolding xs1 xs by (simp add: fsm_entries_def empty)
  finally have "fsm_ledger root w s xs ts G {#} {#} s1 xs1 (head # ts) G"
    unfolding fsm_ledger_def using r(1) pages fsm_spare_remove [of _ xs ts k head] by (simp add: s1_def flip: xs1_def)
  then show thesis using that [OF run] by (simp add: xs1_def)
qed

section \<open>One chain\<close>

definition chain_result ::
  "fsm_env \<Rightarrow> block_number \<Rightarrow> nat \<Rightarrow> nat \<Rightarrow> store \<Rightarrow> (nat \<times> unit \<times> block_number) list \<Rightarrow> block_number list \<Rightarrow>
     (block_number \<Rightarrow> block_number list) \<Rightarrow> block_number list \<Rightarrow> (store \<times> block_number list \<times> chain_exit) option \<Rightarrow> bool"
where
  "chain_result env root many k s xs ts G blocks r \<longleftrightarrow>
     (\<exists>s' popped U xs' ts' G' ex. r = Some (s', blocks @ popped, ex) \<and>
        fsm_ledger root (next_xid env) s xs ts G (image_mset (Pair k) (mset popped)) U s' xs' ts' G' \<and>
        size U \<le> length popped \<and> length blocks + length popped \<le> many \<and>
        ((\<forall>b. can_lock env b) \<longrightarrow> length blocks + length popped = many \<or> map_of xs' k = None))"

lemma chain_result_trans:
  assumes "fsm_ledger root (next_xid env) s xs ts G (image_mset (Pair k) (mset popped)) U s1 xs1 ts1 G1"
    "size U \<le> length popped" "chain_result env root many k s1 xs1 ts1 G1 (blocks @ popped) r"
  shows "chain_result env root many k s xs ts G blocks r"
proof -
  obtain s' popped' U' xs' ts' G' ex where r: "r = Some (s', (blocks @ popped) @ popped', ex)"
    "fsm_ledger root (next_xid env) s1 xs1 ts1 G1 (image_mset (Pair k) (mset popped')) U' s' xs' ts' G'"
    "size U' \<le> length popped'" "length (blocks @ popped) + length popped' \<le> many"
    "(\<forall>b. can_lock env b) \<longrightarrow> length (blocks @ popped) + length popped' = many \<or> map_of xs' k = None"
    using assms(3) unfolding chain_result_def by blast
  have "fsm_ledger root (next_xid env) s xs ts G (image_mset (Pair k) (mset (popped @ popped'))) (U + U') s' xs' ts' G'"
    using ledger_trans [OF assms(1) r(2)] by simp
  then show ?thesis
    unfolding chain_result_def using r assms(2)
    by (intro exI [of _ s'] exI [of _ "popped @ popped'"] exI [of _ "U + U'"] exI [of _ xs'] exI [of _ ts']
        exI [of _ G'] exI [of _ ex]) auto
qed

lemma chain_result_stop:
  "fsm_ledger root (next_xid env) s xs ts G {#} {#} s' xs' ts' G' \<Longrightarrow> length blocks \<le> many \<Longrightarrow>
     (\<forall>b. can_lock env b) \<longrightarrow> length blocks = many \<or> map_of xs' k = None \<Longrightarrow>
     chain_result env root many k s xs ts G blocks (Some (s', blocks, ex))"
  unfolding chain_result_def
  by (intro exI [of _ s'] exI [of _ "[]"] exI [of _ "{#}"] exI [of _ xs'] exI [of _ ts'] exI [of _ G'] exI [of _ ex]) simp

text \<open>What the loop knows when it arrives at the pages \<open>suf\<close> of the chain, having passed \<open>pre\<close>.\<close>

definition chain_state ::
  "fsm_env \<Rightarrow> block_number \<Rightarrow> nat \<Rightarrow> nat \<Rightarrow> store \<Rightarrow> (nat \<times> unit \<times> block_number) list \<Rightarrow> block_number list \<Rightarrow>
     (block_number \<Rightarrow> block_number list) \<Rightarrow> block_number list \<Rightarrow> block_number \<Rightarrow> block_number \<Rightarrow> nat \<Rightarrow>
     block_number list \<Rightarrow> block_number list \<Rightarrow> bool"
where
  "chain_state env root many k s xs ts G blocks head blockno cnt pre suf \<longleftrightarrow>
     fsm_inv s root xs ts G \<and> (map_of xs (next_xid env) \<noteq> None \<or> ts \<noteq> []) \<and> map_of xs k = Some ((), head) \<and>
     G head = pre @ suf \<and> pages_from s blockno suf \<and> cnt = length (stored s pre) \<and> length blocks \<le> many \<and>
     length s + (many - length blocks) \<le> InvalidBlockNumber \<and> (length blocks < many \<longrightarrow> cnt = 0) \<and>
     (suf = [] \<longrightarrow> length blocks = many)"

lemma chain_state_dest:
  assumes "chain_state env root many k s xs ts G blocks head blockno cnt pre suf"
  shows "fsm_inv s root xs ts G" "map_of xs (next_xid env) \<noteq> None \<or> ts \<noteq> []" "map_of xs k = Some ((), head)"
    "G head = pre @ suf" "pages_from s blockno suf" "cnt = length (stored s pre)" "length blocks \<le> many"
    "length s + (many - length blocks) \<le> InvalidBlockNumber" "length blocks < many \<Longrightarrow> cnt = 0"
    "suf = [] \<Longrightarrow> length blocks = many"
  using assms unfolding chain_state_def by blast+

lemma visit_page_ok:
  assumes st: "chain_state env root many k s xs ts G blocks head b cnt pre (b # rest)"
    and need: "length blocks < many" and l: "leaf_at s b = Some l"
  obtains s1 popped unl where "visit_page many s blocks head b cnt l (pg_next (s ! b)) =
      Some (s1, blocks @ popped, length (stored s1 (pre @ [b])), unl)"
    "fsm_ledger root (next_xid env) s xs ts G (image_mset (Pair k) (mset popped)) {#} s1 xs ts G"
    "length s1 = length s" "pages_from s1 (pg_next (s ! b)) rest" "length blocks + length popped \<le> many"
    "length blocks + length popped < many \<longrightarrow> stored s1 (pre @ [b]) = []"
    "unl \<longrightarrow> pre = [] \<and> rest \<noteq> [] \<and> popped \<noteq> [] \<and> leaf_blocks s1 b = []"
proof -
  note c = chain_state_dest [OF st]
  have tt: "head \<in> set (fsm_tags xs ts)" by (rule fsm_tag_in [OF c(3)])
  note i = fsm_inv_chains [OF c(1)]
  have bG: "b \<in> set (G head)" by (simp add: c(4))
  have bp: "b \<notin> set pre" "set pre \<subseteq> set (G head)" using i(3) [OF tt] unfolding c(4) by auto
  have hd: "head = b \<longleftrightarrow> pre = []"
  proof -
    have "pages_from s head (pre @ b # rest)" using fsm_inv_dest(4) [OF c(1) tt] by (simp add: c(4))
    then show ?thesis using bp(1) by (cases pre) auto
  qed
  have cnt0: "stored s pre = []" using c(6,9) need by simp
  show thesis
  proof (cases "lf_len l = 0 \<and> head = b")
    case True
    then have "leaf_blocks s b = []" using l by (simp add: leaf_blocks_def)
    moreover have "pages_from s (pg_next (s ! b)) rest" using c(5) by simp
    ultimately show ?thesis
      using that [of s "[]" False] True ledger_refl [OF c(1,2)] c(6,7) cnt0 by (simp add: visit_page_def)
  next
    case False
    obtain l' s1 popped where p: "pop_entries many (lf_len l) l blocks = Some (l', blocks @ popped)"
      "(if lf_len l' = lf_len l then Some s else set_body s b (FsmLeaf l')) = Some s1"
      "fsm_ledger root (next_xid env) s xs ts G (image_mset (Pair k) (mset popped)) {#} s1 xs ts G"
      "length (leaf_blocks s1 b) = lf_len l'" "frame {b} s s1" "length s1 = length s"
      "\<forall>x. pg_next (s1 ! x) = pg_next (s ! x)"
      "lf_len l' = 0 \<or> many \<le> length blocks + length popped"
      "length blocks \<le> many \<longrightarrow> length blocks + length popped \<le> many"
      "length blocks < many \<longrightarrow> 0 < lf_len l \<longrightarrow> popped \<noteq> []"
      by (rule drain_pop [OF c(1,2,3) bG l])
    have st1: "stored s1 pre = []"
      using stored_frame [OF p(5), of pre] i(6) [OF tt] bp cnt0 by auto
    then have cnt1: "length (stored s1 (pre @ [b])) = cnt + lf_len l'" using p(4) cnt0 c(6) by simp
    have nx: "pages_from s1 (pg_next (s ! b)) rest"
    proof (rule lseg_cong)
      show "pages_from s (pg_next (s ! b)) rest" using c(5) by simp
      fix x assume "x \<in> set rest"
      then show "x < length s1 \<and> pg_next (s1 ! x) = pg_next (s ! x)"
        using lseg_bound [OF c(5), of x] p(6,7) by simp
    qed
    have ne: "pg_next (s ! b) \<noteq> InvalidBlockNumber \<longleftrightarrow> rest \<noteq> []" using pages_from_Nil [of s "pg_next (s ! b)" rest] c(5) by simp
    show ?thesis
    proof (rule that [OF _ p(3,6) nx])
      show "visit_page many s blocks head b cnt l (pg_next (s ! b)) = Some (s1, blocks @ popped,
          length (stored s1 (pre @ [b])), b = head \<and> lf_len l' = 0 \<and> pg_next (s ! b) \<noteq> InvalidBlockNumber)"
        unfolding visit_page_def cnt1 if_not_P [OF False] using p(1,2) by simp
    qed (use p(4,8,9,10) c(7) st1 need False hd ne in auto)
  qed
qed

lemma chain_state_advance:
  assumes st: "chain_state env root many k s xs ts G blocks head b cnt pre (b # rest)"
    and led: "fsm_ledger root (next_xid env) s xs ts G (image_mset (Pair k) (mset popped)) {#} s1 xs ts G"
    and v: "length s1 = length s" "pages_from s1 nx rest" "length blocks + length popped \<le> many"
      "length blocks + length popped < many \<longrightarrow> stored s1 (pre @ [b]) = []"
    and go: "\<not> (rest = [] \<and> stored s1 (pre @ [b]) = [])"
  shows "chain_state env root many k s1 xs ts G (blocks @ popped) head nx (length (stored s1 (pre @ [b]))) (pre @ [b]) rest"
proof -
  note c = chain_state_dest [OF st] and l = ledger_dest [OF led]
  show ?thesis
    unfolding chain_state_def using l(1,6) c(3,4,8) v go by (auto simp del: stored_simps)
qed

lemma chain_state_unlinked:
  assumes st: "chain_state env root many k s xs ts G blocks head b cnt [] (b # c # cs)"
    and led: "fsm_ledger root (next_xid env) s xs ts G (image_mset (Pair k) (mset popped)) U s2 xs2 ts2 G2"
    and v: "size U \<le> length popped" "length blocks + length popped \<le> many" "length blocks < many"
    and g: "map_of xs2 k = Some ((), c)" "G2 c = c # cs"
  shows "chain_state env root many k s2 xs2 ts2 G2 (blocks @ popped) c c 0 [] (c # cs)"
proof -
  note c = chain_state_dest [OF st] and l = ledger_dest [OF led]
  have "pages_from s2 c (c # cs)" using fsm_inv_dest(4) [OF l(1) fsm_tag_in [OF g(1)]] g(2) by simp
  moreover have "length s2 + (many - length (blocks @ popped)) \<le> InvalidBlockNumber" using l(5) c(8) v by simp
  ultimately show ?thesis
    unfolding chain_state_def using l(1,6) g v by simp
qed

lemma drain_chain_ok:
  assumes "chain_state env root many k s xs ts G blocks head b cnt pre suf"
    and "\<not> create_index env" "FirstNormalTransactionId \<le> next_xid env" "next_xid env \<noteq> k"
  shows "chain_result env root many k s xs ts G blocks (drain_chain env root many k s blocks head b cnt)"
  using assms(1)
proof (induction suf arbitrary: s xs ts G blocks head b cnt pre)
  case Nil
  note c = chain_state_dest [OF Nil]
  have "drain_chain env root many k s blocks head b cnt = Some (s, blocks, ChainDone)"
    using c(5) by (subst drain_chain.simps) simp
  then show ?case using chain_result_stop [OF ledger_refl [OF c(1,2)] c(7)] c(10) by simp
next
  case (Cons b' rest)
  then have "b' = b" using chain_state_dest(5) by fastforce
  note st = Cons.prems [unfolded this] and c = chain_state_dest [OF Cons.prems [unfolded this]]
  note tt = fsm_tag_in [OF c(3)]
  have bi: "b < length s" "b \<noteq> InvalidBlockNumber" using c(5) by auto
  obtain l where l: "leaf_at s b = Some l" using fsm_inv_chains(5) [OF c(1) tt, of b] c(4) by (auto simp: leaf_ok_def)
  note unfold = drain_chain.simps [of env root many k s blocks head b cnt]
  consider "length blocks = many" | "length blocks < many" "\<not> can_lock env b" | "length blocks < many" "can_lock env b"
    using c(7) by linarith
  then show ?case
  proof cases
    case 1
    then show ?thesis using unfold chain_result_stop [OF ledger_refl [OF c(1,2)] c(7)] by simp
  next
    case 2
    then show ?thesis using unfold bi(2) chain_result_stop [OF ledger_refl [OF c(1,2)] c(7)] by auto
  next
    case 3
    define nx where "nx = pg_next (s ! b)"
    obtain s1 popped unl where v: "visit_page many s blocks head b cnt l nx =
        Some (s1, blocks @ popped, length (stored s1 (pre @ [b])), unl)"
      "fsm_ledger root (next_xid env) s xs ts G (image_mset (Pair k) (mset popped)) {#} s1 xs ts G"
      "length s1 = length s" "pages_from s1 nx rest" "length blocks + length popped \<le> many"
      "length blocks + length popped < many \<longrightarrow> stored s1 (pre @ [b]) = []"
      "unl \<longrightarrow> pre = [] \<and> rest \<noteq> [] \<and> popped \<noteq> [] \<and> leaf_blocks s1 b = []"
      unfolding nx_def by (rule visit_page_ok [OF st 3(1) l])
    note run = unfold [unfolded if_P [OF conjI [OF 3(1) bi(2)]]]
    note inv1 = ledger_dest(1) [OF v(2)]
    have trans: "chain_result env root many k s xs ts G blocks r"
      if "chain_result env root many k s1 xs ts G (blocks @ popped) r" for r
      by (rule chain_result_trans [OF v(2) _ that]) simp
    show ?thesis
    proof (cases unl)
      case True
      then obtain c' cs where rest: "rest = c' # cs" and pre: "pre = []" and p: "popped \<noteq> []" "leaf_blocks s1 b = []"
        using v(7) by (cases rest) auto
      have nx: "nx = c'" using v(4) rest by simp
      have hd: "head = b" using fsm_inv_dest(4) [OF c(1) tt] c(4) pre by simp
      have g: "G b = b # c' # cs" using c(4) pre rest hd by simp
      have sp: "length s1 < InvalidBlockNumber" using c(8) 3(1) v(3) by linarith
      obtain s2 s3 xs3 ts3 G3 where u: "unlink_head s1 root k b c' = Some (s2, True)"
        "extend_with_when_recyclable env s2 root (next_xid env) [b] = Some s3"
        "fsm_ledger root (next_xid env) s1 xs ts G {#} {#b#} s3 xs3 ts3 G3" "map_of xs3 k = Some ((), c')" "G3 c' = c' # cs"
        by (rule drain_unlink [OF inv1 c(2) c(3) [unfolded hd] g p(2) assms(2-4) sp])
      note led = ledger_trans [OF v(2) u(3), simplified]
      have sz: "size {#b#} \<le> length popped" using p(1) by (cases popped) auto
      have st3: "chain_state env root many k s3 xs3 ts3 G3 (blocks @ popped) c' c' 0 [] (c' # cs)"
        by (rule chain_state_unlinked [OF st [unfolded rest pre] led sz v(5) 3(1) u(4,5)])
      have "drain_chain env root many k s blocks head b cnt = drain_chain env root many k s3 (blocks @ popped) c' c' 0"
        unfolding run using 3(2) l bi(1) v(1) True u(1,2) pre p(2) nx hd by (simp add: nx_def [symmetric])
      then show ?thesis
        using chain_result_trans [OF led sz Cons.IH [OF st3 [folded rest]]] by simp
    next
      case False
      have nxi: "nx = InvalidBlockNumber \<longleftrightarrow> rest = []" using pages_from_Nil [OF v(4)] by simp
      show ?thesis
      proof (cases "rest = [] \<and> stored s1 (pre @ [b]) = []")
        case True
        then have e: "stored s1 (G head) = []" using c(4) by simp
        obtain s2 where r: "remove_key s1 root k = Some s2"
          "fsm_ledger root (next_xid env) s1 xs ts G {#} {#} s2 (filter (\<lambda>x. fst x \<noteq> k) xs) (head # ts) G"
          by (rule drain_remove [OF inv1 c(3) e])
        have "map_of (filter (\<lambda>x. fst x \<noteq> k) xs) k = None" by (auto simp: map_of_eq_None_iff)
        then have "chain_result env root many k s1 xs ts G (blocks @ popped) (Some (s2, blocks @ popped, NextKey))"
          using v(5) by (intro chain_result_stop [OF r(2)]) auto
        moreover have "drain_chain env root many k s blocks head b cnt = Some (s2, blocks @ popped, NextKey)"
          unfolding run using 3(2) l bi(1) v(1) False r(1) True nxi by (simp add: nx_def [symmetric] del: stored_simps)
        ultimately show ?thesis using trans by simp
      next
        case go: False
        note st1 = chain_state_advance [OF st v(2-6) go]
        have "drain_chain env root many k s blocks head b cnt =
            drain_chain env root many k s1 (blocks @ popped) head nx (length (stored s1 (pre @ [b])))"
          unfolding run using 3(2) l bi(1) v(1) False go nxi
          by (cases "rest = []") (simp_all add: nx_def [symmetric] del: stored_simps)
        then show ?thesis using trans [OF Cons.IH [OF st1]] by simp
      qed
    qed
  qed
qed

section \<open>All keys up to the current transaction\<close>

lemma lte_entry_None: "lte_entry x xs = None \<Longrightarrow> e \<in> set xs \<Longrightarrow> x < fst e"
  by (auto simp: lte_entry_def Let_def filter_empty_conv not_le split: if_splits)

lemma lte_entry_Some:
  assumes "lte_entry x xs = Some e" "sorted_keys xs"
  shows "e \<in> set xs" "fst e \<le> x" "\<And>e'. e' \<in> set xs \<Longrightarrow> fst e' \<le> x \<Longrightarrow> fst e' \<le> fst e"
proof -
  define ys where "ys = filter (\<lambda>e. fst e \<le> x) xs"
  have ne: "ys \<noteq> []" "e = last ys" using assms(1) by (auto simp: lte_entry_def Let_def ys_def split: if_splits)
  then have "e \<in> set ys" by simp
  then show "e \<in> set xs" "fst e \<le> x" by (auto simp: ys_def)
  have "sorted_keys ys" using assms(2) unfolding sorted_keys_def ys_def sorted_wrt_map by (rule sorted_wrt_filter)
  then have "sorted_keys (butlast ys @ [e])" using ne by simp
  then have below: "\<forall>y\<in>set (butlast ys). fst y < fst e" by simp
  show "fst e' \<le> fst e" if "e' \<in> set xs" "fst e' \<le> x" for e'
  proof -
    have "e' \<in> set ys" using that by (simp add: ys_def)
    then have "e' \<in> set (butlast ys) \<or> e' = e" using ne by (metis append_butlast_last_id in_set_conv_decomp rotate1.simps(2) set_ConsD set_rotate1)
    then show ?thesis using below by fastforce
  qed
qed

lemma fsm_entries_key: "e \<in># fsm_entries s G xs \<Longrightarrow> fst e \<in> fst ` set xs"
  by (force simp: fsm_entries_def)

text \<open>
  The outcome of \<open>drain\<close>: the blocks \<open>popped\<close>, filed under keys at most \<open>cur\<close>, left the record; and when
  no lock was refused and fewer than \<open>many\<close> came back, none filed under such a key is left.
\<close>

definition drain_result ::
  "fsm_env \<Rightarrow> block_number \<Rightarrow> nat \<Rightarrow> nat \<Rightarrow> store \<Rightarrow> (nat \<times> unit \<times> block_number) list \<Rightarrow> block_number list \<Rightarrow>
     (block_number \<Rightarrow> block_number list) \<Rightarrow> block_number list \<Rightarrow> (store \<times> block_number list) option \<Rightarrow> bool"
where
  "drain_result env root many cur s xs ts G blocks r \<longleftrightarrow>
     (\<exists>s' popped P U xs' ts' G'. r = Some (s', blocks @ popped) \<and>
        fsm_ledger root (next_xid env) s xs ts G P U s' xs' ts' G' \<and>
        image_mset snd P = mset popped \<and> (\<forall>e. e \<in># P \<longrightarrow> fst e \<le> cur) \<and> size U \<le> length popped \<and>
        length blocks + length popped \<le> many \<and>
        ((\<forall>b. can_lock env b) \<longrightarrow> length blocks + length popped = many \<or>
           (\<forall>e. e \<in># fsm_entries s' G' xs' \<longrightarrow> cur < fst e)))"

lemma drain_result_stop:
  "fsm_inv s root xs ts G \<Longrightarrow> map_of xs (next_xid env) \<noteq> None \<or> ts \<noteq> [] \<Longrightarrow> length blocks \<le> many \<Longrightarrow>
     (\<forall>b. can_lock env b) \<longrightarrow> length blocks = many \<or> (\<forall>e. e \<in># fsm_entries s G xs \<longrightarrow> cur < fst e) \<Longrightarrow>
     drain_result env root many cur s xs ts G blocks (Some (s, blocks))"
  unfolding drain_result_def
  by (intro exI [of _ s] exI [of _ "[]"] exI [of _ "{#}"] exI [of _ xs] exI [of _ ts] exI [of _ G])
    (simp add: ledger_refl)

lemma drain_result_trans:
  assumes "fsm_ledger root (next_xid env) s xs ts G (image_mset (Pair k) (mset popped)) U s1 xs1 ts1 G1"
    "size U \<le> length popped" "k \<le> cur" "drain_result env root many cur s1 xs1 ts1 G1 (blocks @ popped) r"
  shows "drain_result env root many cur s xs ts G blocks r"
proof -
  obtain s' popped' P U' xs' ts' G' where r: "r = Some (s', (blocks @ popped) @ popped')"
    "fsm_ledger root (next_xid env) s1 xs1 ts1 G1 P U' s' xs' ts' G'" "image_mset snd P = mset popped'"
    "\<forall>e. e \<in># P \<longrightarrow> fst e \<le> cur" "size U' \<le> length popped'" "length (blocks @ popped) + length popped' \<le> many"
    "(\<forall>b. can_lock env b) \<longrightarrow> length (blocks @ popped) + length popped' = many \<or>
       (\<forall>e. e \<in># fsm_entries s' G' xs' \<longrightarrow> cur < fst e)"
    using assms(4) unfolding drain_result_def by (elim exE conjE) (rule that)
  note led = ledger_trans [OF assms(1) r(2)]
  have "image_mset snd (image_mset (Pair k) (mset popped) + P) = mset (popped @ popped')"
    using r(3) by (simp add: image_mset.compositionality comp_def)
  then show ?thesis
    unfolding drain_result_def using r(1,4-7) led assms(2,3)
    by (intro exI [of _ s'] exI [of _ "popped @ popped'"] exI [of _ "image_mset (Pair k) (mset popped) + P"]
        exI [of _ "U + U'"] exI [of _ xs'] exI [of _ ts'] exI [of _ G'] conjI) auto
qed

lemma drain_loop_ok:
  assumes "\<not> create_index env" "FirstNormalTransactionId \<le> next_xid env" "cur < next_xid env"
    and "fsm_inv s root xs ts G" "map_of xs (next_xid env) \<noteq> None \<or> ts \<noteq> []" "xid \<le> cur" "length blocks \<le> many"
    "length s + (many - length blocks) \<le> InvalidBlockNumber"
    "(\<forall>b. can_lock env b) \<longrightarrow> length blocks = many \<or>
       (\<forall>e. e \<in># fsm_entries s G xs \<longrightarrow> fst e \<le> cur \<longrightarrow> fst e \<le> xid)"
  shows "drain_result env root many cur s xs ts G blocks (drain_loop env root many s blocks xid)"
  using assms(4-)
proof (induction xid arbitrary: s xs ts G blocks rule: less_induct)
  case (less xid)
  note inv = less.prems(1)
  note d = fsm_inv_dest [OF inv]
  obtain m where m: "pg_body (s ! root) = FsmRoot m" "avl_rel m xs ts" using d(3) by blast
  note unfold = drain_loop.simps [of env root many s blocks xid]
  show ?case
  proof (cases "length blocks < many")
    case False
    then show ?thesis using unfold drain_result_stop [OF inv less.prems(2,4)] less.prems(4) by simp
  next
    case need: True
    note srt = avl_rel_sorted [OF m(2)]
    have lte: "get_lte m xid = Some (lte_entry xid xs)" by (rule get_lte_ok [OF m(2)])
    show ?thesis
    proof (cases "lte_entry xid xs")
      case None
      have "cur < fst e" if en: "e \<in># fsm_entries s G xs" "\<forall>b. can_lock env b" for e
      proof (rule ccontr)
        assume "\<not> cur < fst e"
        then have "fst e \<le> cur" by simp
        then have "fst e \<le> xid" using less.prems(6) en need by blast
        moreover obtain x where "x \<in> set xs" "fst e = fst x" using fsm_entries_key [OF en(1)] by auto
        ultimately show False using lte_entry_None [OF None] by fastforce
      qed
      then have "drain_result env root many cur s xs ts G blocks (Some (s, blocks))"
        by (intro drain_result_stop [OF inv less.prems(2,4)]) blast
      then show ?thesis using unfold need d(2) m(1) lte None by simp
    next
      case (Some e)
      obtain k tag where e: "e = (k, (), tag)" by (cases e) auto
      note le = lte_entry_Some [OF Some srt, unfolded e fst_conv]
      have "distinct (map fst xs)" using srt by (simp add: sorted_keys_def strict_sorted_iff)
      then have k: "map_of xs k = Some ((), tag)" using le(1) by simp
      have k3: "FirstNormalTransactionId \<le> k" using d(9) [OF le(1)] by simp
      have kc: "k \<le> cur" "next_xid env \<noteq> k" using le(2) less.prems(3) assms(3) by auto
      note tt = fsm_tag_in [OF k]
      have st: "chain_state env root many k s xs ts G blocks tag tag 0 [] (G tag)"
        unfolding chain_state_def using inv less.prems(2,4,5) k d(4,5) [OF tt] by simp
      obtain s1 popped U xs1 ts1 G1 ex where r:
        "drain_chain env root many k s blocks tag tag 0 = Some (s1, blocks @ popped, ex)"
        "fsm_ledger root (next_xid env) s xs ts G (image_mset (Pair k) (mset popped)) U s1 xs1 ts1 G1"
        "size U \<le> length popped" "length blocks + length popped \<le> many"
        "(\<forall>b. can_lock env b) \<longrightarrow> length blocks + length popped = many \<or> map_of xs1 k = None"
        using drain_chain_ok [OF st assms(1,2) kc(2)] unfolding chain_result_def by (elim exE conjE) (rule that)
      note l1 = ledger_dest [OF r(2)]
      have trans: "drain_result env root many cur s xs ts G blocks r'"
        if "drain_result env root many cur s1 xs1 ts1 G1 (blocks @ popped) r'" for r'
        by (rule drain_result_trans [OF r(2,3) kc(1) that])
      have below: "fst x < k" if x: "x \<in># fsm_entries s1 G1 xs1" "fst x \<le> cur" "\<forall>b. can_lock env b"
        "length blocks + length popped \<noteq> many" for x
      proof -
        have "x \<in># fsm_entries s G xs + image_mset (Pair (next_xid env)) U" unfolding l1(2) [symmetric] using x(1) by simp
        then have "x \<in># fsm_entries s G xs" using x(2) assms(3) by auto
        moreover from this have "fst x \<le> xid" using less.prems(6) x(2,3) need by blast
        ultimately have "fst x \<le> xid" "fst x \<in> fst ` set xs" using fsm_entries_key by blast+
        then have "fst x \<le> k" using le(3) by auto
        moreover have "fst x \<in> fst ` set xs1" by (rule fsm_entries_key [OF x(1)])
        then have "fst x \<noteq> k" using r(5) x(3,4) by (auto simp: map_of_eq_None_iff)
        ultimately show ?thesis by simp
      qed
      have run: "drain_loop env root many s blocks xid =
          (if ex = ChainDone \<and> length (blocks @ popped) = many then Some (s1, blocks @ popped)
           else if k - 1 < FirstNormalTransactionId then Some (s1, blocks @ popped)
           else drain_loop env root many s1 (blocks @ popped) (k - 1))"
        unfolding unfold using need d(2) m(1) lte Some e r(1) k3 by (simp add: xid_pred_def FirstNormalTransactionId_def)
      show ?thesis
      proof (cases "ex = ChainDone \<and> length (blocks @ popped) = many \<or> k - 1 < FirstNormalTransactionId")
        case True
        have "drain_result env root many cur s1 xs1 ts1 G1 (blocks @ popped) (Some (s1, blocks @ popped))"
        proof (rule drain_result_stop [OF l1(1,6)])
          have "cur < fst x" if x: "x \<in># fsm_entries s1 G1 xs1" "\<forall>b. can_lock env b"
            "length blocks + length popped \<noteq> many" for x
          proof (rule ccontr)
            assume "\<not> cur < fst x"
            then have "fst x < k" using below [OF x(1) _ x(2,3)] by simp
            moreover have "FirstNormalTransactionId \<le> fst x"
              using fsm_entries_key [OF x(1)] fsm_inv_dest(9) [OF l1(1)] by auto
            ultimately show False using True x(3) by auto
          qed
          then show "(\<forall>b. can_lock env b) \<longrightarrow> length (blocks @ popped) = many \<or>
              (\<forall>e. e \<in># fsm_entries s1 G1 xs1 \<longrightarrow> cur < fst e)" by auto
        qed (use r(4) in simp)
        moreover have "drain_loop env root many s blocks xid = Some (s1, blocks @ popped)" unfolding run using True by auto
        ultimately show ?thesis using trans by simp
      next
        case False
        have "drain_result env root many cur s1 xs1 ts1 G1 (blocks @ popped) (drain_loop env root many s1 (blocks @ popped) (k - 1))"
        proof (rule less.IH [OF _ l1(1,6)])
          show "k - 1 < xid" using le(2) k3 by (simp add: FirstNormalTransactionId_def)
          show "k - 1 \<le> cur" using kc(1) by simp
          show "length (blocks @ popped) \<le> many" using r(4) by simp
          show "length s1 + (many - length (blocks @ popped)) \<le> InvalidBlockNumber"
            using r(3,4) l1(5) less.prems(5) by simp
          have "fst x \<le> k - 1" if "x \<in># fsm_entries s1 G1 xs1" "fst x \<le> cur" "\<forall>b. can_lock env b"
            "length blocks + length popped \<noteq> many" for x using below [OF that] by simp
          then show "(\<forall>b. can_lock env b) \<longrightarrow> length (blocks @ popped) = many \<or>
              (\<forall>e. e \<in># fsm_entries s1 G1 xs1 \<longrightarrow> fst e \<le> cur \<longrightarrow> fst e \<le> k - 1)" by auto
        qed
        moreover have "drain_loop env root many s blocks xid = drain_loop env root many s1 (blocks @ popped) (k - 1)"
          unfolding run using False by auto
        ultimately show ?thesis using trans by simp
      qed
    qed
  qed
qed

lemma drain_ok:
  assumes "fsm_inv s root xs ts G" "\<not> create_index env" "max (current_xid env) FirstNormalTransactionId < next_xid env"
    "map_of xs (next_xid env) \<noteq> None \<or> ts \<noteq> []" "length s + many \<le> InvalidBlockNumber"
  obtains s' blocks P U xs' ts' G' where "drain env s root many = Some (s', blocks)"
    "fsm_ledger root (next_xid env) s xs ts G P U s' xs' ts' G'" "image_mset snd P = mset blocks"
    "\<forall>e. e \<in># P \<longrightarrow> fst e \<le> max (current_xid env) FirstNormalTransactionId" "size U \<le> length blocks" "length blocks \<le> many"
    "(\<forall>b. can_lock env b) \<longrightarrow> length blocks = many \<or>
       (\<forall>e. e \<in># fsm_entries s' G' xs' \<longrightarrow> max (current_xid env) FirstNormalTransactionId < fst e)"
proof -
  have "drain_result env root many (max (current_xid env) FirstNormalTransactionId) s xs ts G []
      (drain_loop env root many s [] (max (current_xid env) FirstNormalTransactionId))"
    using assms by (intro drain_loop_ok) auto
  then show thesis
    unfolding drain_result_def drain_def [symmetric] append_Nil list.size(3) add_0
    by (elim exE conjE) (rule that)
qed

section \<open>Properties\<close>

text \<open>
  C2. Blocks are never reused early.  When the tree has a free slot (or a slot for the next
  transaction), \<open>drain\<close> returns, with at most as many blocks as asked for, and each of them had been
  filed under a transaction id that is at most the current one.  Everything else stays on record: the
  entries that are left are the entries before, without the blocks handed out and with the leaf pages
  that were unlinked on the way, filed under the next transaction id.
\<close>

theorem drain_safe:
  assumes "fsm_inv s root xs ts G" "\<not> create_index env"
    "max (current_xid env) FirstNormalTransactionId < next_xid env"
    "map_of xs (next_xid env) \<noteq> None \<or> ts \<noteq> []" "length s + many \<le> InvalidBlockNumber"
  shows "\<exists>s' blocks xs' ts' G' P U. drain env s root many = Some (s', blocks) \<and> length blocks \<le> many \<and>
     fsm_inv s' root xs' ts' G' \<and> image_mset snd P = mset blocks \<and>
     (\<forall>e. e \<in># P \<longrightarrow> fst e \<le> max (current_xid env) FirstNormalTransactionId) \<and>
     fsm_entries s' G' xs' + P = fsm_entries s G xs + image_mset (Pair (next_xid env)) U \<and>
     U \<subseteq># mset (fsm_pages G xs ts) + mset [length s..<length s']"
proof -
  obtain s' blocks P U xs' ts' G' where d: "drain env s root many = Some (s', blocks)"
    "fsm_ledger root (next_xid env) s xs ts G P U s' xs' ts' G'" "image_mset snd P = mset blocks"
    "\<forall>e. e \<in># P \<longrightarrow> fst e \<le> max (current_xid env) FirstNormalTransactionId" "length blocks \<le> many"
    by (rule drain_ok [OF assms])
  have "U \<subseteq># mset (fsm_pages G xs ts) + mset [length s..<length s']"
    using ledger_dest(3) [OF d(2)] by (metis mset_subset_eq_add_right)
  then show ?thesis using d ledger_dest(1,2) [OF d(2)] by blast
qed

text \<open>
  C16. No block is lost or handed out twice.  Count a block once for every record of it and once for
  every chain it is a page of.  On a well-formed free space manager with a slot for the next transaction
  id, outside of CREATE INDEX, \<open>drain\<close> leaves a well-formed one; it takes exactly the blocks it returns
  off this count, and the only blocks it adds are new blocks of the relation.  Outside the root page, the
  chains and these new blocks no page changes.
\<close>

theorem drain_conserves:
  assumes "fsm_inv s root xs ts G" "\<not> create_index env"
    "max (current_xid env) FirstNormalTransactionId < next_xid env"
    "map_of xs (next_xid env) \<noteq> None \<or> ts \<noteq> []" "length s + many \<le> InvalidBlockNumber"
  shows "\<exists>s' blocks xs' ts' G'. drain env s root many = Some (s', blocks) \<and> fsm_inv s' root xs' ts' G' \<and>
     image_mset snd (fsm_entries s' G' xs') + mset (fsm_pages G' xs' ts') + mset blocks =
       image_mset snd (fsm_entries s G xs) + mset (fsm_pages G xs ts) + mset [length s..<length s'] \<and>
     frame (insert root (set (fsm_pages G xs ts))) s s'"
proof -
  obtain s' blocks P U xs' ts' G' where d: "drain env s root many = Some (s', blocks)"
    "fsm_ledger root (next_xid env) s xs ts G P U s' xs' ts' G'" "image_mset snd P = mset blocks"
    by (rule drain_ok [OF assms])
  note l = ledger_dest [OF d(2)]
  have "image_mset snd (fsm_entries s' G' xs') + mset blocks = image_mset snd (fsm_entries s G xs) + U"
    using arg_cong [OF l(2), of "image_mset snd"] d(3) by (simp add: image_mset.compositionality comp_def)
  then have "image_mset snd (fsm_entries s' G' xs') + mset (fsm_pages G' xs' ts') + mset blocks =
      image_mset snd (fsm_entries s G xs) + (mset (fsm_pages G' xs' ts') + U)"
    by (simp add: ac_simps)
  then show ?thesis using d(1) l(1,3,4) by (metis add.assoc)
qed

text \<open>
  C17. Nothing reusable is overlooked.  On a well-formed free space manager with a slot for the next
  transaction id, outside of CREATE INDEX, when every conditional lock is granted, \<open>drain\<close> returns the
  number of blocks asked for, or else no block filed under the current transaction id or an earlier one
  is left.
\<close>

theorem drain_complete:
  assumes "fsm_inv s root xs ts G" "\<not> create_index env"
    "max (current_xid env) FirstNormalTransactionId < next_xid env"
    "map_of xs (next_xid env) \<noteq> None \<or> ts \<noteq> []" "length s + many \<le> InvalidBlockNumber" "\<forall>b. can_lock env b"
  shows "\<exists>s' blocks xs' ts' G'. drain env s root many = Some (s', blocks) \<and> fsm_inv s' root xs' ts' G' \<and>
     (length blocks = many \<or>
      (\<forall>e. e \<in># fsm_entries s' G' xs' \<longrightarrow> max (current_xid env) FirstNormalTransactionId < fst e))"
proof -
  obtain s' blocks P U xs' ts' G' where d: "drain env s root many = Some (s', blocks)"
    "fsm_ledger root (next_xid env) s xs ts G P U s' xs' ts' G'"
    "(\<forall>b. can_lock env b) \<longrightarrow> length blocks = many \<or>
       (\<forall>e. e \<in># fsm_entries s' G' xs' \<longrightarrow> max (current_xid env) FirstNormalTransactionId < fst e)"
    by (rule drain_ok [OF assms(1-5)])
  then show ?thesis using assms(6) ledger_dest(1) [OF d(2)] by blast
qed

lemma extend_ok:
  assumes "fsm_inv s root xs ts G" "xs \<noteq> [] \<or> ts \<noteq> []" "length s + length ws \<le> InvalidBlockNumber"
    and "w = (if create_index env then FirstNormalTransactionId else when_recyclable)" "FirstNormalTransactionId \<le> w"
  shows "\<exists>s' xs' ts' G' f k. extend_with_when_recyclable env s root when_recyclable ws = Some s' \<and>
     fsm_inv s' root xs' ts' G' \<and> w \<le> k \<and> (\<forall>j. j \<le> f j) \<and>
     fsm_entries s' G' xs' = image_mset (map_prod f id) (fsm_entries s G xs) + image_mset (Pair k) (mset ws) \<and>
     (map_of xs w \<noteq> None \<or> ts \<noteq> [] \<longrightarrow> k = w \<and> f = id)"
proof (cases "ws = []")
  case True
  then have "extend_with_when_recyclable env s root when_recyclable ws = Some s"
    by (simp add: extend_with_when_recyclable_def)
  then show ?thesis using assms(1) True
    by (intro exI [of _ s] exI [of _ xs] exI [of _ ts] exI [of _ G] exI [of _ id] exI [of _ w]) (simp add: map_prod.id)
next
  case ne: False
  show ?thesis
  proof (cases "map_of xs w \<noteq> None \<or> ts \<noteq> []")
    case True
    obtain s' xs' ts' G' where "extend_with_when_recyclable env s root when_recyclable ws = Some s'"
      "fsm_inv s' root xs' ts' G'" "fsm_entries s' G' xs' = fsm_entries s G xs + image_mset (Pair w) (mset ws)"
      by (rule extend_room [OF assms(1) ne assms(4,5,3) True])
    then show ?thesis
      by (intro exI [of _ s'] exI [of _ xs'] exI [of _ ts'] exI [of _ G'] exI [of _ id] exI [of _ w]) (simp add: map_prod.id)
  next
    case False
    then have full: "map_of xs w = None" "ts = []" by blast+
    then obtain ys k t where xs: "xs = ys @ [(k, (), t)]"
      using assms(2) by (cases xs rule: rev_cases) (auto intro: that)
    obtain s' G' where "extend_with_when_recyclable env s root when_recyclable ws = Some s'"
      "fsm_inv s' root (ys @ [(max w k, (), t)]) [] G'"
      "fsm_entries s' G' (ys @ [(max w k, (), t)]) =
         image_mset (raise_key k (max w k)) (fsm_entries s G xs) + image_mset (Pair (max w k)) (mset ws)"
      by (rule extend_full [OF assms(1) [unfolded full(2)] ne assms(4,5,3) full(1) xs])
    moreover have "raise_key k (max w k) = map_prod (\<lambda>j. if j = k then max w k else j) id"
      by (auto simp: raise_key_def fun_eq_iff)
    ultimately show ?thesis using False
      by (intro exI [of _ s'] exI [of _ "ys @ [(max w k, (), t)]"] exI [of _ "[]"] exI [of _ G']
          exI [of _ "\<lambda>j. if j = k then max w k else j"] exI [of _ "max w k"]) simp
  qed
qed

text \<open>
  C18. Giving blocks back.  \<open>extend_with_when_recyclable\<close> returns and keeps every block on record under its
  key or a greater one.  Outside of CREATE INDEX it files the new blocks under a key that is at least the
  given transaction id: a full tree can delay the reuse of a block but never hasten it.  During CREATE
  INDEX the given transaction id is replaced by the first normal one, so that the blocks are reusable at
  once, and the new blocks are filed no earlier than under that one.  As long as the tree has the key or
  a free slot, the key is the wanted one and no other block is moved.
\<close>

theorem extend_never_hastens:
  assumes "fsm_inv s root xs ts G" "xs \<noteq> [] \<or> ts \<noteq> []" "length s + length ws \<le> InvalidBlockNumber"
    and "w = (if create_index env then FirstNormalTransactionId else when_recyclable)" "FirstNormalTransactionId \<le> w"
  shows "\<exists>s' xs' ts' G' f k. extend_with_when_recyclable env s root when_recyclable ws = Some s' \<and>
     fsm_inv s' root xs' ts' G' \<and> (\<forall>j. j \<le> f j) \<and>
     (\<not> create_index env \<longrightarrow> when_recyclable \<le> k) \<and> (create_index env \<longrightarrow> FirstNormalTransactionId \<le> k) \<and>
     fsm_entries s' G' xs' = image_mset (map_prod f id) (fsm_entries s G xs) + image_mset (Pair k) (mset ws) \<and>
     (map_of xs w \<noteq> None \<or> ts \<noteq> [] \<longrightarrow> k = w \<and> f = id)"
proof -
  obtain s' xs' ts' G' f k where e: "extend_with_when_recyclable env s root when_recyclable ws = Some s'"
    "fsm_inv s' root xs' ts' G'" "w \<le> k" "\<forall>j. j \<le> f j"
    "fsm_entries s' G' xs' = image_mset (map_prod f id) (fsm_entries s G xs) + image_mset (Pair k) (mset ws)"
    "map_of xs w \<noteq> None \<or> ts \<noteq> [] \<longrightarrow> k = w \<and> f = id"
    using extend_ok [OF assms] by (elim exE conjE) (rule that)
  have "(\<not> create_index env \<longrightarrow> when_recyclable \<le> k) \<and> (create_index env \<longrightarrow> FirstNormalTransactionId \<le> k)"
    using e(3) assms(4,5) by (cases "create_index env") simp_all
  then show ?thesis using e(1,2,4-6) by blast
qed

lemma create_tags_ok:
  "length s + n \<le> InvalidBlockNumber \<Longrightarrow>
     create_tags s n = Some (s @ replicate n blank_page, [length s..<length s + n])"
proof (induction n arbitrary: s)
  case (Suc n)
  then have "create_tags (s @ [blank_page]) n =
      Some ((s @ [blank_page]) @ replicate n blank_page, [length s + 1..<length s + 1 + n])"
    using Suc.IH [of "s @ [blank_page]"] by simp
  moreover have "length s # [length s + 1..<length s + 1 + n] = [length s..<length s + Suc n]"
    by (simp add: upt_conv_Cons)
  ultimately show ?case using Suc.prems by simp
qed simp

lemma v2_create_ok:
  assumes "length s + MAX_SLOTS < InvalidBlockNumber"
  shows "\<exists>s'. v2_create s = Some (s', length s) \<and> length s' = length s + 1 + MAX_SLOTS \<and> frame {} s s' \<and>
     fsm_inv s' (length s) [] [length s + 1..<length s + 1 + MAX_SLOTS] (\<lambda>t. [t]) \<and>
     fsm_entries s' (\<lambda>t. [t]) [] = {#}"
proof -
  define bs where "bs = [length s + 1..<length s + 1 + MAX_SLOTS]"
  define m where "m = avl_new (map (slot_default 0 ()) bs :: (nat, unit, block_number) slot list)"
  define s1 where "s1 = (s @ [blank_page]) @ replicate MAX_SLOTS blank_page"
  define s' where "s' = s1[length s := blank_page\<lparr>pg_body := FsmRoot m\<rparr>]"
  have ct: "create_tags (s @ [blank_page]) MAX_SLOTS = Some (s1, bs)"
    using create_tags_ok [of "s @ [blank_page]" MAX_SLOTS] assms by (simp add: s1_def bs_def)
  have run: "v2_create s = Some (s', length s)"
    using assms ct by (simp add: v2_create_def s'_def m_def s1_def nth_append)
  have leaf: "s' ! b = blank_page" if "b \<in> set bs" for b
    using that by (auto simp: s'_def s1_def bs_def nth_append nth_list_update)
  have "avl_rel m [] bs"
    using avl_new_ok [of "map (slot_default 0 ()) bs :: (nat, unit, block_number) slot list"]
    by (simp add: m_def slot_default_def comp_def bs_def MAX_SLOTS_def bm25_max_free_space_def BLCKSZ_def)
  moreover have "b < length s' \<and> b \<noteq> InvalidBlockNumber" if "b \<in> set bs" for b
    using that assms by (auto simp: s'_def s1_def bs_def)
  moreover have "s' ! length s = blank_page\<lparr>pg_body := FsmRoot m\<rparr>" "length s < length s'" "length s' \<le> InvalidBlockNumber"
    using assms by (simp_all add: s'_def s1_def)
  moreover have "concat (map (\<lambda>t. [t]) bs) = bs" by simp
  ultimately have "fsm_inv s' (length s) [] bs (\<lambda>t. [t])"
    using leaf by (auto simp: fsm_inv_def fsm_tags_def fsm_pages_def leaf_ok_def leaf_blocks_def as_leaf_def bs_def)
  moreover have "frame {} s s'" by (auto simp: frame_def s'_def s1_def nth_append nth_list_update)
  ultimately show ?thesis using run by (auto simp: bs_def fsm_entries_def s'_def s1_def)
qed

text \<open>
  A new free space manager is well formed: \<open>create\<close> adds a root page and one leaf page per slot at
  the end of the relation, records no block, leaves every existing page alone, and every slot is free.
\<close>

theorem v2_create_wf:
  assumes "length s + MAX_SLOTS < InvalidBlockNumber"
  shows "\<exists>s'. v2_create s = Some (s', length s) \<and> length s' = length s + 1 + MAX_SLOTS \<and> frame {} s s' \<and>
     fsm_inv s' (length s) [] [length s + 1..<length s + 1 + MAX_SLOTS] (\<lambda>t. [t]) \<and>
     fsm_entries s' (\<lambda>t. [t]) [] = {#}"
  by (rule v2_create_ok [OF assms])

section \<open>Examples\<close>

lemmas [code] = extend_freelist.simps drain_chain.simps drain_loop.simps

definition ex_env :: fsm_env where
  "ex_env = \<lparr>current_xid = 6, next_xid = 7, create_index = False, can_lock = (\<lambda>_. True)\<rparr>"

definition ex_tree :: "block_number list \<Rightarrow> (nat, unit, block_number) avl_map" where
  "ex_tree ts = fst (the (avl_insert (avl_new (map (slot_default 0 ()) ts)) 5 ()))"

lemma ex_tree_rel: "length ts < 65535 \<Longrightarrow> avl_rel (ex_tree (t # ts)) [(5, (), t)] ts"
proof -
  assume "length ts < 65535"
  then have "avl_rel (avl_new (map (slot_default (0 :: nat) ()) (t # ts))) [] (t # ts)"
    using avl_new_ok [of "map (slot_default (0 :: nat) ()) (t # ts)"] by (simp add: slot_default_def comp_def)
  from avl_insert_new [OF this, of 5 "()"] show ?thesis by (auto simp: ex_tree_def)
qed

text \<open>Blocks 7 and 8 are filed under transaction 5, and one slot is free.\<close>

definition ex_store :: store where
  "ex_store =
     [\<lparr>pg_next = InvalidBlockNumber, pg_xmax = 0, pg_body = FsmRoot (ex_tree [1, 2])\<rparr>,
      \<lparr>pg_next = InvalidBlockNumber, pg_xmax = 0, pg_body = FsmLeaf \<lparr>lf_len = 2, lf_entries = [7, 8, 0]\<rparr>\<rparr>,
      blank_page]"

lemma ex_store_inv: "fsm_inv ex_store 0 [(5, (), 1)] [2] (\<lambda>t. [t])"
proof -
  have "avl_rel (ex_tree [1, 2]) [(5, (), 1)] [2]" by (rule ex_tree_rel) simp
  then show ?thesis
    by (auto simp: fsm_inv_def ex_store_def fsm_tags_def fsm_pages_def leaf_ok_def leaf_blocks_def as_leaf_def
        InvalidBlockNumber_def FirstNormalTransactionId_def)
qed

lemma ex_store_facts:
  "\<not> create_index ex_env" "max (current_xid ex_env) FirstNormalTransactionId < next_xid ex_env"
  "map_of [(5, (), 1)] (next_xid ex_env) \<noteq> None \<or> [2 :: block_number] \<noteq> []"
  "length ex_store + 2 \<le> InvalidBlockNumber" "\<forall>b. can_lock ex_env b"
  by (simp_all add: ex_env_def ex_store_def InvalidBlockNumber_def FirstNormalTransactionId_def)

lemma ex_drain: "map_option snd (drain ex_env ex_store 0 2) = Some [8, 7]"
  by code_simp

theorem drain_safe_witness:
  "\<exists>s' P. drain ex_env ex_store 0 2 = Some (s', [8, 7]) \<and> image_mset snd P = mset [8, 7 :: block_number] \<and>
     Max (fst ` set_mset P) \<le> (6 :: nat)"
proof -
  obtain s' blocks P where d: "drain ex_env ex_store 0 2 = Some (s', blocks)" "image_mset snd P = mset blocks"
    "\<forall>e. e \<in># P \<longrightarrow> fst e \<le> max (current_xid ex_env) FirstNormalTransactionId"
    using drain_safe [OF ex_store_inv ex_store_facts(1-4)] by blast
  then have "blocks = [8, 7]" using ex_drain by simp
  moreover from this d(2) have "P \<noteq> {#}" by auto
  then have "Max (fst ` set_mset P) \<le> 6"
    using d(3) by (subst Max_le_iff) (auto simp: ex_env_def FirstNormalTransactionId_def)
  ultimately show ?thesis using d(1,2) by blast
qed

theorem drain_conserves_witness:
  "\<exists>s' xs' ts' G'. drain ex_env ex_store 0 2 = Some (s', [8, 7]) \<and> fsm_inv s' 0 xs' ts' G' \<and>
     image_mset snd (fsm_entries s' G' xs') + mset (fsm_pages G' xs' ts') + {#8, 7#} = {#8, 7#} + {#1, 2#}"
proof -
  obtain s' blocks xs' ts' G' where d: "drain ex_env ex_store 0 2 = Some (s', blocks)" "fsm_inv s' 0 xs' ts' G'"
    "image_mset snd (fsm_entries s' G' xs') + mset (fsm_pages G' xs' ts') + mset blocks =
       image_mset snd (fsm_entries ex_store (\<lambda>t. [t]) [(5, (), 1)]) + mset (fsm_pages (\<lambda>t. [t]) [(5, (), 1)] [2]) +
       mset [length ex_store..<length s']"
    using drain_conserves [OF ex_store_inv ex_store_facts(1-4)] by blast
  have b: "blocks = [8, 7]" using d(1) ex_drain by simp
  have "map_option (length \<circ> fst) (drain ex_env ex_store 0 2) = Some 3" by code_simp
  then have len: "length s' = 3" using d(1) by simp
  have "image_mset snd (fsm_entries s' G' xs') + mset (fsm_pages G' xs' ts') + {#8, 7#} = {#8, 7#} + {#1, 2#}"
    using d(3) unfolding b
    by (auto simp: len ex_store_def fsm_entries_def fsm_pages_def fsm_tags_def leaf_blocks_def add_mset_commute)
  then show ?thesis using d(1,2) b by blast
qed

theorem drain_complete_witness:
  "\<exists>s' xs' ts' G'. drain ex_env ex_store 0 2 = Some (s', [8, 7]) \<and> fsm_inv s' 0 xs' ts' G'"
  using drain_complete [OF ex_store_inv ex_store_facts] ex_drain by fastforce

theorem extend_never_hastens_witness:
  "\<exists>s' xs' ts' G'. extend_with_when_recyclable ex_env ex_store 0 9 [30, 31] = Some s' \<and> fsm_inv s' 0 xs' ts' G' \<and>
     fsm_entries s' G' xs' = {#(5, 7), (5, 8), (9, 30), (9, 31)#}"
proof -
  have "length ex_store + length [30, 31 :: nat] \<le> InvalidBlockNumber" "FirstNormalTransactionId \<le> 9"
    "9 = (if create_index ex_env then FirstNormalTransactionId else 9)"
    by (simp_all add: ex_store_def InvalidBlockNumber_def FirstNormalTransactionId_def ex_env_def)
  from extend_never_hastens [OF ex_store_inv _ this(1,3,2)] show ?thesis
    by (fastforce simp: ex_store_def fsm_entries_def leaf_blocks_def map_prod.id)
qed

theorem v2_create_wf_witness: "\<exists>s'. v2_create [zero_page] = Some (s', 1) \<and> length s' = 340"
proof -
  have m: "MAX_SLOTS = 338" by (simp add: MAX_SLOTS_def bm25_max_free_space_def BLCKSZ_def)
  then have "length [zero_page] + MAX_SLOTS < InvalidBlockNumber" by (simp add: InvalidBlockNumber_def)
  from v2_create_wf [OF this] obtain s' where "v2_create [zero_page] = Some (s', length [zero_page])"
    "length s' = length [zero_page] + 1 + MAX_SLOTS" by (elim exE conjE) (rule that)
  then show ?thesis by (simp add: m)
qed

subsection \<open>A full tree\<close>

text \<open>A tree of one slot, in use, whose chain has two pages, the blocks 1 and 2.\<close>

definition full_store :: store where
  "full_store =
     [\<lparr>pg_next = InvalidBlockNumber, pg_xmax = 0, pg_body = FsmRoot (ex_tree [1])\<rparr>,
      \<lparr>pg_next = 2, pg_xmax = 0, pg_body = FsmLeaf \<lparr>lf_len = 1, lf_entries = [10, 0, 0]\<rparr>\<rparr>,
      \<lparr>pg_next = InvalidBlockNumber, pg_xmax = 0, pg_body = FsmLeaf \<lparr>lf_len = 1, lf_entries = [11, 0, 0]\<rparr>\<rparr>]"

text \<open>
  A full tree can hand out a block too early.  When \<open>drain\<close> has emptied page 1 it files block 1 under
  transaction 7.  The tree is full, so the slot that is being drained takes the block, and the same
  call hands block 1 out again, while transaction 7 has not started.
\<close>

lemma drain_full_tree_early:
  "fsm_inv full_store 0 [(5, (), 1)] [] (\<lambda>t. [1, 2]) \<and> current_xid ex_env = 6 \<and> next_xid ex_env = 7 \<and>
   (\<exists>s'. drain ex_env full_store 0 3 = Some (s', [10, 1, 11]))"
proof -
  have "avl_rel (ex_tree [1]) [(5, (), 1)] []" by (rule ex_tree_rel) simp
  then have "fsm_inv full_store 0 [(5, (), 1)] [] (\<lambda>t. [1, 2])"
    by (auto simp: fsm_inv_def full_store_def fsm_tags_def fsm_pages_def leaf_ok_def leaf_blocks_def as_leaf_def
        InvalidBlockNumber_def FirstNormalTransactionId_def)
  moreover have "map_option snd (drain ex_env full_store 0 3) = Some [10, 1, 11]" by code_simp
  ultimately show ?thesis by (auto simp: ex_env_def)
qed

end
