(* ===== verification/Fsm_Info.thy ===== *)
theory Fsm_Info
  imports Fsm_Drain
begin

text \<open>
  The diagnostic functions \<open>fsm_info\<close> and \<open>fsm_size\<close> of \<^verbatim>\<open>fsm.rs\<close>, which read the arena of the AVL tree
  slot by slot and follow every chain.
\<close>

section \<open>The model\<close>

record fsm_row =
  fr_xid :: nat
  fr_blockno :: block_number
  fr_tag :: block_number
  fr_free :: block_number

partial_function (option) chain_rows ::
  "store \<Rightarrow> nat \<Rightarrow> block_number \<Rightarrow> block_number \<Rightarrow> fsm_row list option"
where
  "chain_rows s xid tag b =
     (if b = InvalidBlockNumber then Some []
      else do {
        l \<leftarrow> leaf_at s b;
        es \<leftarrow> those (map (get_at (lf_entries l)) [0..<lf_len l]);
        next \<leftarrow> next_blockno s b;
        rows \<leftarrow> chain_rows s xid tag next;
        Some (map (\<lambda>e. \<lparr>fr_xid = xid mod 2 ^ 32, fr_blockno = b, fr_tag = tag, fr_free = e\<rparr>) es @ rows)
      })"

fun slot_rows :: "store \<Rightarrow> (nat, unit, block_number) slot list \<Rightarrow> fsm_row list option" where
  "slot_rows s [] = Some []"
| "slot_rows s (n # ns) = do {
     rows \<leftarrow> (if slot_is_used n then chain_rows s (s_key n) (s_tag n) (s_tag n) else Some []);
     more \<leftarrow> slot_rows s ns;
     Some (rows @ more)
   }"

definition fsm_info :: "store \<Rightarrow> block_number \<Rightarrow> fsm_row list option" where
  "fsm_info s root = do { m \<leftarrow> avl_ref s root; slot_rows s (arena m) }"

fun slot_sizes :: "store \<Rightarrow> (nat, unit, block_number) slot list \<Rightarrow> nat option" where
  "slot_sizes s [] = Some 0"
| "slot_sizes s (n # ns) = do {
     bs \<leftarrow> walk_pages s (s_tag n);
     more \<leftarrow> slot_sizes s ns;
     Some (length bs + more)
   }"

definition fsm_size :: "store \<Rightarrow> block_number \<Rightarrow> nat option" where
  "fsm_size s root = do { m \<leftarrow> avl_ref s root; n \<leftarrow> slot_sizes s (arena m); Some (1 + n) }"

section \<open>What they report\<close>

definition short_xid :: "nat \<times> block_number \<Rightarrow> nat \<times> block_number" where
  "short_xid e = (fst e mod 2 ^ 32, snd e)"

lemma short_xid_Pair [simp]: "short_xid (k, b) = (k mod 2 ^ 32, b)"
  by (simp add: short_xid_def)

lemma those_get_at: "n \<le> length xs \<Longrightarrow> those (map (get_at xs) [0..<n]) = Some (take n xs)"
proof (induction n)
  case (Suc n)
  have app: "those (as @ [b]) = (case those as of None \<Rightarrow> None | Some xs \<Rightarrow> map_option (\<lambda>y. xs @ [y]) b)"
    for as :: "'a option list" and b
    by (induction as) (auto split: option.splits simp: option.map_comp comp_def)
  from Suc show ?case by (simp add: app take_Suc_conv_app_nth)
qed simp

lemma chain_rows_ok:
  "pages_from s b bs \<Longrightarrow> \<forall>x\<in>set bs. leaf_ok s x \<Longrightarrow>
     \<exists>rows. chain_rows s xid tag b = Some rows \<and> map fr_free rows = stored s bs \<and> (\<forall>r\<in>set rows. fr_xid r = xid mod 2 ^ 32)"
proof (induction bs arbitrary: b)
  case Nil
  then show ?case by (simp add: chain_rows.simps)
next
  case (Cons x bs)
  then obtain l where l: "leaf_at s x = Some l" "lf_len l \<le> length (lf_entries l)" by (auto simp: leaf_ok_def)
  have e: "those (map (get_at (lf_entries l)) [0..<lf_len l]) = Some (take (lf_len l) (lf_entries l))"
    by (rule those_get_at [OF l(2)])
  have "pages_from s (pg_next (s ! x)) bs" "\<forall>x\<in>set bs. leaf_ok s x" using Cons.prems by auto
  from Cons.IH [OF this] obtain rows where r: "chain_rows s xid tag (pg_next (s ! x)) = Some rows"
    "map fr_free rows = stored s bs" "\<forall>r\<in>set rows. fr_xid r = xid mod 2 ^ 32" by blast
  have x: "b = x" "x \<noteq> InvalidBlockNumber" "next_blockno s x = Some (pg_next (s ! x))" using Cons.prems(1) by auto
  have "chain_rows s xid tag b = Some (map (\<lambda>e. \<lparr>fr_xid = xid mod 2 ^ 32, fr_blockno = x, fr_tag = tag, fr_free = e\<rparr>)
      (take (lf_len l) (lf_entries l)) @ rows)"
    using x l(1) e r(1) by (subst chain_rows.simps) (simp del: leaf_at_in next_blockno_in)
  then show ?case using r(2,3) l(1) by (auto simp: leaf_blocks_def comp_def simp del: leaf_at_in)
qed

lemma avl_rel_used:
  assumes "avl_rel m xs ts"
  shows "mset (map entry (filter slot_is_used (arena m))) = mset xs"
proof -
  obtain t fs where t: "sub_ok (arena m) (h_root (header m)) t" "free_ok (arena m) (h_free_head (header m)) fs"
    "set_tree t \<inter> set fs = {}" "set_tree t \<union> set fs = {..<length (arena m)}" "xs = contents (arena m) t"
    using assms by (auto simp: avl_rel_def)
  define ix where "ix = filter (\<lambda>i. slot_is_used (arena m ! i)) [0..<length (arena m)]"
  have u: "slot_is_used (arena m ! i) \<longleftrightarrow> i \<in> set_tree t" if "i < length (arena m)" for i
    using t that by (auto simp: sub_ok_def free_ok_def)
  have "set ix = set (inorder t)" using t(4) u by (auto simp: ix_def)
  moreover have "distinct ix" "distinct (inorder t)" using t(1) by (auto simp: ix_def sub_ok_def)
  ultimately have "mset ix = mset (inorder t)" by (metis set_eq_iff_mset_eq_distinct)
  then have "mset (map (\<lambda>i. entry (arena m ! i)) ix) = mset xs" by (simp add: t(5) contents_def)
  moreover have "map (\<lambda>i. entry (arena m ! i)) ix = map entry (filter slot_is_used (map ((!) (arena m)) [0..<length (arena m)]))"
    by (simp add: ix_def filter_map comp_def)
  ultimately show ?thesis by (simp add: map_nth)
qed

lemma slot_rows_ok:
  "\<forall>n\<in>set ns. slot_is_used n \<longrightarrow> pages_from s (s_tag n) (G (s_tag n)) \<and> (\<forall>b\<in>set (G (s_tag n)). leaf_ok s b) \<Longrightarrow>
     \<exists>rows. slot_rows s ns = Some rows \<and>
       image_mset (\<lambda>r. (fr_xid r, fr_free r)) (mset rows) =
         image_mset short_xid (fsm_entries s G (map entry (filter slot_is_used ns)))"
proof (induction ns)
  case Nil
  then show ?case by (simp add: fsm_entries_def)
next
  case (Cons n ns)
  from Cons obtain more where more: "slot_rows s ns = Some more"
    "image_mset (\<lambda>r. (fr_xid r, fr_free r)) (mset more) =
         image_mset short_xid (fsm_entries s G (map entry (filter slot_is_used ns)))" by (auto simp del: One_nat_def)
  show ?case
  proof (cases "slot_is_used n")
    case True
    then obtain rows where r: "chain_rows s (s_key n) (s_tag n) (s_tag n) = Some rows"
      "map fr_free rows = stored s (G (s_tag n))" "\<forall>r\<in>set rows. fr_xid r = s_key n mod 2 ^ 32"
      using chain_rows_ok [of s "s_tag n" "G (s_tag n)" "s_key n" "s_tag n"] Cons.prems by auto
    have "map (\<lambda>r. (fr_xid r, fr_free r)) rows = map (Pair (s_key n mod 2 ^ 32)) (map fr_free rows)"
      using r(3) by simp
    from arg_cong [OF this, of mset]
    have "image_mset (\<lambda>r. (fr_xid r, fr_free r)) (mset rows) =
        image_mset (Pair (s_key n mod 2 ^ 32)) (mset (stored s (G (s_tag n))))" by (simp add: r(2) del: map_map)
    then show ?thesis using True r(1) more by (simp add: fsm_entries_def entry_def image_mset.compositionality comp_def)
  qed (use more in simp)
qed

lemma slot_sizes_ok:
  "\<forall>n\<in>set ns. pages_from s (s_tag n) (G (s_tag n)) \<Longrightarrow>
     slot_sizes s ns = Some (sum_list (map (\<lambda>n. length (G (s_tag n))) ns))"
  using walk_pages_ok by (induction ns) (simp, fastforce)

section \<open>Properties\<close>

text \<open>
  \<open>fsm_info\<close> reports exactly the blocks on record, with the lower 32 bits of the transaction id each is
  filed under, and \<open>fsm_size\<close> counts the root page and the pages of all chains, those of the free slots
  included.
\<close>

theorem fsm_info_complete:
  assumes "fsm_inv s root xs ts G"
  shows "\<exists>rows. fsm_info s root = Some rows \<and>
     image_mset (\<lambda>r. (fr_xid r, fr_free r)) (mset rows) = image_mset short_xid (fsm_entries s G xs) \<and>
     fsm_size s root = Some (1 + length (fsm_pages G xs ts))"
proof -
  note d = fsm_inv_dest [OF assms] and c = fsm_inv_chains [OF assms]
  obtain m where m: "pg_body (s ! root) = FsmRoot m" "avl_rel m xs ts" using d(3) by blast
  have tags: "mset (map s_tag (arena m)) = mset (fsm_tags xs ts)"
    using avl_rel_tags [OF m(2)] by (simp add: all_tags_def fsm_tags_def comp_def)
  have tin: "s_tag n \<in> set (fsm_tags xs ts)" if "n \<in> set (arena m)" for n
    using mset_eq_setD [OF tags] that by force
  have "\<forall>n\<in>set (arena m). slot_is_used n \<longrightarrow> pages_from s (s_tag n) (G (s_tag n)) \<and> (\<forall>b\<in>set (G (s_tag n)). leaf_ok s b)"
    using d(4) c(5) tin by blast
  from slot_rows_ok [OF this] obtain rows where r: "slot_rows s (arena m) = Some rows"
    "image_mset (\<lambda>r. (fr_xid r, fr_free r)) (mset rows) =
         image_mset short_xid (fsm_entries s G (map entry (filter slot_is_used (arena m))))" by blast
  have "fsm_entries s G (map entry (filter slot_is_used (arena m))) = fsm_entries s G xs"
    unfolding fsm_entries_def avl_rel_used [OF m(2)] ..
  moreover have "sum_list (map (\<lambda>n. length (G (s_tag n))) (arena m)) = length (fsm_pages G xs ts)"
  proof -
    have "sum_list (map (\<lambda>n. length (G (s_tag n))) (arena m)) = (\<Sum>t\<in>#mset (map s_tag (arena m)). length (G t))"
      by (simp add: sum_mset_sum_list [symmetric] image_mset.compositionality comp_def)
    also have "\<dots> = length (fsm_pages G xs ts)"
      unfolding tags fsm_pages_def by (simp add: length_concat sum_mset_sum_list [symmetric] image_mset.compositionality comp_def)
    finally show ?thesis .
  qed
  moreover have "\<forall>n\<in>set (arena m). pages_from s (s_tag n) (G (s_tag n))" using d(4) tin by blast
  ultimately show ?thesis
    using r m(1) d(2) slot_sizes_ok [of "arena m" s G] by (simp add: fsm_info_def fsm_size_def)
qed

theorem fsm_info_complete_witness:
  "\<exists>rows. fsm_info ex_store 0 = Some rows \<and>
     image_mset (\<lambda>r. (fr_xid r, fr_free r)) (mset rows) = {#(5, 7), (5, 8)#} \<and> fsm_size ex_store 0 = Some 3"
  using fsm_info_complete [OF ex_store_inv]
  by (simp add: ex_store_def fsm_entries_def fsm_pages_def fsm_tags_def leaf_blocks_def numeral_3_eq_3)

end
