(* ===== verification/Buffer_Manager.thy ===== *)
theory Buffer_Manager
  imports Fsm_Info
begin

text \<open>
  \<open>BufferManager\<close> of \<^verbatim>\<open>buffer.rs\<close>: where a new page comes from.  A block the free space manager hands out
  is read with \<open>RBM_ZERO_AND_LOCK\<close>; when it has none, the relation is extended.  What the lists on disk
  rely on is stated as the locale \<open>buffer_manager\<close>, and the functions of this file are an instance.
\<close>

section \<open>The model\<close>

definition new_buffer :: "fsm_env \<Rightarrow> block_number \<Rightarrow> store \<Rightarrow> (store \<times> block_number) option" where
  "new_buffer env fsm s = do {
     (s, found) \<leftarrow> fsm_pop env s fsm;
     (case found of
        Some b \<Rightarrow> do { s \<leftarrow> zero_block s b; Some (s, b) }
      | None \<Rightarrow> extend_by_one_buffer s)
   }"

text \<open>
  The iterator that \<open>new_buffers\<close> returns.  It zeroes the blocks of the free space manager one by one and
  extends the relation, in batches of 64, only when they are used up.
\<close>

datatype buffer_iter =
    NoBuffers
  | OneBuffer block_number
  | ManyBuffers (bi_fsm: "block_number list") (bi_remaining: nat) (bi_new: "(block_number list \<times> nat) option")

definition new_buffers :: "fsm_env \<Rightarrow> block_number \<Rightarrow> store \<Rightarrow> nat \<Rightarrow> (store \<times> buffer_iter) option" where
  "new_buffers env fsm s npages =
     (if npages = 0 then Some (s, NoBuffers)
      else if npages = 1 then do { (s, b) \<leftarrow> new_buffer env fsm s; Some (s, OneBuffer b) }
      else do { (s, blocks) \<leftarrow> drain env s fsm npages; Some (s, ManyBuffers blocks npages None) })"

text \<open>\<open>RelationBufferAccess::new_buffers\<close>, one \<open>next()\<close>: the rest of a batch and the pages still to come.\<close>

definition next_extended ::
  "store \<Rightarrow> block_number list \<times> nat \<Rightarrow> (store \<times> (block_number list \<times> nat) \<times> block_number option) option" where
  "next_extended s it = (case it of
      (b # bs, n) \<Rightarrow> Some (s, (bs, n), Some b)
    | ([], n) \<Rightarrow>
        if n = 0 then Some (s, ([], 0), None)
        else do {
          let many = min n MAX_BUFFERS_TO_EXTEND_BY;
          (s, bs) \<leftarrow> bulk_extend_relation s many;
          (case bs of [] \<Rightarrow> Some (s, ([], n - many), None) | b # bs \<Rightarrow> Some (s, (bs, n - many), Some b))
        })"

definition next_buffer :: "store \<Rightarrow> buffer_iter \<Rightarrow> (store \<times> buffer_iter \<times> block_number option) option" where
  "next_buffer s it = (case it of
      NoBuffers \<Rightarrow> Some (s, NoBuffers, None)
    | OneBuffer b \<Rightarrow> Some (s, NoBuffers, Some b)
    | ManyBuffers fsm_blocks remaining new \<Rightarrow>
        if remaining = 0 then Some (s, it, None)
        else (case fsm_blocks of
            b # bs \<Rightarrow> do { s \<leftarrow> zero_block s b; Some (s, ManyBuffers bs (remaining - 1) new, Some b) }
          | [] \<Rightarrow> do {
              (s, new, r) \<leftarrow> next_extended s (case new of None \<Rightarrow> ([], remaining) | Some new \<Rightarrow> new);
              Some (s, ManyBuffers [] remaining (Some new), r)
            }))"

section \<open>What a client relies on\<close>

text \<open>
  \<open>ok U n s\<close>: the client owns the blocks \<open>U\<close>, and \<open>n\<close> more pages can be had.  \<open>iter_ok U it k n s\<close>: the
  iterator still gives \<open>k\<close> pages, and \<open>n\<close> more can be had after that.  A new page is none the client
  owns, no operation touches an owned page, and the client may write to its pages in between.
\<close>

definition gives :: "block_number set \<Rightarrow> store \<Rightarrow> store \<Rightarrow> block_number \<Rightarrow> bool" where
  "gives U s s' b \<longleftrightarrow> b \<notin> U \<and> b < length s' \<and> b \<noteq> InvalidBlockNumber \<and> length s \<le> length s' \<and> (\<forall>x\<in>U. s' ! x = s ! x)"

locale buffer_manager =
  fixes alloc :: "store \<Rightarrow> (store \<times> block_number) option"
    and allocs :: "store \<Rightarrow> nat \<Rightarrow> (store \<times> 'it) option"
    and next_alloc :: "store \<Rightarrow> 'it \<Rightarrow> (store \<times> 'it \<times> block_number option) option"
    and ok :: "block_number set \<Rightarrow> nat \<Rightarrow> store \<Rightarrow> bool"
    and iter_ok :: "block_number set \<Rightarrow> 'it \<Rightarrow> nat \<Rightarrow> nat \<Rightarrow> store \<Rightarrow> bool"
  assumes alloc_law: "ok U (Suc n) s \<Longrightarrow> \<exists>s' b. alloc s = Some (s', b) \<and> gives U s s' b \<and> ok (insert b U) n s'"
    and allocs_law: "ok U (k + n) s \<Longrightarrow>
      \<exists>s' it. allocs s k = Some (s', it) \<and> iter_ok U it k n s' \<and> length s \<le> length s' \<and> (\<forall>x\<in>U. s' ! x = s ! x)"
    and next_law: "iter_ok U it (Suc k) n s \<Longrightarrow>
      \<exists>s' it' b. next_alloc s it = Some (s', it', Some b) \<and> gives U s s' b \<and> iter_ok (insert b U) it' k n s'"
    and iter_end: "iter_ok U it 0 n s \<Longrightarrow> ok U n s"
    and ok_mono: "ok U n s \<Longrightarrow> m \<le> n \<Longrightarrow> ok U m s"
    and ok_bound: "ok U n s \<Longrightarrow> U \<subseteq> {..<length s}"
    and iter_bound: "iter_ok U it k n s \<Longrightarrow> U \<subseteq> {..<length s}"
    and ok_frame: "ok U n s \<Longrightarrow> frame U s s' \<Longrightarrow> length s' = length s \<Longrightarrow> ok U n s'"
    and iter_frame: "iter_ok U it k n s \<Longrightarrow> frame U s s' \<Longrightarrow> length s' = length s \<Longrightarrow> iter_ok U it k n s'"

section \<open>The free space manager as a source of pages\<close>

definition fsm_total ::
  "store \<Rightarrow> (block_number \<Rightarrow> block_number list) \<Rightarrow> (nat \<times> unit \<times> block_number) list \<Rightarrow> block_number list \<Rightarrow>
     block_number multiset" where
  "fsm_total s G xs ts = image_mset snd (fsm_entries s G xs) + mset (fsm_pages G xs ts)"

text \<open>
  The blocks on record, the pages of the chains, the root page, the blocks \<open>R\<close> reserved by an iterator
  and the pages the client owns are different from each other.
\<close>

definition fsm_room ::
  "fsm_env \<Rightarrow> nat set \<Rightarrow> block_number \<Rightarrow> block_number set \<Rightarrow> block_number list \<Rightarrow> nat \<Rightarrow> store \<Rightarrow> bool" where
  "fsm_room env K root U R n s \<longleftrightarrow>
     (\<exists>xs ts G. fsm_inv s root xs ts G \<and> \<not> create_index env \<and>
        max (current_xid env) FirstNormalTransactionId < next_xid env \<and>
        fsm_spare (insert (next_xid env) K) xs ts \<and>
        (\<forall>x. count (fsm_total s G xs ts + mset R) x \<le> 1) \<and>
        (\<forall>x. x \<in># fsm_total s G xs ts + mset R \<longrightarrow> x < length s \<and> x \<noteq> root \<and> x \<notin> U) \<and>
        root \<notin> U \<and> U \<subseteq> {..<length s} \<and> length s + n \<le> InvalidBlockNumber \<and>
        (\<forall>k\<in>K. FirstNormalTransactionId \<le> k))"

text \<open>The clients that free pages only under the next transaction id.\<close>

abbreviation fsm_ok :: "fsm_env \<Rightarrow> block_number \<Rightarrow> block_number set \<Rightarrow> block_number list \<Rightarrow> nat \<Rightarrow> store \<Rightarrow> bool" where
  "fsm_ok env \<equiv> fsm_room env {}"

lemma fsm_inv_frame:
  assumes inv: "fsm_inv s root xs ts G" and fr: "frame V s s'" and root: "root \<notin> V" and pages: "set (fsm_pages G xs ts) \<inter> V = {}"
    and len: "length s' \<le> InvalidBlockNumber"
  shows "fsm_inv s' root xs ts G" "fsm_entries s' G xs = fsm_entries s G xs"
proof -
  note d = fsm_inv_dest [OF inv] and c = fsm_inv_chains [OF inv]
  have disj: "set (G t) \<inter> V = {}" if "t \<in> set (fsm_tags xs ts)" for t
    using pages that by (auto simp: fsm_pages_def)
  have st: "stored s' (G t) = stored s (G t)" if "t \<in> set (fsm_tags xs ts)" for t
    using c(6) [OF that] disj [OF that] by (intro stored_frame [OF fr]) auto
  have r: "s' ! root = s ! root" "root < length s'" using frame_nth [OF fr d(2) root] frame_length [OF fr] d(2) by auto
  have lok: "leaf_ok s' b" if "b \<in> set (fsm_pages G xs ts)" for b
    using leaf_ok_frame [OF fr fsm_pages_bound [OF inv that]] d(7) [OF that] pages that by auto
  have pf: "pages_from s' t (G t) \<and> G t \<noteq> []" if "t \<in> set (fsm_tags xs ts)" for t
    using lseg_frame [OF d(4) [OF that] fr disj [OF that]] d(5) [OF that] by simp
  have fe: "stored s' (G t) = []" if "t \<in> set ts" for t using st [of t] d(8) [OF that] that by (simp add: fsm_tags_def)
  show "fsm_inv s' root xs ts G"
    unfolding fsm_inv_def using len r d(3,6,9) lok pf fe by simp
  show "fsm_entries s' G xs = fsm_entries s G xs"
    by (rule fsm_entries_cong) (use st in \<open>auto simp: fsm_tags_def\<close>)
qed

lemma fsm_okI:
  assumes "fsm_inv s root xs ts G" "\<not> create_index env"
    "max (current_xid env) FirstNormalTransactionId < next_xid env" "fsm_spare (insert (next_xid env) K) xs ts"
    "fsm_total s G xs ts + mset R = M" "\<And>x. count M x \<le> 1" "\<And>x. x \<in># M \<Longrightarrow> x < length s \<and> x \<noteq> root \<and> x \<notin> U"
    "root \<notin> U" "U \<subseteq> {..<length s}" "length s + n \<le> InvalidBlockNumber"
    "\<forall>k\<in>K. FirstNormalTransactionId \<le> k"
  shows "fsm_room env K root U R n s"
  using assms unfolding fsm_room_def by blast

lemma fsm_ok_own:
  assumes "fsm_room env K root U (b # R) n s"
  shows "fsm_room env K root (insert b U) R n s" "b \<notin> U" "b < length s" "b \<noteq> InvalidBlockNumber"
proof -
  obtain xs ts G where o: "fsm_inv s root xs ts G" "\<not> create_index env"
    "max (current_xid env) FirstNormalTransactionId < next_xid env" "fsm_spare (insert (next_xid env) K) xs ts"
    "\<forall>x. count (fsm_total s G xs ts + mset (b # R)) x \<le> 1"
    "\<forall>x. x \<in># fsm_total s G xs ts + mset (b # R) \<longrightarrow> x < length s \<and> x \<noteq> root \<and> x \<notin> U"
    "root \<notin> U" "U \<subseteq> {..<length s}" "length s + n \<le> InvalidBlockNumber" "\<forall>k\<in>K. FirstNormalTransactionId \<le> k"
    using assms unfolding fsm_room_def by (elim exE conjE) (rule that)
  have b: "b < length s" "b \<noteq> root" "b \<notin> U" using o(6) by auto
  then show "b \<notin> U" "b < length s" "b \<noteq> InvalidBlockNumber" using o(9) by auto
  have "count (fsm_total s G xs ts + mset R) x \<le> count (fsm_total s G xs ts + mset (b # R)) x" for x by simp
  then have cnt: "count (fsm_total s G xs ts + mset R) x \<le> 1" for x by (rule le_trans) (use o(5) in blast)
  have nb: "b \<notin># fsm_total s G xs ts + mset R"
    using spec [OF o(5), of b] by (auto simp: count_eq_zero_iff)
  have "x < length s \<and> x \<noteq> root \<and> x \<notin> insert b U" if "x \<in># fsm_total s G xs ts + mset R" for x
    using o(6) that nb by auto
  then show "fsm_room env K root (insert b U) R n s"
    using cnt b o(7,8) by (intro fsm_okI [OF o(1-4) refl _ _ _ _ o(9,10)]) auto
qed

lemma fsm_ok_frame:
  assumes "fsm_room env K root U R n s" "frame U s s'" "length s' = length s"
  shows "fsm_room env K root U R n s'"
proof -
  obtain xs ts G where o: "fsm_inv s root xs ts G" "\<not> create_index env"
    "max (current_xid env) FirstNormalTransactionId < next_xid env" "fsm_spare (insert (next_xid env) K) xs ts"
    "\<forall>x. count (fsm_total s G xs ts + mset R) x \<le> 1"
    "\<forall>x. x \<in># fsm_total s G xs ts + mset R \<longrightarrow> x < length s \<and> x \<noteq> root \<and> x \<notin> U"
    "root \<notin> U" "U \<subseteq> {..<length s}" "length s + n \<le> InvalidBlockNumber" "\<forall>k\<in>K. FirstNormalTransactionId \<le> k"
    using assms(1) unfolding fsm_room_def by (elim exE conjE) (rule that)
  have p: "set (fsm_pages G xs ts) \<inter> U = {}" using o(6) by (auto simp: fsm_total_def)
  have len: "length s' \<le> InvalidBlockNumber" using o(9) assms(3) by simp
  note f = fsm_inv_frame [OF o(1) assms(2) o(7) p len]
  have "fsm_total s' G xs ts = fsm_total s G xs ts" by (simp add: fsm_total_def f(2))
  then show ?thesis
    unfolding fsm_room_def using f(1) o assms(3) by (intro exI [of _ xs] exI [of _ ts] exI [of _ G]) simp
qed

lemma count_disjoint:
  assumes "\<And>x. count M x \<le> 1" "\<And>x. x \<in># M \<Longrightarrow> x < a"
  shows "count (M + mset [a..<a + k]) x \<le> (1 :: nat)"
proof (cases "x < a")
  case True
  then show ?thesis using assms(1) [of x] by (simp add: count_mset_0_iff)
next
  case False
  then have "count M x = 0" using assms(2) by (auto simp: count_eq_zero_iff)
  moreover have "count (mset [a..<a + k]) x \<le> 1" using distinct_count_atmost_1 [of "[a..<a + k]"] by (simp split: if_splits)
  ultimately show ?thesis by simp
qed

lemma ledger_total:
  assumes "fsm_ledger root w s xs ts G P W s' xs' ts' G'" "image_mset snd P = mset blocks"
  shows "fsm_total s' G' xs' ts' + mset blocks = fsm_total s G xs ts + mset [length s..<length s']"
proof -
  note l = ledger_dest [OF assms(1)]
  have "image_mset snd (fsm_entries s' G' xs') + mset blocks = image_mset snd (fsm_entries s G xs) + W"
    using arg_cong [OF l(2), of "image_mset snd"] assms(2) by (simp add: image_mset.compositionality comp_def)
  then have "fsm_total s' G' xs' ts' + mset blocks = image_mset snd (fsm_entries s G xs) + (mset (fsm_pages G' xs' ts') + W)"
    by (simp add: fsm_total_def ac_simps)
  also have "\<dots> = fsm_total s G xs ts + mset [length s..<length s']" unfolding l(3) by (simp add: fsm_total_def ac_simps)
  finally show ?thesis .
qed

lemma fsm_ok_extend:
  assumes "fsm_room env K root U R (k + n) s"
  shows "fsm_room env K root U (R @ [length s..<length s + k]) n (s @ replicate k zero_page)"
proof -
  obtain xs ts G where o: "fsm_inv s root xs ts G" "\<not> create_index env"
    "max (current_xid env) FirstNormalTransactionId < next_xid env" "fsm_spare (insert (next_xid env) K) xs ts"
    "\<forall>x. count (fsm_total s G xs ts + mset R) x \<le> 1"
    "\<forall>x. x \<in># fsm_total s G xs ts + mset R \<longrightarrow> x < length s \<and> x \<noteq> root \<and> x \<notin> U"
    "root \<notin> U" "U \<subseteq> {..<length s}" "length s + (k + n) \<le> InvalidBlockNumber" "\<forall>k\<in>K. FirstNormalTransactionId \<le> k"
    using assms unfolding fsm_room_def by (elim exE conjE) (rule that)
  let ?s = "s @ replicate k zero_page"
  have "length ?s \<le> InvalidBlockNumber" using o(9) by simp
  note f = fsm_inv_frame [OF o(1) frame_extend [of "{}" s "replicate k zero_page"] _ _ this, simplified]
  have tot: "fsm_total ?s G xs ts + mset (R @ [length s..<length s + k]) = fsm_total s G xs ts + mset R + mset [length s..<length s + k]"
    by (simp add: fsm_total_def f(2))
  have rl: "root < length s" by (rule fsm_inv_dest(2) [OF o(1)])
  have "count (fsm_total s G xs ts + mset R + mset [length s..<length s + k]) x \<le> 1" for x
    by (rule count_disjoint [OF o(5) [rule_format] o(6) [rule_format, THEN conjunct1]])
  moreover have "x < length ?s \<and> x \<noteq> root \<and> x \<notin> U"
    if "x \<in># fsm_total s G xs ts + mset R + mset [length s..<length s + k]" for x
    using that o(6,8) rl by auto
  moreover have "U \<subseteq> {..<length ?s}" using o(8) by auto
  ultimately show ?thesis
    using o(9) by (intro fsm_okI [OF f(1) o(2-4) tot _ _ o(7) _ _ o(10)]) auto
qed

lemma fsm_ok_drain:
  assumes "fsm_room env K root U R (k + n) s"
  shows "\<exists>s' blocks. drain env s root k = Some (s', blocks) \<and> length blocks \<le> k \<and>
     fsm_room env K root U (blocks @ R) (k - length blocks + n) s' \<and> length s \<le> length s' \<and> (\<forall>x\<in>U. s' ! x = s ! x)"
proof -
  obtain xs ts G where o: "fsm_inv s root xs ts G" "\<not> create_index env"
    "max (current_xid env) FirstNormalTransactionId < next_xid env" "fsm_spare (insert (next_xid env) K) xs ts"
    "\<forall>x. count (fsm_total s G xs ts + mset R) x \<le> 1"
    "\<forall>x. x \<in># fsm_total s G xs ts + mset R \<longrightarrow> x < length s \<and> x \<noteq> root \<and> x \<notin> U"
    "root \<notin> U" "U \<subseteq> {..<length s}" "length s + (k + n) \<le> InvalidBlockNumber" "\<forall>k\<in>K. FirstNormalTransactionId \<le> k"
    using assms unfolding fsm_room_def by (elim exE conjE) (rule that)
  have sp: "length s + k \<le> InvalidBlockNumber" using o(9) by simp
  obtain s' blocks P W xs' ts' G' where d:
    "drain env s root k = Some (s', blocks)" "fsm_ledger root (next_xid env) s xs ts G P W s' xs' ts' G'"
    "image_mset snd P = mset blocks" "size W \<le> length blocks" "length blocks \<le> k"
    by (rule drain_ok [OF o(1-3) fsm_spare_key [OF o(4) insertI1] sp])
  note l = ledger_dest [OF d(2)]
  have rl: "root < length s" by (rule fsm_inv_dest(2) [OF o(1)])
  have len: "length s \<le> length s'" "length s' \<le> length s + length blocks" using l(5) d(4) frame_length [OF l(4)] by auto
  have tot: "fsm_total s' G' xs' ts' + mset (blocks @ R) = fsm_total s G xs ts + mset R + mset [length s..<length s']"
    using ledger_total [OF d(2,3)] by (simp add: ac_simps)
  have cnt: "count (fsm_total s G xs ts + mset R + mset [length s..<length s']) x \<le> 1" for x
    using count_disjoint [OF o(5) [rule_format] o(6) [rule_format, THEN conjunct1], of "length s' - length s" x] len(1) by simp
  have "x < length s' \<and> x \<noteq> root \<and> x \<notin> U" if "x \<in># fsm_total s G xs ts + mset R + mset [length s..<length s']" for x
    using that o(6,8) rl len by auto
  moreover have "U \<subseteq> {..<length s'}" using o(8) len by auto
  moreover have "length s' + (k - length blocks + n) \<le> InvalidBlockNumber" using o(9) len d(5) by simp
  ultimately have "fsm_room env K root U (blocks @ R) (k - length blocks + n) s'"
    by (intro fsm_okI [OF l(1) o(2,3) l(7) [OF insertI1 o(4)] tot cnt _ o(7) _ _ o(10)])
  moreover have "s' ! x = s ! x" if "x \<in> U" for x
    using frame_nth [OF l(4), of x] that o(6-8) by (auto simp: fsm_total_def)
  ultimately show ?thesis using d(1,5) len(1) by blast
qed

lemma fsm_ok_bound: "fsm_room env K root U R n s \<Longrightarrow> U \<subseteq> {..<length s}"
  unfolding fsm_room_def by blast

lemma fsm_ok_length: "fsm_room env K root U R n s \<Longrightarrow> length s + n \<le> InvalidBlockNumber"
  unfolding fsm_room_def by blast

lemma fsm_ok_mono: "fsm_room env K root U R n s \<Longrightarrow> m \<le> n \<Longrightarrow> fsm_room env K root U R m s"
  unfolding fsm_room_def by (elim exE conjE) (intro exI conjI, assumption+, simp)

lemma fsm_ok_zero:
  assumes "fsm_room env K root U (b # R) n s"
  shows "zero_block s b = Some (s[b := zero_page])" "fsm_room env K root (insert b U) R n (s[b := zero_page])"
    "gives U s (s[b := zero_page]) b"
proof -
  note o = fsm_ok_own [OF assms]
  show "zero_block s b = Some (s[b := zero_page])" using o(3) by simp
  show "fsm_room env K root (insert b U) R n (s[b := zero_page])" by (rule fsm_ok_frame [OF o(1)]) simp_all
  show "gives U s (s[b := zero_page]) b" unfolding gives_def using o(2-4) by (auto simp: nth_list_update)
qed

lemma fsm_ok_reserve:
  assumes "fsm_room env K root (insert b U) R n s" "b \<notin> U"
  shows "fsm_room env K root U (b # R) n s"
proof -
  obtain xs ts G where o: "fsm_inv s root xs ts G" "\<not> create_index env"
    "max (current_xid env) FirstNormalTransactionId < next_xid env" "fsm_spare (insert (next_xid env) K) xs ts"
    "\<forall>x. count (fsm_total s G xs ts + mset R) x \<le> 1"
    "\<forall>x. x \<in># fsm_total s G xs ts + mset R \<longrightarrow> x < length s \<and> x \<noteq> root \<and> x \<notin> insert b U"
    "root \<notin> insert b U" "insert b U \<subseteq> {..<length s}" "length s + n \<le> InvalidBlockNumber" "\<forall>k\<in>K. FirstNormalTransactionId \<le> k"
    using assms(1) unfolding fsm_room_def by (elim exE conjE) (rule that)
  have tot: "fsm_total s G xs ts + mset (b # R) = add_mset b (fsm_total s G xs ts + mset R)" by simp
  have "b \<notin># fsm_total s G xs ts + mset R" using o(6) by blast
  then have "count (fsm_total s G xs ts + mset R) b = 0" by (simp only: count_eq_zero_iff not_False_eq_True)
  then have "count (add_mset b (fsm_total s G xs ts + mset R)) x \<le> 1" for x
    using o(5) by (cases "x = b") auto
  moreover have "x < length s \<and> x \<noteq> root \<and> x \<notin> U" if "x \<in># add_mset b (fsm_total s G xs ts + mset R)" for x
    using that o(6-8) assms(2) by auto
  ultimately show ?thesis using o(7,8) by (intro fsm_okI [OF o(1-4) tot _ _ _ _ o(9,10)]) auto
qed

lemma new_buffer_ok:
  assumes "fsm_room env K root U [] (Suc n) s"
  shows "\<exists>s' b. new_buffer env root s = Some (s', b) \<and> gives U s s' b \<and> fsm_room env K root (insert b U) [] n s'"
proof -
  obtain s1 blocks where d: "drain env s root 1 = Some (s1, blocks)" "length blocks \<le> 1"
    "fsm_room env K root U (blocks @ []) (1 - length blocks + n) s1" "length s \<le> length s1" "\<forall>x\<in>U. s1 ! x = s ! x"
    using fsm_ok_drain [of env K root U "[]" 1 n s] assms by auto
  show ?thesis
  proof (cases blocks)
    case Nil
    then have o: "fsm_room env K root U [] (1 + n) s1" using d(3) by simp
    then have room: "length s1 < InvalidBlockNumber" using fsm_ok_length by fastforce
    have o2: "fsm_room env K root U [length s1] n (s1 @ [zero_page])" using fsm_ok_extend [OF o] by simp
    have "new_buffer env root s = Some (s1 @ [zero_page], length s1)"
      using d(1) Nil room by (simp add: new_buffer_def fsm_pop_def extend_by_one_buffer_def)
    moreover have "gives U s (s1 @ [zero_page]) (length s1)"
      unfolding gives_def using d(4,5) fsm_ok_bound [OF o] room by (auto simp: nth_append)
    ultimately show ?thesis using fsm_ok_own(1) [OF o2] by blast
  next
    case (Cons b bs)
    then have b: "blocks = [b]" using d(2) by simp
    then have "fsm_room env K root U [b] n s1" using d(3) by simp
    note z = fsm_ok_zero [OF this]
    have "new_buffer env root s = Some (s1[b := zero_page], b)"
      using d(1) b z(1) by (simp add: new_buffer_def fsm_pop_def)
    moreover have "gives U s (s1[b := zero_page]) b" using z(3) d(4,5) by (simp add: gives_def)
    ultimately show ?thesis using z(2) by blast
  qed
qed

fun fsm_iter_ok :: "fsm_env \<Rightarrow> nat set \<Rightarrow> block_number \<Rightarrow> block_number set \<Rightarrow> buffer_iter \<Rightarrow> nat \<Rightarrow> nat \<Rightarrow> store \<Rightarrow> bool" where
  "fsm_iter_ok env K root U NoBuffers k n s \<longleftrightarrow> k = 0 \<and> fsm_room env K root U [] n s"
| "fsm_iter_ok env K root U (OneBuffer b) k n s \<longleftrightarrow> k = 1 \<and> fsm_room env K root U [b] n s"
| "fsm_iter_ok env K root U (ManyBuffers fb r None) k n s \<longleftrightarrow>
     r = k \<and> length fb \<le> k \<and> fsm_room env K root U fb (k - length fb + n) s"
| "fsm_iter_ok env K root U (ManyBuffers fb r (Some (bs, m))) k n s \<longleftrightarrow>
     fb = [] \<and> r \<noteq> 0 \<and> k = length bs + m \<and> fsm_room env K root U bs (m + n) s"

lemma new_buffers_ok:
  assumes "fsm_room env K root U [] (k + n) s"
  shows "\<exists>s' it. new_buffers env root s k = Some (s', it) \<and> fsm_iter_ok env K root U it k n s' \<and> length s \<le> length s' \<and>
     (\<forall>x\<in>U. s' ! x = s ! x)"
proof -
  consider "k = 0" | "k = 1" | "1 < k" by linarith
  then show ?thesis
  proof cases
    case 1
    then show ?thesis using assms by (simp add: new_buffers_def)
  next
    case 2
    have one: "fsm_room env K root U [] (Suc n) s" using assms 2 by simp
    obtain s' b where n: "new_buffer env root s = Some (s', b)" "gives U s s' b" "fsm_room env K root (insert b U) [] n s'"
      using new_buffer_ok [OF one] by (elim exE conjE) (rule that)
    then have "fsm_room env K root U [b] n s'" by (intro fsm_ok_reserve) (simp_all add: gives_def)
    then show ?thesis using n(1,2) 2 by (auto simp: new_buffers_def gives_def)
  next
    case 3
    obtain s' blocks where "drain env s root k = Some (s', blocks)" "length blocks \<le> k"
      "fsm_room env K root U (blocks @ []) (k - length blocks + n) s'" "length s \<le> length s'" "\<forall>x\<in>U. s' ! x = s ! x"
      using fsm_ok_drain [OF assms] by blast
    then show ?thesis using 3 by (simp add: new_buffers_def)
  qed
qed


lemma next_extended_ok:
  assumes "fsm_room env K root U bs (m + n) s" "length bs + m = Suc k"
  shows "\<exists>s' bs' m' b. next_extended s (bs, m) = Some (s', (bs', m'), Some b) \<and> gives U s s' b \<and> k = length bs' + m' \<and>
     fsm_room env K root (insert b U) bs' (m' + n) s'"
proof (cases bs)
  case Nil
  define j where "j = min m MAX_BUFFERS_TO_EXTEND_BY"
  then have j: "j \<noteq> 0" "j \<le> m" "m \<noteq> 0" using assms(2) Nil by (auto simp: MAX_BUFFERS_TO_EXTEND_BY_def)
  then have o: "fsm_room env K root U [] (j + (m - j + n)) s" using assms(1) Nil by simp
  have room: "length s + j \<le> InvalidBlockNumber" using fsm_ok_length [OF o] by simp
  have upt: "[length s..<length s + j] = length s # [Suc (length s)..<length s + j]" using j(1) by (simp add: upt_rec)
  have e: "fsm_room env K root U (length s # [Suc (length s)..<length s + j]) (m - j + n) (s @ replicate j zero_page)"
    using fsm_ok_extend [OF o] by (simp only: upt append_Nil)
  have "next_extended s (bs, m) = Some (s @ replicate j zero_page, ([Suc (length s)..<length s + j], m - j), Some (length s))"
    using j room upt by (simp add: next_extended_def Nil flip: j_def) (simp add: bulk_extend_ok upt)
  moreover have "gives U s (s @ replicate j zero_page) (length s)"
    unfolding gives_def using fsm_ok_bound [OF o] fsm_ok_own(2-4) [OF e] by (auto simp: nth_append)
  ultimately show ?thesis using fsm_ok_own(1) [OF e] j assms(2) Nil
    by (intro exI conjI) (assumption+, simp_all)
next
  case (Cons b bs')
  note o = fsm_ok_own [OF assms(1) [unfolded Cons]]
  have "next_extended s (bs, m) = Some (s, (bs', m), Some b)" by (simp add: next_extended_def Cons)
  moreover have "gives U s s b" using o by (simp add: gives_def)
  ultimately show ?thesis using o(1) assms(2) Cons by auto
qed

lemma next_buffer_ok:
  assumes "fsm_iter_ok env K root U it (Suc k) n s"
  shows "\<exists>s' it' b. next_buffer s it = Some (s', it', Some b) \<and> gives U s s' b \<and> fsm_iter_ok env K root (insert b U) it' k n s'"
  using assms
proof (cases "(env, K, root, U, it, Suc k, n, s)" rule: fsm_iter_ok.cases)
  case (2 _ _ _ _ b)
  then have "fsm_room env K root U [b] n s" "k = 0" using assms by auto
  from fsm_ok_own [OF this(1)] this(2) show ?thesis using 2 by (auto simp: next_buffer_def gives_def)
next
  case (3 _ _ _ _ fb r)
  show ?thesis
  proof (cases fb)
    case Nil
    then have "fsm_room env K root U [] (Suc k + n) s" using assms 3 by simp
    from next_extended_ok [OF this, of k] show ?thesis
      using assms 3 Nil by (auto simp: next_buffer_def)
  next
    case (Cons b bs)
    then have "fsm_room env K root U (b # bs) (k - length bs + n) s" using assms 3 by auto
    from fsm_ok_zero [OF this] show ?thesis using assms 3 Cons by (auto simp: next_buffer_def)
  qed
next
  case (4 _ _ _ _ fb r bs m)
  then have "fsm_room env K root U bs (m + n) s" "length bs + m = Suc k" "r \<noteq> 0" "fb = []" using assms by auto
  with next_extended_ok [OF this(1,2)] show ?thesis
    using 4 by (auto simp: next_buffer_def)
qed simp

lemma fsm_iter_end: "fsm_iter_ok env K root U it 0 n s \<Longrightarrow> fsm_room env K root U [] n s"
  by (cases "(env, K, root, U, it, 0 :: nat, n, s)" rule: fsm_iter_ok.cases) auto

lemma fsm_iter_bound: "fsm_iter_ok env K root U it k n s \<Longrightarrow> U \<subseteq> {..<length s}"
  by (cases "(env, K, root, U, it, k, n, s)" rule: fsm_iter_ok.cases) (auto dest: fsm_ok_bound)

lemma fsm_iter_frame:
  "fsm_iter_ok env K root U it k n s \<Longrightarrow> frame U s s' \<Longrightarrow> length s' = length s \<Longrightarrow> fsm_iter_ok env K root U it k n s'"
  by (cases "(env, K, root, U, it, k, n, s)" rule: fsm_iter_ok.cases) (auto intro: fsm_ok_frame)

interpretation fsmb: buffer_manager "new_buffer env root" "new_buffers env root" next_buffer
  "\<lambda>U. fsm_room env K root U []" "fsm_iter_ok env K root" for env K root
  by (unfold_locales; (fact new_buffer_ok new_buffers_ok next_buffer_ok fsm_iter_end fsm_iter_bound fsm_iter_frame fsm_ok_frame fsm_ok_bound fsm_ok_mono))

section \<open>Giving pages back\<close>

lemma count_union_distinct:
  assumes "\<And>x. count M x \<le> 1" "distinct bs" "\<And>x. x \<in># M \<Longrightarrow> x \<notin> set bs"
  shows "count (M + mset bs) x \<le> (1 :: nat)"
proof (cases "x \<in> set bs")
  case True
  then have "count M x = 0" using assms(3) by (auto simp: count_eq_zero_iff)
  then show ?thesis using assms(2) distinct_count_atmost_1 [of bs] by (simp split: if_splits)
next
  case False
  then have "count (mset bs) x = 0" by (simp add: count_eq_zero_iff)
  then show ?thesis using assms(1) [of x] by (simp only: count_union add_0_right)
qed

text \<open>
  \<open>M\<close> are the blocks on record, each with its key.  A store has at most one such record.  \<open>bs\<close> filed under
  \<open>w\<close>: the record has gained exactly these blocks, under this key.
\<close>

definition fsm_records :: "store \<Rightarrow> block_number \<Rightarrow> (nat \<times> block_number) multiset \<Rightarrow> bool" where
  "fsm_records s root M \<longleftrightarrow> (\<exists>xs ts G. fsm_inv s root xs ts G \<and> M = fsm_entries s G xs)"

definition fsm_files :: "block_number \<Rightarrow> nat \<Rightarrow> store \<Rightarrow> block_number list \<Rightarrow> store \<Rightarrow> bool" where
  "fsm_files root w s bs s' \<longleftrightarrow>
     (\<exists>M. fsm_records s root M) \<and>
     (\<forall>M. fsm_records s root M \<longrightarrow> fsm_records s' root (M + image_mset (Pair w) (mset bs)))"

lemma chain_unique: "chain ar p is \<Longrightarrow> chain ar p js \<Longrightarrow> is = js"
  by (induction "is" arbitrary: p js) (case_tac js; auto)+

lemma avl_rel_unique: "avl_rel m xs ts \<Longrightarrow> avl_rel m ys us \<Longrightarrow> xs = ys \<and> ts = us"
  unfolding avl_rel_def sub_ok_def free_ok_def by (elim exE conjE) (simp, metis repr_unique chain_unique)

lemma fsm_records_unique:
  assumes "fsm_records s root M" "fsm_inv s root xs ts G"
  shows "M = fsm_entries s G xs"
proof -
  obtain ys us H where o: "fsm_inv s root ys us H" "M = fsm_entries s H ys" using assms(1) by (auto simp: fsm_records_def)
  have eq: "ys = xs" "us = ts"
    using fsm_inv_dest(3) [OF o(1)] fsm_inv_dest(3) [OF assms(2)] avl_rel_unique by fastforce+
  have "H t = G t" if "t \<in> set (fsm_tags xs ts)" for t
    using walk_pages_ok [OF fsm_inv_dest(4) [OF o(1)], of t] walk_pages_ok [OF fsm_inv_dest(4) [OF assms(2)], of t] that eq by simp
  then show ?thesis unfolding o(2) eq by (intro fsm_entries_cong) (auto simp: fsm_tags_def)
qed

lemma fsm_room_unrecorded:
  assumes "fsm_room env K root U R n s" "fsm_records s root M" "x \<in> U"
  shows "x \<notin># image_mset snd M"
proof -
  obtain xs ts G where o: "fsm_inv s root xs ts G" "\<forall>x. x \<in># fsm_total s G xs ts + mset R \<longrightarrow> x < length s \<and> x \<noteq> root \<and> x \<notin> U"
    using assms(1) unfolding fsm_room_def by blast
  show ?thesis unfolding fsm_records_unique [OF assms(2) o(1)] using o(2) assms(3) unfolding fsm_total_def by (metis union_iff)
qed

lemma fsm_filesI:
  assumes "fsm_inv s root xs ts G" "fsm_inv s' root xs' ts' G'"
    "fsm_entries s' G' xs' = fsm_entries s G xs + image_mset (Pair w) (mset bs)"
  shows "fsm_files root w s bs s'"
proof -
  have a: "fsm_records s root (fsm_entries s G xs)" using assms(1) unfolding fsm_records_def by blast
  have b: "fsm_records s' root (fsm_entries s' G' xs')" using assms(2) unfolding fsm_records_def by blast
  have "fsm_records s' root (M + image_mset (Pair w) (mset bs))" if "fsm_records s root M" for M
    unfolding fsm_records_unique [OF that assms(1)] using b unfolding assms(3) .
  then show ?thesis unfolding fsm_files_def using a by blast
qed

lemma fsm_files_trans: "fsm_files root w s as s1 \<Longrightarrow> fsm_files root w s1 bs s2 \<Longrightarrow> fsm_files root w s (as @ bs) s2"
  unfolding fsm_files_def by (metis image_mset_union mset_append union_assoc)

lemma fsm_files_write:
  assumes "fsm_room env K root U [] n s" "frame U s s'" "length s' = length s"
  shows "fsm_files root w s [] s'"
proof -
  obtain xs ts G where o: "fsm_inv s root xs ts G" "root \<notin> U" "length s + n \<le> InvalidBlockNumber"
    "\<forall>x. x \<in># fsm_total s G xs ts + mset [] \<longrightarrow> x < length s \<and> x \<noteq> root \<and> x \<notin> U"
    using assms(1) unfolding fsm_room_def by (elim exE conjE) (rule that)
  have p: "set (fsm_pages G xs ts) \<inter> U = {}" using o(4) by (auto simp: fsm_total_def)
  have len: "length s' \<le> InvalidBlockNumber" using o(3) assms(3) by simp
  note f = fsm_inv_frame [OF o(1) assms(2) o(2) p len]
  show ?thesis by (rule fsm_filesI [OF o(1) f(1)]) (simp add: f(2))
qed

lemma fsm_ok_free:
  assumes "fsm_room env K fsm U [] (length bs + n) s" "distinct bs" "set bs \<subseteq> U" "w \<in> insert (next_xid env) K"
  shows "\<exists>s'. extend_with_when_recyclable env s fsm w bs = Some s' \<and> fsm_room env K fsm (U - set bs) [] n s' \<and>
     (\<forall>x\<in>U. s' ! x = s ! x) \<and> length s \<le> length s' \<and> fsm_files fsm w s bs s'"
proof -
  obtain xs ts G where o: "fsm_inv s fsm xs ts G" "\<not> create_index env"
    "max (current_xid env) FirstNormalTransactionId < next_xid env" "fsm_spare (insert (next_xid env) K) xs ts"
    "\<forall>x. count (fsm_total s G xs ts + mset []) x \<le> 1"
    "\<forall>x. x \<in># fsm_total s G xs ts + mset [] \<longrightarrow> x < length s \<and> x \<noteq> fsm \<and> x \<notin> U"
    "fsm \<notin> U" "U \<subseteq> {..<length s}" "length s + (length bs + n) \<le> InvalidBlockNumber" "\<forall>k\<in>K. FirstNormalTransactionId \<le> k"
    using assms(1) unfolding fsm_room_def by (elim exE conjE) (rule that)
  show ?thesis
  proof (cases "bs = []")
    case True
    then show ?thesis using assms(1) fsm_filesI [OF o(1) o(1)] by (simp add: extend_with_when_recyclable_def)
  next
    case ne: False
    have w: "w = (if create_index env then FirstNormalTransactionId else w)" "FirstNormalTransactionId \<le> w"
      using o(2,3,10) assms(4) by auto
    have sp: "length s + length bs \<le> InvalidBlockNumber" using o(9) by simp
    obtain s' xs' ts' G' t where e: "extend_with_when_recyclable env s fsm w bs = Some s'"
      "fsm_inv s' fsm xs' ts' G'" "frame (insert fsm (set (G t))) s s'" "length s' \<le> length s + length bs"
      "fsm_entries s' G' xs' = fsm_entries s G xs + image_mset (Pair w) (mset bs)"
      "mset (fsm_pages G' xs' ts') = mset (fsm_pages G xs ts) + mset [length s..<length s']"
      "map_of xs' = (map_of xs)(w \<mapsto> ((), t))" "map_of xs w = Some ((), t) \<or> map_of xs w = None \<and> t \<in> set ts"
      "\<forall>t'. t' \<noteq> t \<longrightarrow> G' t' = G t'" "set (fsm_tags xs' ts') = set (fsm_tags xs ts)"
      by (rule extend_room [OF o(1) ne w sp fsm_spare_key [OF o(4) assms(4)]])
    have len: "length s \<le> length s'" by (rule frame_length [OF e(3)])
    have rl: "fsm < length s" by (rule fsm_inv_dest(2) [OF o(1)])
    have tot: "fsm_total s' G' xs' ts' + mset [] = fsm_total s G xs ts + mset bs + mset [length s..<length s']"
      unfolding fsm_total_def e(5,6) by (simp add: image_mset.compositionality comp_def ac_simps)
    have inb: "x < length s" if "x \<in># fsm_total s G xs ts + mset bs" for x using that o(6,8) assms(3) by auto
    have c1: "count (fsm_total s G xs ts + mset bs) x \<le> 1" for x
      by (rule count_union_distinct) (use o(5,6) assms(2,3) in auto)
    have cnt: "count (fsm_total s G xs ts + mset bs + mset [length s..<length s']) x \<le> 1" for x
      using count_disjoint [OF c1 inb, of "length s' - length s" x] len by simp
    have "x < length s' \<and> x \<noteq> fsm \<and> x \<notin> U - set bs" if "x \<in># fsm_total s G xs ts + mset bs + mset [length s..<length s']" for x
      using that o(6-8) assms(3) rl len by auto
    moreover have "length s' + n \<le> InvalidBlockNumber" using o(9) e(4) by simp
    moreover have "fsm_spare (insert (next_xid env) K) xs' ts'" by (rule extend_spare [OF o(1) e(2,10,7) assms(4) o(4)])
    ultimately have "fsm_room env K fsm (U - set bs) [] n s'"
      using o(7,8,10) len by (intro fsm_okI [OF e(2) o(2,3) _ tot cnt]) auto
    moreover have "s' ! x = s ! x" if "x \<in> U" for x
    proof -
      have "t \<in> set (fsm_tags xs ts)" using e(8) fsm_tag_in [of xs w "()" t ts] by (auto simp: fsm_tags_def)
      then have "set (G t) \<subseteq> set (fsm_pages G xs ts)" by (auto simp: fsm_pages_def)
      then have "x \<notin> insert fsm (set (G t))" using that o(6,7) by (auto simp: fsm_total_def)
      then show ?thesis using frame_nth [OF e(3)] that o(8) by auto
    qed
    ultimately show ?thesis using e(1) len fsm_filesI [OF o(1) e(2,5)] by (intro exI [of _ s']) simp
  qed
qed

text \<open>
  A source of pages that also takes pages back.  Giving pages back leaves their content as it is, and
  exactly these pages are \<open>filed\<close>; writing to owned pages files none.
\<close>

locale page_pool = buffer_manager +
  fixes free :: "store \<Rightarrow> block_number list \<Rightarrow> store option"
    and filed :: "store \<Rightarrow> block_number list \<Rightarrow> store \<Rightarrow> bool"
  assumes free_law: "ok U (length bs + n) s \<Longrightarrow> distinct bs \<Longrightarrow> set bs \<subseteq> U \<Longrightarrow>
    \<exists>s'. free s bs = Some s' \<and> ok (U - set bs) n s' \<and> (\<forall>x\<in>U. s' ! x = s ! x) \<and> length s \<le> length s' \<and> filed s bs s'"
    and filed_trans: "filed s as s1 \<Longrightarrow> filed s1 bs s2 \<Longrightarrow> filed s (as @ bs) s2"
    and filed_write: "ok U n s \<Longrightarrow> frame U s s' \<Longrightarrow> length s' = length s \<Longrightarrow> filed s [] s'"

text \<open>Freeing under the next transaction id, and under any key the tree has a slot for.\<close>

interpretation fsmp: page_pool "new_buffer env fsm" "new_buffers env fsm" next_buffer
  "\<lambda>U. fsm_room env K fsm U []" "fsm_iter_ok env K fsm" "\<lambda>s. extend_with_when_recyclable env s fsm (next_xid env)"
  "fsm_files fsm (next_xid env)" for env K fsm
proof (unfold_locales)
  fix U :: "block_number set" and bs :: "block_number list" and n s
  assume "fsm_room env K fsm U [] (length bs + n) s" "distinct bs" "set bs \<subseteq> U"
  from fsm_ok_free [OF this insertI1]
  show "\<exists>s'. extend_with_when_recyclable env s fsm (next_xid env) bs = Some s' \<and> fsm_room env K fsm (U - set bs) [] n s' \<and>
     (\<forall>x\<in>U. s' ! x = s ! x) \<and> length s \<le> length s' \<and> fsm_files fsm (next_xid env) s bs s'" .
qed (fact fsm_files_trans fsm_files_write)+

interpretation fsmr: page_pool "new_buffer env fsm" "new_buffers env fsm" next_buffer
  "\<lambda>U. fsm_room env (insert w K) fsm U []" "fsm_iter_ok env (insert w K) fsm" "\<lambda>s. extend_with_when_recyclable env s fsm w"
  "fsm_files fsm w" for env w K fsm
proof (unfold_locales)
  fix U :: "block_number set" and bs :: "block_number list" and n s
  assume "fsm_room env (insert w K) fsm U [] (length bs + n) s" "distinct bs" "set bs \<subseteq> U"
  from fsm_ok_free [OF this insertI2 [OF insertI1]]
  show "\<exists>s'. extend_with_when_recyclable env s fsm w bs = Some s' \<and> fsm_room env (insert w K) fsm (U - set bs) [] n s' \<and>
     (\<forall>x\<in>U. s' ! x = s ! x) \<and> length s \<le> length s' \<and> fsm_files fsm w s bs s'" .
qed (fact fsm_files_trans fsm_files_write)+

section \<open>Drawing pages\<close>

text \<open>The loops of the clients: take the next \<open>k\<close> buffers of the iterator.\<close>

fun draw :: "(store \<Rightarrow> 'it \<Rightarrow> (store \<times> 'it \<times> block_number option) option) \<Rightarrow> nat \<Rightarrow> store \<Rightarrow> 'it \<Rightarrow>
    (store \<times> block_number list) option" where
  "draw next 0 s it = Some (s, [])"
| "draw next (Suc k) s it = do {
     (s, it, b) \<leftarrow> next s it;
     b \<leftarrow> b;
     (s, bs) \<leftarrow> draw next k s it;
     Some (s, b # bs)
   }"

context buffer_manager
begin

lemma draw_fresh:
  "iter_ok U it k n s \<Longrightarrow> \<exists>s' bs. draw next_alloc k s it = Some (s', bs) \<and> length bs = k \<and> distinct bs \<and> set bs \<inter> U = {} \<and>
     (\<forall>b\<in>set bs. b < length s') \<and> (\<forall>x\<in>U. s' ! x = s ! x) \<and> ok (U \<union> set bs) n s'"
proof (induction k arbitrary: U it s)
  case 0
  then show ?case using iter_end by auto
next
  case (Suc k)
  obtain s1 it1 b where n: "next_alloc s it = Some (s1, it1, Some b)" "gives U s s1 b" "iter_ok (insert b U) it1 k n s1"
    using next_law [OF Suc.prems] by blast
  obtain s' bs where d: "draw next_alloc k s1 it1 = Some (s', bs)" "length bs = k" "distinct bs" "set bs \<inter> insert b U = {}"
    "\<forall>b\<in>set bs. b < length s'" "\<forall>x\<in>insert b U. s' ! x = s1 ! x" "ok (insert b U \<union> set bs) n s'"
    using Suc.IH [OF n(3)] by (elim exE conjE) (rule that)
  have "b < length s'" using ok_bound [OF d(7)] by auto
  moreover have "ok (U \<union> set (b # bs)) n s'" using d(7) by simp
  moreover have "draw next_alloc (Suc k) s it = Some (s', b # bs)" using n(1) d(1) by simp
  ultimately show ?case using n(2) d(2-6) unfolding gives_def by (intro exI [of _ s'] exI [of _ "b # bs"]) auto
qed

end

text \<open>
  C19. While no CREATE INDEX is running and the relation and the slots of the free space manager have room, asked for \<open>k\<close> buffers, the buffer manager gives \<open>k\<close> different pages, none of which its clients
  own, whether they come from the free space manager or from extending the relation.  The pages
  the clients own are as before, and the free space manager is still consistent with the new owners.
\<close>

theorem new_buffers_fresh:
  assumes "fsm_ok env root U [] (k + n) s"
  shows "\<exists>s1 it s2 bs. new_buffers env root s k = Some (s1, it) \<and> draw next_buffer k s1 it = Some (s2, bs) \<and>
     length bs = k \<and> distinct bs \<and> set bs \<inter> U = {} \<and> (\<forall>b\<in>set bs. b < length s2) \<and> (\<forall>x\<in>U. s2 ! x = s ! x) \<and>
     fsm_ok env root (U \<union> set bs) [] n s2"
proof -
  obtain s1 it where a: "new_buffers env root s k = Some (s1, it)" "fsm_iter_ok env {} root U it k n s1" "\<forall>x\<in>U. s1 ! x = s ! x"
    using fsmb.allocs_law [OF assms] by blast
  from fsmb.draw_fresh [OF a(2)] a(1,3) show ?thesis by auto
qed

text \<open>A relation with a metapage, a free space manager that knows of blocks 7 and 8, and pages in use.\<close>

definition ex_pool :: store where
  "ex_pool =
     [blank_page,
      \<lparr>pg_next = InvalidBlockNumber, pg_xmax = 0, pg_body = FsmRoot (ex_tree [2, 3])\<rparr>,
      \<lparr>pg_next = InvalidBlockNumber, pg_xmax = 0, pg_body = FsmLeaf \<lparr>lf_len = 2, lf_entries = [7, 8, 0]\<rparr>\<rparr>,
      blank_page, blank_page, blank_page, blank_page, blank_page, blank_page]"

lemma ex_pool_room:
  assumes "U \<subseteq> {0, 4, 5, 6}" "n \<le> 4000000000" "K \<subseteq> {5, 7}"
  shows "fsm_room ex_env K 1 U [] n ex_pool"
proof -
  have t: "avl_rel (ex_tree [2, 3]) [(5, (), 2)] [3]" by (rule ex_tree_rel) simp
  have inv: "fsm_inv ex_pool 1 [(5, (), 2)] [3] (\<lambda>t. [t])"
    using t by (auto simp: fsm_inv_def ex_pool_def fsm_tags_def fsm_pages_def leaf_ok_def leaf_blocks_def as_leaf_def
        InvalidBlockNumber_def FirstNormalTransactionId_def)
  have tot: "fsm_total ex_pool (\<lambda>t. [t]) [(5, (), 2)] [3] + mset [] = {#7, 8, 2, 3#}"
    by (simp add: fsm_total_def ex_pool_def fsm_entries_def fsm_pages_def fsm_tags_def leaf_blocks_def)
  have "finite K" "insert (next_xid ex_env) K - fst ` set [(5, (), 2)] \<subseteq> {7}"
    using assms(3) finite_subset [OF assms(3)] by (auto simp: ex_env_def)
  then have sp: "fsm_spare (insert (next_xid ex_env) K) [(5, (), 2)] [3]"
    using card_mono [of "{7 :: nat}" "insert (next_xid ex_env) K - fst ` set [(5, (), 2)]"] by (simp add: fsm_spare_def)
  show ?thesis
    by (rule fsm_okI [OF inv ex_store_facts(1,2) sp tot])
      (use assms in \<open>auto simp: ex_pool_def InvalidBlockNumber_def FirstNormalTransactionId_def\<close>)
qed

lemma ex_pool_ok: "U \<subseteq> {0, 4, 5, 6} \<Longrightarrow> n \<le> 4000000000 \<Longrightarrow> fsm_ok ex_env 1 U [] n ex_pool"
  by (rule ex_pool_room) simp_all

theorem new_buffers_fresh_witness:
  "\<exists>s1 it s2. new_buffers ex_env 1 ex_pool 3 = Some (s1, it) \<and> draw next_buffer 3 s1 it = Some (s2, [8, 7, 9]) \<and>
     length s2 = 10 \<and> s2 ! 4 = ex_pool ! 4"
proof -
  obtain s1 it s2 bs where w: "new_buffers ex_env 1 ex_pool 3 = Some (s1, it)" "draw next_buffer 3 s1 it = Some (s2, bs)"
    "\<forall>x\<in>{4}. s2 ! x = ex_pool ! x"
    using new_buffers_fresh [OF ex_pool_ok [of "{4}" "3 + 0"]] by auto
  have "map_option (\<lambda>(s, bs). (length s, bs)) (Option.bind (new_buffers ex_env 1 ex_pool 3) (\<lambda>(s, it). draw next_buffer 3 s it)) =
     Some (10, [8, 7, 9])"
    by code_simp
  then show ?thesis using w by simp
qed

end
