(* ===== verification/Block_List.thy ===== *)
theory Block_List
  imports Buffer_Manager
begin

text \<open>
  The block list of \<^verbatim>\<open>blocklist.rs\<close>: the numbers of the blocks that a list of bytes occupies, packed in chunks
  and written to a chain of pages of their own, so that the \<open>n\<close>-th block can be found without a walk.

  Packing is done by the crate \<open>bitpacking\<close>.  Its packers are a parameter of the model, the record
  \<open>bit_packer\<close>, and what the code relies on is \<open>packs_strictly\<close>: a strictly increasing group above the
  initial value survives compression.
\<close>

section \<open>The model\<close>

datatype chunk_style_tag =
  TagSorted1x | TagSorted4x | TagSorted8x | TagStrictlySorted1x | TagStrictlySorted4x | TagStrictlySorted8x |
  TagUncompressed

fun chunk_tag_to_u8 :: "chunk_style_tag \<Rightarrow> u8" where
  "chunk_tag_to_u8 TagSorted1x = 0"
| "chunk_tag_to_u8 TagSorted4x = 1"
| "chunk_tag_to_u8 TagSorted8x = 2"
| "chunk_tag_to_u8 TagStrictlySorted1x = 3"
| "chunk_tag_to_u8 TagStrictlySorted4x = 4"
| "chunk_tag_to_u8 TagStrictlySorted8x = 5"
| "chunk_tag_to_u8 TagUncompressed = 6"

definition chunk_tag_from_u8 :: "u8 \<Rightarrow> chunk_style_tag option" where
  "chunk_tag_from_u8 v =
     (if v = 0 then Some TagSorted1x
      else if v = 1 then Some TagSorted4x
      else if v = 2 then Some TagSorted8x
      else if v = 3 then Some TagStrictlySorted1x
      else if v = 4 then Some TagStrictlySorted4x
      else if v = 5 then Some TagStrictlySorted8x
      else if v = 6 then Some TagUncompressed
      else None)"

datatype chunk_style =
    Sorted1x u8 block_number "u8 list"
  | Sorted4x u8 block_number "u8 list"
  | Sorted8x u8 block_number "u8 list"
  | StrictlySorted1x u8 block_number "u8 list"
  | StrictlySorted4x u8 block_number "u8 list"
  | StrictlySorted8x u8 block_number "u8 list"
  | Uncompressed "block_number list"

fun chunk_tag :: "chunk_style \<Rightarrow> chunk_style_tag" where
  "chunk_tag (Sorted1x _ _ _) = TagSorted1x"
| "chunk_tag (Sorted4x _ _ _) = TagSorted4x"
| "chunk_tag (Sorted8x _ _ _) = TagSorted8x"
| "chunk_tag (StrictlySorted1x _ _ _) = TagStrictlySorted1x"
| "chunk_tag (StrictlySorted4x _ _ _) = TagStrictlySorted4x"
| "chunk_tag (StrictlySorted8x _ _ _) = TagStrictlySorted8x"
| "chunk_tag (Uncompressed _) = TagUncompressed"

fun chunk_byte_len :: "chunk_style \<Rightarrow> nat" where
  "chunk_byte_len (Sorted1x _ _ bytes) = 1 + 1 + 4 + length bytes"
| "chunk_byte_len (Sorted4x _ _ bytes) = 1 + 1 + 4 + length bytes"
| "chunk_byte_len (Sorted8x _ _ bytes) = 1 + 1 + 4 + length bytes"
| "chunk_byte_len (StrictlySorted1x _ _ bytes) = 1 + 1 + 4 + length bytes"
| "chunk_byte_len (StrictlySorted4x _ _ bytes) = 1 + 1 + 4 + length bytes"
| "chunk_byte_len (StrictlySorted8x _ _ bytes) = 1 + 1 + 4 + length bytes"
| "chunk_byte_len (Uncompressed values) = 1 + 1 + length values * 4"

definition to_le_bytes :: "nat \<Rightarrow> u8 list" where
  "to_le_bytes n = [of_nat n, of_nat (n div 256), of_nat (n div 65536), of_nat (n div 16777216)]"

definition from_le_bytes :: "u8 list \<Rightarrow> nat" where
  "from_le_bytes bs = foldr (\<lambda>b n. unat b + 256 * n) bs 0"

fun chunk_into_bytes :: "chunk_style \<Rightarrow> u8 list" where
  "chunk_into_bytes (Uncompressed values) =
     chunk_tag_to_u8 TagUncompressed # of_nat (length values) # concat (map to_le_bytes values)"
| "chunk_into_bytes (Sorted1x n i bytes) = chunk_tag_to_u8 TagSorted1x # n # to_le_bytes i @ bytes"
| "chunk_into_bytes (Sorted4x n i bytes) = chunk_tag_to_u8 TagSorted4x # n # to_le_bytes i @ bytes"
| "chunk_into_bytes (Sorted8x n i bytes) = chunk_tag_to_u8 TagSorted8x # n # to_le_bytes i @ bytes"
| "chunk_into_bytes (StrictlySorted1x n i bytes) = chunk_tag_to_u8 TagStrictlySorted1x # n # to_le_bytes i @ bytes"
| "chunk_into_bytes (StrictlySorted4x n i bytes) = chunk_tag_to_u8 TagStrictlySorted4x # n # to_le_bytes i @ bytes"
| "chunk_into_bytes (StrictlySorted8x n i bytes) = chunk_tag_to_u8 TagStrictlySorted8x # n # to_le_bytes i @ bytes"

subsection \<open>Packing\<close>

record bit_packer =
  num_bits_sorted :: "block_number \<Rightarrow> block_number list \<Rightarrow> u8"
  num_bits_strictly_sorted :: "block_number option \<Rightarrow> block_number list \<Rightarrow> u8"
  compress_sorted :: "block_number \<Rightarrow> block_number list \<Rightarrow> u8 \<Rightarrow> u8 list"
  compress_strictly_sorted :: "block_number option \<Rightarrow> block_number list \<Rightarrow> u8 \<Rightarrow> u8 list"
  decompress_sorted :: "block_number \<Rightarrow> u8 list \<Rightarrow> u8 \<Rightarrow> block_number list \<times> nat"
  decompress_strictly_sorted :: "block_number option \<Rightarrow> u8 list \<Rightarrow> u8 \<Rightarrow> block_number list \<times> nat"

record packers =
  packer_1x :: bit_packer
  packer_4x :: bit_packer
  packer_8x :: bit_packer

abbreviation BLOCK_LEN_1x :: nat where "BLOCK_LEN_1x \<equiv> 32"
abbreviation BLOCK_LEN_4x :: nat where "BLOCK_LEN_4x \<equiv> 128"
abbreviation BLOCK_LEN_8x :: nat where "BLOCK_LEN_8x \<equiv> 256"

text \<open>A function of the crate writes into the front of a buffer the caller provides.\<close>

definition write_into :: "'a list \<Rightarrow> 'a list \<Rightarrow> 'a list option" where
  "write_into buf out = (if length out \<le> length buf then Some (out @ drop (length out) buf) else None)"

definition unwrap_or_0 :: "block_number option \<Rightarrow> block_number" where
  "unwrap_or_0 i = (case i of None \<Rightarrow> 0 | Some b \<Rightarrow> b)"

definition pack_strictly :: "bit_packer \<Rightarrow> nat \<Rightarrow> block_number list \<Rightarrow> block_number option \<Rightarrow> (u8 \<times> u8 list) option" where
  "pack_strictly p len sl initial = do {
     let num_bits = num_bits_strictly_sorted p initial sl;
     bytes \<leftarrow> write_into (replicate (unat num_bits * len div 8) 0) (compress_strictly_sorted p initial sl num_bits);
     Some (num_bits, bytes)
   }"

definition pack_sorted :: "bit_packer \<Rightarrow> nat \<Rightarrow> block_number list \<Rightarrow> block_number option \<Rightarrow> (u8 \<times> u8 list) option" where
  "pack_sorted p len sl initial = do {
     let num_bits = num_bits_sorted p (unwrap_or_0 initial) sl;
     bytes \<leftarrow> write_into (replicate (unat num_bits * len div 8) 0) (compress_sorted p (unwrap_or_0 initial) sl num_bits);
     Some (num_bits, bytes)
   }"

definition pack_8x :: "packers \<Rightarrow> block_number list \<Rightarrow> block_number option \<Rightarrow> chunk_style option" where
  "pack_8x ps sl initial =
     (if sorted sl
      then do {
        (n, bytes) \<leftarrow> pack_strictly (packer_8x ps) BLOCK_LEN_8x sl initial;
        Some (StrictlySorted8x n (unwrap_or_0 initial) bytes)
      }
      else do {
        (n, bytes) \<leftarrow> pack_sorted (packer_8x ps) BLOCK_LEN_8x sl initial;
        Some (Sorted8x n (unwrap_or_0 initial) bytes)
      })"

definition pack_4x :: "packers \<Rightarrow> block_number list \<Rightarrow> block_number option \<Rightarrow> chunk_style option" where
  "pack_4x ps sl initial =
     (if sorted sl
      then do {
        (n, bytes) \<leftarrow> pack_strictly (packer_4x ps) BLOCK_LEN_4x sl initial;
        Some (StrictlySorted4x n (unwrap_or_0 initial) bytes)
      }
      else do {
        (n, bytes) \<leftarrow> pack_sorted (packer_4x ps) BLOCK_LEN_4x sl initial;
        Some (Sorted4x n (unwrap_or_0 initial) bytes)
      })"

definition pack_1x :: "packers \<Rightarrow> block_number list \<Rightarrow> block_number option \<Rightarrow> chunk_style option" where
  "pack_1x ps sl initial =
     (if sorted sl
      then do {
        (n, bytes) \<leftarrow> pack_strictly (packer_1x ps) BLOCK_LEN_1x sl initial;
        Some (StrictlySorted1x n (unwrap_or_0 initial) bytes)
      }
      else do {
        (n, bytes) \<leftarrow> pack_sorted (packer_1x ps) BLOCK_LEN_1x sl initial;
        Some (Sorted1x n (unwrap_or_0 initial) bytes)
      })"

subsection \<open>The builder\<close>

record block_list =
  bl_chunks :: "chunk_style list"
  bl_queue :: "block_number list"
  bl_last :: "block_number option"

definition bl_default :: block_list where
  "bl_default = \<lparr>bl_chunks = [], bl_queue = [], bl_last = None\<rparr>"

definition last_opt :: "'a list \<Rightarrow> 'a option" where
  "last_opt xs = (if xs = [] then None else Some (last xs))"

definition bl_push :: "packers \<Rightarrow> block_list \<Rightarrow> block_number \<Rightarrow> block_list option" where
  "bl_push ps bl b =
     (if b = 0 then None
      else if last_opt (bl_queue bl) = Some b then Some bl
      else do {
        bl \<leftarrow> (if length (bl_queue bl) = BLOCK_LEN_4x
               then do {
                 c \<leftarrow> pack_4x ps (bl_queue bl) (bl_last bl);
                 Some \<lparr>bl_chunks = bl_chunks bl @ [c], bl_queue = [], bl_last = last_opt (bl_queue bl)\<rparr>
               }
               else Some bl);
        Some (bl\<lparr>bl_queue := bl_queue bl @ [b]\<rparr>)
      })"

function pack_queue :: "packers \<Rightarrow> block_number list \<Rightarrow> block_number option \<Rightarrow> chunk_style list option" where
  "pack_queue ps queue lst =
     (if queue = [] then Some []
      else if length queue \<ge> BLOCK_LEN_8x
      then do {
        c \<leftarrow> pack_8x ps (take BLOCK_LEN_8x queue) lst;
        cs \<leftarrow> pack_queue ps (drop BLOCK_LEN_8x queue) (last_opt (take BLOCK_LEN_8x queue));
        Some (c # cs)
      }
      else if length queue \<ge> BLOCK_LEN_4x
      then do {
        c \<leftarrow> pack_4x ps (take BLOCK_LEN_4x queue) lst;
        cs \<leftarrow> pack_queue ps (drop BLOCK_LEN_4x queue) (last_opt (take BLOCK_LEN_4x queue));
        Some (c # cs)
      }
      else if length queue \<ge> BLOCK_LEN_1x
      then do {
        c \<leftarrow> pack_1x ps (take BLOCK_LEN_1x queue) lst;
        cs \<leftarrow> pack_queue ps (drop BLOCK_LEN_1x queue) (last_opt (take BLOCK_LEN_1x queue));
        Some (c # cs)
      }
      else Some [Uncompressed queue])"
  by pat_completeness auto
termination by (relation "measure (\<lambda>(_, queue, _). length queue)") auto

declare pack_queue.simps [simp del]

text \<open>The loop that writes the chunks: a chunk that does not fit goes to a new page, linked to this one.\<close>

partial_function (option) write_chunks ::
  "(store \<Rightarrow> (store \<times> block_number) option) \<Rightarrow> store \<Rightarrow> block_number \<Rightarrow> chunk_style list \<Rightarrow> store option"
where
  "write_chunks alloc s block cs = (case cs of
      [] \<Rightarrow> Some s
    | chunk # rest \<Rightarrow> do {
        c \<leftarrow> body_of s block;
        bytes \<leftarrow> page_bytes c;
        fits \<leftarrow> can_fit bytes (chunk_byte_len chunk);
        if fits
        then do {
          (s, _) \<leftarrow> append_bytes s block (chunk_into_bytes chunk);
          write_chunks alloc s block rest
        }
        else do {
          (s, next_block) \<leftarrow> alloc s;
          s \<leftarrow> init_page s next_block;
          s \<leftarrow> set_next s block next_block;
          write_chunks alloc s next_block cs
        }
      })"

lemmas [code] = write_chunks.simps

definition bl_finish ::
  "(store \<Rightarrow> (store \<times> block_number) option) \<Rightarrow> packers \<Rightarrow> store \<Rightarrow> block_list \<Rightarrow> (store \<times> block_number option) option" where
  "bl_finish alloc ps s bl = do {
     more \<leftarrow> pack_queue ps (bl_queue bl) (bl_last bl);
     (case bl_chunks bl @ more of
        [] \<Rightarrow> Some (s, None)
      | cs \<Rightarrow> do {
          (s, block) \<leftarrow> alloc s;
          s \<leftarrow> init_page s block;
          s \<leftarrow> write_chunks alloc s block cs;
          Some (s, Some block)
        })
   }"

subsection \<open>The reader\<close>

definition take_exact :: "nat \<Rightarrow> 'a list \<Rightarrow> ('a list \<times> 'a list) option" where
  "take_exact n xs = (if n \<le> length xs then Some (take n xs, drop n xs) else None)"

fun read_values :: "nat \<Rightarrow> u8 list \<Rightarrow> (block_number list \<times> u8 list) option" where
  "read_values 0 sl = Some ([], sl)"
| "read_values (Suc n) sl = do {
     (tmp, sl) \<leftarrow> take_exact 4 sl;
     (vs, sl) \<leftarrow> read_values n sl;
     Some (from_le_bytes tmp # vs, sl)
   }"

definition unpack :: "nat \<Rightarrow> u8 list \<Rightarrow> block_number list \<times> nat \<Rightarrow> (block_number list \<times> u8 list) option" where
  "unpack len sl r = do {
     blocks \<leftarrow> write_into (replicate len 0) (fst r);
     Some (blocks, drop (snd r) sl)
   }"

definition then_some :: "block_number \<Rightarrow> block_number option" where
  "then_some initial = (if initial \<noteq> 0 then Some initial else None)"

definition read_chunk :: "packers \<Rightarrow> u8 list \<Rightarrow> (block_number list \<times> u8 list) option" where
  "read_chunk ps sl = do {
     (t, sl) \<leftarrow> take_exact 1 sl;
     tag \<leftarrow> chunk_tag_from_u8 (hd t);
     (n, sl) \<leftarrow> take_exact 1 sl;
     let n = hd n;
     if tag = TagUncompressed then read_values (unat n) sl
     else do {
       (i, sl) \<leftarrow> take_exact 4 sl;
       let i = from_le_bytes i;
       (case tag of
          TagSorted1x \<Rightarrow> unpack BLOCK_LEN_1x sl (decompress_sorted (packer_1x ps) i sl n)
        | TagSorted4x \<Rightarrow> unpack BLOCK_LEN_4x sl (decompress_sorted (packer_4x ps) i sl n)
        | TagSorted8x \<Rightarrow> unpack BLOCK_LEN_8x sl (decompress_sorted (packer_8x ps) i sl n)
        | TagStrictlySorted1x \<Rightarrow> unpack BLOCK_LEN_1x sl (decompress_strictly_sorted (packer_1x ps) (then_some i) sl n)
        | TagStrictlySorted4x \<Rightarrow> unpack BLOCK_LEN_4x sl (decompress_strictly_sorted (packer_4x ps) (then_some i) sl n)
        | TagStrictlySorted8x \<Rightarrow> unpack BLOCK_LEN_8x sl (decompress_strictly_sorted (packer_8x ps) (then_some i) sl n)
        | TagUncompressed \<Rightarrow> None)
     }
   }"

partial_function (option) read_slice :: "packers \<Rightarrow> u8 list \<Rightarrow> block_number list option" where
  "read_slice ps sl = do {
     (bs, sl) \<leftarrow> read_chunk ps sl;
     if sl = [] then Some bs
     else do { more \<leftarrow> read_slice ps sl; Some (bs @ more) }
   }"

lemmas [code] = read_slice.simps

partial_function (option) read_blocks :: "packers \<Rightarrow> store \<Rightarrow> block_number \<Rightarrow> block_number list option" where
  "read_blocks ps s blockno = do {
     c \<leftarrow> body_of s blockno;
     sl \<leftarrow> page_bytes c;
     bs \<leftarrow> read_slice ps sl;
     next \<leftarrow> next_blockno s blockno;
     if next = InvalidBlockNumber then Some bs
     else do { more \<leftarrow> read_blocks ps s next; Some (bs @ more) }
   }"

lemmas [code] = read_blocks.simps

definition bl_read :: "packers \<Rightarrow> store \<Rightarrow> block_number \<Rightarrow> block_number list option" where
  "bl_read ps s start =
     (if start = InvalidBlockNumber then Some [] else read_blocks ps s start)"

section \<open>Chunks survive\<close>

text \<open>What the documentation of the crate promises of a strictly increasing group above the initial value.\<close>

definition packs_strictly :: "bit_packer \<Rightarrow> nat \<Rightarrow> bool" where
  "packs_strictly p len \<longleftrightarrow>
     (\<forall>initial sl. length sl = len \<and> sorted_wrt (<) (case initial of None \<Rightarrow> sl | Some b \<Rightarrow> b # sl) \<and> (\<forall>x\<in>set sl. x < 2 ^ 32) \<longrightarrow>
        unat (num_bits_strictly_sorted p initial sl) \<le> 32 \<and>
        (let n = num_bits_strictly_sorted p initial sl; out = compress_strictly_sorted p initial sl n in
           length out = unat n * len div 8 \<and> (\<forall>rest. decompress_strictly_sorted p initial (out @ rest) n = (sl, length out))))"

text \<open>Whatever the input, a packer fills at most the bytes that its number of bits asks for.\<close>

definition packs_size :: "bit_packer \<Rightarrow> nat \<Rightarrow> bool" where
  "packs_size p len \<longleftrightarrow>
     (\<forall>initial sl. length sl = len \<longrightarrow>
        length (compress_strictly_sorted p initial sl (num_bits_strictly_sorted p initial sl))
          \<le> unat (num_bits_strictly_sorted p initial sl) * len div 8) \<and>
     (\<forall>initial sl. length sl = len \<longrightarrow>
        length (compress_sorted p initial sl (num_bits_sorted p initial sl)) \<le> unat (num_bits_sorted p initial sl) * len div 8)"

definition packers_ok :: "packers \<Rightarrow> bool" where
  "packers_ok ps \<longleftrightarrow> packs_strictly (packer_1x ps) BLOCK_LEN_1x \<and> packs_strictly (packer_4x ps) BLOCK_LEN_4x \<and>
     packs_strictly (packer_8x ps) BLOCK_LEN_8x \<and> packs_size (packer_4x ps) BLOCK_LEN_4x"

lemma le_bytes_length [simp]: "length (to_le_bytes n) = 4"
  by (simp add: to_le_bytes_def)

lemma unat_of_nat_u8: "unat (of_nat k :: u8) = k mod 256"
  by (simp add: unsigned_of_nat take_bit_eq_mod)

lemma le_bytes_roundtrip: "n < 2 ^ 32 \<Longrightarrow> from_le_bytes (to_le_bytes n) = n"
proof -
  assume n: "n < 2 ^ 32"
  define a b c where abc: "a = n div 256" "b = a div 256" "c = b div 256"
  have d: "n div 65536 = b" "n div 16777216 = c" by (simp_all add: abc flip: div_mult2_eq)
  have "c mod 256 = c" using n by (simp flip: d)
  moreover have "n mod 256 + 256 * (a mod 256 + 256 * (b mod 256 + 256 * c)) = n"
    unfolding abc by (simp only: mod_mult_div_eq)
  ultimately show ?thesis by (simp add: to_le_bytes_def from_le_bytes_def unat_of_nat_u8 d abc(1))
qed

lemma write_into_full: "length out = length buf \<Longrightarrow> write_into buf out = Some out"
  by (simp add: write_into_def)

lemma take_exact_Cons [simp]: "take_exact 1 (x # xs) = Some ([x], xs)" "take_exact (Suc 0) (x # xs) = Some ([x], xs)"
  by (simp_all add: take_exact_def)

lemma take_exact_append [simp]: "length xs = n \<Longrightarrow> take_exact n (xs @ ys) = Some (xs, ys)"
  by (simp add: take_exact_def)

lemma read_values_append:
  "\<forall>x\<in>set vs. x < 2 ^ 32 \<Longrightarrow> read_values (length vs) (concat (map to_le_bytes vs) @ rest) = Some (vs, rest)"
  by (induction vs) (simp_all add: le_bytes_roundtrip)

text \<open>\<open>holds ps c bs\<close>: the chunk \<open>c\<close> stands for the blocks \<open>bs\<close>, and it fits on a page.\<close>

definition holds :: "packers \<Rightarrow> chunk_style \<Rightarrow> block_number list \<Rightarrow> bool" where
  "holds ps c bs \<longleftrightarrow> (\<forall>rest. read_chunk ps (chunk_into_bytes c @ rest) = Some (bs, rest)) \<and>
     length (chunk_into_bytes c) = chunk_byte_len c \<and> chunk_byte_len c \<le> bm25_max_free_space \<and> chunk_byte_len c \<noteq> 0"

lemma concat_le_bytes_length: "length (concat (map to_le_bytes vs)) = length vs * 4"
  by (induction vs) simp_all

lemma holds_uncompressed:
  assumes "length bs < 32" "\<forall>x\<in>set bs. x < 2 ^ 32"
  shows "holds ps (Uncompressed bs) bs"
proof -
  have "unat (of_nat (length bs) :: u8) = length bs" using assms(1) by (simp add: unat_of_nat_u8)
  then show ?thesis
    using assms read_values_append [OF assms(2)]
    by (auto simp: holds_def read_chunk_def chunk_tag_from_u8_def concat_le_bytes_length bm25_max_free_space_def BLCKSZ_def)
qed

lemma pack_strictly_ok:
  assumes "packs_strictly p len" "length bs = len" "sorted_wrt (<) (case i of None \<Rightarrow> bs | Some b \<Rightarrow> b # bs)" "\<forall>x\<in>set bs. x < 2 ^ 32"
  shows "\<exists>n bytes. pack_strictly p len bs i = Some (n, bytes) \<and> length bytes \<le> 4 * len \<and>
     (\<forall>rest. unpack len (bytes @ rest) (decompress_strictly_sorted p i (bytes @ rest) n) = Some (bs, rest))"
proof -
  define n where "n = num_bits_strictly_sorted p i bs"
  define out where "out = compress_strictly_sorted p i bs n"
  have l: "unat n \<le> 32" "length out = unat n * len div 8" "\<And>rest. decompress_strictly_sorted p i (out @ rest) n = (bs, length out)"
    using assms unfolding packs_strictly_def Let_def n_def out_def by blast+
  have "unat n * len div 8 \<le> 32 * len div 8" using l(1) by (intro div_le_mono mult_le_mono1)
  then have "length out \<le> 4 * len" using l(2) by simp
  moreover have "pack_strictly p len bs i = Some (n, out)"
    unfolding pack_strictly_def Let_def n_def [symmetric] out_def [symmetric] using l(2) by (simp add: write_into_full)
  moreover have "unpack len (out @ rest) (decompress_strictly_sorted p i (out @ rest) n) = Some (bs, rest)" for rest
    using assms(2) by (simp add: l(3) unpack_def write_into_full)
  ultimately show ?thesis by blast
qed

definition above :: "block_number option \<Rightarrow> block_number list \<Rightarrow> bool" where
  "above i bs \<longleftrightarrow> sorted_wrt (<) (case i of None \<Rightarrow> bs | Some b \<Rightarrow> b # bs) \<and> (\<forall>x\<in>set bs. 0 < x \<and> x < 2 ^ 32) \<and> i \<noteq> Some 0 \<and>
     unwrap_or_0 i < 2 ^ 32"

lemma above_initial: "above i bs \<Longrightarrow> then_some (from_le_bytes (to_le_bytes (unwrap_or_0 i))) = i"
  by (auto simp: above_def then_some_def unwrap_or_0_def le_bytes_roundtrip split: option.splits)

lemma above_sorted: "above i bs \<Longrightarrow> sorted bs"
  by (auto simp: above_def strict_sorted_iff split: option.splits)

lemma pack_ok:
  assumes "packers_ok ps" "above i bs"
  shows "length bs = BLOCK_LEN_8x \<Longrightarrow> \<exists>c. pack_8x ps bs i = Some c \<and> holds ps c bs"
    "length bs = BLOCK_LEN_4x \<Longrightarrow> \<exists>c. pack_4x ps bs i = Some c \<and> holds ps c bs"
    "length bs = BLOCK_LEN_1x \<Longrightarrow> \<exists>c. pack_1x ps bs i = Some c \<and> holds ps c bs"
proof -
  note a = assms(2) [unfolded above_def] and srt = above_sorted [OF assms(2)] and ini = above_initial [OF assms(2)]
  note m = bm25_max_free_space_def BLCKSZ_def
  { assume "length bs = BLOCK_LEN_8x"
    from pack_strictly_ok [OF _ this, of "packer_8x ps" i] obtain n bytes where p: "pack_strictly (packer_8x ps) BLOCK_LEN_8x bs i = Some (n, bytes)"
      "length bytes \<le> 4 * BLOCK_LEN_8x"
      "\<And>rest. unpack BLOCK_LEN_8x (bytes @ rest) (decompress_strictly_sorted (packer_8x ps) i (bytes @ rest) n) = Some (bs, rest)"
      using assms(1) a by (auto simp: packers_ok_def)
    then show "\<exists>c. pack_8x ps bs i = Some c \<and> holds ps c bs"
      using srt ini by (auto simp: pack_8x_def holds_def read_chunk_def chunk_tag_from_u8_def m) }
  { assume "length bs = BLOCK_LEN_4x"
    from pack_strictly_ok [OF _ this, of "packer_4x ps" i] obtain n bytes where p: "pack_strictly (packer_4x ps) BLOCK_LEN_4x bs i = Some (n, bytes)"
      "length bytes \<le> 4 * BLOCK_LEN_4x"
      "\<And>rest. unpack BLOCK_LEN_4x (bytes @ rest) (decompress_strictly_sorted (packer_4x ps) i (bytes @ rest) n) = Some (bs, rest)"
      using assms(1) a by (auto simp: packers_ok_def)
    then show "\<exists>c. pack_4x ps bs i = Some c \<and> holds ps c bs"
      using srt ini by (auto simp: pack_4x_def holds_def read_chunk_def chunk_tag_from_u8_def m) }
  { assume "length bs = BLOCK_LEN_1x"
    from pack_strictly_ok [OF _ this, of "packer_1x ps" i] obtain n bytes where p: "pack_strictly (packer_1x ps) BLOCK_LEN_1x bs i = Some (n, bytes)"
      "length bytes \<le> 4 * BLOCK_LEN_1x"
      "\<And>rest. unpack BLOCK_LEN_1x (bytes @ rest) (decompress_strictly_sorted (packer_1x ps) i (bytes @ rest) n) = Some (bs, rest)"
      using assms(1) a by (auto simp: packers_ok_def)
    then show "\<exists>c. pack_1x ps bs i = Some c \<and> holds ps c bs"
      using srt ini by (auto simp: pack_1x_def holds_def read_chunk_def chunk_tag_from_u8_def m) }
qed

section \<open>The builder\<close>

definition holds_all :: "packers \<Rightarrow> chunk_style list \<Rightarrow> block_number list \<Rightarrow> bool" where
  "holds_all ps cs bs \<longleftrightarrow> (\<exists>bss. list_all2 (holds ps) cs bss \<and> concat bss = bs)"

lemma holds_all_Nil [simp]: "holds_all ps [] bs \<longleftrightarrow> bs = []"
  by (auto simp: holds_all_def)

lemma holds_all_append:
  assumes "holds_all ps cs bs" "holds_all ps cs' bs'"
  shows "holds_all ps (cs @ cs') (bs @ bs')"
proof -
  obtain x y where "list_all2 (holds ps) cs x" "concat x = bs" "list_all2 (holds ps) cs' y" "concat y = bs'"
    using assms unfolding holds_all_def by blast
  then have "list_all2 (holds ps) (cs @ cs') (x @ y)" "concat (x @ y) = bs @ bs'" by (simp_all add: list_all2_appendI)
  then show ?thesis unfolding holds_all_def by blast
qed

lemma holds_all_single: "holds ps c bs \<Longrightarrow> holds_all ps [c] bs"
  unfolding holds_all_def by (intro exI [of _ "[bs]"]) simp

lemma holds_all_Cons: "holds ps c bs \<Longrightarrow> holds_all ps cs bs' \<Longrightarrow> holds_all ps (c # cs) (bs @ bs')"
  using holds_all_append [OF holds_all_single] by fastforce

text \<open>
  The numbers that can be packed: fewer than a group, which is stored as it is, or an increasing
  sequence, as a freshly extended relation gives.
\<close>

definition packable :: "block_number option \<Rightarrow> block_number list \<Rightarrow> bool" where
  "packable i bs \<longleftrightarrow> (length bs < 32 \<and> (\<forall>x\<in>set bs. 0 < x \<and> x < 2 ^ 32)) \<or> above i bs"

lemma last_opt_simps [simp]: "last_opt [] = None" "xs \<noteq> [] \<Longrightarrow> last_opt xs = Some (last xs)"
  by (simp_all add: last_opt_def)

lemma above_split:
  assumes "above i (xs @ ys)" "xs \<noteq> []"
  shows "above i xs" "above (last_opt xs) ys"
proof -
  have l: "last xs \<in> set xs" using assms(2) by simp
  show "above i xs" using assms by (auto simp: above_def sorted_wrt_append split: option.splits)
  show "above (last_opt xs) ys" using assms l by (auto simp: above_def sorted_wrt_append unwrap_or_0_def split: option.splits)
qed

lemma above_group:
  assumes "above i q" "0 < n" "n \<le> length q"
  shows "length (take n q) = n" "above i (take n q)" "above (last_opt (take n q)) (drop n q)"
proof -
  have "take n q \<noteq> []" using assms(2,3) by auto
  with above_split [of i "take n q" "drop n q"] assms
  show "length (take n q) = n" "above i (take n q)" "above (last_opt (take n q)) (drop n q)" by (simp_all del: last_opt_simps)
qed

lemma pack_queue_step:
  assumes "packers_ok ps" "above i q" "32 \<le> length q"
  shows "\<exists>n c. 0 < n \<and> n \<le> length q \<and> holds ps c (take n q) \<and> above (last_opt (take n q)) (drop n q) \<and>
     pack_queue ps q i = Option.bind (pack_queue ps (drop n q) (last_opt (take n q))) (\<lambda>cs. Some (c # cs))"
proof -
  note g = above_group [OF assms(2)]
  have q: "q \<noteq> []" using assms(3) by auto
  consider "BLOCK_LEN_8x \<le> length q" | "BLOCK_LEN_4x \<le> length q" "length q < BLOCK_LEN_8x" | "length q < BLOCK_LEN_4x" by linarith
  then show ?thesis
  proof cases
    case 1
    then obtain c where "pack_8x ps (take BLOCK_LEN_8x q) i = Some c" "holds ps c (take BLOCK_LEN_8x q)"
      using pack_ok(1) [OF assms(1) g(2)] g(1) by fastforce
    then show ?thesis using 1 q g(3) [of BLOCK_LEN_8x]
      by (intro exI [of _ BLOCK_LEN_8x] exI [of _ c]) (simp add: pack_queue.simps [of ps q])
  next
    case 2
    then obtain c where "pack_4x ps (take BLOCK_LEN_4x q) i = Some c" "holds ps c (take BLOCK_LEN_4x q)"
      using pack_ok(2) [OF assms(1) g(2)] g(1) by fastforce
    then show ?thesis using 2 q g(3) [of BLOCK_LEN_4x]
      by (intro exI [of _ BLOCK_LEN_4x] exI [of _ c]) (simp add: pack_queue.simps [of ps q])
  next
    case 3
    then obtain c where "pack_1x ps (take BLOCK_LEN_1x q) i = Some c" "holds ps c (take BLOCK_LEN_1x q)"
      using pack_ok(3) [OF assms(1) g(2)] g(1) assms(3) by fastforce
    then show ?thesis using 3 q g(3) [of BLOCK_LEN_1x] assms(3)
      by (intro exI [of _ BLOCK_LEN_1x] exI [of _ c]) (simp add: pack_queue.simps [of ps q])
  qed
qed

lemma pack_queue_ok:
  assumes "packers_ok ps"
  shows "packable i q \<Longrightarrow> \<exists>cs. pack_queue ps q i = Some cs \<and> holds_all ps cs q \<and> length cs \<le> length q"
proof (induction q arbitrary: i rule: length_induct)
  case (1 q)
  show ?case
  proof (cases "length q < 32")
    case True
    then have "\<forall>x\<in>set q. x < 2 ^ 32" using "1.prems" by (auto simp: packable_def above_def)
    with True show ?thesis
      by (cases "q = []") (auto simp: pack_queue.simps [of ps q] pack_queue.simps [of ps "[]"] Suc_le_eq
          intro!: holds_all_single holds_uncompressed)
  next
    case False
    then obtain n c where s: "0 < n" "n \<le> length q" "holds ps c (take n q)" "above (last_opt (take n q)) (drop n q)"
      "pack_queue ps q i = Option.bind (pack_queue ps (drop n q) (last_opt (take n q))) (\<lambda>cs. Some (c # cs))"
      using pack_queue_step [OF assms, of i q] "1.prems" by (auto simp: packable_def)
    have len: "length (drop n q) < length q" using s(1,2) by simp
    have pk: "packable (last_opt (take n q)) (drop n q)" using s(4) by (simp add: packable_def)
    obtain cs where c: "pack_queue ps (drop n q) (last_opt (take n q)) = Some cs" "holds_all ps cs (drop n q)" "length cs \<le> length (drop n q)"
      using "1.IH" [rule_format, OF len pk] by blast
    then show ?thesis using s(5) holds_all_Cons [OF s(3) c(2)] len by (intro exI [of _ "c # cs"]) simp
  qed
qed

definition add_block :: "block_number list \<Rightarrow> block_number \<Rightarrow> block_number list" where
  "add_block ws b = (if last_opt ws = Some b then ws else ws @ [b])"

definition built :: "packers \<Rightarrow> block_list \<Rightarrow> block_number list \<Rightarrow> bool" where
  "built ps bl ws \<longleftrightarrow> (\<exists>done. holds_all ps (bl_chunks bl) done \<and> done @ bl_queue bl = ws \<and> bl_last bl = last_opt done \<and>
     length (bl_queue bl) \<le> BLOCK_LEN_4x \<and> (bl_queue bl = [] \<longrightarrow> done = []) \<and> length (bl_chunks bl) \<le> length done)"

lemma built_default: "built ps bl_default []"
  by (simp add: built_def bl_default_def)

lemma bl_push_ok:
  assumes "packers_ok ps" "built ps bl ws" "packable None (add_block ws b)" "0 < b"
  shows "\<exists>bl'. bl_push ps bl b = Some bl' \<and> built ps bl' (add_block ws b)"
proof -
  obtain xs where bl: "holds_all ps (bl_chunks bl) xs" "xs @ bl_queue bl = ws" "bl_last bl = last_opt xs"
     "length (bl_queue bl) \<le> BLOCK_LEN_4x" "bl_queue bl = [] \<longrightarrow> xs = []" "length (bl_chunks bl) \<le> length xs"
    using assms(2) unfolding built_def by blast
  have lq: "last_opt (bl_queue bl) = last_opt ws" using bl(2,5) by (cases "bl_queue bl = []") auto
  consider "last_opt ws = Some b" | "last_opt ws \<noteq> Some b" "length (bl_queue bl) < BLOCK_LEN_4x"
    | "last_opt ws \<noteq> Some b" "length (bl_queue bl) = BLOCK_LEN_4x" using bl(4) by linarith
  then show ?thesis
  proof cases
    case 1
    then show ?thesis using assms(2,4) lq by (simp add: bl_push_def add_block_def)
  next
    case 2
    have "built ps (bl\<lparr>bl_queue := bl_queue bl @ [b]\<rparr>) (ws @ [b])"
      unfolding built_def by (intro exI [of _ xs]) (use bl 2 in auto)
    then show ?thesis using 2 assms(4) lq by (simp add: bl_push_def add_block_def)
  next
    case 3
    have "above None (xs @ (bl_queue bl @ [b]))"
      using assms(3) 3 bl(2) unfolding packable_def add_block_def by auto
    then have "above (last_opt xs) (bl_queue bl @ [b])" using above_split(2) [of None xs] by (cases "xs = []") auto
    then have "above (bl_last bl) (bl_queue bl)" using above_split(1) [of _ "bl_queue bl"] 3(2) bl(3) by fastforce
    from pack_ok(2) [OF assms(1) this 3(2)] obtain c where c: "pack_4x ps (bl_queue bl) (bl_last bl) = Some c" "holds ps c (bl_queue bl)" by blast
    have "built ps \<lparr>bl_chunks = bl_chunks bl @ [c], bl_queue = [b], bl_last = last_opt (bl_queue bl)\<rparr> (ws @ [b])"
      unfolding built_def
    proof (intro exI [of _ ws] conjI)
      show "holds_all ps (bl_chunks \<lparr>bl_chunks = bl_chunks bl @ [c], bl_queue = [b], bl_last = last_opt (bl_queue bl)\<rparr>) ws"
        using holds_all_append [OF bl(1) holds_all_single [OF c(2)]] bl(2) by simp
      have "length ws = length xs + 128" using bl(2) 3(2) by auto
      then show "length (bl_chunks \<lparr>bl_chunks = bl_chunks bl @ [c], bl_queue = [b], bl_last = last_opt (bl_queue bl)\<rparr>) \<le> length ws"
        using bl(6) by simp
    qed (use lq in simp_all)
    then show ?thesis using 3 assms(4) lq c(1) by (simp add: bl_push_def add_block_def)
  qed
qed

lemma bl_push_total:
  assumes "packers_ok ps" "length (bl_queue bl) \<le> BLOCK_LEN_4x" "0 < b"
  shows "\<exists>bl'. bl_push ps bl b = Some bl' \<and> length (bl_queue bl') \<le> BLOCK_LEN_4x"
proof (cases "length (bl_queue bl) = BLOCK_LEN_4x")
  case True
  have "\<exists>c. pack_4x ps (bl_queue bl) (bl_last bl) = Some c"
    using assms(1) True
    by (auto simp: packers_ok_def packs_size_def pack_4x_def pack_strictly_def pack_sorted_def write_into_def Let_def)
  with True assms(3) show ?thesis by (auto simp: bl_push_def)
qed (use assms in \<open>auto simp: bl_push_def\<close>)

section \<open>Chunks on pages\<close>

definition chunk_bytes :: "chunk_style list \<Rightarrow> u8 list" where
  "chunk_bytes cs = concat (map chunk_into_bytes cs)"

text \<open>
  \<open>bl_pages ps s start pgs ws\<close>: the pages \<open>pgs\<close> are a chain from \<open>start\<close>, each holds some chunks, and the
  chunks stand for the blocks \<open>ws\<close>.
\<close>

definition bl_pages :: "packers \<Rightarrow> store \<Rightarrow> block_number \<Rightarrow> block_number list \<Rightarrow> block_number list \<Rightarrow> bool" where
  "bl_pages ps s start pgs ws \<longleftrightarrow> pages_from s start pgs \<and>
     (\<exists>css. list_all2 (\<lambda>b cs. cs \<noteq> [] \<and> page_bytes (pg_body (s ! b)) = Some (chunk_bytes cs)) pgs css \<and> holds_all ps (concat css) ws)"

lemma holds_all_split:
  assumes "holds_all ps (cs @ cs') bs"
  obtains xs ys where "bs = xs @ ys" "holds_all ps cs xs" "holds_all ps cs' ys"
proof -
  obtain bss where b: "list_all2 (holds ps) (cs @ cs') bss" "concat bss = bs" using assms unfolding holds_all_def by blast
  then obtain u v where "bss = u @ v" "list_all2 (holds ps) cs u" "list_all2 (holds ps) cs' v"
    by (auto simp: list_all2_append1)
  then show ?thesis using b(2) by (intro that [of "concat u" "concat v"]) (auto simp: holds_all_def)
qed

lemma holds_all_ConsE:
  assumes "holds_all ps (c # cs) bs"
  obtains xs ys where "bs = xs @ ys" "holds ps c xs" "holds_all ps cs ys"
proof -
  obtain x bss where "holds ps c x" "list_all2 (holds ps) cs bss" "bs = x @ concat bss"
    using assms unfolding holds_all_def list_all2_Cons1 by auto
  then show ?thesis by (intro that [of x "concat bss"]) (auto simp: holds_all_def)
qed

lemma read_slice_ok: "cs \<noteq> [] \<Longrightarrow> holds_all ps cs bs \<Longrightarrow> read_slice ps (chunk_bytes cs) = Some bs"
proof (induction cs arbitrary: bs)
  case (Cons c cs)
  obtain xs ys where b: "bs = xs @ ys" "holds ps c xs" "holds_all ps cs ys" by (rule holds_all_ConsE [OF Cons.prems(2)])
  have r: "read_chunk ps (chunk_bytes (c # cs)) = Some (xs, chunk_bytes cs)" using b(2) by (simp add: holds_def chunk_bytes_def)
  show ?case
  proof (cases cs)
    case Nil
    then show ?thesis using r b by (simp add: read_slice.simps) (simp add: chunk_bytes_def)
  next
    case (Cons d ds)
    then have "chunk_bytes cs \<noteq> []" using b(3) by (auto simp: chunk_bytes_def holds_def elim!: holds_all_ConsE)
    moreover have "read_slice ps (chunk_bytes cs) = Some ys" using Cons.IH [OF _ b(3)] Cons by simp
    ultimately show ?thesis using r b(1) by (simp add: read_slice.simps [of ps "chunk_bytes (c # cs)"])
  qed
qed simp

lemma bl_pages_read: "bl_pages ps s start pgs ws \<Longrightarrow> bl_read ps s start = Some ws"
proof (cases "pgs = []")
  case True
  assume "bl_pages ps s start pgs ws"
  with True show ?thesis by (auto simp: bl_pages_def bl_read_def)
next
  case False
  have "read_blocks ps s start = Some ws"
    if "pgs \<noteq> []" "pages_from s start pgs" "holds_all ps (concat css) ws"
      "list_all2 (\<lambda>b cs. cs \<noteq> [] \<and> page_bytes (pg_body (s ! b)) = Some (chunk_bytes cs)) pgs css" for css
    using that
  proof (induction pgs arbitrary: start css ws)
    case (Cons b pgs)
    then obtain cs css' where c: "css = cs # css'" "cs \<noteq> []" "page_bytes (pg_body (s ! b)) = Some (chunk_bytes cs)"
      "list_all2 (\<lambda>b cs. cs \<noteq> [] \<and> page_bytes (pg_body (s ! b)) = Some (chunk_bytes cs)) pgs css'"
      by (auto simp: list_all2_Cons1)
    obtain xs ys where w: "ws = xs @ ys" "holds_all ps cs xs" "holds_all ps (concat css') ys"
      using Cons.prems(3) c(1) by (auto elim!: holds_all_split)
    have st: "start = b" "b < length s" "pages_from s (pg_next (s ! b)) pgs" using Cons.prems(2) by auto
    show ?case
    proof (cases pgs)
      case Nil
      then show ?thesis using st c w read_slice_ok [OF c(2) w(2)] by (simp add: read_blocks.simps)
    next
      case (Cons b' pgs')
      then have "read_blocks ps s (pg_next (s ! b)) = Some ys" using Cons.IH [OF _ st(3) w(3) c(4)] by simp
      moreover have "pg_next (s ! b) \<noteq> InvalidBlockNumber" using st(3) Cons by auto
      ultimately show ?thesis using st(1,2) c w(1) read_slice_ok [OF c(2) w(2)] by (simp add: read_blocks.simps [of ps s b])
    qed
  qed simp
  moreover assume "bl_pages ps s start pgs ws"
  ultimately show ?thesis using False pages_from_Nil [of s start pgs] by (auto simp: bl_pages_def bl_read_def)
qed

lemma bl_pages_cong:
  assumes "bl_pages ps s start pgs ws" "\<And>b. b \<in> set pgs \<Longrightarrow> b < length s' \<and> s' ! b = s ! b"
  shows "bl_pages ps s' start pgs ws"
proof -
  obtain css where c: "pages_from s start pgs" "holds_all ps (concat css) ws"
    "list_all2 (\<lambda>b cs. cs \<noteq> [] \<and> page_bytes (pg_body (s ! b)) = Some (chunk_bytes cs)) pgs css"
    using assms(1) unfolding bl_pages_def by blast
  have "list_all2 (\<lambda>b cs. cs \<noteq> [] \<and> page_bytes (pg_body (s' ! b)) = Some (chunk_bytes cs)) pgs css"
    using c(3) assms(2) by (auto simp: list_all2_conv_all_nth)
  moreover have "pages_from s' start pgs" by (rule lseg_cong [OF c(1)]) (use assms(2) in auto)
  ultimately show ?thesis using c(2) unfolding bl_pages_def by blast
qed

lemma can_fit_ok:
  assumes "length bs \<le> bm25_max_free_space" "n \<le> bm25_max_free_space"
  shows "can_fit bs n = Some (length bs + n \<le> bm25_max_free_space)"
proof -
  have n: "n < 2 ^ 16" using assms(2) by (simp add: bm25_max_free_space_def BLCKSZ_def)
  have "pd_lower bs + of_nat n = (of_nat (24 + length bs + n) :: u16)" by (simp add: pd_lower_def)
  moreover have "unat (of_nat (24 + length bs + n) :: u16) = 24 + length bs + n"
    unfolding unsigned_of_nat using assms by (simp add: take_bit_nat_eq_self bm25_max_free_space_def BLCKSZ_def)
  ultimately have "unat (pd_lower bs + of_nat n) = 24 + length bs + n" by simp
  then show ?thesis using n by (simp add: can_fit_def word_less_nat_alt pd_upper_val not_less)
qed

lemma append_bytes_ok:
  assumes "b < length s" "page_bytes (pg_body (s ! b)) = Some bs" "length bs + length new \<le> bm25_max_free_space"
  shows "append_bytes s b new = Some (s[b := (s ! b)\<lparr>pg_body := Bytes (bs @ new)\<rparr>], True)"
proof -
  have "can_fit bs (length new) = Some True" using can_fit_ok [of bs "length new"] assms(3) by simp
  then show ?thesis using assms by (simp add: append_bytes_def)
qed

lemma write_chunks_fits:
  assumes "b < length s" "page_bytes (pg_body (s ! b)) = Some bs" "holds ps c xs" "length bs + chunk_byte_len c \<le> bm25_max_free_space"
  shows "write_chunks alloc s b (c # cs) = write_chunks alloc (s[b := (s ! b)\<lparr>pg_body := Bytes (bs @ chunk_into_bytes c)\<rparr>]) b cs"
proof -
  have "can_fit bs (chunk_byte_len c) = Some True" using can_fit_ok [of bs "chunk_byte_len c"] assms(4) by simp
  moreover have "length (chunk_into_bytes c) = chunk_byte_len c" using assms(3) by (simp add: holds_def)
  ultimately show ?thesis
    using assms append_bytes_ok [of b s bs "chunk_into_bytes c"] by (simp add: write_chunks.simps [of alloc s b "c # cs"])
qed

text \<open>\<open>wrote s b pre cs s' new\<close>: the chunks \<open>cs\<close> went after \<open>pre\<close> on page \<open>b\<close> and on the new pages after it.\<close>

definition wrote :: "block_number set \<Rightarrow> store \<Rightarrow> block_number \<Rightarrow> chunk_style list \<Rightarrow> store \<Rightarrow> block_number list \<Rightarrow> bool" where
  "wrote U s b cs s' new \<longleftrightarrow> pages_from s' b (b # new) \<and> distinct new \<and> set new \<inter> U = {} \<and> length s \<le> length s' \<and>
     (\<forall>x\<in>U - {b}. s' ! x = s ! x) \<and>
     (\<exists>css. list_all2 (\<lambda>b cs. cs \<noteq> [] \<and> page_bytes (pg_body (s' ! b)) = Some (chunk_bytes cs)) (b # new) css \<and> concat css = cs)"

lemma wrote_new_page:
  assumes "wrote (insert nb U) s4 nb cs s' new" "nb \<notin> U" "nb \<noteq> b" "b \<in> U" "b \<noteq> InvalidBlockNumber" "b < length s'"
    and "pg_next (s4 ! b) = nb" "page_bytes (pg_body (s4 ! b)) = Some (chunk_bytes pre)" "pre \<noteq> []"
    and "length s \<le> length s4" "\<forall>x\<in>U - {b}. s4 ! x = s ! x"
  shows "wrote U s b (pre @ cs) s' (nb # new)"
proof -
  obtain css where w: "pages_from s' nb (nb # new)" "distinct new" "set new \<inter> insert nb U = {}" "length s4 \<le> length s'"
     "\<forall>x\<in>insert nb U - {nb}. s' ! x = s4 ! x"
     "list_all2 (\<lambda>b cs. cs \<noteq> [] \<and> page_bytes (pg_body (s' ! b)) = Some (chunk_bytes cs)) (nb # new) css" "concat css = cs"
    using assms(1) unfolding wrote_def by blast
  have e: "s' ! x = s4 ! x" if "x \<in> U" for x using w(5) that assms(2) by auto
  have "list_all2 (\<lambda>b cs. cs \<noteq> [] \<and> page_bytes (pg_body (s' ! b)) = Some (chunk_bytes cs)) (b # nb # new) (pre # css)"
    using w(6) e [OF assms(4)] assms(8,9) by simp
  moreover have "concat (pre # css) = pre @ cs" using w(7) by simp
  moreover have "pages_from s' b (b # nb # new)" using w(1) e [OF assms(4)] assms(5-7) by simp
  moreover have "\<forall>x\<in>U - {b}. s' ! x = s ! x" using e assms(11) by simp
  ultimately show ?thesis
    unfolding wrote_def using w(2-4) assms(2,10) by (intro conjI exI [of _ "pre # css"]) auto
qed

lemma list_all2_in_set1: "list_all2 P xs ys \<Longrightarrow> x \<in> set xs \<Longrightarrow> \<exists>y. P x y"
  by (induction rule: list_all2_induct) auto

context buffer_manager
begin

lemma write_chunks_ok:
  assumes "ok U (length cs + n) s" "b \<in> U" "b \<noteq> InvalidBlockNumber" "pg_next (s ! b) = InvalidBlockNumber"
    and "page_bytes (pg_body (s ! b)) = Some (chunk_bytes pre)" "length (chunk_bytes pre) \<le> bm25_max_free_space"
    and "\<forall>c\<in>set cs. \<exists>xs. holds ps c xs" "pre @ cs \<noteq> []"
  shows "\<exists>s' new. write_chunks alloc s b cs = Some s' \<and> wrote U s b (pre @ cs) s' new \<and> ok (U \<union> set new) n s'"
  using assms
proof (induction cs arbitrary: U s b pre)
  case Nil
  have "b < length s" using ok_bound [OF Nil.prems(1)] Nil.prems(2) by auto
  then have "wrote U s b pre s []" using Nil.prems unfolding wrote_def by (auto intro!: exI [of _ "[pre]"])
  then show ?case using Nil.prems(1) by (intro exI [of _ s] exI [of _ "[]"]) (simp add: write_chunks.simps)
next
  case (Cons c cs)
  have b: "b < length s" using ok_bound [OF Cons.prems(1)] Cons.prems(2) by auto
  obtain xs where c: "holds ps c xs" using Cons.prems(7) by auto
  then have cl: "chunk_byte_len c \<le> bm25_max_free_space" "length (chunk_into_bytes c) = chunk_byte_len c" by (auto simp: holds_def)
  have cs: "\<forall>c\<in>set cs. \<exists>xs. holds ps c xs" using Cons.prems(7) by simp
  show ?case
  proof (cases "length (chunk_bytes pre) + chunk_byte_len c \<le> bm25_max_free_space")
    case True
    define s1 where "s1 = s[b := (s ! b)\<lparr>pg_body := Bytes (chunk_bytes pre @ chunk_into_bytes c)\<rparr>]"
    have "ok U (length cs + n) s"
      by (rule ok_mono [OF Cons.prems(1)]) simp
    then have "ok U (length cs + n) s1" unfolding s1_def by (rule ok_frame) (use Cons.prems(2) in simp_all)
    moreover have "page_bytes (pg_body (s1 ! b)) = Some (chunk_bytes (pre @ [c]))"
      using b by (simp add: s1_def page_bytes_def chunk_bytes_def)
    moreover have "length (chunk_bytes (pre @ [c])) \<le> bm25_max_free_space" using True cl by (simp add: chunk_bytes_def)
    ultimately obtain s' new where s': "write_chunks alloc s1 b cs = Some s'" "wrote U s1 b ((pre @ [c]) @ cs) s' new" "ok (U \<union> set new) n s'"
      using Cons.IH [of U s1 b "pre @ [c]"] Cons.prems(2-4) b cs by (auto simp: s1_def)
    then have "wrote U s b (pre @ c # cs) s' new" unfolding wrote_def by (auto simp: s1_def)
    then show ?thesis
      using s'(1,3) write_chunks_fits [OF b Cons.prems(5) c True, of alloc cs] by (auto simp: s1_def)
  next
    case False
    then have pre: "pre \<noteq> []" using cl(1) by (auto simp: chunk_bytes_def)
    have nofit: "can_fit (chunk_bytes pre) (chunk_byte_len c) = Some False" using can_fit_ok [OF Cons.prems(6) cl(1)] False by simp
    obtain s1 nb where a: "alloc s = Some (s1, nb)" "gives U s s1 nb" "ok (insert nb U) (length cs + n) s1"
      using alloc_law [of U "length cs + n" s] Cons.prems(1) by auto
    have nb: "nb \<notin> U" "nb < length s1" "nb \<noteq> InvalidBlockNumber" "length s \<le> length s1" "\<forall>x\<in>U. s1 ! x = s ! x"
      using a(2) by (auto simp: gives_def)
    define s3 where "s3 = s1[nb := blank_page, b := (s ! b)\<lparr>pg_next := nb\<rparr>]"
    define s4 where "s4 = s3[nb := blank_page\<lparr>pg_body := Bytes (chunk_into_bytes c)\<rparr>]"
    have bn: "b \<noteq> nb" "b < length s1" using nb Cons.prems(2) b by auto
    have s3n: "s3 ! nb = blank_page" "length s3 = length s1" using nb bn by (simp_all add: s3_def)
    have "frame (insert nb U) s1 s3" using Cons.prems(2) by (simp add: s3_def frame_step)
    then have "ok (insert nb U) (length cs + n) s3" using a(3) s3n by (auto intro: ok_frame)
    then have ok4: "ok (insert nb U) (length cs + n) s4" unfolding s4_def by (rule ok_frame) simp_all
    have n4: "nb < length s4" "s4 ! nb = blank_page\<lparr>pg_body := Bytes (chunk_into_bytes c)\<rparr>" "s4 ! b = (s ! b)\<lparr>pg_next := nb\<rparr>"
      using nb bn s3n by (simp_all add: s4_def s3_def)
    have "page_bytes (pg_body (s4 ! nb)) = Some (chunk_bytes [c])" using n4 by (simp add: page_bytes_def chunk_bytes_def)
    moreover have "length (chunk_bytes [c]) \<le> bm25_max_free_space" using cl by (simp add: chunk_bytes_def)
    ultimately obtain s' new where s': "write_chunks alloc s4 nb cs = Some s'" "wrote (insert nb U) s4 nb ([c] @ cs) s' new"
      "ok (insert nb U \<union> set new) n s'"
      using Cons.IH [of "insert nb U" s4 nb "[c]"] ok4 n4 cs nb(3) by auto
    have w: "write_chunks alloc s b (c # cs) = Some s'"
    proof -
      have "write_chunks alloc s b (c # cs) = write_chunks alloc s3 nb (c # cs)"
        using b nb bn a(1) nofit Cons.prems(2,5) by (simp add: write_chunks.simps [of alloc s b "c # cs"] s3_def)
      also have "\<dots> = write_chunks alloc s4 nb cs"
        using write_chunks_fits [of nb s3 "[]" ps c xs alloc cs] nb s3n c cl(1) by (simp add: page_bytes_def s4_def)
      finally show ?thesis using s'(1) by simp
    qed
    have bs': "b < length s'" using s'(2) bn(2) s3n by (simp add: wrote_def s4_def)
    have eq: "\<forall>x\<in>U - {b}. s4 ! x = s ! x" using nb by (auto simp: s4_def s3_def nth_list_update)
    have "wrote U s b (pre @ c # cs) s' (nb # new)"
      using wrote_new_page [OF s'(2) nb(1) bn(1) [symmetric] Cons.prems(2,3) bs', of pre s] n4(3) Cons.prems(5) pre nb(4) eq s3n
      by (simp add: s4_def)
    then show ?thesis using w s'(3) by (intro exI [of _ s'] exI [of _ "nb # new"]) simp
  qed
qed

lemma bl_finish_ok:
  assumes "packers_ok ps" "built ps bl ws" "packable None ws" "ok U (Suc (length ws) + n) s" 
  shows "\<exists>s' r pgs. bl_finish alloc ps s bl = Some (s', r) \<and> distinct pgs \<and> set pgs \<inter> U = {} \<and> length s \<le> length s' \<and>
     (\<forall>x\<in>U. s' ! x = s ! x) \<and> bl_pages ps s' (case r of None \<Rightarrow> InvalidBlockNumber | Some b \<Rightarrow> b) pgs ws \<and>
     ok (U \<union> set pgs) n s' \<and> (r = None \<longleftrightarrow> ws = [])"
proof -
  obtain xs where bl: "holds_all ps (bl_chunks bl) xs" "xs @ bl_queue bl = ws" "bl_last bl = last_opt xs"
     "length (bl_queue bl) \<le> BLOCK_LEN_4x" "bl_queue bl = [] \<longrightarrow> xs = []" "length (bl_chunks bl) \<le> length xs"
    using assms(2) unfolding built_def by blast
  have "packable (bl_last bl) (bl_queue bl)"
    using assms(3) above_split(2) [of None xs "bl_queue bl"] bl(2,3) by (cases "xs = []") (auto simp: packable_def)
  from pack_queue_ok [OF assms(1) this] obtain more where m: "pack_queue ps (bl_queue bl) (bl_last bl) = Some more"
    "holds_all ps more (bl_queue bl)" "length more \<le> length (bl_queue bl)" by blast
  define cs where "cs = bl_chunks bl @ more"
  have cs: "holds_all ps cs ws" "length cs \<le> length ws"
    using holds_all_append [OF bl(1) m(2)] bl(2,6) m(3) by (auto simp: cs_def)
  show ?thesis
  proof (cases "cs = []")
    case True
    then have w: "ws = []" using cs(1) by simp
    then have "ok U n s" using ok_mono [OF assms(4)] by simp
    then show ?thesis using True m(1) w
      by (intro exI [of _ s] exI [of _ None] exI [of _ "[]"]) (simp add: bl_finish_def bl_pages_def flip: cs_def)
  next
    case False
    obtain s1 b where a: "alloc s = Some (s1, b)" "gives U s s1 b" "ok (insert b U) (length ws + n) s1"
      using alloc_law [of U "length ws + n" s] assms(4) by auto
    note g = a(2) [unfolded gives_def]
    have "ok (insert b U) (length cs + n) s1" by (rule ok_mono [OF a(3)]) (use cs(2) in simp)
    then have ok2: "ok (insert b U) (length cs + n) (s1[b := blank_page])" by (rule ok_frame) simp_all
    have hs: "\<forall>c\<in>set cs. \<exists>xs. holds ps c xs" using cs(1) unfolding holds_all_def by (auto dest: list_all2_in_set1)
    obtain s' new where s': "write_chunks alloc (s1[b := blank_page]) b cs = Some s'"
      "wrote (insert b U) (s1[b := blank_page]) b cs s' new" "ok (insert b U \<union> set new) n s'"
      using write_chunks_ok [OF ok2, of b "[]" ps] g hs False by (auto simp: page_bytes_def chunk_bytes_def)
    obtain css where w: "pages_from s' b (b # new)" "distinct new" "set new \<inter> insert b U = {}" "length s1 \<le> length s'"
       "\<forall>x\<in>insert b U - {b}. s' ! x = s1[b := blank_page] ! x"
       "list_all2 (\<lambda>b cs. cs \<noteq> [] \<and> page_bytes (pg_body (s' ! b)) = Some (chunk_bytes cs)) (b # new) css" "concat css = cs"
      using s'(2) unfolding wrote_def by auto
    have "bl_pages ps s' b (b # new) ws" unfolding bl_pages_def using w(1,6,7) cs(1) by auto
    moreover have "bl_finish alloc ps s bl = Some (s', Some b)"
      using False m(1) a(1) s'(1) g by (auto simp: bl_finish_def split: list.splits simp flip: cs_def)
    moreover have "ws \<noteq> []" using cs(2) False by auto
    moreover have "\<forall>x\<in>U. s' ! x = s ! x" using w(5) g by (auto simp: nth_update_outside [of _ U])
    ultimately show ?thesis using w(2-4) g s'(3) by (intro exI [of _ s'] exI [of _ "Some b"] exI [of _ "b # new"]) auto
  qed
qed

end

section \<open>Push, finish, read\<close>

fun push_all :: "packers \<Rightarrow> block_list \<Rightarrow> block_number list \<Rightarrow> block_list option" where
  "push_all ps bl [] = Some bl"
| "push_all ps bl (b # bs) = do { bl \<leftarrow> bl_push ps bl b; push_all ps bl bs }"

lemma add_block_remdups: "add_block (remdups_adj xs) x = remdups_adj (xs @ [x])"
  by (induction xs rule: remdups_adj.induct) (auto simp: add_block_def last_opt_def, blast+)

lemma foldl_add_block: "foldl add_block (remdups_adj xs) ys = remdups_adj (xs @ ys)"
  by (induction ys arbitrary: xs) (simp_all add: add_block_remdups)

lemma foldl_add_block_prefix: "\<exists>zs. foldl add_block ws bs = ws @ zs"
  by (induction bs arbitrary: ws) (auto simp: add_block_def, metis append.assoc)

lemma packable_prefix: "packable None (xs @ ys) \<Longrightarrow> packable None xs"
  using above_split(1) [of None xs ys] by (cases "xs = []") (auto simp: packable_def)

lemma push_all_ok:
  assumes "packers_ok ps"
  shows "built ps bl ws \<Longrightarrow> packable None (foldl add_block ws bs) \<Longrightarrow> 0 \<notin> set bs \<Longrightarrow>
     \<exists>bl'. push_all ps bl bs = Some bl' \<and> built ps bl' (foldl add_block ws bs)"
proof (induction bs arbitrary: bl ws)
  case (Cons b bs)
  obtain zs where "foldl add_block (add_block ws b) bs = add_block ws b @ zs" using foldl_add_block_prefix by blast
  then have "packable None (add_block ws b)" using Cons.prems(2) packable_prefix by simp
  from bl_push_ok [OF assms Cons.prems(1) this] Cons.prems(3) obtain bl1 where "bl_push ps bl b = Some bl1" "built ps bl1 (add_block ws b)"
    by auto
  then show ?case using Cons.IH [of bl1 "add_block ws b"] Cons.prems(2,3) by simp
qed simp

text \<open>
  C6. What is pushed is what is read: a block list that was finished and is read back gives the pushed
  block numbers, consecutive repetitions dropped.  This holds for fewer than 32 numbers in any order and
  for increasing numbers, given packers that keep increasing groups.  No page that was in use changes.
\<close>

theorem blocklist_roundtrip:
  assumes "packers_ok ps" "\<forall>b\<in>set bs. 0 < b \<and> b < 2 ^ 32"
    and "length (remdups_adj bs) < 32 \<or> sorted_wrt (<) (remdups_adj bs)"
    and "fsm_ok env fsm U [] (Suc (length bs) + n) s"
  shows "\<exists>bl s' r. push_all ps bl_default bs = Some bl \<and> bl_finish (new_buffer env fsm) ps s bl = Some (s', r) \<and>
     bl_read ps s' (case r of None \<Rightarrow> InvalidBlockNumber | Some b \<Rightarrow> b) = Some (remdups_adj bs) \<and> (\<forall>x\<in>U. s' ! x = s ! x)"
proof -
  have pk: "packable None (remdups_adj bs)" using assms(2,3) by (auto simp: packable_def above_def unwrap_or_0_def)
  have "0 \<notin> set bs" using assms(2) by auto
  with push_all_ok [OF assms(1) built_default, of bs] pk foldl_add_block [of "[]" bs] obtain bl
    where bl: "push_all ps bl_default bs = Some bl" "built ps bl (remdups_adj bs)" by auto
  have "fsm_ok env fsm U [] (Suc (length (remdups_adj bs)) + n) s"
    by (rule fsmb.ok_mono [OF assms(4)]) (use remdups_adj_length [of bs] in simp)
  from fsmb.bl_finish_ok [OF assms(1) bl(2) pk this] obtain s' r pgs where
    "bl_finish (new_buffer env fsm) ps s bl = Some (s', r)" "\<forall>x\<in>U. s' ! x = s ! x"
    "bl_pages ps s' (case r of None \<Rightarrow> InvalidBlockNumber | Some b \<Rightarrow> b) pgs (remdups_adj bs)" by blast
  with bl(1) bl_pages_read show ?thesis by blast
qed

text \<open>A packer that stores every number in four bytes.\<close>

definition raw_packer :: "nat \<Rightarrow> bit_packer" where
  "raw_packer len =
     \<lparr>num_bits_sorted = (\<lambda>_ _. 32), num_bits_strictly_sorted = (\<lambda>_ _. 32),
      compress_sorted = (\<lambda>_ sl _. concat (map to_le_bytes sl)), compress_strictly_sorted = (\<lambda>_ sl _. concat (map to_le_bytes sl)),
      decompress_sorted = (\<lambda>_ bs _. case read_values len bs of None \<Rightarrow> ([], 0) | Some (vs, _) \<Rightarrow> (vs, 4 * len)),
      decompress_strictly_sorted = (\<lambda>_ bs _. case read_values len bs of None \<Rightarrow> ([], 0) | Some (vs, _) \<Rightarrow> (vs, 4 * len))\<rparr>"

definition raw_packers :: packers where
  "raw_packers = \<lparr>packer_1x = raw_packer BLOCK_LEN_1x, packer_4x = raw_packer BLOCK_LEN_4x, packer_8x = raw_packer BLOCK_LEN_8x\<rparr>"

lemma raw_packers_ok: "packers_ok raw_packers"
proof -
  have "packs_strictly (raw_packer len) len" for len
    using read_values_append by (auto simp: packs_strictly_def raw_packer_def concat_le_bytes_length)
  moreover have "packs_size (raw_packer len) len" for len
    by (auto simp: packs_size_def raw_packer_def concat_le_bytes_length)
  ultimately show ?thesis by (simp add: packers_ok_def raw_packers_def)
qed

theorem blocklist_roundtrip_witness:
  "\<exists>bl s' b. push_all raw_packers bl_default [4..<204] = Some bl \<and> bl_finish (new_buffer ex_env 1) raw_packers ex_pool bl = Some (s', Some b) \<and>
     bl_read raw_packers s' b = Some [4..<204]"
proof -
  have "remdups_adj [4..<204] = [4..<204]" by (intro remdups_adj_distinct distinct_upt)
  moreover have "fsm_ok ex_env 1 {} [] (Suc (length [4..<204]) + 0) ex_pool" by (rule ex_pool_ok) simp_all
  ultimately obtain bl s' r where w: "push_all raw_packers bl_default [4..<204] = Some bl"
    "bl_finish (new_buffer ex_env 1) raw_packers ex_pool bl = Some (s', r)"
    "bl_read raw_packers s' (case r of None \<Rightarrow> InvalidBlockNumber | Some b \<Rightarrow> b) = Some [4..<204]"
    using blocklist_roundtrip [OF raw_packers_ok, of "[4..<204]" ex_env 1 "{}" 0 ex_pool] by (auto simp del: upt_rec_numeral)
  have "[] \<noteq> [4 :: nat..<204]" by simp
  then obtain b where "r = Some b" using w(3) by (cases r) (auto simp: bl_read_def simp del: upt_rec_numeral)
  then show ?thesis using w by (auto simp del: upt_rec_numeral)
qed

end
