(* ===== verification/Linked_Bytes.thy ===== *)
theory Linked_Bytes
  imports Block_List F64
begin

text \<open>
  Lists of bytes on pages, \<^verbatim>\<open>linked_bytes.rs\<close>: a header page, a chain of pages that are full but for the last
  one, and a block list that gives the block of the \<open>n\<close>-th page.

  The functions that need new pages take the operations of the buffer manager as arguments; the
  theorems instantiate them with those of \<^verbatim>\<open>buffer.rs\<close>.
\<close>

section \<open>The model\<close>

text \<open>The trait \<open>LinkedList\<close>.  A header that was only initialised reads as zero bytes.\<close>

definition get_linked_list_data :: "store \<Rightarrow> block_number \<Rightarrow> linked_list_data option" where
  "get_linked_list_data s hdr = do {
     c \<leftarrow> body_of s hdr;
     (case c of
        ListHeader d \<Rightarrow> Some d
      | Blank \<Rightarrow> Some \<lparr>ll_start = 0, ll_last = 0, ll_blocklist = 0\<rparr>
      | _ \<Rightarrow> None)
   }"

definition get_start_blockno :: "store \<Rightarrow> block_number \<Rightarrow> block_number option" where
  "get_start_blockno s hdr = do {
     d \<leftarrow> get_linked_list_data s hdr;
     (if ll_start d \<noteq> 0 \<and> ll_start d \<noteq> InvalidBlockNumber then Some (ll_start d) else None)
   }"

definition get_last_blockno :: "store \<Rightarrow> block_number \<Rightarrow> block_number option" where
  "get_last_blockno s hdr = do {
     d \<leftarrow> get_linked_list_data s hdr;
     (if ll_last d \<noteq> 0 \<and> ll_last d \<noteq> InvalidBlockNumber then Some (ll_last d) else None)
   }"

record linked_bytes =
  lb_header :: block_number
  lb_reader :: "block_number list option"
  lb_cache :: "(nat \<times> u8 list) list"

definition lb_open :: "block_number \<Rightarrow> linked_bytes" where
  "lb_open hdr = \<lparr>lb_header = hdr, lb_reader = None, lb_cache = []\<rparr>"

definition lb_create_without_fsm :: "store \<Rightarrow> (store \<times> block_number) option" where
  "lb_create_without_fsm s = do {
     (s, hdr) \<leftarrow> init_new_buffer s;
     (s, start) \<leftarrow> init_new_buffer s;
     s \<leftarrow> set_body s hdr (ListHeader \<lparr>ll_start = start, ll_last = start, ll_blocklist = InvalidBlockNumber\<rparr>);
     Some (s, hdr)
   }"

definition lb_create_with_fsm ::
  "(store \<Rightarrow> nat \<Rightarrow> (store \<times> 'it) option) \<Rightarrow> (store \<Rightarrow> 'it \<Rightarrow> (store \<times> 'it \<times> block_number option) option) \<Rightarrow>
     store \<Rightarrow> (store \<times> linked_bytes) option" where
  "lb_create_with_fsm allocs next_alloc s = do {
     (s, it) \<leftarrow> allocs s 2;
     (s, it, hdr) \<leftarrow> next_alloc s it;
     hdr \<leftarrow> hdr;
     (s, it, start) \<leftarrow> next_alloc s it;
     start \<leftarrow> start;
     s \<leftarrow> init_page s hdr;
     s \<leftarrow> init_page s start;
     s \<leftarrow> set_body s hdr (ListHeader \<lparr>ll_start = start, ll_last = start, ll_blocklist = InvalidBlockNumber\<rparr>);
     Some (s, lb_open hdr)
   }"

subsection \<open>Writing\<close>

record bytes_writer =
  bw_list :: linked_bytes
  bw_blocklist :: block_list
  bw_last :: block_number

definition lb_writer :: "store \<Rightarrow> linked_bytes \<Rightarrow> bytes_writer option" where
  "lb_writer s lb = do {
     lst \<leftarrow> get_last_blockno s (lb_header lb);
     Some \<lparr>bw_list = lb, bw_blocklist = bl_default, bw_last = lst\<rparr>
   }"

definition bytes_on :: "store \<Rightarrow> block_number \<Rightarrow> u8 list option" where
  "bytes_on s b = do { c \<leftarrow> body_of s b; page_bytes c }"

definition new_buffers_needed :: "nat \<Rightarrow> nat \<Rightarrow> nat" where
  "new_buffers_needed len free =
     unat (f64_to_u64 (f64_ceil (f64_div (f64_of_nat (len - free)) (f64_of_nat bm25_max_free_space))))"

text \<open>The loop of \<open>write\<close>; the last argument is what has not been written yet.\<close>

partial_function (option) write_loop ::
  "(store \<Rightarrow> 'it \<Rightarrow> (store \<times> 'it \<times> block_number option) option) \<Rightarrow> packers \<Rightarrow> store \<Rightarrow> 'it \<Rightarrow> block_list \<Rightarrow> block_number \<Rightarrow> u8 list \<Rightarrow>
     (store \<times> block_list \<times> block_number) option"
where
  "write_loop next_alloc ps s it bl lst bytes =
     (if bytes = [] then Some (s, bl, lst)
      else do {
        bl \<leftarrow> bl_push ps bl lst;
        page \<leftarrow> bytes_on s lst;
        let free = free_space page;
        if free > bm25_max_free_space then None
        else do {
          let n = min free (length bytes);
          if n = 0
          then do {
            (s, it, new_blockno) \<leftarrow> next_alloc s it;
            new_blockno \<leftarrow> new_blockno;
            s \<leftarrow> set_next s lst new_blockno;
            s \<leftarrow> init_page s new_blockno;
            write_loop next_alloc ps s it bl new_blockno bytes
          }
          else do {
            (s, fits) \<leftarrow> append_bytes s lst (take n bytes);
            if fits then write_loop next_alloc ps s it bl lst (drop n bytes) else None
          }
        }
      })"

lemmas [code] = write_loop.simps

definition bw_write ::
  "(store \<Rightarrow> nat \<Rightarrow> (store \<times> 'it) option) \<Rightarrow> (store \<Rightarrow> 'it \<Rightarrow> (store \<times> 'it \<times> block_number option) option) \<Rightarrow> packers \<Rightarrow>
     store \<Rightarrow> bytes_writer \<Rightarrow> u8 list \<Rightarrow> (store \<times> bytes_writer) option" where
  "bw_write allocs next_alloc ps s w bytes = do {
     page \<leftarrow> bytes_on s (bw_last w);
     (s, it) \<leftarrow> allocs s (new_buffers_needed (length bytes) (free_space page));
     (s, bl, lst) \<leftarrow> write_loop next_alloc ps s it (bw_blocklist w) (bw_last w) bytes;
     Some (s, w\<lparr>bw_blocklist := bl, bw_last := lst\<rparr>)
   }"

definition finalize_and_write ::
  "(store \<Rightarrow> (store \<times> block_number) option) \<Rightarrow> packers \<Rightarrow> store \<Rightarrow> bytes_writer \<Rightarrow> (store \<times> linked_bytes) option" where
  "finalize_and_write alloc ps s w = do {
     let hdr = lb_header (bw_list w);
     d \<leftarrow> get_linked_list_data s hdr;
     let d = d\<lparr>ll_last := bw_last w\<rparr>;
     s \<leftarrow> set_body s hdr (ListHeader d);
     (s, start) \<leftarrow> bl_finish alloc ps s (bw_blocklist w);
     s \<leftarrow> (case start of None \<Rightarrow> Some s | Some b \<Rightarrow> set_body s hdr (ListHeader (d\<lparr>ll_blocklist := b\<rparr>)));
     Some (s, bw_list w)
   }"

subsection \<open>Reading\<close>

partial_function (option) read_pages :: "store \<Rightarrow> block_number \<Rightarrow> u8 list option" where
  "read_pages s blockno =
     (if blockno = InvalidBlockNumber then Some []
      else do {
        bytes \<leftarrow> bytes_on s blockno;
        next \<leftarrow> next_blockno s blockno;
        more \<leftarrow> read_pages s next;
        Some (bytes @ more)
      })"

lemmas [code] = read_pages.simps

definition read_all :: "store \<Rightarrow> linked_bytes \<Rightarrow> u8 list option" where
  "read_all s lb = do { start \<leftarrow> get_start_blockno s (lb_header lb); read_pages s start }"

definition lb_is_empty :: "store \<Rightarrow> linked_bytes \<Rightarrow> bool option" where
  "lb_is_empty s lb = do { start \<leftarrow> get_start_blockno s (lb_header lb); bytes \<leftarrow> bytes_on s start; Some (bytes = []) }"

text \<open>\<open>block_for_ord\<close> reads the block list once and keeps it.\<close>

definition block_for_ord :: "packers \<Rightarrow> store \<Rightarrow> linked_bytes \<Rightarrow> nat \<Rightarrow> (linked_bytes \<times> block_number option) option" where
  "block_for_ord ps s lb i = do {
     blocks \<leftarrow> (case lb_reader lb of
         Some blocks \<Rightarrow> Some blocks
       | None \<Rightarrow> do { d \<leftarrow> get_linked_list_data s (lb_header lb); bl_read ps s (ll_blocklist d) });
     Some (lb\<lparr>lb_reader := Some blocks\<rparr>, get_at blocks i)
   }"

definition BLOCK_CACHE_SIZE :: nat where "BLOCK_CACHE_SIZE = 16"

text \<open>The position of the last entry for a page, as \<open>rposition\<close> finds it.\<close>

fun rposition :: "(nat \<times> u8 list) list \<Rightarrow> nat \<Rightarrow> nat option" where
  "rposition [] i = None"
| "rposition (e # es) i = (case rposition es i of Some p \<Rightarrow> Some (Suc p) | None \<Rightarrow> if fst e = i then Some 0 else None)"

definition get_bytes_range_block ::
  "packers \<Rightarrow> store \<Rightarrow> linked_bytes \<Rightarrow> nat \<Rightarrow> (linked_bytes \<times> u8 list) option" where
  "get_bytes_range_block ps s lb i = (case rposition (lb_cache lb) i of
      Some p \<Rightarrow> do {
        e \<leftarrow> get_at (lb_cache lb) p;
        Some (lb\<lparr>lb_cache := take p (lb_cache lb) @ drop (Suc p) (lb_cache lb) @ [e]\<rparr>, snd e)
      }
    | None \<Rightarrow> do {
        (lb, blockno) \<leftarrow> block_for_ord ps s lb i;
        blockno \<leftarrow> blockno;
        bytes \<leftarrow> bytes_on s blockno;
        let cache = (if length (lb_cache lb) \<ge> BLOCK_CACHE_SIZE then tl (lb_cache lb) else lb_cache lb);
        Some (lb\<lparr>lb_cache := cache @ [(i, bytes)]\<rparr>, bytes)
      })"

text \<open>\<open>as_slice_range\<close> reads the page without looking at \<open>pd_lower\<close>; what was never written is zero.\<close>

definition as_slice_range :: "u8 list \<Rightarrow> nat \<Rightarrow> nat \<Rightarrow> u8 list option" where
  "as_slice_range bytes off len =
     (let page = bytes @ replicate (bm25_max_free_space - length bytes) 0
      in if off + len \<le> length page then Some (take len (drop off page)) else None)"

partial_function (option) range_loop ::
  "store \<Rightarrow> nat \<Rightarrow> nat \<Rightarrow> block_number \<Rightarrow> u8 list \<Rightarrow> nat \<Rightarrow> u8 list option"
where
  "range_loop s start len blockno data remaining =
     (if length data \<noteq> len \<and> blockno \<noteq> InvalidBlockNumber
      then do {
        let slice_start = (if data = [] then start mod bm25_max_free_space else 0);
        let slice_len = min (bm25_max_free_space - slice_start) remaining;
        bytes \<leftarrow> bytes_on s blockno;
        sl \<leftarrow> as_slice_range bytes slice_start slice_len;
        next \<leftarrow> next_blockno s blockno;
        range_loop s start len next (data @ sl) (remaining - slice_len)
      }
      else Some data)"

lemmas [code] = range_loop.simps

definition get_bytes_range :: "packers \<Rightarrow> store \<Rightarrow> linked_bytes \<Rightarrow> nat \<Rightarrow> nat \<Rightarrow> (linked_bytes \<times> u8 list) option" where
  "get_bytes_range ps s lb start stop =
     (if \<not> start < stop then Some (lb, [])
      else do {
        let start_ord = start div bm25_max_free_space;
        let end_ord = (stop - 1) div bm25_max_free_space;
        if start_ord = end_ord
        then do {
          (lb, bytes) \<leftarrow> get_bytes_range_block ps s lb start_ord;
          let slice_start = start mod bm25_max_free_space;
          let slice_end = slice_start + (stop - start);
          if slice_end \<le> length bytes then Some (lb, take (slice_end - slice_start) (drop slice_start bytes)) else None
        }
        else do {
          (lb, blockno) \<leftarrow> block_for_ord ps s lb start_ord;
          blockno \<leftarrow> blockno;
          data \<leftarrow> range_loop s start (stop - start) blockno [] (stop - start);
          Some (lb, data)
        }
      })"

subsection \<open>Freeing\<close>

definition lb_freeable_blocks :: "packers \<Rightarrow> store \<Rightarrow> linked_bytes \<Rightarrow> block_number list option" where
  "lb_freeable_blocks ps s lb = do {
     d \<leftarrow> get_linked_list_data s (lb_header lb);
     blocks \<leftarrow> (case lb_reader lb of Some blocks \<Rightarrow> Some blocks | None \<Rightarrow> bl_read ps s (ll_blocklist d));
     own \<leftarrow> walk_pages s (ll_blocklist d);
     Some (blocks @ [lb_header lb] @ own)
   }"

definition lb_return_to_fsm :: "fsm_env \<Rightarrow> packers \<Rightarrow> store \<Rightarrow> block_number \<Rightarrow> linked_bytes \<Rightarrow> store option" where
  "lb_return_to_fsm env ps s fsm lb = do {
     blocks \<leftarrow> lb_freeable_blocks ps s lb;
     fsm_extend env s fsm blocks
   }"

section \<open>Pages of bytes\<close>

definition pages_for :: "nat \<Rightarrow> nat \<Rightarrow> nat" where
  "pages_for len free = (len - free + bm25_max_free_space - 1) div bm25_max_free_space"

lemma max_free_space [simp]: "0 < bm25_max_free_space" "bm25_max_free_space < 8192" "bm25_max_free_space \<noteq> 0"
  by (simp_all add: bm25_max_free_space_def BLCKSZ_def)

text \<open>The number of buffers, computed in \<open>f64\<close>, is exact below \<open>2 ^ 39\<close> bytes.\<close>

lemma new_buffers_needed_exact:
  assumes "len < 2 ^ 39"
  shows "new_buffers_needed len free = pages_for len free"
proof -
  let ?n = "len - free" and ?b = bm25_max_free_space
  let ?k = "(?n + ?b - 1) div ?b"
  have n: "?n < 2 ^ 39" using assms by simp
  have c: "\<lceil>f64_round (of_nat ?n / of_nat ?b)\<rceil> = int ?k" by (rule f64_ceil_div [of _ _ 13]) (use n in simp_all)
  have rn: "f64_round (of_nat ?n) = of_nat ?n" "f64_round (of_nat ?b) = of_nat ?b"
    by (rule f64_round_nat, use n in simp) (rule f64_round_nat, rule less_trans [OF max_free_space(2)], simp)
  have "?k \<le> ?n + ?b - 1" by (rule div_le_dividend)
  also have "\<dots> < 2 ^ 39 + 8192" using n max_free_space(2) by linarith
  finally have k: "?k < 2 ^ 40" by simp
  then have "(of_nat ?k :: rat) < of_nat (2 ^ 64)" by (simp only: of_nat_less_iff) simp
  moreover have "unat (of_nat ?k :: u64) = ?k" unfolding unsigned_of_nat of_nat_id using k by (intro take_bit_nat_eq_self) simp
  ultimately show ?thesis
    unfolding new_buffers_needed_def pages_for_def f64_of_nat_def f64_div_def f64_ceil_def f64_to_u64_def rn
    by (simp add: c)
qed

lemma pages_for_0 [simp]: "len \<le> free \<Longrightarrow> pages_for len free = 0"
  by (simp add: pages_for_def)

lemma pages_for_full:
  assumes "0 < len"
  shows "pages_for len 0 = Suc (pages_for len bm25_max_free_space)"
proof (cases "len \<le> bm25_max_free_space")
  case True
  then have "(len + bm25_max_free_space - 1) div bm25_max_free_space = 1" using assms by (intro div_nat_eqI) simp_all
  then show ?thesis using True by (simp add: pages_for_def)
next
  case False
  then have "len + bm25_max_free_space - 1 = (len - bm25_max_free_space + bm25_max_free_space - 1) + bm25_max_free_space" by simp
  then show ?thesis unfolding pages_for_def by (metis diff_zero div_add_self2 max_free_space(1) nat_less_le Suc_eq_plus1)
qed

lemma pages_for_step: "n \<le> len \<Longrightarrow> n \<le> free \<Longrightarrow> pages_for (len - n) (free - n) = pages_for len free"
  by (simp add: pages_for_def)

definition lb_data :: "store \<Rightarrow> block_number list \<Rightarrow> u8 list list \<Rightarrow> bool" where
  "lb_data s pgs bss \<longleftrightarrow> pgs \<noteq> [] \<and> pages_from s (hd pgs) pgs \<and> distinct pgs \<and> list_all2 (\<lambda>b x. bytes_on s b = Some x) pgs bss \<and>
     (\<forall>x\<in>set (butlast bss). length x = bm25_max_free_space) \<and> length (last bss) \<le> bm25_max_free_space"

lemma bytes_on_in: "b < length s \<Longrightarrow> bytes_on s b = page_bytes (pg_body (s ! b))"
  by (simp add: bytes_on_def)

lemma bytes_on_other: "b \<noteq> l \<Longrightarrow> bytes_on (s[l := p]) b = bytes_on s b"
  by (simp add: bytes_on_def body_of_def get_at_def)

lemma lb_data_last:
  assumes "lb_data s pgs bss"
  obtains P l B x where "pgs = P @ [l]" "bss = B @ [x]" "list_all2 (\<lambda>b x. bytes_on s b = Some x) P B"
    "bytes_on s l = Some x" "\<forall>x\<in>set B. length x = bm25_max_free_space" "length x \<le> bm25_max_free_space"
    "l < length s" "l \<noteq> InvalidBlockNumber" "lseg s (hd pgs) P l" "pg_next (s ! l) = InvalidBlockNumber" "l \<notin> set P" "distinct P"
proof -
  note d = assms [unfolded lb_data_def]
  then obtain P l where p: "pgs = P @ [l]" by (metis append_butlast_last_id)
  then obtain B x where b: "bss = B @ [x]" "list_all2 (\<lambda>b x. bytes_on s b = Some x) P B" "bytes_on s l = Some x"
    using d by (auto simp: list_all2_append1 list_all2_Cons1)
  show ?thesis by (rule that [OF p b]) (use d p b(1) in \<open>auto simp: lseg_snoc simp del: hd_append2\<close>)
qed

lemma lb_data_append:
  assumes "lb_data s (P @ [l]) (B @ [x])" "length x + length y \<le> bm25_max_free_space"
  shows "append_bytes s l y = Some (s[l := (s ! l)\<lparr>pg_body := Bytes (x @ y)\<rparr>], True)"
    "lb_data (s[l := (s ! l)\<lparr>pg_body := Bytes (x @ y)\<rparr>]) (P @ [l]) (B @ [x @ y])"
proof -
  let ?s = "s[l := (s ! l)\<lparr>pg_body := Bytes (x @ y)\<rparr>]"
  have x: "bytes_on s l = Some x" and l: "l < length s" "l \<notin> set P" and P: "list_all2 (\<lambda>b x. bytes_on s b = Some x) P B"
    by (rule lb_data_last [OF assms(1)]; simp)+
  have pb: "page_bytes (pg_body (s ! l)) = Some x" using x l by (simp add: bytes_on_in)
  show "append_bytes s l y = Some (?s, True)" by (rule append_bytes_ok [OF l(1) pb assms(2)])
  have "list_all2 (\<lambda>b x. bytes_on ?s b = Some x) P B"
    by (rule list.rel_mono_strong [OF P]) (metis l(2) bytes_on_other)
  moreover have "bytes_on ?s l = Some (x @ y)" using l(1) by (simp add: bytes_on_in page_bytes_def)
  ultimately show "lb_data ?s (P @ [l]) (B @ [x @ y])"
    using assms unfolding lb_data_def by (simp add: list_all2_appendI)
qed


lemma lb_data_new_page:
  assumes "lb_data s (P @ [l]) (B @ [x])" "length x = bm25_max_free_space" "nb \<notin> set (P @ [l])" "nb < length s1" "nb \<noteq> InvalidBlockNumber"
    and "\<forall>b\<in>set (P @ [l]). s1 ! b = s ! b" "length s \<le> length s1"
  shows "lb_data (s1[l := (s1 ! l)\<lparr>pg_next := nb\<rparr>, nb := blank_page]) ((P @ [l]) @ [nb]) ((B @ [x]) @ [[]])"
proof -
  let ?s = "s1[l := (s1 ! l)\<lparr>pg_next := nb\<rparr>, nb := blank_page]"
  have x: "bytes_on s l = Some x" and l: "l < length s" "l \<notin> set P" "l \<noteq> InvalidBlockNumber"
    and P: "list_all2 (\<lambda>b x. bytes_on s b = Some x) P B" "lseg s (hd (P @ [l])) P l" "distinct P"
    by (rule lb_data_last [OF assms(1)]; simp)+
  have same: "?s ! b = s ! b" if "b \<in> set P" for b using that assms(3,6) l(2) by (auto simp: nth_update_outside [of b "set P"])
  have bl: "b < length s" if "b \<in> set P" for b using lseg_bound [OF P(2) that] by simp
  have "list_all2 (\<lambda>b x. bytes_on ?s b = Some x) P B"
    by (rule list.rel_mono_strong [OF P(1)]) (use bl same assms(7) in \<open>fastforce simp: bytes_on_in\<close>)
  moreover have ll: "?s ! l = (s ! l)\<lparr>pg_next := nb\<rparr>" using assms(3,6,7) l(1) by simp
  then have "bytes_on ?s l = Some x" using x l(1) assms(7) by (simp add: bytes_on_in)
  moreover have "bytes_on ?s nb = Some []" using assms(4) by (simp add: bytes_on_in page_bytes_def)
  ultimately have la: "list_all2 (\<lambda>b x. bytes_on ?s b = Some x) ((P @ [l]) @ [nb]) ((B @ [x]) @ [[]])" by (simp add: list_all2_appendI)
  have "lseg ?s (hd (P @ [l])) P l" by (rule lseg_cong [OF P(2)]) (use bl same assms(7) in fastforce)
  then have "pages_from ?s (hd (P @ [l])) ((P @ [l]) @ [nb])"
    using ll l assms(3-5,7) by (simp add: lseg_append)
  then show ?thesis using la assms(1-3) unfolding lb_data_def by (auto simp: hd_append butlast_append split: if_splits)
qed


section \<open>Writing\<close>

text \<open>
  The builder knows the pages of the list, the last one from the moment something was written to
  it, provided that they can be packed.
\<close>

definition tracked :: "packers \<Rightarrow> block_list \<Rightarrow> block_number list \<Rightarrow> bool \<Rightarrow> bool" where
  "tracked ps bl pgs pushed \<longleftrightarrow> length (bl_queue bl) \<le> BLOCK_LEN_4x \<and>
     (packable None pgs \<longrightarrow> built ps bl (if pushed then pgs else butlast pgs))"

lemma tracked_push:
  assumes "packers_ok ps" "tracked ps bl (P @ [l]) pushed" "distinct (P @ [l])" "0 < l"
  shows "\<exists>bl'. bl_push ps bl l = Some bl' \<and> tracked ps bl' (P @ [l]) True"
proof -
  obtain bl' where b: "bl_push ps bl l = Some bl'" "length (bl_queue bl') \<le> BLOCK_LEN_4x"
    using bl_push_total [OF assms(1) _ assms(4)] assms(2) unfolding tracked_def by blast
  have add: "add_block (if pushed then P @ [l] else P) l = P @ [l]"
    using assms(3) by (cases "P = []") (auto simp: add_block_def last_opt_def)
  have "built ps bl' (P @ [l])" if "packable None (P @ [l])"
    using bl_push_ok [OF assms(1), of bl "if pushed then P @ [l] else P" l] assms(2,4) that b(1) add
    by (cases pushed) (auto simp: tracked_def)
  then show ?thesis using b by (auto simp: tracked_def)
qed

lemma tracked_new: "tracked ps bl pgs True \<Longrightarrow> tracked ps bl (pgs @ [b]) False"
  using packable_prefix [of pgs "[b]"] by (auto simp: tracked_def)

definition bytes_grown ::
  "packers \<Rightarrow> block_number set \<Rightarrow> store \<Rightarrow> block_number list \<Rightarrow> u8 list list \<Rightarrow> bool \<Rightarrow> u8 list \<Rightarrow> store \<Rightarrow> block_list \<Rightarrow> block_number list \<Rightarrow> bool" where
  "bytes_grown ps U s pgs bss pushed bytes s' bl' new \<longleftrightarrow>
     (\<exists>bss'. lb_data s' (pgs @ new) bss' \<and> concat bss' = concat bss @ bytes) \<and> set new \<inter> U = {} \<and>
     (\<forall>x\<in>U - set pgs. s' ! x = s ! x) \<and> length s \<le> length s' \<and> tracked ps bl' (pgs @ new) (pushed \<or> bytes \<noteq> [])"

context buffer_manager
begin

lemma write_loop_ok:
  assumes "packers_ok ps"
  shows "iter_ok U it k n s \<Longrightarrow> insert 0 (set pgs) \<subseteq> U \<Longrightarrow> 0 \<notin> set pgs \<Longrightarrow> lb_data s pgs bss \<Longrightarrow> tracked ps bl pgs pushed \<Longrightarrow>
     k = pages_for (length bytes) (bm25_max_free_space - length (last bss)) \<Longrightarrow>
     \<exists>s' bl' new. write_loop next_alloc ps s it bl (last pgs) bytes = Some (s', bl', last (pgs @ new)) \<and>
       bytes_grown ps U s pgs bss pushed bytes s' bl' new \<and> ok (U \<union> set new) n s' \<and> length new = k"
proof (induction "k + length bytes" arbitrary: U it k s pgs bss bl pushed bytes rule: less_induct)
  case less
  note prem = less.prems
  show ?case
  proof (cases "bytes = []")
    case True
    then have k: "k = 0" using prem(6) by simp
    then have "bytes_grown ps U s pgs bss pushed [] s bl []" using prem(4,5) True by (auto simp: bytes_grown_def)
    then show ?thesis using True k iter_end prem(1)
      by (intro exI [of _ s] exI [of _ bl] exI [of _ "[]"]) (simp add: write_loop.simps)
  next
    case False
    obtain P l B x where d: "pgs = P @ [l]" "bss = B @ [x]" "bytes_on s l = Some x" "length x \<le> bm25_max_free_space"
      "l < length s" "distinct (P @ [l])" by (rule lb_data_last [OF prem(4)]) simp
    have l0: "0 < l" using prem(3) d(1) by (cases l) auto
    obtain bl1 where bl1: "bl_push ps bl l = Some bl1" "tracked ps bl1 pgs True"
      using tracked_push [OF assms _ d(6) l0, of bl pushed] prem(5) d(1) by blast
    have fs: "free_space x = bm25_max_free_space - length x" by (rule free_space_ok [OF d(4)])
    show ?thesis
    proof (cases "length x = bm25_max_free_space")
      case full: True
      then obtain k' where k': "k = Suc k'" "k' = pages_for (length bytes) bm25_max_free_space"
        using pages_for_full [of "length bytes"] False prem(6) d(2) by simp
      obtain s1 it1 nb where a: "next_alloc s it = Some (s1, it1, Some nb)" "gives U s s1 nb" "iter_ok (insert nb U) it1 k' n s1"
        using next_law [of U it k' n s] prem(1) k'(1) by blast
      note g = a(2) [unfolded gives_def]
      define s2 where "s2 = s1[l := (s1 ! l)\<lparr>pg_next := nb\<rparr>, nb := blank_page]"
      have lU: "set (P @ [l]) \<subseteq> U" "l \<noteq> nb" "l < length s1" using prem(2) d(1,5) g by auto
      have d2: "lb_data s2 (pgs @ [nb]) (bss @ [[]])"
        unfolding s2_def d(1,2) using lU g by (intro lb_data_new_page [OF prem(4) [unfolded d(1,2)] full]) auto
      have fr: "frame (insert nb U) s1 s2" unfolding s2_def using lU by (intro frame_step) auto
      have it2: "iter_ok (insert nb U) it1 k' n s2" by (rule iter_frame [OF a(3) fr]) (simp add: s2_def)
      have nU: "nb \<notin> U" using g by simp
      then have "nb \<noteq> 0" using prem(2) by (cases "nb = 0") auto
      then have h: "insert 0 (set (pgs @ [nb])) \<subseteq> insert nb U" "0 \<notin> set (pgs @ [nb])" "nb \<notin> U" using prem(2,3) nU by auto
      have lt: "k' + length bytes < k + length bytes" using k' by simp
      have kk: "k' = pages_for (length bytes) (bm25_max_free_space - length (last (bss @ [[]])))" using k'(2) by simp
      obtain s' bl' new where r: "write_loop next_alloc ps s2 it1 bl1 nb bytes = Some (s', bl', last ((pgs @ [nb]) @ new))"
        "bytes_grown ps (insert nb U) s2 (pgs @ [nb]) (bss @ [[]]) False bytes s' bl' new" "ok (insert nb U \<union> set new) n s'" "length new = k'"
        using less.hyps [OF lt it2 h(1,2) d2 tracked_new [OF bl1(2)] kk] by (simp only: last_snoc) blast
      note gr = r(2) [unfolded bytes_grown_def append_assoc append_Cons append_Nil]
      have eq: "\<forall>b\<in>U - set pgs. s' ! b = s ! b"
      proof
        fix b assume b: "b \<in> U - set pgs"
        then have "b \<noteq> l" "b \<noteq> nb" using h(3) d(1) by auto
        moreover from this b have "s' ! b = s2 ! b" using gr by simp
        ultimately show "s' ! b = s ! b" using b g by (simp add: s2_def)
      qed
      have "bytes_grown ps U s pgs bss pushed bytes s' bl' (nb # new)"
        unfolding bytes_grown_def using gr eq g h(3) False by (simp add: s2_def)
      moreover have "write_loop next_alloc ps s it bl (last pgs) bytes = Some (s', bl', last (pgs @ nb # new))"
        using bl1(1) d(1,3,5) fs full a(1) lU(2,3) g r(1) False
        by (subst write_loop.simps) (simp add: s2_def Let_def list_update_swap)
      ultimately show ?thesis using r(3,4) k'(1) by (intro exI [of _ s'] exI [of _ bl'] exI [of _ "nb # new"]) simp
    next
      case room: False
      define m where "m = min (bm25_max_free_space - length x) (length bytes)"
      have m: "0 < m" "m \<le> length bytes" "m \<le> bm25_max_free_space - length x" using room d(4) False by (auto simp: m_def)
      define s2 where "s2 = s[l := (s ! l)\<lparr>pg_body := Bytes (x @ take m bytes)\<rparr>]"
      have fit: "length x + length (take m bytes) \<le> bm25_max_free_space" using m d(4) by simp
      note ap = lb_data_append [OF prem(4) [unfolded d(1,2)] fit, folded s2_def]
      have it2: "iter_ok U it k n s2" unfolding s2_def by (rule iter_frame [OF prem(1)]) (use prem(2) d(1) in auto)
      have kk: "k = pages_for (length (drop m bytes)) (bm25_max_free_space - length (last (B @ [x @ take m bytes])))"
        using prem(6) m pages_for_step [of m "length bytes" "bm25_max_free_space - length x"] d(2) by simp
      have lt: "k + length (drop m bytes) < k + length bytes" using m by simp
      obtain s' bl' new where r: "write_loop next_alloc ps s2 it bl1 (last pgs) (drop m bytes) = Some (s', bl', last (pgs @ new))"
        "bytes_grown ps U s2 pgs (B @ [x @ take m bytes]) True (drop m bytes) s' bl' new" "ok (U \<union> set new) n s'" "length new = k"
        using less.hyps [OF lt it2 prem(2,3) ap(2) [folded d(1)] bl1(2) kk] by blast
      have "bytes_grown ps U s pgs bss pushed bytes s' bl' new"
        using r(2) False d(1,2) unfolding bytes_grown_def by (auto simp: s2_def)
      moreover have "write_loop next_alloc ps s it bl (last pgs) bytes = Some (s', bl', last (pgs @ new))"
        using bl1(1) d(1,3) fs m ap(1) r(1) False by (subst write_loop.simps) (simp add: Let_def flip: m_def)
      ultimately show ?thesis using r(3,4) by blast
    qed
  qed
qed

end

definition header_of :: "store \<Rightarrow> block_number \<Rightarrow> linked_list_data \<Rightarrow> bool" where
  "header_of s h d \<longleftrightarrow> h < length s \<and> pg_body (s ! h) = ListHeader d"

lemma header_of_data: "header_of s h d \<Longrightarrow> get_linked_list_data s h = Some d"
  by (simp add: header_of_def get_linked_list_data_def)

definition writer_state :: "packers \<Rightarrow> store \<Rightarrow> bytes_writer \<Rightarrow> block_number list \<Rightarrow> u8 list \<Rightarrow> bool \<Rightarrow> bool" where
  "writer_state ps s w pgs bs pushed \<longleftrightarrow> (\<exists>d bss. header_of s (lb_header (bw_list w)) d \<and> ll_start d = hd pgs \<and>
     ll_blocklist d = InvalidBlockNumber \<and> lb_header (bw_list w) \<notin> set pgs \<and> 0 \<notin> set pgs \<and> lb_data s pgs bss \<and> concat bss = bs \<and>
     bw_last w = last pgs \<and> tracked ps (bw_blocklist w) pgs pushed \<and> (\<not> pushed \<longrightarrow> length pgs = 1 \<and> bs = []))"

lemma pages_for_le: "pages_for len free \<le> len"
proof -
  have "(m + bm25_max_free_space - 1) div bm25_max_free_space \<le> m" for m
  proof (cases m)
    case (Suc m')
    have "1 * m' \<le> bm25_max_free_space * m'" by (rule mult_le_mono1) (simp add: Suc_le_eq)
    then have "m' < bm25_max_free_space + bm25_max_free_space * m'" using max_free_space(1) by linarith
    then have "m + bm25_max_free_space - 1 < Suc m * bm25_max_free_space" using Suc by (simp add: algebra_simps)
    then have "(m + bm25_max_free_space - 1) div bm25_max_free_space < Suc m" by (rule less_mult_imp_div_less)
    then show ?thesis by simp
  qed simp
  from this [of "len - free"] show ?thesis by (simp add: pages_for_def)
qed

lemma lb_data_cong:
  assumes "lb_data s pgs bss" "\<And>b. b \<in> set pgs \<Longrightarrow> b < length s' \<and> s' ! b = s ! b"
  shows "lb_data s' pgs bss"
proof -
  note q = assms(1) [unfolded lb_data_def]
  have "list_all2 (\<lambda>b x. bytes_on s b = Some x) pgs bss" "pages_from s (hd pgs) pgs" using q by blast+
  then have "list_all2 (\<lambda>b x. bytes_on s' b = Some x) pgs bss" "pages_from s' (hd pgs) pgs"
    using assms(2) by (auto simp: bytes_on_in elim!: list.rel_mono_strong lseg_cong dest: lseg_bound)
  then show ?thesis using q unfolding lb_data_def by blast
qed

fun bw_write_all ::
  "(store \<Rightarrow> nat \<Rightarrow> (store \<times> 'it) option) \<Rightarrow> (store \<Rightarrow> 'it \<Rightarrow> (store \<times> 'it \<times> block_number option) option) \<Rightarrow> packers \<Rightarrow>
     store \<Rightarrow> bytes_writer \<Rightarrow> u8 list list \<Rightarrow> (store \<times> bytes_writer) option" where
  "bw_write_all allocs next_alloc ps s w [] = Some (s, w)"
| "bw_write_all allocs next_alloc ps s w (x # xs) = do {
     (s, w) \<leftarrow> bw_write allocs next_alloc ps s w x;
     bw_write_all allocs next_alloc ps s w xs
   }"

definition grown :: "block_number set \<Rightarrow> block_number list \<Rightarrow> store \<Rightarrow> store \<Rightarrow> block_number list \<Rightarrow> bool" where
  "grown U pgs s s' new \<longleftrightarrow> set new \<inter> U = {} \<and> (\<forall>x\<in>U - set pgs. s' ! x = s ! x) \<and> length s \<le> length s'"

lemma grown_trans:
  assumes "grown U pgs s s1 n1" "grown (U \<union> set n1) (pgs @ n1) s1 s' n2"
  shows "grown U pgs s s' (n1 @ n2)"
proof -
  note a = assms [unfolded grown_def]
  have "s' ! x = s ! x" if "x \<in> U - set pgs" for x
  proof -
    have "x \<in> U \<union> set n1 - set (pgs @ n1)" using that a(1) by auto
    then show ?thesis using a that by simp
  qed
  then show ?thesis using a unfolding grown_def by auto
qed

context buffer_manager
begin

lemma lb_create_ok:
  assumes "ok U (2 + n) s" "0 \<in> U"
  shows "\<exists>s' w h p. lb_create_with_fsm allocs next_alloc s = Some (s', lb_open h) \<and> lb_writer s' (lb_open h) = Some w \<and>
     writer_state ps s' w [p] [] False \<and> bw_list w = lb_open h \<and> h \<noteq> p \<and> h \<notin> U \<and> p \<notin> U \<and> ok (insert h (insert p U)) n s' \<and>
     (\<forall>x\<in>U. s' ! x = s ! x) \<and> length s \<le> length s'"
proof -
  obtain s1 it where a: "allocs s 2 = Some (s1, it)" "iter_ok U it 2 n s1" "length s \<le> length s1" "\<forall>x\<in>U. s1 ! x = s ! x"
    using allocs_law [OF assms(1)] by blast
  have it: "iter_ok U it (Suc (Suc 0)) n s1" using a(2) by (simp add: numeral_2_eq_2)
  obtain s2 it2 h where b: "next_alloc s1 it = Some (s2, it2, Some h)" "gives U s1 s2 h" "iter_ok (insert h U) it2 (Suc 0) n s2"
    using next_law [OF it] by blast
  obtain s3 it3 p where c: "next_alloc s2 it2 = Some (s3, it3, Some p)" "gives (insert h U) s2 s3 p" "iter_ok (insert p (insert h U)) it3 0 n s3"
    using next_law [OF b(3)] by blast
  have o3: "ok (insert h (insert p U)) n s3" using iter_end [OF c(3)] by (simp add: insert_commute)
  have hp: "h < length s3" "p < length s3" "h \<noteq> p" "h \<notin> U" "p \<notin> U" "h \<noteq> InvalidBlockNumber" "p \<noteq> InvalidBlockNumber"
    "length s \<le> length s3" using a(3) b(2) c(2) by (auto simp: gives_def)
  have same: "s3 ! x = s ! x" if "x \<in> U" for x using that a(4) b(2) c(2) by (auto simp: gives_def)
  have p0: "p \<noteq> 0" using hp(5) assms(2) by (cases "p = 0") auto
  define d where "d = \<lparr>ll_start = p, ll_last = p, ll_blocklist = InvalidBlockNumber\<rparr>"
  define s' where "s' = s3[h := blank_page, p := blank_page, h := blank_page\<lparr>pg_body := ListHeader d\<rparr>]"
  have s': "length s' = length s3" "s' ! h = blank_page\<lparr>pg_body := ListHeader d\<rparr>" "s' ! p = blank_page"
    using hp by (simp_all add: s'_def)
  have hd: "header_of s' h d" using s' hp by (simp add: header_of_def)
  have cr: "lb_create_with_fsm allocs next_alloc s = Some (s', lb_open h)"
    using a(1) b(1) c(1) hp by (simp add: lb_create_with_fsm_def s'_def d_def)
  define w where "w = \<lparr>bw_list = lb_open h, bw_blocklist = bl_default, bw_last = p\<rparr>"
  have wr: "lb_writer s' (lb_open h) = Some w"
    using header_of_data [OF hd] hp(7) p0 by (simp add: lb_writer_def lb_open_def get_last_blockno_def d_def w_def)
  have "lb_data s' [p] [[]]" using s' hp by (auto simp: lb_data_def bytes_on_in page_bytes_def)
  moreover have "tracked ps bl_default [p] False" using built_default by (auto simp: tracked_def bl_default_def)
  ultimately have ws: "writer_state ps s' w [p] [] False"
    unfolding writer_state_def using hd hp(3) p0 by (intro exI [of _ d] exI [of _ "[[]]"]) (simp add: w_def lb_open_def d_def)
  have "frame (insert h (insert p U)) s3 s'" unfolding s'_def by (intro frame_step) simp_all
  then have "ok (insert h (insert p U)) n s'" using ok_frame [OF o3] s'(1) by simp
  moreover have "\<forall>x\<in>U. s' ! x = s ! x" using same hp(4,5) by (auto simp: s'_def nth_update_outside [of _ U])
  ultimately show ?thesis using cr wr ws hp s'(1) by (intro exI [of _ s'] exI [of _ w] exI [of _ h] exI [of _ p]) (simp add: w_def)
qed

lemma bw_write_ok:
  assumes "packers_ok ps" "ok U (length bytes + n) s" "writer_state ps s w pgs bs pushed" "length bytes < 2 ^ 39"
    and "insert 0 (insert (lb_header (bw_list w)) (set pgs)) \<subseteq> U"
  shows "\<exists>s' w' new. bw_write allocs next_alloc ps s w bytes = Some (s', w') \<and> bw_list w' = bw_list w \<and>
     writer_state ps s' w' (pgs @ new) (bs @ bytes) (pushed \<or> bytes \<noteq> []) \<and> grown U pgs s s' new \<and> ok (U \<union> set new) n s'"
proof -
  let ?h = "lb_header (bw_list w)"
  obtain d bss where st: "header_of s ?h d" "ll_start d = hd pgs" "ll_blocklist d = InvalidBlockNumber" "?h \<notin> set pgs" "0 \<notin> set pgs"
     "lb_data s pgs bss" "concat bss = bs" "bw_last w = last pgs" "tracked ps (bw_blocklist w) pgs pushed"
     "\<not> pushed \<longrightarrow> length pgs = 1 \<and> bs = []"
    using assms(3) unfolding writer_state_def by (elim exE conjE) (rule that)
  obtain P l B x where l: "pgs = P @ [l]" "bss = B @ [x]" "bytes_on s l = Some x" "length x \<le> bm25_max_free_space" "l < length s"
    by (rule lb_data_last [OF st(6)]) simp
  define k where "k = pages_for (length bytes) (bm25_max_free_space - length (last bss))"
  have k: "new_buffers_needed (length bytes) (free_space x) = k"
    using new_buffers_needed_exact [OF assms(4)] free_space_ok [OF l(4)] l(2) by (simp add: k_def)
  have "ok U (k + n) s" by (rule ok_mono [OF assms(2)]) (simp add: k_def pages_for_le)
  then obtain s1 it where a: "allocs s k = Some (s1, it)" "iter_ok U it k n s1" "length s \<le> length s1" "\<forall>x\<in>U. s1 ! x = s ! x"
    using allocs_law by blast
  have pU: "set pgs \<subseteq> U" "insert 0 (set pgs) \<subseteq> U" "?h \<in> U" using assms(5) by auto
  have same: "b < length s1 \<and> s1 ! b = s ! b" if "b \<in> set pgs" for b
    using that a(3,4) pU(1) st(6) unfolding lb_data_def by (auto dest: lseg_bound)
  have d1: "lb_data s1 pgs bss" by (rule lb_data_cong [OF st(6) same])
  obtain s' bl' new where r: "write_loop next_alloc ps s1 it (bw_blocklist w) (last pgs) bytes = Some (s', bl', last (pgs @ new))"
    "bytes_grown ps U s1 pgs bss pushed bytes s' bl' new" "ok (U \<union> set new) n s'" "length new = k"
    using write_loop_ok [OF assms(1) a(2) pU(2) st(5) d1 st(9) k_def] by blast
  note g = r(2) [unfolded bytes_grown_def]
  obtain bss' where b': "lb_data s' (pgs @ new) bss'" "concat bss' = bs @ bytes" using g st(7) by blast
  have hh: "s' ! ?h = s ! ?h" using g a(4) pU(3) st(4) by simp
  have hn: "?h \<notin> set new" "0 \<notin> set new" using g pU(2,3) by auto
  have wr: "bw_write allocs next_alloc ps s w bytes = Some (s', w\<lparr>bw_blocklist := bl', bw_last := last (pgs @ new)\<rparr>)"
    using l(1,3) st(8) k a(1) r(1) by (simp add: bw_write_def)
  have hd': "header_of s' ?h d" using st(1) hh g a(3) by (auto simp: header_of_def)
  have np: "\<not> (pushed \<or> bytes \<noteq> []) \<longrightarrow> length (pgs @ new) = 1 \<and> bs @ bytes = []" using st(10) r(4) by (auto simp: k_def)
  have "writer_state ps s' (w\<lparr>bw_blocklist := bl', bw_last := last (pgs @ new)\<rparr>) (pgs @ new) (bs @ bytes) (pushed \<or> bytes \<noteq> [])"
    unfolding writer_state_def using hd' st(2-5) hn b' g np l(1)
    by (intro exI [of _ d] exI [of _ bss'] conjI) (simp_all add: hd_append)
  moreover have "grown U pgs s s' new" unfolding grown_def using g a(3,4) by auto
  ultimately show ?thesis using wr r(3) by (intro exI [of _ s'] exI [of _ "w\<lparr>bw_blocklist := bl', bw_last := last (pgs @ new)\<rparr>"] exI [of _ new]) simp
qed

end

text \<open>A finished list: the bytes \<open>bs\<close> on the pages \<open>pgs\<close>, whose numbers are on record on the pages \<open>own\<close>.\<close>

definition lb_list :: "packers \<Rightarrow> store \<Rightarrow> block_number \<Rightarrow> block_number list \<Rightarrow> block_number list \<Rightarrow> u8 list \<Rightarrow> bool" where
  "lb_list ps s h pgs own bs \<longleftrightarrow> (\<exists>d bss. header_of s h d \<and> ll_start d = hd pgs \<and> ll_last d = last pgs \<and> 0 \<notin> set pgs \<and>
     lb_data s pgs bss \<and> concat bss = bs \<and> bl_pages ps s (ll_blocklist d) own pgs \<and> distinct (pgs @ [h] @ own))"

context buffer_manager
begin

lemma bw_write_all_ok:
  assumes "packers_ok ps"
  shows "ok U (sum_list (map length xs) + n) s \<Longrightarrow> writer_state ps s w pgs bs pushed \<Longrightarrow> \<forall>x\<in>set xs. length x < 2 ^ 39 \<Longrightarrow>
     insert 0 (insert (lb_header (bw_list w)) (set pgs)) \<subseteq> U \<Longrightarrow>
     \<exists>s' w' new. bw_write_all allocs next_alloc ps s w xs = Some (s', w') \<and> bw_list w' = bw_list w \<and>
       writer_state ps s' w' (pgs @ new) (bs @ concat xs) (pushed \<or> concat xs \<noteq> []) \<and> grown U pgs s s' new \<and> ok (U \<union> set new) n s'"
proof (induction xs arbitrary: U s w pgs bs pushed)
  case Nil
  then show ?case by (intro exI [of _ s] exI [of _ w] exI [of _ "[]"]) (simp add: grown_def)
next
  case (Cons x xs)
  have x: "ok U (length x + (sum_list (map length xs) + n)) s" "length x < 2 ^ 39" using Cons.prems(1,3) by (simp_all add: add.assoc)
  obtain s1 w1 new1 where a: "bw_write allocs next_alloc ps s w x = Some (s1, w1)" "bw_list w1 = bw_list w"
    "writer_state ps s1 w1 (pgs @ new1) (bs @ x) (pushed \<or> x \<noteq> [])" "grown U pgs s s1 new1" "ok (U \<union> set new1) (sum_list (map length xs) + n) s1"
    using bw_write_ok [OF assms x(1) Cons.prems(2) x(2) Cons.prems(4)] by blast
  have xs: "\<forall>x\<in>set xs. length x < 2 ^ 39" "insert 0 (insert (lb_header (bw_list w1)) (set (pgs @ new1))) \<subseteq> U \<union> set new1"
    using Cons.prems(3,4) a(2) by auto
  obtain s' w' new2 where b: "bw_write_all allocs next_alloc ps s1 w1 xs = Some (s', w')" "bw_list w' = bw_list w1"
    "writer_state ps s' w' ((pgs @ new1) @ new2) ((bs @ x) @ concat xs) ((pushed \<or> x \<noteq> []) \<or> concat xs \<noteq> [])"
    "grown (U \<union> set new1) (pgs @ new1) s1 s' new2" "ok (U \<union> set new1 \<union> set new2) n s'"
    using Cons.IH [OF a(5,3) xs] by blast
  have e: "(pushed \<or> x @ concat xs \<noteq> []) = ((pushed \<or> x \<noteq> []) \<or> concat xs \<noteq> [])" by auto
  have "grown U pgs s s' (new1 @ new2)" by (rule grown_trans [OF a(4) b(4)])
  moreover have "writer_state ps s' w' (pgs @ new1 @ new2) (bs @ concat (x # xs)) (pushed \<or> concat (x # xs) \<noteq> [])"
    using b(3) by (simp only: append_assoc concat.simps e)
  ultimately show ?case using a(1,2) b(1,2,5)
    by (intro exI [of _ s'] exI [of _ w'] exI [of _ "new1 @ new2"]) (simp add: Un_assoc)
qed

lemma finalize_ok:
  assumes "packers_ok ps" "writer_state ps s w pgs bs True" "packable None pgs" "ok U (Suc (length pgs) + n) s"
    and "insert 0 (insert (lb_header (bw_list w)) (set pgs)) \<subseteq> U"
  shows "\<exists>s' own. finalize_and_write alloc ps s w = Some (s', bw_list w) \<and> lb_list ps s' (lb_header (bw_list w)) pgs own bs \<and>
     set own \<inter> U = {} \<and> (\<forall>x\<in>U - {lb_header (bw_list w)}. s' ! x = s ! x) \<and> length s \<le> length s' \<and> ok (U \<union> set own) n s'"
proof -
  let ?h = "lb_header (bw_list w)"
  obtain d bss where st: "header_of s ?h d" "ll_start d = hd pgs" "?h \<notin> set pgs" "0 \<notin> set pgs"
     "lb_data s pgs bss" "concat bss = bs" "bw_last w = last pgs" "tracked ps (bw_blocklist w) pgs True"
    using assms(2) unfolding writer_state_def by (elim exE conjE) (rule that)
  have bt: "built ps (bw_blocklist w) pgs" "pgs \<noteq> []" "distinct pgs" using st(5,8) assms(3) by (auto simp: tracked_def lb_data_def)
  define d1 where "d1 = d\<lparr>ll_last := last pgs\<rparr>"
  define s1 where "s1 = s[?h := (s ! ?h)\<lparr>pg_body := ListHeader d1\<rparr>]"
  have h: "?h < length s" using st(1) by (simp add: header_of_def)
  have "ok U (Suc (length pgs) + n) s1" unfolding s1_def by (rule ok_frame [OF assms(4)]) (use assms(5) in simp_all)
  from bl_finish_ok [OF assms(1) bt(1) assms(3) this] obtain s2 r own where f: "bl_finish alloc ps s1 (bw_blocklist w) = Some (s2, r)"
    "distinct own" "set own \<inter> U = {}" "length s1 \<le> length s2" "\<forall>x\<in>U. s2 ! x = s1 ! x"
    "bl_pages ps s2 (case r of None \<Rightarrow> InvalidBlockNumber | Some b \<Rightarrow> b) own pgs" "ok (U \<union> set own) n s2" "r = None \<longleftrightarrow> pgs = []"
    by (elim exE conjE) (rule that)
  obtain b where b: "r = Some b" using f(8) bt(2) by auto
  define d2 where "d2 = d1\<lparr>ll_blocklist := b\<rparr>"
  define s' where "s' = s2[?h := (s2 ! ?h)\<lparr>pg_body := ListHeader d2\<rparr>]"
  have l2: "length s \<le> length s2" "?h < length s2" using f(4) h by (simp_all add: s1_def)
  have fin: "finalize_and_write alloc ps s w = Some (s', bw_list w)"
    using header_of_data [OF st(1)] h l2(2) f(1) b st(7) by (simp add: finalize_and_write_def d1_def d2_def s1_def s'_def Let_def)
  have hU: "?h \<in> U" "set pgs \<subseteq> U" "?h \<notin> set own" using assms(5) f(3) by auto
  have same: "s' ! x = s ! x" if "x \<in> U - {?h}" for x using f(5) that by (auto simp: s'_def s1_def)
  have pb: "x < length s' \<and> s' ! x = s ! x" if "x \<in> set pgs" for x
  proof -
    have "x < length s" using st(5) that by (auto simp: lb_data_def dest: lseg_bound)
    moreover have "x \<in> U - {?h}" using that hU(2) st(3) by auto
    ultimately show ?thesis using same [of x] l2(1) by (simp add: s'_def)
  qed
  have ob: "x < length s' \<and> s' ! x = s2 ! x" if "x \<in> set own" for x
    using that hU(3) f(6) by (auto simp: s'_def bl_pages_def nth_update_outside [of x "set own"] dest: lseg_bound)
  have hd': "header_of s' ?h d2" using l2 by (simp add: header_of_def s'_def)
  have bp: "bl_pages ps s' b own pgs" using bl_pages_cong [OF _ ob, of ps b own pgs] f(6) b by simp
  have "lb_list ps s' ?h pgs own bs"
    unfolding lb_list_def using hd' st(2-4,6) lb_data_cong [OF st(5) pb] bp bt(3) hU f(2,3)
    by (intro exI [of _ d2] exI [of _ bss]) (auto simp: d2_def d1_def)
  moreover have "ok (U \<union> set own) n s'" unfolding s'_def by (rule ok_frame [OF f(7)]) (use hU(1) in simp_all)
  ultimately show ?thesis using fin f(3) same l2(1) by (intro exI [of _ s'] exI [of _ own]) (simp add: s'_def)
qed

end

section \<open>Reading\<close>

lemma read_pages_ok:
  "pages_from s b pgs \<Longrightarrow> list_all2 (\<lambda>b x. bytes_on s b = Some x) pgs bss \<Longrightarrow> read_pages s b = Some (concat bss)"
proof (induction pgs arbitrary: b bss)
  case (Cons p pgs)
  then obtain x bss' where "bss = x # bss'" "bytes_on s p = Some x" "list_all2 (\<lambda>b x. bytes_on s b = Some x) pgs bss'"
    by (auto simp: list_all2_Cons1)
  then show ?case using Cons by (simp add: read_pages.simps [of s p])
qed (simp add: read_pages.simps)

lemma lb_data_start:
  assumes "lb_data s pgs bss" "header_of s h d" "ll_start d = hd pgs" "0 \<notin> set pgs"
  shows "get_start_blockno s h = Some (hd pgs)"
proof -
  have "hd pgs \<in> set pgs" "pages_from s (hd pgs) pgs" using assms(1) by (simp_all add: lb_data_def)
  moreover from this have "hd pgs \<noteq> InvalidBlockNumber" using lseg_bound by blast
  ultimately show ?thesis using assms(3,4) header_of_data [OF assms(2)] by (cases "hd pgs = 0") (auto simp: get_start_blockno_def)
qed

lemma lb_data_read_all:
  assumes "lb_data s pgs bss" "header_of s (lb_header lb) d" "ll_start d = hd pgs" "0 \<notin> set pgs"
  shows "read_all s lb = Some (concat bss)"
  using lb_data_start [OF assms] read_pages_ok [of s "hd pgs" pgs bss] assms(1) by (simp add: read_all_def lb_data_def)

subsection \<open>Ranges\<close>

lemma drop_pages:
  "\<forall>x\<in>set (butlast bss). length x = m \<Longrightarrow> i < length bss \<Longrightarrow> drop (i * m) (concat bss) = concat (drop i bss)"
proof (induction i arbitrary: bss)
  case (Suc i)
  obtain x bss' where x: "bss = x # bss'" using Suc.prems(2) by (cases bss) auto
  moreover have "bss' \<noteq> []" using Suc.prems(2) x by auto
  ultimately have b: "bss = x # bss'" "bss' \<noteq> []" by auto
  then have "length x = m" "\<forall>x\<in>set (butlast bss'). length x = m" using Suc.prems(1) by auto
  then show ?case using Suc.IH [of bss'] Suc.prems(2) b by simp
qed simp

lemma pages_length:
  "\<forall>x\<in>set (butlast bss). length x = m \<Longrightarrow> length (last bss) \<le> m \<or> bss = [] \<Longrightarrow> length (concat bss) \<le> length bss * m"
  by (induction bss) (auto split: if_splits)

lemma range_loop_ok:
  assumes "list_all2 (\<lambda>b x. bytes_on s b = Some x) pgs bss" "pages_from s b pgs" "\<forall>x\<in>set (butlast bss). length x = bm25_max_free_space"
    and "bss \<noteq> [] \<longrightarrow> length (last bss) \<le> bm25_max_free_space"
    and "off = (if data = [] then start mod bm25_max_free_space else 0)" "rem \<le> length (concat bss) - off"
  shows "range_loop s start (length data + rem) b data rem = Some (data @ take rem (drop off (concat bss)))"
  using assms
proof (induction pgs arbitrary: b bss off data rem)
  case Nil
  then show ?case by (simp add: range_loop.simps)
next
  case (Cons p pgs)
  obtain x bss' where x: "bss = x # bss'" "bytes_on s p = Some x" "list_all2 (\<lambda>b x. bytes_on s b = Some x) pgs bss'"
    using Cons.prems(1) by (auto simp: list_all2_Cons1)
  have p: "b = p" "p \<noteq> InvalidBlockNumber" "p < length s" "pages_from s (pg_next (s ! p)) pgs" using Cons.prems(2) by auto
  have off: "off < bm25_max_free_space" using Cons.prems(5) by (simp split: if_splits)
  show ?case
  proof (cases "rem = 0")
    case True
    then show ?thesis by (simp add: range_loop.simps)
  next
    case False
    define n where "n = min (bm25_max_free_space - off) rem"
    have n: "0 < n" "n \<le> rem" "off + n \<le> bm25_max_free_space" using False off by (auto simp: n_def)
    have lx: "length x \<le> bm25_max_free_space" using Cons.prems(3,4) x(1) by (cases bss') auto
    have cut: "take n (drop off (x @ replicate (bm25_max_free_space - length x) 0)) = take n (drop off (concat bss)) \<and>
        drop n (drop off (concat bss)) = concat bss' \<and> rem - n \<le> length (concat bss') \<or> n = rem \<and>
        take n (drop off (x @ replicate (bm25_max_free_space - length x) 0)) = take n (drop off (concat bss))"
    proof (cases "bss' = []")
      case True
      then have "rem \<le> length x - off" using Cons.prems(6) x(1) by simp
      then show ?thesis using True x(1) lx by (auto simp: n_def)
    next
      case more: False
      then have full: "length x = bm25_max_free_space" using Cons.prems(3) x(1) by simp
      show ?thesis
      proof (cases "rem \<le> bm25_max_free_space - off")
        case True
        then show ?thesis using full x(1) by (simp add: n_def)
      next
        case False
        then have "n = length x - off" using full by (simp add: n_def)
        then show ?thesis using full x(1) Cons.prems(6) off by simp arith
      qed
    qed
    let ?sl = "take n (drop off (concat bss))"
    have sl: "as_slice_range x off n = Some ?sl" using n lx cut by (auto simp: as_slice_range_def Let_def)
    have ln: "length ?sl = n" using Cons.prems(6) n by simp
    then have ne: "data @ ?sl \<noteq> []" using n(1) by auto
    have "range_loop s start (length data + rem) b data rem = range_loop s start (length data + rem) (pg_next (s ! p)) (data @ ?sl) (rem - n)"
      by (subst range_loop.simps) (simp add: p(1-3) x(2) False Let_def sl flip: Cons.prems(5) n_def)
    moreover have "length data + rem = length (data @ ?sl) + (rem - n)" unfolding length_append ln using n(2) by simp
    ultimately have step: "range_loop s start (length data + rem) b data rem =
        range_loop s start (length (data @ ?sl) + (rem - n)) (pg_next (s ! p)) (data @ ?sl) (rem - n)" by (simp only:)
    show ?thesis
    proof (cases "n = rem")
      case True
      then show ?thesis unfolding step by (simp add: range_loop.simps)
    next
      case more: False
      then have c: "drop n (drop off (concat bss)) = concat bss'" "rem - n \<le> length (concat bss')" using cut by auto
      have b': "\<forall>x\<in>set (butlast bss'). length x = bm25_max_free_space" "bss' \<noteq> [] \<longrightarrow> length (last bss') \<le> bm25_max_free_space"
        using Cons.prems(3,4) x(1) by (auto split: if_splits)
      have "range_loop s start (length (data @ ?sl) + (rem - n)) (pg_next (s ! p)) (data @ ?sl) (rem - n) =
          Some ((data @ ?sl) @ take (rem - n) (drop 0 (concat bss')))"
        by (rule Cons.IH [OF x(3) p(4) b']) (use ne c(2) in auto)
      also have "(data @ ?sl) @ take (rem - n) (drop 0 (concat bss')) = data @ take rem (drop off (concat bss))"
        using take_add [of n "rem - n" "drop off (concat bss)"] n(2) c(1) by simp
      finally show ?thesis unfolding step .
    qed
  qed
qed

text \<open>A handle on a list: what it has cached is what the pages hold.\<close>

definition lb_handle :: "store \<Rightarrow> block_number \<Rightarrow> block_number list \<Rightarrow> linked_bytes \<Rightarrow> bool" where
  "lb_handle s h pgs lb \<longleftrightarrow> lb_header lb = h \<and> lb_reader lb \<in> {None, Some pgs} \<and> length (lb_cache lb) \<le> BLOCK_CACHE_SIZE \<and>
     (\<forall>e\<in>set (lb_cache lb). fst e < length pgs \<and> bytes_on s (pgs ! fst e) = Some (snd e))"

lemma rposition_Some: "rposition es i = Some p \<Longrightarrow> p < length es \<and> fst (es ! p) = i"
  by (induction es arbitrary: p) (auto split: option.splits if_splits)

lemma block_for_ord_ok:
  assumes "lb_list ps s h pgs own bs" "lb_handle s h pgs lb"
  shows "block_for_ord ps s lb i = Some (lb\<lparr>lb_reader := Some pgs\<rparr>, get_at pgs i)" "lb_handle s h pgs (lb\<lparr>lb_reader := Some pgs\<rparr>)"
proof -
  obtain d where d: "header_of s h d" "bl_pages ps s (ll_blocklist d) own pgs" using assms(1) unfolding lb_list_def by blast
  have "get_linked_list_data s h = Some d" "bl_read ps s (ll_blocklist d) = Some pgs"
    by (rule header_of_data [OF d(1)]) (rule bl_pages_read [OF d(2)])
  then show "block_for_ord ps s lb i = Some (lb\<lparr>lb_reader := Some pgs\<rparr>, get_at pgs i)"
    using assms(2) by (auto simp: block_for_ord_def lb_handle_def)
  show "lb_handle s h pgs (lb\<lparr>lb_reader := Some pgs\<rparr>)" using assms(2) by (simp add: lb_handle_def)
qed

lemma get_bytes_range_block_ok:
  assumes "lb_list ps s h pgs own bs" "lb_handle s h pgs lb" "i < length pgs" "bytes_on s (pgs ! i) = Some x"
  shows "\<exists>lb'. get_bytes_range_block ps s lb i = Some (lb', x) \<and> lb_handle s h pgs lb'"
proof (cases "rposition (lb_cache lb) i")
  case None
  note b = block_for_ord_ok(1) [OF assms(1,2), of i]
  let ?lb = "lb\<lparr>lb_reader := Some pgs, lb_cache := (if length (lb_cache lb) \<ge> BLOCK_CACHE_SIZE then tl (lb_cache lb) else lb_cache lb) @ [(i, x)]\<rparr>"
  have "get_bytes_range_block ps s lb i = Some (?lb, x)" using None b assms(3,4) by (simp add: get_bytes_range_block_def Let_def)
  moreover have "lb_handle s h pgs ?lb"
    using assms(2-4) unfolding lb_handle_def by (auto simp: BLOCK_CACHE_SIZE_def dest: list.set_sel(2) [rotated])
  ultimately show ?thesis by blast
next
  case (Some p)
  then have p: "p < length (lb_cache lb)" "fst (lb_cache lb ! p) = i" using rposition_Some by blast+
  then have "snd (lb_cache lb ! p) = x" using assms(2,4) nth_mem [OF p(1)] by (auto simp: lb_handle_def)
  then show ?thesis using Some p assms(2)
    by (auto simp: get_bytes_range_block_def lb_handle_def dest: in_set_takeD in_set_dropD)
qed

lemma get_bytes_range_ok:
  assumes "lb_list ps s h pgs own bs" "lb_handle s h pgs lb" "b \<le> length bs"
  shows "\<exists>lb'. get_bytes_range ps s lb a b = Some (lb', take (b - a) (drop a bs)) \<and> lb_handle s h pgs lb'"
proof (cases "a < b")
  case False
  then show ?thesis using assms(2) by (simp add: get_bytes_range_def)
next
  case True
  let ?m = bm25_max_free_space
  obtain bss where l: "lb_data s pgs bss" "concat bss = bs" using assms(1) unfolding lb_list_def by blast
  note q = l(1) [unfolded lb_data_def]
  have len: "length bss = length pgs" "length bss \<noteq> 0" using q by (auto dest: list_all2_lengthD)
  have small: "length bs \<le> length bss * ?m" using pages_length [of bss ?m] q l(2) by simp
  define i where "i = a div ?m"
  have ai: "a = i * ?m + a mod ?m" "a mod ?m < ?m" by (simp_all add: i_def)
  have "a < length bss * ?m" using True assms(3) small by linarith
  then have i: "i < length bss" by (simp add: i_def less_mult_imp_div_less)
  have dp: "drop a bs = drop (a mod ?m) (concat (drop i bss))"
    using drop_pages [OF _ i, of ?m] q l(2) ai(1) by (metis drop_drop add.commute)
  have rl: "b - a \<le> length (concat (drop i bss)) - a mod ?m" using arg_cong [OF dp, of length] assms(3) by simp
  show ?thesis
  proof (cases "i = (b - 1) div ?m")
    case one: True
    have x: "bytes_on s (pgs ! i) = Some (bss ! i)" using q i len(1) by (auto simp: list_all2_conv_all_nth)
    have fit: "a mod ?m + (b - a) \<le> length (bss ! i)"
    proof (cases "Suc i < length bss")
      case True
      then have "butlast bss ! i \<in> set (butlast bss)" by (intro nth_mem) simp
      then have "length (bss ! i) = ?m" using q True by (simp add: nth_butlast)
      moreover have "b - 1 < i * ?m + ?m" using dividend_less_div_times [OF max_free_space(1), of "b - 1"] one by simp
      ultimately show ?thesis using ai(1) \<open>a < b\<close> by linarith
    next
      case False
      then have "drop i bss = [bss ! i]" using i by (simp add: Cons_nth_drop_Suc [symmetric])
      then show ?thesis using rl ai(2) \<open>a < b\<close> by simp
    qed
    have "drop i bss = bss ! i # drop (Suc i) bss" using i by (simp add: Cons_nth_drop_Suc)
    then have "take (b - a) (drop a bs) = take (b - a) (drop (a mod ?m) (bss ! i))" using dp fit by simp
    then show ?thesis using get_bytes_range_block_ok [OF assms(1,2) _ x] i len(1) fit True one
      by (auto simp: get_bytes_range_def Let_def i_def)
  next
    case False
    have pf: "lseg s (pgs ! i) (drop i pgs) InvalidBlockNumber"
    proof -
      obtain m where "lseg s m (drop i pgs) InvalidBlockNumber" using q lseg_append [of s "hd pgs" "take i pgs" "drop i pgs"] by auto
      then show ?thesis using i len(1) by (cases "drop i pgs") (auto simp: drop_eq_Nil2 hd_drop_conv_nth [symmetric])
    qed
    have "range_loop s a (length ([] :: u8 list) + (b - a)) (pgs ! i) [] (b - a) = Some ([] @ take (b - a) (drop (a mod ?m) (concat (drop i bss))))"
      by (rule range_loop_ok [OF _ pf]) (use q i rl in \<open>auto simp: list_all2_dropI butlast_drop dest: in_set_dropD\<close>)
    then show ?thesis using block_for_ord_ok(1) [OF assms(1,2), of i] block_for_ord_ok(2) [OF assms(1,2)] False True i len(1) dp
      by (simp add: get_bytes_range_def Let_def flip: i_def)
  qed
qed

lemma freeable_ok:
  assumes "lb_list ps s h pgs own bs" "lb_handle s h pgs lb"
  shows "lb_freeable_blocks ps s lb = Some (pgs @ [h] @ own)"
proof -
  obtain d where d: "header_of s h d" "bl_pages ps s (ll_blocklist d) own pgs" using assms(1) unfolding lb_list_def by blast
  have "walk_pages s (ll_blocklist d) = Some own" using d(2) walk_pages_ok by (simp add: bl_pages_def)
  then show ?thesis using assms(2) header_of_data [OF d(1)] bl_pages_read [OF d(2)]
    by (auto simp: lb_freeable_blocks_def lb_handle_def)
qed

section \<open>A list from creation to reuse\<close>

definition write_bytes :: "fsm_env \<Rightarrow> block_number \<Rightarrow> packers \<Rightarrow> store \<Rightarrow> u8 list list \<Rightarrow> (store \<times> bytes_writer) option" where
  "write_bytes env fsm ps s xs = do {
     (s, lb) \<leftarrow> lb_create_with_fsm (new_buffers env fsm) next_buffer s;
     w \<leftarrow> lb_writer s lb;
     bw_write_all (new_buffers env fsm) next_buffer ps s w xs
   }"

lemma lb_data_count:
  assumes "lb_data s pgs bss"
  shows "length pgs \<le> Suc (length (concat bss) div bm25_max_free_space)"
proof -
  obtain P l B x where p: "pgs = P @ [l]" "bss = B @ [x]" "list_all2 (\<lambda>b x. bytes_on s b = Some x) P B"
    "\<forall>x\<in>set B. length x = bm25_max_free_space" by (rule lb_data_last [OF assms]) simp
  have "length (concat B) = length B * bm25_max_free_space" using p(4) by (induction B) auto
  then have "length B * bm25_max_free_space \<le> length (concat bss)" using p(2) by simp
  then have "length B \<le> length (concat bss) div bm25_max_free_space" by (simp add: less_eq_div_iff_mult_less_eq)
  then show ?thesis using p(1) list_all2_lengthD [OF p(3)] by simp
qed

lemma write_bytes_ok:
  assumes "packers_ok ps" "fsm_room env K fsm U [] (2 + sum_list (map length xs) + n) s" "0 \<in> U" "\<forall>x\<in>set xs. length x < 2 ^ 39"
  obtains s' w h pgs where "write_bytes env fsm ps s xs = Some (s', w)" "bw_list w = lb_open h"
    "writer_state ps s' w pgs (concat xs) (concat xs \<noteq> [])" "h \<notin> U" "set pgs \<inter> U = {}" "\<forall>x\<in>U. s' ! x = s ! x"
    "fsm_room env K fsm (U \<union> set (h # pgs)) [] n s'"
proof -
  obtain s1 w1 h p where c: "lb_create_with_fsm (new_buffers env fsm) next_buffer s = Some (s1, lb_open h)" "lb_writer s1 (lb_open h) = Some w1"
    "writer_state ps s1 w1 [p] [] False" "bw_list w1 = lb_open h" "h \<noteq> p" "h \<notin> U" "p \<notin> U"
    "fsm_room env K fsm (insert h (insert p U)) [] (sum_list (map length xs) + n) s1" "\<forall>x\<in>U. s1 ! x = s ! x" "length s \<le> length s1"
    using fsmb.lb_create_ok [OF assms(2) [unfolded add.assoc] assms(3), of ps] by (elim exE conjE) (rule that)
  have sub: "insert 0 (insert (lb_header (bw_list w1)) (set [p])) \<subseteq> insert h (insert p U)" using assms(3) c(4) by (auto simp: lb_open_def)
  obtain s' w new where r: "bw_write_all (new_buffers env fsm) next_buffer ps s1 w1 xs = Some (s', w)" "bw_list w = bw_list w1"
    "writer_state ps s' w ([p] @ new) ([] @ concat xs) (False \<or> concat xs \<noteq> [])" "grown (insert h (insert p U)) [p] s1 s' new"
    "fsm_room env K fsm (insert h (insert p U) \<union> set new) [] n s'"
    using fsmb.bw_write_all_ok [OF assms(1) c(8,3) assms(4) sub] by (elim exE conjE) (rule that)
  have same: "\<forall>x\<in>U. s' ! x = s ! x"
  proof
    fix x assume x: "x \<in> U"
    then have "x \<in> insert h (insert p U) - set [p]" using c(7) by auto
    then show "s' ! x = s ! x" using r(4) c(9) x by (simp add: grown_def)
  qed
  have disj: "set ([p] @ new) \<inter> U = {}" using r(4) c(7) by (auto simp: grown_def)
  have o: "fsm_room env K fsm (U \<union> set (h # [p] @ new)) [] n s'" using r(5) by (simp add: insert_commute)
  have w: "write_bytes env fsm ps s xs = Some (s', w)" using c(1,2) r(1) by (simp add: write_bytes_def)
  have st: "writer_state ps s' w ([p] @ new) (concat xs) (concat xs \<noteq> [])" using r(3) by (simp only: append_Nil simp_thms)
  show ?thesis by (rule that [OF w _ st c(6) disj same o]) (simp add: r(2) c(4))
qed

lemma writer_state_read:
  assumes "writer_state ps s w pgs bs pushed"
  obtains start where "get_start_blockno s (lb_header (bw_list w)) = Some start" "walk_pages s start = Some pgs"
    "read_all s (bw_list w) = Some bs" "length pgs \<le> Suc (length bs div bm25_max_free_space)"
    "lb_header (bw_list w) \<notin> set pgs" "distinct pgs"
proof -
  obtain d bss where st: "header_of s (lb_header (bw_list w)) d" "ll_start d = hd pgs" "0 \<notin> set pgs" "lb_data s pgs bss" "concat bss = bs"
    "lb_header (bw_list w) \<notin> set pgs"
    using assms unfolding writer_state_def by (elim exE conjE) (rule that)
  have p: "pages_from s (hd pgs) pgs" "distinct pgs" using st(4) by (simp_all add: lb_data_def)
  show ?thesis
    by (rule that [OF lb_data_start [OF st(4,1,2,3)] walk_pages_ok [OF p(1)] _ _ st(6) p(2)])
      (use lb_data_read_all [OF st(4,1,2,3)] lb_data_count [OF st(4)] st(5) in auto)
qed

text \<open>
  C4. What was written is what is read.  Creating a list, writing any number of buffers to it and reading
  the list back gives the buffers in order.  Each buffer has less than 512 GiB, and the relation must be
  able to grow by one page per byte written, which keeps all of them together below 4 GiB.  The number of new pages that the
  writer computes in floating point is always enough, the list has one page more than it has full
  pages at most, and the pages of other owners do not change.
\<close>

theorem linked_bytes_roundtrip:
  assumes "packers_ok ps" "fsm_ok env fsm U [] (2 + sum_list (map length xs) + n) s" "0 \<in> U" "\<forall>x\<in>set xs. length x < 2 ^ 39"
  shows "\<exists>s' w start pgs. write_bytes env fsm ps s xs = Some (s', w) \<and> read_all s' (bw_list w) = Some (concat xs) \<and>
     get_start_blockno s' (lb_header (bw_list w)) = Some start \<and> walk_pages s' start = Some pgs \<and> distinct pgs \<and> set pgs \<inter> U = {} \<and>
     length pgs \<le> Suc (length (concat xs) div bm25_max_free_space) \<and> (\<forall>x\<in>U. s' ! x = s ! x)"
proof -
  obtain s' w h pgs where w: "write_bytes env fsm ps s xs = Some (s', w)" "bw_list w = lb_open h"
    "writer_state ps s' w pgs (concat xs) (concat xs \<noteq> [])" "h \<notin> U" "set pgs \<inter> U = {}" "\<forall>x\<in>U. s' ! x = s ! x"
    by (rule write_bytes_ok [OF assms])
  show ?thesis
    by (rule writer_state_read [OF w(3)]) (use w in blast)
qed

fun read_ranges :: "packers \<Rightarrow> store \<Rightarrow> linked_bytes \<Rightarrow> (nat \<times> nat) list \<Rightarrow> u8 list list option" where
  "read_ranges ps s lb [] = Some []"
| "read_ranges ps s lb ((a, b) # rs) = do {
     (lb, x) \<leftarrow> get_bytes_range ps s lb a b;
     xs \<leftarrow> read_ranges ps s lb rs;
     Some (x # xs)
   }"

lemma read_ranges_ok:
  assumes "lb_list ps s h pgs own bs"
  shows "lb_handle s h pgs lb \<Longrightarrow> \<forall>r\<in>set rs. snd r \<le> length bs \<Longrightarrow>
     read_ranges ps s lb rs = Some (map (\<lambda>(a, b). take (b - a) (drop a bs)) rs)"
proof (induction rs arbitrary: lb)
  case (Cons r rs)
  obtain a b where r: "r = (a, b)" by (cases r)
  obtain lb' where "get_bytes_range ps s lb a b = Some (lb', take (b - a) (drop a bs))" "lb_handle s h pgs lb'"
    using get_bytes_range_ok [OF assms Cons.prems(1), of b a] Cons.prems(2) r by auto
  then show ?case using Cons.IH [of lb'] Cons.prems(2) r by simp
qed simp

lemma lb_open_header [simp]: "lb_header (lb_open h) = h"
  by (simp add: lb_open_def)

lemma lb_handle_open: "lb_handle s h pgs (lb_open h)"
  by (simp add: lb_handle_def lb_open_def)

lemma finish_bytes_ok:
  assumes "packers_ok ps" "fsm_ok env fsm U [] (2 + sum_list (map length xs) + (2 + length (concat xs) + n)) s" "0 \<in> U"
    and "\<forall>x\<in>set xs. length x < 2 ^ 39" "concat xs \<noteq> []"
  obtains s' w h start pgs where "write_bytes env fsm ps s xs = Some (s', w)" "bw_list w = lb_open h"
    "get_start_blockno s' h = Some start" "walk_pages s' start = Some pgs" "length pgs \<le> Suc (length (concat xs) div bm25_max_free_space)"
    "length pgs < 32 \<or> sorted_wrt (<) pgs \<longrightarrow> (\<exists>s2 own. finalize_and_write (new_buffer env fsm) ps s' w = Some (s2, lb_open h) \<and>
       lb_list ps s2 h pgs own (concat xs) \<and> set (pgs @ [h] @ own) \<inter> U = {} \<and> fsm_ok env fsm (U \<union> set (pgs @ [h] @ own)) [] n s2)"
proof -
  obtain s' w h pgs where w: "write_bytes env fsm ps s xs = Some (s', w)" "bw_list w = lb_open h"
    "writer_state ps s' w pgs (concat xs) (concat xs \<noteq> [])" "h \<notin> U" "set pgs \<inter> U = {}"
    "fsm_ok env fsm (U \<union> set (h # pgs)) [] (2 + length (concat xs) + n) s'"
    by (rule write_bytes_ok [OF assms(1-4)])
  obtain start where r: "get_start_blockno s' (lb_header (bw_list w)) = Some start" "walk_pages s' start = Some pgs"
    "length pgs \<le> Suc (length (concat xs) div bm25_max_free_space)" by (rule writer_state_read [OF w(3)])
  have h: "lb_header (bw_list w) = h" using w(2) by (simp add: lb_open_def)
  have "length pgs \<le> Suc (length (concat xs))" using r(3) div_le_dividend [of "length (concat xs)" bm25_max_free_space] by linarith
  then have o: "fsm_ok env fsm (U \<union> set (h # pgs)) [] (Suc (length pgs) + n) s'" by (intro fsm_ok_mono [OF w(6)]) simp
  have st: "writer_state ps s' w pgs (concat xs) True" using w(3) assms(5) by simp
  have sub: "insert 0 (insert (lb_header (bw_list w)) (set pgs)) \<subseteq> U \<union> set (h # pgs)" using assms(3) h by auto
  have "\<exists>s2 own. finalize_and_write (new_buffer env fsm) ps s' w = Some (s2, lb_open h) \<and>
       lb_list ps s2 h pgs own (concat xs) \<and> set (pgs @ [h] @ own) \<inter> U = {} \<and> fsm_ok env fsm (U \<union> set (pgs @ [h] @ own)) [] n s2"
    if "length pgs < 32 \<or> sorted_wrt (<) pgs"
  proof -
    have bd: "0 < x \<and> x < 2 ^ 32" if "x \<in> set pgs" for x
    proof -
      have "x \<noteq> 0" using w(3) that unfolding writer_state_def by (elim exE conjE) (metis)
      moreover have "x < length s'" using fsm_ok_bound [OF w(6)] that by auto
      ultimately show ?thesis using fsm_ok_length [OF w(6)] by (simp add: InvalidBlockNumber_def)
    qed
    then have pk: "packable None pgs" using that by (auto simp: packable_def above_def unwrap_or_0_def)
    obtain s2 own where f: "finalize_and_write (new_buffer env fsm) ps s' w = Some (s2, bw_list w)"
      "lb_list ps s2 (lb_header (bw_list w)) pgs own (concat xs)" "set own \<inter> (U \<union> set (h # pgs)) = {}"
      "fsm_ok env fsm (U \<union> set (h # pgs) \<union> set own) [] n s2"
      using fsmb.finalize_ok [OF assms(1) st pk o sub] by (elim exE conjE) (rule that)
    have "U \<union> set (h # pgs) \<union> set own = U \<union> set (pgs @ [h] @ own)" by auto
    then show ?thesis using f w(2,4,5) h by (intro exI [of _ s2] exI [of _ own]) auto
  qed
  then show ?thesis using that [OF w(1,2) r(1) [unfolded h] r(2,3)] by blast
qed

lemma return_to_fsm_ok:
  assumes "fsm_ok env fsm U [] n s" "lb_freeable_blocks ps s lb = Some bs" "length s + length bs \<le> InvalidBlockNumber"
  shows "\<exists>s' ys ts G xs' ts' G'. lb_return_to_fsm env ps s fsm lb = Some s' \<and> fsm_inv s fsm ys ts G \<and> fsm_inv s' fsm xs' ts' G' \<and>
     image_mset snd (fsm_entries s' G' xs') = image_mset snd (fsm_entries s G ys) + mset bs"
proof -
  obtain ys ts G where o: "fsm_inv s fsm ys ts G" "\<not> create_index env" "fsm_spare (insert (next_xid env) {}) ys ts"
    using assms(1) unfolding fsm_room_def by blast
  have ne: "ys \<noteq> [] \<or> ts \<noteq> []" using fsm_spare_key [OF o(3) insertI1] by auto
  have wd: "max (current_xid env) FirstNormalTransactionId =
      (if create_index env then FirstNormalTransactionId else max (current_xid env) FirstNormalTransactionId)"
    "FirstNormalTransactionId \<le> max (current_xid env) FirstNormalTransactionId" using o(2) by simp_all
  obtain s' xs' ts' G' g k where e: "extend_with_when_recyclable env s fsm (max (current_xid env) FirstNormalTransactionId) bs = Some s'"
    "fsm_inv s' fsm xs' ts' G'" "fsm_entries s' G' xs' = image_mset (map_prod g id) (fsm_entries s G ys) + image_mset (Pair k) (mset bs)"
    using extend_ok [OF o(1) ne assms(3) wd] by (elim exE conjE) (rule that, assumption+)
  have "image_mset snd (fsm_entries s' G' xs') = image_mset snd (fsm_entries s G ys) + mset bs"
    unfolding e(3) by (simp add: image_mset.compositionality comp_def)
  moreover have "lb_return_to_fsm env ps s fsm lb = Some s'" using assms(2) e(1) by (simp add: lb_return_to_fsm_def fsm_extend_def)
  ultimately show ?thesis using o(1) e(2) by blast
qed

text \<open>
  C20. Random access reads the right bytes.  On a finished list to which at least one byte was written, any
  sequence of range reads through one handle, each range within the list, returns the slices of what was
  written, whether a range lies on one page or on several, and whatever the cache of pages holds by then.
  The list has fewer than 32 pages, or its pages have increasing block numbers; longer lists on recycled
  pages in another order need packers that restore unsorted groups, of which nothing is assumed.
\<close>

theorem bytes_range_slice:
  assumes "packers_ok ps" "fsm_ok env fsm U [] (2 + sum_list (map length xs) + (2 + length (concat xs) + n)) s" "0 \<in> U"
    and "\<forall>x\<in>set xs. length x < 2 ^ 39" "concat xs \<noteq> []" "\<forall>r\<in>set rs. snd r \<le> length (concat xs)"
  shows "\<exists>s1 w start pgs. write_bytes env fsm ps s xs = Some (s1, w) \<and>
     get_start_blockno s1 (lb_header (bw_list w)) = Some start \<and> walk_pages s1 start = Some pgs \<and>
     length pgs \<le> Suc (length (concat xs) div bm25_max_free_space) \<and>
     (length pgs < 32 \<or> sorted_wrt (<) pgs \<longrightarrow>
        (\<exists>s2. finalize_and_write (new_buffer env fsm) ps s1 w = Some (s2, bw_list w) \<and>
           read_ranges ps s2 (bw_list w) rs = Some (map (\<lambda>(a, b). take (b - a) (drop a (concat xs))) rs)))"
proof -
  obtain s1 w h start pgs where w: "write_bytes env fsm ps s xs = Some (s1, w)" "bw_list w = lb_open h"
    "get_start_blockno s1 h = Some start" "walk_pages s1 start = Some pgs" "length pgs \<le> Suc (length (concat xs) div bm25_max_free_space)"
    "length pgs < 32 \<or> sorted_wrt (<) pgs \<longrightarrow> (\<exists>s2 own. finalize_and_write (new_buffer env fsm) ps s1 w = Some (s2, lb_open h) \<and>
       lb_list ps s2 h pgs own (concat xs) \<and> set (pgs @ [h] @ own) \<inter> U = {} \<and> fsm_ok env fsm (U \<union> set (pgs @ [h] @ own)) [] n s2)"
    by (rule finish_bytes_ok [OF assms(1-5)])
  have "\<exists>s2. finalize_and_write (new_buffer env fsm) ps s1 w = Some (s2, lb_open h) \<and>
      read_ranges ps s2 (lb_open h) rs = Some (map (\<lambda>(a, b). take (b - a) (drop a (concat xs))) rs)"
    if "length pgs < 32 \<or> sorted_wrt (<) pgs"
    using w(6) that read_ranges_ok [OF _ lb_handle_open assms(6)] by blast
  then show ?thesis using w(1,3-5) by (intro exI [of _ s1] exI [of _ w] exI [of _ start] exI [of _ pgs]) (simp add: w(2))
qed


text \<open>
  C37. A list to which nothing was written loses its first page.  The builder of its block list has
  seen no page, so the list offers only its header for reuse; the empty data page stays behind.
\<close>

theorem empty_list_keeps_page:
  assumes "packers_ok ps" "fsm_ok env fsm U [] (2 + n) s" "0 \<in> U"
  shows "\<exists>s1 w p s2. write_bytes env fsm ps s [] = Some (s1, w) \<and> get_start_blockno s1 (lb_header (bw_list w)) = Some p \<and>
     finalize_and_write (new_buffer env fsm) ps s1 w = Some (s2, bw_list w) \<and>
     lb_freeable_blocks ps s2 (bw_list w) = Some [lb_header (bw_list w)] \<and> p \<noteq> lb_header (bw_list w) \<and> p \<notin> U"
proof -
  have b: "fsm_ok env fsm U [] (2 + sum_list (map length []) + n) s" using assms(2) by simp
  have nl: "\<forall>x\<in>set ([] :: u8 list list). length x < 2 ^ 39" by simp
  obtain s1 w h pgs where w: "write_bytes env fsm ps s [] = Some (s1, w)" "bw_list w = lb_open h"
    "writer_state ps s1 w pgs (concat []) (concat [] \<noteq> ([] :: u8 list))" "h \<notin> U" "set pgs \<inter> U = {}"
    "fsm_ok env fsm (U \<union> set (h # pgs)) [] n s1" by (rule write_bytes_ok [OF assms(1) b assms(3) nl])
  obtain d where st: "header_of s1 h d" "ll_blocklist d = InvalidBlockNumber" "h \<notin> set pgs" "0 \<notin> set pgs"
     "tracked ps (bw_blocklist w) pgs False" "length pgs = 1"
    using w(3) unfolding writer_state_def w(2) by auto
  obtain p where p: "pgs = [p]" using st(6) by (auto simp: length_Suc_conv)
  obtain start where r: "get_start_blockno s1 (lb_header (bw_list w)) = Some start" "walk_pages s1 start = Some pgs"
    by (rule writer_state_read [OF w(3)])
  have sp: "start = p" using r(2) p by (subst (asm) walk_pages.simps) (auto split: if_splits bind_splits)
  have "p \<noteq> 0" "p < length s1" using st(4) p fsm_ok_bound [OF w(6)] by auto
  then have "packable None pgs" using fsm_ok_length [OF w(6)] p by (simp add: packable_def InvalidBlockNumber_def)
  then have "built ps (bw_blocklist w) []" using st(5) p by (simp add: tracked_def)
  then have e: "bl_queue (bw_blocklist w) = []" "bl_chunks (bw_blocklist w) = []" by (auto simp: built_def)
  then have fin: "bl_finish a ps s' (bw_blocklist w) = Some (s', None)" for a s' by (simp add: bl_finish_def pack_queue.simps)
  define s2 where "s2 = s1[h := (s1 ! h)\<lparr>pg_body := ListHeader (d\<lparr>ll_last := bw_last w\<rparr>)\<rparr>]"
  have h: "h < length s1" using st(1) by (simp add: header_of_def)
  have f: "finalize_and_write (new_buffer env fsm) ps s1 w = Some (s2, bw_list w)"
    using header_of_data [OF st(1)] h fin by (simp add: finalize_and_write_def w(2) s2_def Let_def)
  have "header_of s2 h (d\<lparr>ll_last := bw_last w\<rparr>)" using h by (simp add: header_of_def s2_def)
  from header_of_data [OF this] have "lb_freeable_blocks ps s2 (bw_list w) = Some [h]"
    using st(2) by (simp add: lb_freeable_blocks_def w(2) bl_read_def walk_pages_ok [of _ _ "[]"] lb_open_def)
  then show ?thesis using w(1,2,5) r(1) f sp st(3) p
    by (intro exI [of _ s1] exI [of _ w] exI [of _ p] exI [of _ s2]) auto
qed

section \<open>Witnesses\<close>

theorem linked_bytes_roundtrip_witness:
  "\<exists>s' w. write_bytes ex_env 1 raw_packers ex_pool [[1, 2], [], replicate 10000 3] = Some (s', w) \<and>
     read_all s' (bw_list w) = Some ([1, 2] @ replicate 10000 3) \<and> s' ! 4 = ex_pool ! 4"
proof -
  have "fsm_ok ex_env 1 {0, 4} [] (2 + sum_list (map length [[1, 2], [], replicate 10000 (3 :: u8)]) + 0) ex_pool"
    by (rule ex_pool_ok) auto
  from linked_bytes_roundtrip [OF raw_packers_ok this] show ?thesis by auto
qed

theorem bytes_range_slice_witness:
  "\<exists>s1 w s2. write_bytes ex_env 1 raw_packers ex_pool [[1, 2], replicate 10000 3, [4]] = Some (s1, w) \<and>
     finalize_and_write (new_buffer ex_env 1) raw_packers s1 w = Some (s2, bw_list w) \<and>
     read_ranges raw_packers s2 (bw_list w) [(0, 3), (1, 2), (10001, 10003)] = Some [[1, 2, 3], [2], [3, 4]]"
proof -
  define xs :: "u8 list list" where "xs = [[1, 2], replicate 10000 3, [4]]"
  define rs :: "(nat \<times> nat) list" where "rs = [(0, 3), (1, 2), (10001, 10003)]"
  have o: "fsm_ok ex_env 1 {0} [] (2 + sum_list (map length xs) + (2 + length (concat xs) + 0)) ex_pool"
    by (rule ex_pool_ok) (auto simp: xs_def)
  have l: "0 \<in> {0 :: nat}" "\<forall>x\<in>set xs. length x < 2 ^ 39" "concat xs \<noteq> []" "\<forall>r\<in>set rs. snd r \<le> length (concat xs)"
    by (auto simp: xs_def rs_def)
  obtain s1 w start pgs where w: "write_bytes ex_env 1 raw_packers ex_pool xs = Some (s1, w)"
    "get_start_blockno s1 (lb_header (bw_list w)) = Some start" "walk_pages s1 start = Some pgs"
    "length pgs \<le> Suc (length (concat xs) div bm25_max_free_space)"
     "length pgs < 32 \<or> sorted_wrt (<) pgs \<longrightarrow>
        (\<exists>s2. finalize_and_write (new_buffer ex_env 1) raw_packers s1 w = Some (s2, bw_list w) \<and>
           read_ranges raw_packers s2 (bw_list w) rs = Some (map (\<lambda>(a, b). take (b - a) (drop a (concat xs))) rs))"
    using bytes_range_slice [OF raw_packers_ok o l] by (elim exE conjE) (rule that)
  have "length pgs < 32" using w(4) by (simp add: xs_def bm25_max_free_space_def BLCKSZ_def)
  moreover have "map (\<lambda>(a, b). take (b - a) (drop a (concat xs))) rs = [[1, 2, 3], [2], [3, 4]]"
    by (simp add: xs_def rs_def take_Cons' drop_Cons')
  ultimately show ?thesis using w(1,5) unfolding xs_def rs_def by auto
qed


theorem empty_list_keeps_page_witness:
  "\<exists>s1 w p s2. write_bytes ex_env 1 raw_packers ex_pool [] = Some (s1, w) \<and> get_start_blockno s1 (lb_header (bw_list w)) = Some p \<and>
     finalize_and_write (new_buffer ex_env 1) raw_packers s1 w = Some (s2, bw_list w) \<and>
     lb_freeable_blocks raw_packers s2 (bw_list w) = Some [lb_header (bw_list w)] \<and> p \<noteq> lb_header (bw_list w)"
proof -
  have "fsm_ok ex_env 1 {0} [] (2 + 0) ex_pool" by (rule ex_pool_ok) auto
  from empty_list_keeps_page [OF raw_packers_ok this] show ?thesis by auto
qed

end
