(* ===== verification/Linked_Items.thy ===== *)
theory Linked_Items
  imports Linked_Bytes "HOL-Library.Sublist"
begin

text \<open>
  Lists of items on pages, \<^verbatim>\<open>linked_items.rs\<close>, with the item operations of \<open>PageMut\<close> in \<^verbatim>\<open>buffer.rs\<close> and
  \<open>BM25Page\<close> in \<^verbatim>\<open>utils.rs\<close>: a header page and a chain of pages of line pointers.

  The conversions between an item and its bytes (\<open>Into<PgItem>\<close> and \<open>From<PgItem>\<close>) are the parameters
  \<open>enc\<close> and \<open>dec\<close>.  Whether \<open>PageAddItemExtended\<close> finds room on a page is the parameter \<open>fits\<close>, which is
  given the sizes the items of the page would have.  As in \<^verbatim>\<open>linked_bytes.rs\<close>, the operations of the buffer
  manager are arguments.
\<close>

section \<open>The model\<close>

subsection \<open>Items on a page\<close>

definition page_items :: "page_body \<Rightarrow> line_pointer list option" where
  "page_items c = (case c of Blank \<Rightarrow> Some [] | Items ls \<Rightarrow> Some ls | _ \<Rightarrow> None)"

definition items_on :: "store \<Rightarrow> block_number \<Rightarrow> line_pointer list option" where
  "items_on s b = do { c \<leftarrow> body_of s b; page_items c }"

text \<open>Offset numbers start at 1.\<close>

definition offsets :: "line_pointer list \<Rightarrow> nat list" where
  "offsets ls = [1..<Suc (length ls)]"

definition item_is_dead :: "line_pointer list \<Rightarrow> nat \<Rightarrow> bool" where
  "item_is_dead ls off = lp_dead (ls ! (off - 1))"

definition mark_item_dead :: "line_pointer list \<Rightarrow> nat \<Rightarrow> line_pointer list" where
  "mark_item_dead ls off = ls[off - 1 := (ls ! (off - 1))\<lparr>lp_dead := True\<rparr>]"

definition read_item :: "line_pointer list \<Rightarrow> nat \<Rightarrow> u8 list option" where
  "read_item ls off =
     (let lp = ls ! (off - 1) in if lp_dead lp \<or> length (lp_data lp) = 0 then None else Some (lp_data lp))"

definition deserialize_item :: "(u8 list \<Rightarrow> 't) \<Rightarrow> line_pointer list \<Rightarrow> nat \<Rightarrow> ('t \<times> nat) option" where
  "deserialize_item dec ls off = do { d \<leftarrow> read_item ls off; Some (dec d, length d) }"

definition sizes :: "line_pointer list \<Rightarrow> nat list" where
  "sizes ls = map (\<lambda>lp. length (lp_data lp)) ls"

definition append_item :: "(nat list \<Rightarrow> bool) \<Rightarrow> line_pointer list \<Rightarrow> u8 list \<Rightarrow> line_pointer list option" where
  "append_item fits ls d =
     (if fits (sizes ls @ [length d]) then Some (ls @ [\<lparr>lp_dead = False, lp_data = d\<rparr>]) else None)"

text \<open>An item of the same size is overwritten in place.\<close>

definition replace_item :: "line_pointer list \<Rightarrow> nat \<Rightarrow> u8 list \<Rightarrow> line_pointer list" where
  "replace_item ls off d = ls[off - 1 := \<lparr>lp_dead = False, lp_data = d\<rparr>]"

text \<open>\<open>PageIndexMultiDelete\<close> and \<open>PageIndexTupleDelete\<close> close the gaps they make.\<close>

definition delete_items :: "line_pointer list \<Rightarrow> nat list \<Rightarrow> line_pointer list" where
  "delete_items ls offs = map snd (filter (\<lambda>(off, lp). off \<notin> set offs) (zip (offsets ls) ls))"

definition delete_item :: "line_pointer list \<Rightarrow> nat \<Rightarrow> line_pointer list" where
  "delete_item ls off = take (off - 1) ls @ drop off ls"

subsection \<open>Creating a list\<close>

definition li_create_without_fsm :: "store \<Rightarrow> (store \<times> block_number) option" where
  "li_create_without_fsm s = do {
     (s, hdr) \<leftarrow> init_new_buffer s;
     (s, start) \<leftarrow> init_new_buffer s;
     s \<leftarrow> set_body s hdr (ListHeader \<lparr>ll_start = start, ll_last = start, ll_blocklist = 0\<rparr>);
     Some (s, hdr)
   }"

definition create_without_start_page :: "(store \<Rightarrow> (store \<times> block_number) option) \<Rightarrow> store \<Rightarrow> (store \<times> block_number) option" where
  "create_without_start_page alloc s = do {
     (s, hdr) \<leftarrow> alloc s;
     s \<leftarrow> init_page s hdr;
     Some (s, hdr)
   }"

definition li_create_with_fsm :: "(store \<Rightarrow> (store \<times> block_number) option) \<Rightarrow> store \<Rightarrow> (store \<times> block_number) option" where
  "li_create_with_fsm alloc s = do {
     (s, hdr) \<leftarrow> create_without_start_page alloc s;
     (s, start) \<leftarrow> alloc s;
     s \<leftarrow> init_page s start;
     d \<leftarrow> get_linked_list_data s hdr;
     s \<leftarrow> set_body s hdr (ListHeader (d\<lparr>ll_start := start, ll_last := start\<rparr>));
     Some (s, hdr)
   }"

subsection \<open>Reading\<close>

definition live_items :: "(u8 list \<Rightarrow> 't) \<Rightarrow> line_pointer list \<Rightarrow> 't list" where
  "live_items dec ls = map fst (List.map_filter (deserialize_item dec ls) (offsets ls))"

partial_function (option) list_loop :: "(u8 list \<Rightarrow> 't) \<Rightarrow> store \<Rightarrow> block_number \<Rightarrow> 't list option" where
  "list_loop dec s b =
     (if b = InvalidBlockNumber then Some []
      else do {
        ls \<leftarrow> items_on s b;
        next \<leftarrow> next_blockno s b;
        rest \<leftarrow> list_loop dec s next;
        Some (live_items dec ls @ rest)
      })"

lemmas [code] = list_loop.simps

definition li_list :: "(u8 list \<Rightarrow> 't) \<Rightarrow> store \<Rightarrow> block_number \<Rightarrow> 't list option" where
  "li_list dec s hdr = do { start \<leftarrow> get_start_blockno s hdr; list_loop dec s start }"

partial_function (option) is_empty_loop :: "(u8 list \<Rightarrow> 't) \<Rightarrow> store \<Rightarrow> block_number \<Rightarrow> bool option" where
  "is_empty_loop dec s b =
     (if b = InvalidBlockNumber then Some True
      else do {
        ls \<leftarrow> items_on s b;
        next \<leftarrow> next_blockno s b;
        (if list_ex (\<lambda>off. deserialize_item dec ls off \<noteq> None) (offsets ls) then Some False
         else is_empty_loop dec s next)
      })"

lemmas [code] = is_empty_loop.simps

definition li_is_empty :: "(u8 list \<Rightarrow> 't) \<Rightarrow> store \<Rightarrow> block_number \<Rightarrow> bool option" where
  "li_is_empty dec s hdr = do { start \<leftarrow> get_start_blockno s hdr; is_empty_loop dec s start }"

text \<open>The closure given to \<open>for_each\<close> has a state of its own.\<close>

partial_function (option) for_each_loop :: "(u8 list \<Rightarrow> 't) \<Rightarrow> ('t \<Rightarrow> 'a \<Rightarrow> 'a) \<Rightarrow> store \<Rightarrow> block_number \<Rightarrow> 'a \<Rightarrow> 'a option" where
  "for_each_loop dec f s b a =
     (if b = InvalidBlockNumber then Some a
      else do {
        ls \<leftarrow> items_on s b;
        next \<leftarrow> next_blockno s b;
        for_each_loop dec f s next
          (fold (\<lambda>off a. case deserialize_item dec ls off of Some (t, _) \<Rightarrow> f t a | None \<Rightarrow> a) (offsets ls) a)
      })"

lemmas [code] = for_each_loop.simps

definition li_for_each :: "(u8 list \<Rightarrow> 't) \<Rightarrow> ('t \<Rightarrow> 'a \<Rightarrow> 'a) \<Rightarrow> store \<Rightarrow> block_number \<Rightarrow> 'a \<Rightarrow> 'a option" where
  "li_for_each dec f s hdr a = do { start \<leftarrow> get_start_blockno s hdr; for_each_loop dec f s start a }"

datatype list_error = EntryNotFound

definition lookup_page :: "(u8 list \<Rightarrow> 't) \<Rightarrow> ('t \<Rightarrow> bool) \<Rightarrow> line_pointer list \<Rightarrow> ('t \<times> nat) option" where
  "lookup_page dec cmp ls =
     (case List.find (\<lambda>off. case deserialize_item dec ls off of Some (t, _) \<Rightarrow> cmp t | None \<Rightarrow> False) (offsets ls) of
        None \<Rightarrow> None
      | Some off \<Rightarrow> do { (t, _) \<leftarrow> deserialize_item dec ls off; Some (t, off) })"

partial_function (option) lookup_loop ::
  "(u8 list \<Rightarrow> 't) \<Rightarrow> ('t \<Rightarrow> bool) \<Rightarrow> store \<Rightarrow> block_number \<Rightarrow> (list_error + 't \<times> block_number \<times> nat) option" where
  "lookup_loop dec cmp s b =
     (if b = InvalidBlockNumber then Some (Inl EntryNotFound)
      else do {
        ls \<leftarrow> items_on s b;
        (case lookup_page dec cmp ls of
           Some (t, off) \<Rightarrow> Some (Inr (t, b, off))
         | None \<Rightarrow> do { next \<leftarrow> next_blockno s b; lookup_loop dec cmp s next })
      })"

lemmas [code] = lookup_loop.simps

definition lookup_ex ::
  "(u8 list \<Rightarrow> 't) \<Rightarrow> ('t \<Rightarrow> bool) \<Rightarrow> store \<Rightarrow> block_number \<Rightarrow> block_number option \<Rightarrow>
     (list_error + 't \<times> block_number \<times> nat) option" where
  "lookup_ex dec cmp s hdr start = do {
     b \<leftarrow> (case start of Some b \<Rightarrow> Some b | None \<Rightarrow> get_start_blockno s hdr);
     lookup_loop dec cmp s b
   }"

definition li_lookup :: "(u8 list \<Rightarrow> 't) \<Rightarrow> ('t \<Rightarrow> bool) \<Rightarrow> store \<Rightarrow> block_number \<Rightarrow> (list_error + 't) option" where
  "li_lookup dec cmp s hdr = do { r \<leftarrow> lookup_ex dec cmp s hdr None; Some (map_sum id fst r) }"

definition freeable_blocks_without_header :: "store \<Rightarrow> block_number \<Rightarrow> block_number list option" where
  "freeable_blocks_without_header s start = walk_pages s start"

definition li_freeable_blocks :: "store \<Rightarrow> block_number \<Rightarrow> block_number list option" where
  "li_freeable_blocks s hdr = do {
     start \<leftarrow> get_start_blockno s hdr;
     bs \<leftarrow> freeable_blocks_without_header s start;
     Some (hdr # bs)
   }"

subsection \<open>Adding, removing, updating\<close>

partial_function (option) add_loop ::
  "('t \<Rightarrow> u8 list) \<Rightarrow> (nat list \<Rightarrow> bool) \<Rightarrow> (store \<Rightarrow> (store \<times> block_number) option) \<Rightarrow> store \<Rightarrow> block_number \<Rightarrow>
     't list \<Rightarrow> store option" where
  "add_loop enc fits alloc s b items =
     (case items of
        [] \<Rightarrow> Some s
      | item # rest \<Rightarrow> do {
          ls \<leftarrow> items_on s b;
          (case append_item fits ls (enc item) of
             Some ls \<Rightarrow> do {
               s \<leftarrow> set_body s b (Items ls);
               add_loop enc fits alloc s b rest
             }
           | None \<Rightarrow> do {
               next \<leftarrow> next_blockno s b;
               if next \<noteq> InvalidBlockNumber then add_loop enc fits alloc s next items
               else do {
                 (s, new_blockno) \<leftarrow> alloc s;
                 s \<leftarrow> init_page s new_blockno;
                 s \<leftarrow> set_next s b new_blockno;
                 add_loop enc fits alloc s new_blockno items
               }
             })
        })"

lemmas [code] = add_loop.simps

definition add_items ::
  "('t \<Rightarrow> u8 list) \<Rightarrow> (nat list \<Rightarrow> bool) \<Rightarrow> (store \<Rightarrow> (store \<times> block_number) option) \<Rightarrow> store \<Rightarrow> block_number \<Rightarrow>
     't list \<Rightarrow> block_number option \<Rightarrow> store option" where
  "add_items enc fits alloc s hdr items buffer = do {
     b \<leftarrow> (case buffer of Some b \<Rightarrow> Some b | None \<Rightarrow> get_start_blockno s hdr);
     add_loop enc fits alloc s b items
   }"

text \<open>No other backend changes the page between the search and the lock, but the loop is the code's.\<close>

partial_function (option) remove_loop ::
  "(u8 list \<Rightarrow> 't) \<Rightarrow> ('t \<Rightarrow> bool) \<Rightarrow> store \<Rightarrow> block_number \<Rightarrow> block_number \<Rightarrow> (store \<times> (list_error + 't)) option" where
  "remove_loop dec cmp s hdr start = do {
     r \<leftarrow> lookup_ex dec cmp s hdr (Some start);
     (case r of
        Inl e \<Rightarrow> Some (s, Inl e)
      | Inr (_, b, off) \<Rightarrow> do {
          ls \<leftarrow> items_on s b;
          (case deserialize_item dec ls off of
             Some (item, _) \<Rightarrow>
               if cmp item then do { s \<leftarrow> set_body s b (Items (delete_item ls off)); Some (s, Inr item) }
               else remove_loop dec cmp s hdr start
           | None \<Rightarrow> remove_loop dec cmp s hdr start)
        })
   }"

lemmas [code] = remove_loop.simps

definition remove_item ::
  "(u8 list \<Rightarrow> 't) \<Rightarrow> ('t \<Rightarrow> bool) \<Rightarrow> store \<Rightarrow> block_number \<Rightarrow> (store \<times> (list_error + 't)) option" where
  "remove_item dec cmp s hdr = do {
     d \<leftarrow> get_linked_list_data s hdr;
     remove_loop dec cmp s hdr (ll_start d)
   }"

partial_function (option) update_loop ::
  "('t \<Rightarrow> u8 list) \<Rightarrow> (u8 list \<Rightarrow> 't) \<Rightarrow> ('t \<Rightarrow> bool) \<Rightarrow> ('t \<Rightarrow> 't) \<Rightarrow> store \<Rightarrow> block_number \<Rightarrow> block_number \<Rightarrow>
     (store \<times> (list_error + unit)) option" where
  "update_loop enc dec cmp upd s hdr start = do {
     r \<leftarrow> lookup_ex dec cmp s hdr (Some start);
     (case r of
        Inl e \<Rightarrow> Some (s, Inl e)
      | Inr (_, b, off) \<Rightarrow> do {
          ls \<leftarrow> items_on s b;
          (case deserialize_item dec ls off of
             Some (item, old_size) \<Rightarrow>
               if cmp item
               then do {
                 let d = enc (upd item);
                 if old_size \<noteq> length d then None
                 else do { s \<leftarrow> set_body s b (Items (replace_item ls off d)); Some (s, Inr ()) }
               }
               else update_loop enc dec cmp upd s hdr start
           | None \<Rightarrow> update_loop enc dec cmp upd s hdr start)
        })
   }"

lemmas [code] = update_loop.simps

definition update_item ::
  "('t \<Rightarrow> u8 list) \<Rightarrow> (u8 list \<Rightarrow> 't) \<Rightarrow> ('t \<Rightarrow> bool) \<Rightarrow> ('t \<Rightarrow> 't) \<Rightarrow> store \<Rightarrow> block_number \<Rightarrow>
     (store \<times> (list_error + unit)) option" where
  "update_item enc dec cmp upd s hdr = do {
     d \<leftarrow> get_linked_list_data s hdr;
     update_loop enc dec cmp upd s hdr (ll_start d)
   }"

section \<open>One page\<close>

definition live :: "line_pointer \<Rightarrow> bool" where
  "live lp \<longleftrightarrow> \<not> lp_dead lp \<and> lp_data lp \<noteq> []"

lemma offsets_Suc: "offsets ls = map Suc [0..<length ls]"
  by (simp add: offsets_def map_Suc_upt)

lemma nth_offsets: "map (\<lambda>off. ls ! (off - Suc 0)) (offsets ls) = ls"
  by (simp add: offsets_Suc comp_def map_nth)

lemma deserialize_live:
  "deserialize_item dec ls off = (let lp = ls ! (off - 1) in if live lp then Some (dec (lp_data lp), length (lp_data lp)) else None)"
  by (simp add: deserialize_item_def read_item_def live_def Let_def)

lemma map_filter_live: "List.map_filter (\<lambda>lp. if live lp then Some (g lp) else None) ls = map g (filter live ls)"
  by (induction ls) (simp_all add: List.map_filter_simps)

lemma live_items_filter: "live_items dec ls = map (\<lambda>lp. dec (lp_data lp)) (filter live ls)"
proof -
  have "List.map_filter (deserialize_item dec ls) (offsets ls) =
      List.map_filter (\<lambda>lp. if live lp then Some (dec (lp_data lp), length (lp_data lp)) else None) (map (\<lambda>off. ls ! (off - Suc 0)) (offsets ls))"
    by (simp add: List.map_filter_def filter_map comp_def deserialize_live Let_def)
  then show ?thesis unfolding nth_offsets by (simp add: live_items_def map_filter_live)
qed

lemma live_items_simps [simp]:
  "live_items dec [] = []" "live_items dec (xs @ ys) = live_items dec xs @ live_items dec ys"
  by (simp_all add: live_items_filter)

lemma live_items_Cons: "live_items dec (lp # ls) = (if live lp then [dec (lp_data lp)] else []) @ live_items dec ls"
  by (simp add: live_items_filter)

lemma fold_offsets: "fold (\<lambda>off. h (ls ! (off - 1))) (offsets ls) a = fold h ls a"
proof -
  have "fold h (map (\<lambda>off. ls ! (off - Suc 0)) (offsets ls)) a = fold (\<lambda>off. h (ls ! (off - 1))) (offsets ls) a"
    by (simp add: fold_map comp_def)
  then show ?thesis unfolding nth_offsets by (rule sym)
qed

lemma for_each_page:
  "fold (\<lambda>off a. case deserialize_item dec ls off of Some (t, _) \<Rightarrow> f t a | None \<Rightarrow> a) (offsets ls) a = fold f (live_items dec ls) a"
proof -
  have "fold (\<lambda>lp a. if live lp then f (dec (lp_data lp)) a else a) ls a = fold f (live_items dec ls) a"
    by (induction ls arbitrary: a) (simp_all add: live_items_Cons)
  moreover have "(\<lambda>off a. case deserialize_item dec ls off of Some (t, _) \<Rightarrow> f t a | None \<Rightarrow> a) =
      (\<lambda>off. (\<lambda>lp a. if live lp then f (dec (lp_data lp)) a else a) (ls ! (off - 1)))"
    by (auto simp: deserialize_live Let_def fun_eq_iff)
  ultimately show ?thesis using fold_offsets [of "\<lambda>lp a. if live lp then f (dec (lp_data lp)) a else a" ls a] by simp
qed

lemma empty_page: "list_ex (\<lambda>off. deserialize_item dec ls off \<noteq> None) (offsets ls) \<longleftrightarrow> live_items dec ls \<noteq> []"
proof -
  have "live_items dec ls = [] \<longleftrightarrow> (\<forall>off\<in>set (offsets ls). deserialize_item dec ls off = None)"
    by (simp add: live_items_def List.map_filter_def filter_empty_conv del: split_paired_All split_paired_Ex)
  then show ?thesis by (auto simp: list_ex_iff)
qed

text \<open>A line pointer that is matched, and the offset the search reports for it.\<close>

definition hit :: "(u8 list \<Rightarrow> 't) \<Rightarrow> ('t \<Rightarrow> bool) \<Rightarrow> line_pointer \<Rightarrow> bool" where
  "hit dec cmp lp \<longleftrightarrow> live lp \<and> cmp (dec (lp_data lp))"

lemma lookup_page_None: "lookup_page dec cmp ls = None \<longleftrightarrow> (\<forall>t\<in>set (live_items dec ls). \<not> cmp t)"
proof -
  have h: "(case deserialize_item dec ls off of Some (t, _) \<Rightarrow> cmp t | None \<Rightarrow> False) \<longleftrightarrow> hit dec cmp (ls ! (off - 1))" for off
    by (simp add: deserialize_live hit_def Let_def)
  have "(\<forall>off\<in>set (offsets ls). \<not> hit dec cmp (ls ! (off - 1))) \<longleftrightarrow> (\<forall>lp\<in>set (map (\<lambda>off. ls ! (off - Suc 0)) (offsets ls)). \<not> hit dec cmp lp)"
    by simp
  also have "\<dots> \<longleftrightarrow> (\<forall>t\<in>set (live_items dec ls). \<not> cmp t)"
    unfolding nth_offsets by (auto simp: hit_def live_items_filter)
  finally show ?thesis
    by (auto simp: lookup_page_def h find_None_iff find_Some_iff deserialize_live hit_def Let_def split: option.splits)
qed

lemma lookup_page_Some:
  assumes "lookup_page dec cmp ls = Some (t, off)"
  obtains xs lp ys where "ls = xs @ lp # ys" "off = Suc (length xs)" "live lp" "t = dec (lp_data lp)" "cmp t"
    "\<forall>t\<in>set (live_items dec xs). \<not> cmp t"
proof -
  have h: "(case deserialize_item dec ls off of Some (t, _) \<Rightarrow> cmp t | None \<Rightarrow> False) \<longleftrightarrow> hit dec cmp (ls ! (off - 1))" for off
    by (simp add: deserialize_live hit_def Let_def)
  obtain o' where o: "List.find (\<lambda>off. hit dec cmp (ls ! (off - 1))) (offsets ls) = Some o'"
    "Option.bind (deserialize_item dec ls o') (\<lambda>(t, _). Some (t, o')) = Some (t, off)"
    using assms unfolding lookup_page_def h by (auto split: option.splits)
  obtain i where i0: "i < length ls" "o' = Suc i" "hit dec cmp (ls ! i)" "\<forall>j<i. \<not> hit dec cmp (ls ! j)"
    using o(1) by (auto simp: find_Some_iff offsets_Suc)
  have i1: "t = dec (lp_data (ls ! i))" "off = Suc i"
    using o(2) i0(2,3) by (simp_all add: deserialize_live hit_def Let_def)
  note i = i0(1) i1(2) i0(3,4) i1(1)
  show thesis
  proof (rule that [of "take i ls" "ls ! i" "drop (Suc i) ls"])
    show "ls = take i ls @ ls ! i # drop (Suc i) ls" using i(1) by (simp add: id_take_nth_drop)
    have "\<not> hit dec cmp lp" if "lp \<in> set (take i ls)" for lp using that i(1,4) by (auto simp: in_set_conv_nth)
    then show "\<forall>t\<in>set (live_items dec (take i ls)). \<not> cmp t" by (auto simp: live_items_filter hit_def)
  qed (use i in \<open>auto simp: hit_def\<close>)
qed

definition room_ok :: "(nat list \<Rightarrow> bool) \<Rightarrow> bool" where
  "room_ok fits \<longleftrightarrow> fits [] \<and> (\<forall>ns ms. fits ns \<longrightarrow> subseq ms ns \<longrightarrow> fits ms)"

lemma room_filter: "room_ok fits \<Longrightarrow> fits (sizes ls) \<Longrightarrow> fits (sizes (filter P ls))"
  unfolding room_ok_def sizes_def by (metis subseq_filter_left subseq_map)

section \<open>Chains of item pages\<close>

definition item_page :: "(nat list \<Rightarrow> bool) \<Rightarrow> page \<Rightarrow> bool" where
  "item_page fits p \<longleftrightarrow> (\<exists>ls. page_items (pg_body p) = Some ls \<and> fits (sizes ls))"

definition page_data :: "(u8 list \<Rightarrow> 't) \<Rightarrow> page \<Rightarrow> 't list" where
  "page_data dec p = live_items dec (the (page_items (pg_body p)))"

definition li_data :: "(u8 list \<Rightarrow> 't) \<Rightarrow> store \<Rightarrow> block_number list \<Rightarrow> 't list" where
  "li_data dec s bs = concat (map (\<lambda>b. page_data dec (s ! b)) bs)"

definition li_chain :: "(nat list \<Rightarrow> bool) \<Rightarrow> store \<Rightarrow> block_number list \<Rightarrow> bool" where
  "li_chain fits s bs \<longleftrightarrow> bs \<noteq> [] \<and> distinct bs \<and> 0 \<notin> set bs \<and> pages_from s (hd bs) bs \<and> (\<forall>b\<in>set bs. item_page fits (s ! b))"

definition li_rep :: "(nat list \<Rightarrow> bool) \<Rightarrow> store \<Rightarrow> block_number \<Rightarrow> block_number list \<Rightarrow> bool" where
  "li_rep fits s hdr bs \<longleftrightarrow> li_chain fits s bs \<and> hdr \<notin> set bs \<and> hdr < length s \<and>
     (\<exists>d. get_linked_list_data s hdr = Some d \<and> ll_start d = hd bs)"

lemma page_items_simps [simp]: "page_items Blank = Some []" "page_items (Items ls) = Some ls"
  by (simp_all add: page_items_def)

lemma items_on_in [simp]: "b < length s \<Longrightarrow> items_on s b = page_items (pg_body (s ! b))"
  by (simp add: items_on_def)

lemma item_page_dest:
  assumes "item_page fits p"
  obtains ls where "page_items (pg_body p) = Some ls" "fits (sizes ls)" "page_data dec p = live_items dec ls"
  using assms by (auto simp: item_page_def page_data_def)

lemma li_data_simps [simp]:
  "li_data dec s [] = []" "li_data dec s (b # bs) = page_data dec (s ! b) @ li_data dec s bs"
  "li_data dec s (xs @ ys) = li_data dec s xs @ li_data dec s ys"
  by (simp_all add: li_data_def)

lemma li_data_body: "(\<And>b. b \<in> set bs \<Longrightarrow> pg_body (s' ! b) = pg_body (s ! b)) \<Longrightarrow> li_data dec s' bs = li_data dec s bs"
  by (induction bs) (simp_all add: page_data_def)

lemma li_data_cong: "(\<And>b. b \<in> set bs \<Longrightarrow> s' ! b = s ! b) \<Longrightarrow> li_data dec s' bs = li_data dec s bs"
  by (rule li_data_body) simp

lemma li_chain_cong:
  assumes "li_chain fits s bs" "length s \<le> length s'" "\<And>b. b \<in> set bs \<Longrightarrow> s' ! b = s ! b"
  shows "li_chain fits s' bs"
proof -
  have p: "pages_from s (hd bs) bs" using assms(1) by (simp add: li_chain_def)
  have "pages_from s' (hd bs) bs"
  proof (rule lseg_cong [OF p])
    fix x assume x: "x \<in> set bs"
    then show "x < length s' \<and> pg_next (s' ! x) = pg_next (s ! x)" using lseg_bound [OF p x] assms(2,3) by auto
  qed
  then show ?thesis using assms by (auto simp: li_chain_def)
qed

lemma li_rep_cong:
  assumes "li_rep fits s hdr bs" "length s \<le> length s'" "\<And>b. b \<in> insert hdr (set bs) \<Longrightarrow> s' ! b = s ! b"
  shows "li_rep fits s' hdr bs"
proof -
  have "li_chain fits s' bs" by (rule li_chain_cong) (use assms in \<open>auto simp: li_rep_def\<close>)
  moreover have "get_linked_list_data s' hdr = get_linked_list_data s hdr"
    using assms by (simp add: li_rep_def get_linked_list_data_def)
  ultimately show ?thesis using assms by (auto simp: li_rep_def)
qed

lemma li_rep_start: "li_rep fits s hdr bs \<Longrightarrow> get_start_blockno s hdr = Some (hd bs)"
proof -
  assume r: "li_rep fits s hdr bs"
  then obtain b bs' where b: "bs = b # bs'" by (cases bs) (auto simp: li_rep_def li_chain_def)
  show ?thesis using r by (auto simp: li_rep_def li_chain_def b get_start_blockno_def)
qed

lemma li_chain_bound: "li_chain fits s bs \<Longrightarrow> b \<in> set bs \<Longrightarrow> b < length s \<and> b \<noteq> InvalidBlockNumber \<and> item_page fits (s ! b)"
  using lseg_bound by (fastforce simp: li_chain_def)

subsection \<open>Reading\<close>

lemma list_loop_ok:
  "pages_from s b bs \<Longrightarrow> \<forall>b\<in>set bs. item_page fits (s ! b) \<Longrightarrow> list_loop dec s b = Some (li_data dec s bs)"
proof (induction bs arbitrary: b)
  case (Cons x bs)
  then have x: "b = x" "x \<noteq> InvalidBlockNumber" "x < length s" by auto
  obtain ls where "page_items (pg_body (s ! x)) = Some ls" "page_data dec (s ! x) = live_items dec ls"
    using item_page_dest Cons.prems(2) by (metis list.set_intros(1))
  then show ?case using Cons x by (simp add: list_loop.simps [of dec s x])
qed (simp add: list_loop.simps)

lemma li_list_ok: "li_rep fits s hdr bs \<Longrightarrow> li_list dec s hdr = Some (li_data dec s bs)"
  using li_rep_start [of fits s hdr bs] list_loop_ok [of s "hd bs" bs fits dec] by (simp add: li_list_def li_rep_def li_chain_def)

lemma is_empty_loop_ok:
  "pages_from s b bs \<Longrightarrow> \<forall>b\<in>set bs. item_page fits (s ! b) \<Longrightarrow> is_empty_loop dec s b = Some (li_data dec s bs = [])"
proof (induction bs arbitrary: b)
  case (Cons x bs)
  then have x: "b = x" "x \<noteq> InvalidBlockNumber" "x < length s" by auto
  obtain ls where "page_items (pg_body (s ! x)) = Some ls" "page_data dec (s ! x) = live_items dec ls"
    using item_page_dest Cons.prems(2) by (metis list.set_intros(1))
  then show ?case using Cons x by (simp add: is_empty_loop.simps [of dec s x] empty_page del: not_None_eq)
qed (simp add: is_empty_loop.simps)

lemma for_each_loop_ok:
  "pages_from s b bs \<Longrightarrow> \<forall>b\<in>set bs. item_page fits (s ! b) \<Longrightarrow> for_each_loop dec f s b a = Some (fold f (li_data dec s bs) a)"
proof (induction bs arbitrary: b a)
  case (Cons x bs)
  then have x: "b = x" "x \<noteq> InvalidBlockNumber" "x < length s" by auto
  obtain ls where "page_items (pg_body (s ! x)) = Some ls" "page_data dec (s ! x) = live_items dec ls"
    using item_page_dest Cons.prems(2) by (metis list.set_intros(1))
  then show ?case using Cons x by (simp add: for_each_loop.simps [of dec f s x] for_each_page)
qed (simp add: for_each_loop.simps)

text \<open>A search either fails and nothing matches, or ends at the first match.\<close>

lemma lookup_loop_none:
  assumes "\<forall>t\<in>set (li_data dec s bs). \<not> cmp t"
  shows "pages_from s b bs \<Longrightarrow> \<forall>b\<in>set bs. item_page fits (s ! b) \<Longrightarrow> lookup_loop dec cmp s b = Some (Inl EntryNotFound)"
  using assms
proof (induction bs arbitrary: b)
  case (Cons x bs)
  then have x: "b = x" "x \<noteq> InvalidBlockNumber" "x < length s" by auto
  obtain ls where ls: "page_items (pg_body (s ! x)) = Some ls" "page_data dec (s ! x) = live_items dec ls"
    using item_page_dest Cons.prems(2) by (metis list.set_intros(1))
  have "lookup_page dec cmp ls = None" using Cons.prems(3) ls(2) by (simp add: lookup_page_None)
  then show ?case using Cons x ls(1) by (simp add: lookup_loop.simps [of dec cmp s x])
qed (simp add: lookup_loop.simps)

lemma lookup_loop_some:
  assumes "\<exists>t\<in>set (li_data dec s bs). cmp t"
  shows "pages_from s b bs \<Longrightarrow> \<forall>b\<in>set bs. item_page fits (s ! b) \<Longrightarrow>
     \<exists>pre x post xs lp ys. bs = pre @ x # post \<and> page_items (pg_body (s ! x)) = Some (xs @ lp # ys) \<and> live lp \<and> cmp (dec (lp_data lp)) \<and>
       (\<forall>t\<in>set (li_data dec s pre @ live_items dec xs). \<not> cmp t) \<and>
       lookup_loop dec cmp s b = Some (Inr (dec (lp_data lp), x, Suc (length xs)))"
  using assms
proof (induction bs arbitrary: b)
  case (Cons x bs)
  then have x: "b = x" "x \<noteq> InvalidBlockNumber" "x < length s" by auto
  obtain ls where ls: "page_items (pg_body (s ! x)) = Some ls" "page_data dec (s ! x) = live_items dec ls"
    using item_page_dest Cons.prems(2) by (metis list.set_intros(1))
  show ?case
  proof (cases "lookup_page dec cmp ls")
    case None
    then have no: "\<forall>t\<in>set (live_items dec ls). \<not> cmp t" by (simp add: lookup_page_None)
    have "\<exists>t\<in>set (li_data dec s bs). cmp t" using Cons.prems(3) no ls(2) by auto
    then obtain pre y post xs lp ys where ih: "bs = pre @ y # post" "page_items (pg_body (s ! y)) = Some (xs @ lp # ys)" "live lp" "cmp (dec (lp_data lp))"
      "\<forall>t\<in>set (li_data dec s pre @ live_items dec xs). \<not> cmp t"
      "lookup_loop dec cmp s (pg_next (s ! x)) = Some (Inr (dec (lp_data lp), y, Suc (length xs)))"
      using Cons.IH [of "pg_next (s ! x)"] Cons.prems(1,2) by auto
    have "lookup_loop dec cmp s b = Some (Inr (dec (lp_data lp), y, Suc (length xs)))"
      using ih(6) x ls(1) None by (simp add: lookup_loop.simps [of dec cmp s x])
    moreover have "\<forall>t\<in>set (li_data dec s (x # pre) @ live_items dec xs). \<not> cmp t" using ih(5) no ls(2) by auto
    ultimately show ?thesis using ih(1-4) by (intro exI [of _ "x # pre"] exI [of _ y] exI [of _ post] exI [of _ xs] exI [of _ lp] exI [of _ ys]) simp
  next
    case (Some r)
    obtain t off where r: "r = (t, off)" by (cases r)
    obtain xs lp ys where l: "ls = xs @ lp # ys" "off = Suc (length xs)" "live lp" "t = dec (lp_data lp)" "cmp t"
      "\<forall>t\<in>set (live_items dec xs). \<not> cmp t" by (rule lookup_page_Some [OF Some [unfolded r]])
    have "lookup_loop dec cmp s b = Some (Inr (dec (lp_data lp), x, Suc (length xs)))"
      using x ls(1) Some r l(2,4) by (simp add: lookup_loop.simps [of dec cmp s x])
    then show ?thesis using ls(1) l by (intro exI [of _ "[]"] exI [of _ x] exI [of _ bs] exI [of _ xs] exI [of _ lp] exI [of _ ys]) simp
  qed
qed simp

subsection \<open>Writing to a page of a list\<close>

lemma li_chain_body:
  assumes "li_chain fits s (pre @ b # post)" "fits (sizes ls)"
  shows "li_chain fits (s[b := (s ! b)\<lparr>pg_body := Items ls\<rparr>]) (pre @ b # post)"
    "li_data dec (s[b := (s ! b)\<lparr>pg_body := Items ls\<rparr>]) (pre @ b # post) = li_data dec s pre @ live_items dec ls @ li_data dec s post"
proof -
  let ?s = "s[b := (s ! b)\<lparr>pg_body := Items ls\<rparr>]"
  have b: "b < length s" "b \<notin> set pre" "b \<notin> set post" using li_chain_bound [OF assms(1)] assms(1) by (auto simp: li_chain_def)
  have "item_page fits (?s ! x)" if "x \<in> set (pre @ b # post)" for x
    using li_chain_bound [OF assms(1) that] assms(2) b(1) by (cases "x = b") (auto simp: item_page_def)
  then show "li_chain fits ?s (pre @ b # post)" using assms(1) by (simp add: li_chain_def)
  have "li_data dec ?s pre = li_data dec s pre" "li_data dec ?s post = li_data dec s post"
    by (rule li_data_cong; use b in \<open>auto intro!: nth_list_update_neq\<close>)+
  then show "li_data dec ?s (pre @ b # post) = li_data dec s pre @ live_items dec ls @ li_data dec s post"
    using b(1) by (simp add: page_data_def)
qed

lemma li_rep_body:
  assumes "li_rep fits s hdr (pre @ b # post)" "fits (sizes ls)"
  shows "li_rep fits (s[b := (s ! b)\<lparr>pg_body := Items ls\<rparr>]) hdr (pre @ b # post)"
proof -
  have "hdr \<noteq> b" using assms(1) by (auto simp: li_rep_def)
  then have "get_linked_list_data (s[b := (s ! b)\<lparr>pg_body := Items ls\<rparr>]) hdr = get_linked_list_data s hdr"
    using assms(1) by (simp add: li_rep_def get_linked_list_data_def)
  then show ?thesis using assms li_chain_body(1) [of fits s pre b post ls] by (auto simp: li_rep_def)
qed

lemma room_sub: "room_ok fits \<Longrightarrow> fits ns \<Longrightarrow> subseq ms ns \<Longrightarrow> fits ms"
  by (auto simp: room_ok_def)

lemma li_rep_page:
  assumes "li_rep fits s hdr (pre @ b # post)" "page_items (pg_body (s ! b)) = Some ls"
  shows "b < length s" "fits (sizes ls)" "page_data dec (s ! b) = live_items dec ls" "items_on s b = Some ls"
proof -
  have b: "b < length s \<and> b \<noteq> InvalidBlockNumber \<and> item_page fits (s ! b)"
    by (rule li_chain_bound [of fits s "pre @ b # post"]) (use assms(1) in \<open>auto simp: li_rep_def\<close>)
  then show "b < length s" "fits (sizes ls)" "page_data dec (s ! b) = live_items dec ls" "items_on s b = Some ls"
    using assms(2) by (auto simp: item_page_def page_data_def)
qed

lemma lookup_rep:
  assumes "li_rep fits s hdr bs"
  shows "(\<exists>d. get_linked_list_data s hdr = Some d \<and> ll_start d = hd bs)" "pages_from s (hd bs) bs" "\<forall>b\<in>set bs. item_page fits (s ! b)"
  using assms by (auto simp: li_rep_def li_chain_def)

lemma takeWhile_first: "\<forall>t\<in>set xs. \<not> cmp t \<Longrightarrow> cmp t \<Longrightarrow> takeWhile (\<lambda>t. \<not> cmp t) (xs @ t # ys) = xs \<and> dropWhile (\<lambda>t. \<not> cmp t) (xs @ t # ys) = t # ys"
  by (induction xs) auto

text \<open>The first match of a search, with the page and the line pointer it is on.\<close>

lemma first_match:
  assumes "li_rep fits s hdr bs" "\<exists>t\<in>set (li_data dec s bs). cmp t"
  obtains pre b post xs lp ys where "bs = pre @ b # post" "page_items (pg_body (s ! b)) = Some (xs @ lp # ys)" "live lp" "cmp (dec (lp_data lp))"
    "takeWhile (\<lambda>t. \<not> cmp t) (li_data dec s bs) = li_data dec s pre @ live_items dec xs"
    "dropWhile (\<lambda>t. \<not> cmp t) (li_data dec s bs) = dec (lp_data lp) # live_items dec ys @ li_data dec s post"
    "lookup_loop dec cmp s (hd bs) = Some (Inr (dec (lp_data lp), b, Suc (length xs)))"
proof -
  obtain pre b post xs lp ys where l: "bs = pre @ b # post" "page_items (pg_body (s ! b)) = Some (xs @ lp # ys)" "live lp" "cmp (dec (lp_data lp))"
    "\<forall>t\<in>set (li_data dec s pre @ live_items dec xs). \<not> cmp t"
    "lookup_loop dec cmp s (hd bs) = Some (Inr (dec (lp_data lp), b, Suc (length xs)))"
    using lookup_loop_some [where cmp = cmp, OF assms(2) lookup_rep(2,3) [OF assms(1)]] by (elim exE conjE) (rule that)
  have "li_data dec s bs = (li_data dec s pre @ live_items dec xs) @ dec (lp_data lp) # live_items dec ys @ li_data dec s post"
    using li_rep_page(3) [OF assms(1) [unfolded l(1)] l(2), of dec] l(1,3) by (simp add: live_items_Cons)
  with takeWhile_first [OF l(5) l(4)] show thesis by (intro that [OF l(1-4) _ _ l(6)]) simp_all
qed

lemma remove_item_ok:
  assumes "room_ok fits" "li_rep fits s hdr bs" "li_list dec s hdr = Some ts"
  shows "case List.find cmp ts of
     None \<Rightarrow> remove_item dec cmp s hdr = Some (s, Inl EntryNotFound)
   | Some t \<Rightarrow> \<exists>s'. remove_item dec cmp s hdr = Some (s', Inr t) \<and> li_rep fits s' hdr bs \<and> frame (set bs) s s' \<and> length s' = length s \<and>
       li_list dec s' hdr = Some (takeWhile (\<lambda>t. \<not> cmp t) ts @ tl (dropWhile (\<lambda>t. \<not> cmp t) ts))"
proof -
  obtain d where d: "get_linked_list_data s hdr = Some d" "ll_start d = hd bs" using lookup_rep(1) [OF assms(2)] by blast
  have ts: "ts = li_data dec s bs" using li_list_ok [OF assms(2), of dec] assms(3) by simp
  show ?thesis
  proof (cases "\<exists>t\<in>set ts. cmp t")
    case False
    then have "lookup_loop dec cmp s (hd bs) = Some (Inl EntryNotFound)"
      by (intro lookup_loop_none [OF _ lookup_rep(2,3) [OF assms(2)]]) (simp add: ts)
    then have "remove_item dec cmp s hdr = Some (s, Inl EntryNotFound)"
      by (simp add: remove_item_def d remove_loop.simps [of dec cmp s hdr "hd bs"] lookup_ex_def)
    moreover have "List.find cmp ts = None" using False by (simp add: find_None_iff)
    ultimately show ?thesis by simp
  next
    case True
    obtain pre b post xs lp ys where l: "bs = pre @ b # post" "page_items (pg_body (s ! b)) = Some (xs @ lp # ys)" "live lp" "cmp (dec (lp_data lp))"
      "takeWhile (\<lambda>t. \<not> cmp t) (li_data dec s bs) = li_data dec s pre @ live_items dec xs"
      "dropWhile (\<lambda>t. \<not> cmp t) (li_data dec s bs) = dec (lp_data lp) # live_items dec ys @ li_data dec s post"
      "lookup_loop dec cmp s (hd bs) = Some (Inr (dec (lp_data lp), b, Suc (length xs)))"
      by (rule first_match [OF assms(2) True [unfolded ts]])
    note r = assms(2) [unfolded l(1)] and pg = li_rep_page [OF assms(2) [unfolded l(1)] l(2)]
    let ?s = "s[b := (s ! b)\<lparr>pg_body := Items (xs @ ys)\<rparr>]"
    have "fits (sizes (xs @ ys))" by (rule room_sub [OF assms(1) pg(2)]) (auto simp: sizes_def intro!: list_emb_append_mono)
    note rep = li_rep_body [OF r this] and dat = li_chain_body(2) [OF conjunct1 [OF r [unfolded li_rep_def]] this, of dec]
    have fnd: "List.find cmp ts = Some (dec (lp_data lp))" using l(4,6) by (simp add: find_dropWhile ts comp_def)
    have "remove_item dec cmp s hdr = Some (?s, Inr (dec (lp_data lp)))"
      using l(3,4,7) pg(1,4) by (simp add: remove_item_def d remove_loop.simps [of dec cmp s hdr "hd bs"] lookup_ex_def deserialize_live delete_item_def)
    moreover have "li_list dec ?s hdr = Some (takeWhile (\<lambda>t. \<not> cmp t) ts @ tl (dropWhile (\<lambda>t. \<not> cmp t) ts))"
      using li_list_ok [OF rep, of dec] dat l(5,6) by (simp add: ts)
    ultimately show ?thesis using rep l(1) fnd by simp
  qed
qed

text \<open>The bytes of all line pointers of a list.\<close>

definition li_bytes :: "store \<Rightarrow> block_number list \<Rightarrow> u8 list list" where
  "li_bytes s bs = concat (map (\<lambda>b. map lp_data (the (page_items (pg_body (s ! b))))) bs)"

lemma update_item_ok:
  assumes "li_rep fits s hdr bs" "li_list dec s hdr = Some ts"
    "\<And>d. d \<in> set (li_bytes s bs) \<Longrightarrow> cmp (dec d) \<Longrightarrow> d \<noteq> [] \<Longrightarrow> length (enc (upd (dec d))) = length d \<and> dec (enc (upd (dec d))) = upd (dec d)"
  shows "case List.find cmp ts of
     None \<Rightarrow> update_item enc dec cmp upd s hdr = Some (s, Inl EntryNotFound)
   | Some t \<Rightarrow> \<exists>s'. update_item enc dec cmp upd s hdr = Some (s', Inr ()) \<and> li_rep fits s' hdr bs \<and> frame (set bs) s s' \<and> length s' = length s \<and>
       li_list dec s' hdr = Some (takeWhile (\<lambda>t. \<not> cmp t) ts @ upd t # tl (dropWhile (\<lambda>t. \<not> cmp t) ts))"
proof -
  obtain d where d: "get_linked_list_data s hdr = Some d" "ll_start d = hd bs" using lookup_rep(1) [OF assms(1)] by blast
  have ts: "ts = li_data dec s bs" using li_list_ok [OF assms(1), of dec] assms(2) by simp
  show ?thesis
  proof (cases "\<exists>t\<in>set ts. cmp t")
    case False
    then have "lookup_loop dec cmp s (hd bs) = Some (Inl EntryNotFound)"
      by (intro lookup_loop_none [OF _ lookup_rep(2,3) [OF assms(1)]]) (simp add: ts)
    then have "update_item enc dec cmp upd s hdr = Some (s, Inl EntryNotFound)"
      by (simp add: update_item_def d update_loop.simps [of enc dec cmp upd s hdr "hd bs"] lookup_ex_def)
    moreover have "List.find cmp ts = None" using False by (simp add: find_None_iff)
    ultimately show ?thesis by simp
  next
    case True
    obtain pre b post xs lp ys where l: "bs = pre @ b # post" "page_items (pg_body (s ! b)) = Some (xs @ lp # ys)" "live lp" "cmp (dec (lp_data lp))"
      "takeWhile (\<lambda>t. \<not> cmp t) (li_data dec s bs) = li_data dec s pre @ live_items dec xs"
      "dropWhile (\<lambda>t. \<not> cmp t) (li_data dec s bs) = dec (lp_data lp) # live_items dec ys @ li_data dec s post"
      "lookup_loop dec cmp s (hd bs) = Some (Inr (dec (lp_data lp), b, Suc (length xs)))"
      by (rule first_match [OF assms(1) True [unfolded ts]])
    note r = assms(1) [unfolded l(1)] and pg = li_rep_page [OF assms(1) [unfolded l(1)] l(2)]
    define new where "new = \<lparr>lp_dead = False, lp_data = enc (upd (dec (lp_data lp)))\<rparr>"
    have stored: "lp_data lp \<in> set (li_bytes s bs)" using l(2) by (simp add: li_bytes_def l(1))
    have e: "length (lp_data new) = length (lp_data lp)" "dec (lp_data new) = upd (dec (lp_data lp))" "live new"
      using assms(3) [OF stored l(4)] l(3) by (auto simp: new_def live_def simp flip: length_greater_0_conv)
    let ?s = "s[b := (s ! b)\<lparr>pg_body := Items (xs @ new # ys)\<rparr>]"
    have "fits (sizes (xs @ new # ys))" using pg(2) e(1) by (simp add: sizes_def)
    note rep = li_rep_body [OF r this] and dat = li_chain_body(2) [OF conjunct1 [OF r [unfolded li_rep_def]] this, of dec]
    have fnd: "List.find cmp ts = Some (dec (lp_data lp))" using l(4,6) by (simp add: find_dropWhile ts comp_def)
    have "update_item enc dec cmp upd s hdr = Some (?s, Inr ())"
      using l(3,4,7) pg(1,4) e(1) by (simp add: update_item_def d update_loop.simps [of enc dec cmp upd s hdr "hd bs"] lookup_ex_def deserialize_live replace_item_def new_def)
    moreover have "li_list dec ?s hdr = Some (takeWhile (\<lambda>t. \<not> cmp t) ts @ upd (dec (lp_data lp)) # tl (dropWhile (\<lambda>t. \<not> cmp t) ts))"
      using li_list_ok [OF rep, of dec] dat l(5,6) e(2,3) by (simp add: ts live_items_Cons)
    ultimately show ?thesis using rep l(1) fnd by simp
  qed
qed

section \<open>Lists on pages of the pool\<close>

text \<open>What the conversions of the items and the room of an empty page have to satisfy.\<close>

definition items_ok :: "('t \<Rightarrow> u8 list) \<Rightarrow> (u8 list \<Rightarrow> 't) \<Rightarrow> (nat list \<Rightarrow> bool) \<Rightarrow> 't set \<Rightarrow> bool" where
  "items_ok enc dec fits T \<longleftrightarrow> (\<forall>t\<in>T. dec (enc t) = t \<and> enc t \<noteq> [] \<and> fits [length (enc t)])"

lemma li_chain_append:
  assumes "li_chain fits s (pre @ [b])" "x \<notin> set (pre @ [b])" "x \<noteq> 0" "x \<noteq> InvalidBlockNumber" "x < length s" "fits []"
  shows "li_chain fits (s[x := blank_page, b := (s ! b)\<lparr>pg_next := x\<rparr>]) ((pre @ [b]) @ [x])"
    "li_data dec (s[x := blank_page, b := (s ! b)\<lparr>pg_next := x\<rparr>]) ((pre @ [b]) @ [x]) = li_data dec s (pre @ [b])"
proof -
  let ?s1 = "s[x := blank_page]"
  let ?s = "?s1[b := (?s1 ! b)\<lparr>pg_next := x\<rparr>]"
  have b: "b < length s" "x \<noteq> b" using li_chain_bound [OF assms(1)] assms(2) by auto
  then have eq: "s[x := blank_page, b := (s ! b)\<lparr>pg_next := x\<rparr>] = ?s" by simp
  have c1: "li_chain fits ?s1 (pre @ [b])" by (rule li_chain_cong [OF assms(1)]) (use assms(2) in \<open>auto intro!: nth_list_update_neq\<close>)
  have "lseg ?s (hd (pre @ [b])) (pre @ [b]) x" by (rule lseg_relink) (use c1 in \<open>auto simp: li_chain_def\<close>)
  then have lg: "pages_from ?s (hd (pre @ [b])) ((pre @ [b]) @ [x])"
    using assms(4,5) b(2) by (subst lseg_snoc) simp
  have body: "pg_body (?s ! y) = pg_body (s ! y)" if "y \<noteq> x" for y using that b by (cases "y = b") auto
  have xb: "pg_body (?s ! x) = Blank" using b assms(5) by simp
  have "item_page fits (?s ! y)" if "y \<in> set ((pre @ [b]) @ [x])" for y
    using that body [of y] xb li_chain_bound [OF assms(1), of y] assms(6) by (cases "y = x") (auto simp: item_page_def sizes_def)
  then show "li_chain fits (s[x := blank_page, b := (s ! b)\<lparr>pg_next := x\<rparr>]) ((pre @ [b]) @ [x])"
    unfolding eq using assms(1-3) lg by (auto simp: li_chain_def hd_append)
  have "li_data dec ?s (pre @ [b]) = li_data dec s (pre @ [b])"
    by (rule li_data_body) (use body assms(2) in metis)
  then show "li_data dec (s[x := blank_page, b := (s ! b)\<lparr>pg_next := x\<rparr>]) ((pre @ [b]) @ [x]) = li_data dec s (pre @ [b])"
    unfolding eq using xb by (simp add: page_data_def)
qed

lemma append_page:
  assumes "li_chain fits s (pre @ b # post)" "page_items (pg_body (s ! b)) = Some ls" "append_item fits ls (enc t) = Some ls'"
    "dec (enc t) = t" "enc t \<noteq> []"
  shows "li_chain fits (s[b := (s ! b)\<lparr>pg_body := Items ls'\<rparr>]) (pre @ b # post)"
    "mset (li_data dec (s[b := (s ! b)\<lparr>pg_body := Items ls'\<rparr>]) (pre @ b # post)) = mset (li_data dec s (pre @ b # post)) + {#t#}"
proof -
  have ls': "ls' = ls @ [\<lparr>lp_dead = False, lp_data = enc t\<rparr>]" "fits (sizes ls')"
    using assms(3) by (auto simp: append_item_def sizes_def split: if_splits)
  show "li_chain fits (s[b := (s ! b)\<lparr>pg_body := Items ls'\<rparr>]) (pre @ b # post)" by (rule li_chain_body(1) [OF assms(1) ls'(2)])
  show "mset (li_data dec (s[b := (s ! b)\<lparr>pg_body := Items ls'\<rparr>]) (pre @ b # post)) = mset (li_data dec s (pre @ b # post)) + {#t#}"
    using assms(2,4,5) by (subst li_chain_body(2) [OF assms(1) ls'(2)]) (simp add: ls'(1) page_data_def live_items_Cons live_def)
qed

text \<open>The list on \<open>bs\<close> has been given the items; it may have new pages at its end.\<close>

definition added ::
  "(block_number set \<Rightarrow> nat \<Rightarrow> store \<Rightarrow> bool) \<Rightarrow> (u8 list \<Rightarrow> 't) \<Rightarrow> (nat list \<Rightarrow> bool) \<Rightarrow> block_number set \<Rightarrow> nat \<Rightarrow> store \<Rightarrow>
     block_number list \<Rightarrow> 't list \<Rightarrow> store \<Rightarrow> bool" where
  "added ok dec fits U n s bs items s' \<longleftrightarrow>
     (\<exists>new. li_chain fits s' (bs @ new) \<and> mset (li_data dec s' (bs @ new)) = mset (li_data dec s bs) + mset items \<and>
        ok (U \<union> set new) n s' \<and> grown U bs s s' new)"

lemma added_write:
  assumes "added ok dec fits U n (s[b := p]) bs items s'" "b \<in> set bs" "mset (li_data dec (s[b := p]) bs) = mset (li_data dec s bs) + {#t#}"
  shows "added ok dec fits U n s bs (t # items) s'"
proof -
  obtain new where a: "li_chain fits s' (bs @ new)" "mset (li_data dec s' (bs @ new)) = mset (li_data dec (s[b := p]) bs) + mset items"
    "ok (U \<union> set new) n s'" "grown U bs (s[b := p]) s' new"
    using assms(1) unfolding added_def by (elim exE conjE) (rule that)
  have "grown U bs s s' new"
    using a(4) assms(2) nth_update_outside [of _ "U - set bs" b s p] by (auto simp: grown_def)
  then show ?thesis unfolding added_def using a(1-3) assms(3) by (intro exI [of _ new]) simp
qed

lemma added_grow:
  assumes "added ok dec fits (insert x U) n s2 (bs @ [x]) items s'" "li_data dec s2 (bs @ [x]) = li_data dec s bs"
    "grown U bs s s2 [x]"
  shows "added ok dec fits U n s bs items s'"
proof -
  obtain new where a: "li_chain fits s' ((bs @ [x]) @ new)" "mset (li_data dec s' ((bs @ [x]) @ new)) = mset (li_data dec s2 (bs @ [x])) + mset items"
    "ok (insert x U \<union> set new) n s'" "grown (insert x U) (bs @ [x]) s2 s' new"
    using assms(1) unfolding added_def by (elim exE conjE) (rule that)
  have "grown U bs s s' ([x] @ new)" by (rule grown_trans [OF assms(3)]) (use a(4) in simp)
  moreover have "mset (li_data dec s' (bs @ x # new)) = mset (li_data dec s bs) + mset items" using a(2) unfolding assms(2) by simp
  moreover have "insert x U \<union> set new = U \<union> set (x # new)" by auto
  ultimately show ?thesis unfolding added_def using a(1,3) by (intro exI [of _ "x # new"]) simp
qed

definition adds ::
  "(store \<Rightarrow> (store \<times> block_number) option) \<Rightarrow> (block_number set \<Rightarrow> nat \<Rightarrow> store \<Rightarrow> bool) \<Rightarrow> ('t \<Rightarrow> u8 list) \<Rightarrow> (u8 list \<Rightarrow> 't) \<Rightarrow>
     (nat list \<Rightarrow> bool) \<Rightarrow> nat \<Rightarrow> 't list \<Rightarrow> bool" where
  "adds alloc ok enc dec fits n items \<longleftrightarrow>
     (\<forall>s pre b post U. li_chain fits s (pre @ b # post) \<longrightarrow> ok U (length items + n) s \<longrightarrow> set (pre @ b # post) \<subseteq> U \<longrightarrow> 0 \<in> U \<longrightarrow>
        (\<exists>s'. add_loop enc fits alloc s b items = Some s' \<and> added ok dec fits U n s (pre @ b # post) items s'))"

lemma adds_dest:
  "adds alloc ok enc dec fits n items \<Longrightarrow> li_chain fits s (pre @ b # post) \<Longrightarrow> ok U (length items + n) s \<Longrightarrow> set (pre @ b # post) \<subseteq> U \<Longrightarrow>
     0 \<in> U \<Longrightarrow> \<exists>s'. add_loop enc fits alloc s b items = Some s' \<and> added ok dec fits U n s (pre @ b # post) items s'"
  unfolding adds_def by blast

context page_pool
begin

lemma ok_write: "ok U n s \<Longrightarrow> b \<in> U \<Longrightarrow> ok U n (s[b := p])"
  by (rule ok_frame) simp_all

text \<open>A page from the pool is linked behind the last page of a list.\<close>

lemma new_last_page:
  assumes "li_chain fits s (pre @ [b])" "ok U (Suc n) s" "set (pre @ [b]) \<subseteq> U" "0 \<in> U" "fits []"
  obtains s1 x where "alloc s = Some (s1, x)" "x < length s1" "b < length s1" "x \<noteq> b"
    "li_chain fits (s1[x := blank_page, b := (s1 ! b)\<lparr>pg_next := x\<rparr>]) ((pre @ [b]) @ [x])"
    "li_data dec (s1[x := blank_page, b := (s1 ! b)\<lparr>pg_next := x\<rparr>]) ((pre @ [b]) @ [x]) = li_data dec s (pre @ [b])"
    "ok (insert x U) n (s1[x := blank_page, b := (s1 ! b)\<lparr>pg_next := x\<rparr>])"
    "grown U (pre @ [b]) s (s1[x := blank_page, b := (s1 ! b)\<lparr>pg_next := x\<rparr>]) [x]"
proof -
  obtain s1 x where a: "alloc s = Some (s1, x)" "gives U s s1 x" "ok (insert x U) n s1" using alloc_law [OF assms(2)] by blast
  note g = a(2) [unfolded gives_def]
  have "x \<noteq> 0" using g assms(4) by (cases "x = 0") auto
  then have x: "x \<notin> set (pre @ [b])" "x \<noteq> 0" "x \<noteq> InvalidBlockNumber" "x < length s1" using g assms(3) by auto
  have same: "s1 ! y = s ! y" if "y \<in> set (pre @ [b])" for y using g assms(3) that by auto
  have c: "li_chain fits s1 (pre @ [b])" by (rule li_chain_cong [OF assms(1)]) (use g same in auto)
  have d: "li_data dec s1 (pre @ [b]) = li_data dec s (pre @ [b])" by (rule li_data_cong) (rule same)
  have o: "ok (insert x U) n (s1[x := blank_page, b := (s1 ! b)\<lparr>pg_next := x\<rparr>])"
    using assms(3) by (intro ok_write a(3)) auto
  have "s1[x := blank_page, b := (s1 ! b)\<lparr>pg_next := x\<rparr>] ! y = s ! y" if "y \<in> U - set (pre @ [b])" for y
  proof -
    have "y \<noteq> x" "y \<noteq> b" "s1 ! y = s ! y" using that g by auto
    then show ?thesis by simp
  qed
  then have "grown U (pre @ [b]) s (s1[x := blank_page, b := (s1 ! b)\<lparr>pg_next := x\<rparr>]) [x]"
    using g by (simp add: grown_def)
  moreover have "b < length s1" "x \<noteq> b" using li_chain_bound [OF c] x(1) by simp_all
  ultimately show thesis
    using li_chain_append(1) [OF c x assms(5)] trans [OF li_chain_append(2) [OF c x assms(5)] d] o x(4) a(1) by (intro that)
qed

lemma add_loop_put:
  assumes IH: "adds alloc ok enc dec fits n items"
    and t: "dec (enc t) = t" "enc t \<noteq> []"
    and c: "li_chain fits s (pre @ b # post)" "ok U (length items + n) s" "set (pre @ b # post) \<subseteq> U" "0 \<in> U"
    and a: "page_items (pg_body (s ! b)) = Some ls" "append_item fits ls (enc t) = Some ls'"
  shows "\<exists>s'. add_loop enc fits alloc s b (t # items) = Some s' \<and> added ok dec fits U n s (pre @ b # post) (t # items) s'"
proof -
  let ?s = "s[b := (s ! b)\<lparr>pg_body := Items ls'\<rparr>]"
  note p = append_page [where enc = enc and dec = dec and t = t, OF c(1) a t]
  have b: "b < length s" using li_chain_bound [OF c(1)] by simp
  have ok: "ok U (length items + n) ?s" by (rule ok_write [OF c(2)]) (use c(3) in simp)
  obtain s' where r: "add_loop enc fits alloc ?s b items = Some s'" "added ok dec fits U n ?s (pre @ b # post) items s'"
    using adds_dest [OF IH p(1) ok c(3,4)] by blast
  have "add_loop enc fits alloc s b (t # items) = Some s'" using r(1) a b by (simp add: add_loop.simps [of enc fits alloc s b "t # items"])
  moreover have "added ok dec fits U n s (pre @ b # post) (t # items) s'" by (rule added_write [OF r(2) _ p(2)]) simp
  ultimately show ?thesis by blast
qed

lemma add_loop_new:
  assumes IH: "adds alloc ok enc dec fits n items" and t: "dec (enc t) = t" "enc t \<noteq> []"
    and c: "li_chain fits s (pre @ [b])" "ok U (Suc (length items + n)) s" "set (pre @ [b]) \<subseteq> U" "0 \<in> U"
    and f: "fits [length (enc t)]" "fits []"
    and a: "page_items (pg_body (s ! b)) = Some ls" "append_item fits ls (enc t) = None"
  shows "\<exists>s'. add_loop enc fits alloc s b (t # items) = Some s' \<and> added ok dec fits U n s (pre @ [b]) (t # items) s'"
proof -
  obtain s1 x where n: "alloc s = Some (s1, x)" "x < length s1" "b < length s1" "x \<noteq> b"
    "li_chain fits (s1[x := blank_page, b := (s1 ! b)\<lparr>pg_next := x\<rparr>]) ((pre @ [b]) @ [x])"
    "li_data dec (s1[x := blank_page, b := (s1 ! b)\<lparr>pg_next := x\<rparr>]) ((pre @ [b]) @ [x]) = li_data dec s (pre @ [b])"
    "ok (insert x U) (length items + n) (s1[x := blank_page, b := (s1 ! b)\<lparr>pg_next := x\<rparr>])"
    "grown U (pre @ [b]) s (s1[x := blank_page, b := (s1 ! b)\<lparr>pg_next := x\<rparr>]) [x]"
    by (rule new_last_page [OF c f(2)])
  let ?s = "s1[x := blank_page, b := (s1 ! b)\<lparr>pg_next := x\<rparr>]"
  have blank: "page_items (pg_body (?s ! x)) = Some []" using n(2,4) by simp
  have "append_item fits [] (enc t) = Some [\<lparr>lp_dead = False, lp_data = enc t\<rparr>]" using f(1) by (simp add: append_item_def sizes_def)
  then obtain s' where r: "add_loop enc fits alloc ?s x (t # items) = Some s'" "added ok dec fits (insert x U) n ?s ((pre @ [b]) @ [x]) (t # items) s'"
    using add_loop_put [where enc = enc and t = t, OF IH t n(5,7) _ _ blank] c(3,4) by auto
  have last: "b < length s" "pg_next (s ! b) = InvalidBlockNumber" using c(1) by (auto simp: li_chain_def lseg_snoc)
  have "add_loop enc fits alloc s b (t # items) = Some s'"
    using r(1) n(1-4) a last by (simp add: add_loop.simps [of enc fits alloc s b "t # items"])
  moreover have "added ok dec fits U n s (pre @ [b]) (t # items) s'" by (rule added_grow [OF r(2) n(6) n(8)])
  ultimately show ?thesis by blast
qed

lemma add_loop_ok:
  assumes "items_ok enc dec fits (set items)" "fits []"
  shows "adds alloc ok enc dec fits n items"
  using assms(1)
proof (induction items)
  case Nil
  have "added ok dec fits U n s bs [] s" if "li_chain fits s bs" "ok U n s" for s U bs
    unfolding added_def using that by (intro exI [of _ "[]"]) (simp add: grown_def)
  then show ?case by (simp add: adds_def add_loop.simps)
next
  case (Cons t items)
  have t: "dec (enc t) = t" "enc t \<noteq> []" "fits [length (enc t)]" and IH: "adds alloc ok enc dec fits n items"
    using Cons by (auto simp: items_ok_def)
  note put = add_loop_put [where enc = enc and t = t, OF IH t(1,2)]
  have "\<exists>s'. add_loop enc fits alloc s b (t # items) = Some s' \<and> added ok dec fits U n s (pre @ b # post) (t # items) s'"
    if "li_chain fits s (pre @ b # post)" "ok U (Suc (length items + n)) s" "set (pre @ b # post) \<subseteq> U" "0 \<in> U" for s pre b post U
    using that
  proof (induction post arbitrary: pre b)
    case Nil
    obtain ls where ls: "page_items (pg_body (s ! b)) = Some ls" using li_chain_bound [OF Nil(1)] by (auto simp: item_page_def)
    have ok: "ok U (length items + n) s" by (rule ok_mono [OF Nil(2)]) simp
    show ?case
    proof (cases "append_item fits ls (enc t)")
      case None
      show ?thesis by (rule add_loop_new [where enc = enc and t = t, OF IH t(1,2) Nil t(3) assms(2) ls None])
    next
      case (Some ls')
      show ?thesis by (rule put [OF Nil(1) ok Nil(3,4) ls Some])
    qed
  next
    case (Cons x post)
    have c: "li_chain fits s ((pre @ [b]) @ x # post)" "set ((pre @ [b]) @ x # post) \<subseteq> U" using Cons.prems(1,3) by auto
    obtain ls where ls: "page_items (pg_body (s ! b)) = Some ls" using li_chain_bound [OF Cons.prems(1)] by (auto simp: item_page_def)
    have ok: "ok U (length items + n) s" by (rule ok_mono [OF Cons.prems(2)]) simp
    have nx: "pg_next (s ! b) = x" "x \<noteq> InvalidBlockNumber" "b < length s" using Cons.prems(1) by (auto simp: li_chain_def lseg_append)
    show ?case
    proof (cases "append_item fits ls (enc t)")
      case None
      then have "add_loop enc fits alloc s b (t # items) = add_loop enc fits alloc s x (t # items)"
        using nx ls by (simp add: add_loop.simps [of enc fits alloc s b "t # items"])
      then show ?thesis using Cons.IH [OF c(1) Cons.prems(2) c(2) Cons.prems(4)] by simp
    next
      case (Some ls')
      show ?thesis by (rule put [OF Cons.prems(1) ok Cons.prems(3,4) ls Some])
    qed
  qed
  then show ?case by (simp add: adds_def)
qed

end
context page_pool
begin

lemma create_ok:
  assumes "ok U (2 + n) s" "0 \<in> U" "fits []"
  obtains s' hdr b where "li_create_with_fsm alloc s = Some (s', hdr)" "li_rep fits s' hdr [b]" "li_data dec s' [b] = []"
    "hdr \<notin> U" "b \<notin> U" "ok (insert b (insert hdr U)) n s'" "\<forall>x\<in>U. s' ! x = s ! x" "length s \<le> length s'"
proof -
  have ok0: "ok U (Suc (Suc n)) s" using assms(1) by simp
  obtain s1 h where a: "alloc s = Some (s1, h)" "gives U s s1 h" "ok (insert h U) (Suc n) s1" using alloc_law [OF ok0] by blast
  let ?s1 = "s1[h := blank_page]"
  have "ok (insert h U) (Suc n) ?s1" by (rule ok_write [OF a(3)]) simp
  then obtain s2 b where c: "alloc ?s1 = Some (s2, b)" "gives (insert h U) ?s1 s2 b" "ok (insert b (insert h U)) n s2" using alloc_law by blast
  note g1 = a(2) [unfolded gives_def] and g2 = c(2) [unfolded gives_def]
  have hb: "b \<noteq> h" "s2 ! h = blank_page" "h < length s2" using g1 g2 by auto
  have nz: "b \<noteq> 0" using g2 assms(2) by (cases "b = 0") auto
  define d where "d = \<lparr>ll_start = b, ll_last = b, ll_blocklist = 0\<rparr>"
  define s' where "s' = s2[b := blank_page, h := blank_page\<lparr>pg_body := ListHeader d\<rparr>]"
  have run: "li_create_with_fsm alloc s = Some (s', h)"
    using a(1) c(1) g1 g2 hb by (simp add: li_create_with_fsm_def create_without_start_page_def get_linked_list_data_def s'_def d_def)
  have pg: "s' ! b = blank_page" "s' ! h = blank_page\<lparr>pg_body := ListHeader d\<rparr>" "length s' = length s2"
    using hb g2 by (simp_all add: s'_def)
  have rep: "li_rep fits s' h [b]"
    using pg hb g2 nz assms(3) by (simp add: li_rep_def li_chain_def item_page_def sizes_def get_linked_list_data_def d_def)
  have ok': "ok (insert b (insert h U)) n s'" unfolding s'_def by (intro ok_write c(3)) simp_all
  have same: "\<forall>x\<in>U. s' ! x = s ! x"
  proof
    fix x assume x: "x \<in> U"
    then have "x \<noteq> h" "x \<noteq> b" "s2 ! x = ?s1 ! x" "s1 ! x = s ! x" using g1 g2 by auto
    then show "s' ! x = s ! x" by (simp add: s'_def)
  qed
  have "h \<notin> U" "b \<notin> U" "length s \<le> length s'" using g1 g2 pg(3) by auto
  from that [OF run rep _ this(1,2) ok' same this(3)] pg(1) show thesis by (simp add: page_data_def)
qed

lemma add_items_ok:
  assumes "items_ok enc dec fits (set items)" "fits []" "li_rep fits s hdr bs" "ok U (length items + n) s" "insert hdr (set bs) \<subseteq> U" "0 \<in> U"
  obtains s' new where "add_items enc fits alloc s hdr items None = Some s'" "li_rep fits s' hdr (bs @ new)"
    "mset (li_data dec s' (bs @ new)) = mset (li_data dec s bs) + mset items" "ok (U \<union> set new) n s'" "grown U bs s s' new"
proof -
  obtain b post where bs: "bs = [] @ b # post" using assms(3) by (cases bs) (auto simp: li_rep_def li_chain_def)
  have c: "li_chain fits s ([] @ b # post)" "hdr \<notin> set bs" using assms(3) by (auto simp: li_rep_def bs)
  obtain s' where r: "add_loop enc fits alloc s b items = Some s'" "added ok dec fits U n s bs items s'"
    using adds_dest [OF add_loop_ok [OF assms(1,2)] c(1) assms(4)] assms(5,6) by (auto simp: bs)
  obtain new where a: "li_chain fits s' (bs @ new)" "mset (li_data dec s' (bs @ new)) = mset (li_data dec s bs) + mset items"
    "ok (U \<union> set new) n s'" "grown U bs s s' new"
    using r(2) unfolding added_def by (elim exE conjE) (rule that)
  have run: "add_items enc fits alloc s hdr items None = Some s'" using r(1) li_rep_start [OF assms(3)] by (simp add: add_items_def bs)
  have "s' ! hdr = s ! hdr" "length s \<le> length s'" "set new \<inter> U = {}" using a(4) c(2) assms(5) by (auto simp: grown_def)
  then have "li_rep fits s' hdr (bs @ new)" using a(1) assms(3,5) by (auto simp: li_rep_def get_linked_list_data_def bs)
  from that [OF run this a(2-4)] show thesis .
qed

end

lemma add_loop_room:
  assumes "add_loop enc fits alloc s b items = Some s'"
  shows "\<forall>t\<in>set items. \<exists>ns. fits (ns @ [length (enc t)])"
  apply (rule add_loop.raw_induct [where P = "\<lambda>enc fits alloc s b items s'. \<forall>t\<in>set items. \<exists>ns. fits (ns @ [length (enc t)])", OF _ assms])
  subgoal premises p for f enc fits alloc s b items s'
  proof (cases items)
    case (Cons t rest)
    obtain ls where ls: "items_on s b = Some ls" using p(2) Cons by (auto split: bind_splits)
    show ?thesis
    proof (cases "append_item fits ls (enc t)")
      case None
      then show ?thesis using p Cons ls by (auto split: bind_splits if_splits)
    next
      case (Some ls')
      then have "fits (sizes ls @ [length (enc t)])" by (simp add: append_item_def split: if_splits)
      moreover have "\<forall>t\<in>set rest. \<exists>ns. fits (ns @ [length (enc t)])" using p Cons ls Some by (auto split: bind_splits)
      ultimately show ?thesis using Cons by auto
    qed
  qed simp
  done

section \<open>Properties\<close>

text \<open>
  C7. Adding items to a list succeeds when every item fits an empty page, and afterwards the list has the old
  entries and the new ones, each as often as it was there and was added.  The pages of the list stay in it,
  new pages come from the free space manager, and no other page the caller owns changes.
\<close>

theorem add_items_keeps_entries:
  assumes "items_ok enc dec fits (set items)" "fits []" "li_rep fits s hdr bs" "fsm_ok env fsm U [] (length items + n) s"
    "insert hdr (set bs) \<subseteq> U" "0 \<in> U" "li_list dec s hdr = Some ts"
  shows "\<exists>s' new ts'. add_items enc fits (new_buffer env fsm) s hdr items None = Some s' \<and> li_rep fits s' hdr (bs @ new) \<and>
     li_list dec s' hdr = Some ts' \<and> mset ts' = mset ts + mset items \<and> set new \<inter> U = {} \<and>
     fsm_ok env fsm (U \<union> set new) [] n s' \<and> (\<forall>x\<in>U - set bs. s' ! x = s ! x)"
proof -
  obtain s' new where r: "add_items enc fits (new_buffer env fsm) s hdr items None = Some s'" "li_rep fits s' hdr (bs @ new)"
    "mset (li_data dec s' (bs @ new)) = mset (li_data dec s bs) + mset items" "fsm_ok env fsm (U \<union> set new) [] n s'" "grown U bs s s' new"
    by (rule fsmp.add_items_ok [OF assms(1-6)])
  show ?thesis using r li_list_ok [OF r(2), of dec] li_list_ok [OF assms(3), of dec] assms(7)
    by (intro exI [of _ s'] exI [of _ new] exI [of _ "li_data dec s' (bs @ new)"]) (auto simp: grown_def)
qed

text \<open>
  C27. Removing an item always returns: with the first entry that matches, which is then gone from the list
  while the others keep their order, or with an error when no entry matches, and then nothing changes.
\<close>

theorem remove_item_first_match:
  assumes "room_ok fits" "li_rep fits s hdr bs" "li_list dec s hdr = Some ts"
  shows "case List.find cmp ts of
     None \<Rightarrow> remove_item dec cmp s hdr = Some (s, Inl EntryNotFound)
   | Some t \<Rightarrow> \<exists>s'. remove_item dec cmp s hdr = Some (s', Inr t) \<and> li_rep fits s' hdr bs \<and> frame (set bs) s s' \<and>
       li_list dec s' hdr = Some (takeWhile (\<lambda>t. \<not> cmp t) ts @ tl (dropWhile (\<lambda>t. \<not> cmp t) ts))"
  using remove_item_ok [OF assms, of cmp] by (auto split: option.splits)

text \<open>
  C28. Updating an item changes the first entry that matches and no other, in place, when the new entry is as
  long as the old one; when no entry matches it is an error and nothing changes.
\<close>

theorem update_item_first_match:
  assumes "li_rep fits s hdr bs" "li_list dec s hdr = Some ts"
    "\<And>d. d \<in> set (li_bytes s bs) \<Longrightarrow> cmp (dec d) \<Longrightarrow> d \<noteq> [] \<Longrightarrow> length (enc (upd (dec d))) = length d \<and> dec (enc (upd (dec d))) = upd (dec d)"
  shows "case List.find cmp ts of
     None \<Rightarrow> update_item enc dec cmp upd s hdr = Some (s, Inl EntryNotFound)
   | Some t \<Rightarrow> \<exists>s'. update_item enc dec cmp upd s hdr = Some (s', Inr ()) \<and> li_rep fits s' hdr bs \<and> frame (set bs) s s' \<and>
       li_list dec s' hdr = Some (takeWhile (\<lambda>t. \<not> cmp t) ts @ upd t # tl (dropWhile (\<lambda>t. \<not> cmp t) ts))"
proof -
  note u = update_item_ok [where cmp = cmp and enc = enc and upd = upd, OF assms(1,2)]
  show ?thesis using u [OF assms(3)] by (auto split: option.splits)
qed

text \<open>
  The other readers agree with the list: \<open>is_empty\<close> says whether it has no entry, \<open>for_each\<close> visits its
  entries in order, \<open>lookup\<close> finds its first match, and \<open>freeable_blocks\<close> names its header and its pages.
\<close>

theorem readers_agree:
  assumes "li_rep fits s hdr bs" "li_list dec s hdr = Some ts"
  shows "li_is_empty dec s hdr = Some (ts = []) \<and> li_for_each dec f s hdr a = Some (fold f ts a) \<and>
     li_lookup dec cmp s hdr = Some (case List.find cmp ts of None \<Rightarrow> Inl EntryNotFound | Some t \<Rightarrow> Inr t) \<and>
     li_freeable_blocks s hdr = Some (hdr # bs)"
proof -
  have ts: "ts = li_data dec s bs" using li_list_ok [OF assms(1), of dec] assms(2) by simp
  note c = lookup_rep(2,3) [OF assms(1)] and st = li_rep_start [OF assms(1)]
  have "li_lookup dec cmp s hdr = Some (case List.find cmp ts of None \<Rightarrow> Inl EntryNotFound | Some t \<Rightarrow> Inr t)"
  proof (cases "\<exists>t\<in>set (li_data dec s bs). cmp t")
    case False
    then have "lookup_loop dec cmp s (hd bs) = Some (Inl EntryNotFound)" by (intro lookup_loop_none [OF _ c]) simp
    moreover have "List.find cmp ts = None" using False by (simp add: find_None_iff ts)
    ultimately show ?thesis by (simp add: li_lookup_def lookup_ex_def st)
  next
    case True
    obtain pre b post xs lp ys where l: "bs = pre @ b # post" "page_items (pg_body (s ! b)) = Some (xs @ lp # ys)" "live lp" "cmp (dec (lp_data lp))"
      "takeWhile (\<lambda>t. \<not> cmp t) (li_data dec s bs) = li_data dec s pre @ live_items dec xs"
      "dropWhile (\<lambda>t. \<not> cmp t) (li_data dec s bs) = dec (lp_data lp) # live_items dec ys @ li_data dec s post"
      "lookup_loop dec cmp s (hd bs) = Some (Inr (dec (lp_data lp), b, Suc (length xs)))"
      by (rule first_match [OF assms(1) True])
    have "List.find cmp ts = Some (dec (lp_data lp))" using l(6) by (simp add: find_dropWhile ts comp_def)
    then show ?thesis using l(7) by (simp add: li_lookup_def lookup_ex_def st)
  qed
  then show ?thesis
    using is_empty_loop_ok [OF c, of dec] for_each_loop_ok [OF c, of dec f a] walk_pages_ok [OF c(1)]
    by (simp add: ts st li_is_empty_def li_for_each_def li_freeable_blocks_def freeable_blocks_without_header_def)
qed

text \<open>
  An item that finds no room on any page is never added: \<open>add_items\<close> takes one new page after another and
  does not return, or fails when the relation cannot grow.
\<close>

theorem add_items_too_large:
  assumes "t \<in> set items" "\<And>ns. \<not> fits (ns @ [length (enc t)])"
  shows "add_items enc fits alloc s hdr items buffer = None"
proof (cases "add_items enc fits alloc s hdr items buffer")
  case (Some s')
  then obtain b where "add_loop enc fits alloc s b items = Some s'" by (auto simp: add_items_def split: bind_splits)
  from add_loop_room [OF this] show ?thesis using assms by blast
qed

subsection \<open>Witnesses\<close>

text \<open>Items that are their own bytes; each takes a line pointer and is aligned to 8 bytes.\<close>

definition page_room :: "nat list \<Rightarrow> bool" where
  "page_room ns \<longleftrightarrow> sum_list (map (\<lambda>n. 4 + 8 * ((n + 7) div 8)) ns) \<le> bm25_max_free_space"

lemma page_room_ok: "room_ok page_room"
proof -
  have "sum_list (map g ms) \<le> sum_list (map g ns)" if "subseq ms ns" for ms ns :: "nat list" and g :: "nat \<Rightarrow> nat"
    using that by (induction rule: list_emb.induct) auto
  then show ?thesis unfolding room_ok_def page_room_def by (auto intro: le_trans)
qed

definition ex_items :: "u8 list list" where
  "ex_items = [[1, 2], replicate 5000 3, replicate 5000 4, [5]]"

lemma ex_items_ok: "items_ok id id page_room (set ex_items)"
  by (simp add: items_ok_def ex_items_def page_room_def bm25_max_free_space_def BLCKSZ_def)

lemma ex_list:
  assumes "n \<le> 1000"
  obtains s1 hdr b U where "li_create_with_fsm (new_buffer ex_env 1) ex_pool = Some (s1, hdr)" "li_rep page_room s1 hdr [b]"
    "li_list id s1 hdr = Some []" "fsm_ok ex_env 1 U [] n s1" "insert hdr (set [b]) \<subseteq> U" "0 \<in> U" "4 \<in> U - set [b]" "s1 ! 4 = ex_pool ! 4"
proof -
  have o: "fsm_ok ex_env 1 {0, 4} [] (2 + n) ex_pool" by (rule ex_pool_ok) (use assms in auto)
  have f: "page_room []" using page_room_ok by (simp add: room_ok_def)
  obtain s1 hdr b where c: "li_create_with_fsm (new_buffer ex_env 1) ex_pool = Some (s1, hdr)" "li_rep page_room s1 hdr [b]" "li_data id s1 [b] = []"
    "hdr \<notin> {0, 4}" "b \<notin> {0, 4}" "fsm_ok ex_env 1 (insert b (insert hdr {0, 4})) [] n s1" "\<forall>x\<in>{0, 4}. s1 ! x = ex_pool ! x" "length ex_pool \<le> length s1"
    by (rule fsmp.create_ok [where dec = id and fits = page_room, OF o _ f]) simp
  show thesis by (rule that [OF c(1,2) _ c(6)]) (use c li_list_ok [OF c(2), of id] in auto)
qed

theorem add_items_keeps_entries_witness:
  "\<exists>s1 hdr s2 ts. li_create_with_fsm (new_buffer ex_env 1) ex_pool = Some (s1, hdr) \<and>
     add_items id page_room (new_buffer ex_env 1) s1 hdr ex_items None = Some s2 \<and> li_list id s2 hdr = Some ts \<and> mset ts = mset ex_items \<and>
     s2 ! 4 = ex_pool ! 4"
proof -
  obtain s1 hdr b U where c: "li_create_with_fsm (new_buffer ex_env 1) ex_pool = Some (s1, hdr)" "li_rep page_room s1 hdr [b]"
    "li_list id s1 hdr = Some []" "fsm_ok ex_env 1 U [] (length ex_items + 0) s1" "insert hdr (set [b]) \<subseteq> U" "0 \<in> U" "4 \<in> U - set [b]" "s1 ! 4 = ex_pool ! 4"
    by (rule ex_list [of "length ex_items + 0"]) (auto simp: ex_items_def)
  have f: "page_room []" using page_room_ok by (simp add: room_ok_def)
  from add_items_keeps_entries [OF ex_items_ok f c(2,4,5,6,3)] c(1,7,8) show ?thesis by fastforce
qed

text \<open>A list of two pages for the other witnesses.\<close>

definition ex_list_store :: store where
  "ex_list_store =
     [blank_page,
      blank_page\<lparr>pg_body := ListHeader \<lparr>ll_start = 2, ll_last = 2, ll_blocklist = 0\<rparr>\<rparr>,
      blank_page\<lparr>pg_next := 3, pg_body := Items [\<lparr>lp_dead = False, lp_data = [7]\<rparr>, \<lparr>lp_dead = True, lp_data = [9]\<rparr>, \<lparr>lp_dead = False, lp_data = [8]\<rparr>]\<rparr>,
      blank_page\<lparr>pg_body := Items [\<lparr>lp_dead = False, lp_data = [9]\<rparr>, \<lparr>lp_dead = False, lp_data = [8]\<rparr>]\<rparr>]"

lemma ex_list_store_rep: "li_rep page_room ex_list_store 1 [2, 3]" "li_list hd ex_list_store 1 = Some [7, 8, 9, 8 :: u8]"
proof -
  show r: "li_rep page_room ex_list_store 1 [2, 3]"
    by (simp add: li_rep_def li_chain_def ex_list_store_def item_page_def page_room_def sizes_def get_linked_list_data_def
        InvalidBlockNumber_def blank_page_def bm25_max_free_space_def BLCKSZ_def page_items_def)
  show "li_list hd ex_list_store 1 = Some [7, 8, 9, 8 :: u8]"
    unfolding li_list_ok [OF r] by (simp add: page_data_def ex_list_store_def page_items_def live_items_filter live_def blank_page_def)
qed

theorem remove_item_first_match_witness:
  "(\<exists>s'. remove_item hd (\<lambda>t :: u8. t = 8) ex_list_store 1 = Some (s', Inr 8) \<and> li_list hd s' 1 = Some [7, 9, 8]) \<and>
   remove_item hd (\<lambda>t :: u8. t = 6) ex_list_store 1 = Some (ex_list_store, Inl EntryNotFound)"
  using remove_item_first_match [OF page_room_ok ex_list_store_rep, of "\<lambda>t. t = 8"] remove_item_first_match [OF page_room_ok ex_list_store_rep, of "\<lambda>t. t = 6"]
  by auto

theorem update_item_first_match_witness:
  "\<exists>s'. update_item (\<lambda>t. [t]) hd (\<lambda>t :: u8. t = 8) (\<lambda>t. t + 1) ex_list_store 1 = Some (s', Inr ()) \<and> li_list hd s' 1 = Some [7, 9, 9, 8]"
proof -
  have "case List.find (\<lambda>t :: u8. t = 8) [7, 8, 9, 8] of
     None \<Rightarrow> update_item (\<lambda>t. [t]) hd (\<lambda>t :: u8. t = 8) (\<lambda>t. t + 1) ex_list_store 1 = Some (ex_list_store, Inl EntryNotFound)
   | Some t \<Rightarrow> \<exists>s'. update_item (\<lambda>t. [t]) hd (\<lambda>t :: u8. t = 8) (\<lambda>t. t + 1) ex_list_store 1 = Some (s', Inr ()) \<and>
       li_rep page_room s' 1 [2, 3] \<and> frame (set [2, 3]) ex_list_store s' \<and>
       li_list hd s' 1 = Some (takeWhile (\<lambda>t. \<not> t = 8) [7, 8, 9, 8] @ (t + 1) # tl (dropWhile (\<lambda>t. \<not> t = 8) [7, 8, 9, 8]))"
    by (rule update_item_first_match [OF ex_list_store_rep]) (auto simp: li_bytes_def ex_list_store_def page_items_def blank_page_def)
  then show ?thesis by auto
qed

theorem readers_agree_witness:
  "li_is_empty hd ex_list_store 1 = Some False \<and> li_for_each hd (+) ex_list_store 1 0 = Some (32 :: u8) \<and>
     li_lookup hd (\<lambda>t. t > 8) ex_list_store 1 = Some (Inr (9 :: u8)) \<and> li_freeable_blocks ex_list_store 1 = Some [1, 2, 3]"
  using readers_agree [OF ex_list_store_rep, of "(+)" 0 "\<lambda>t. t > 8"] by simp

theorem add_items_too_large_witness:
  "add_items id page_room (new_buffer ex_env 1) ex_list_store 1 [[1], replicate 9000 2] None = None"
  by (rule add_items_too_large [of "replicate 9000 2"]) (simp_all add: page_room_def bm25_max_free_space_def BLCKSZ_def)

end
