(* ===== verification/Atomic_Items.thy ===== *)
theory Atomic_Items
  imports Linked_Items
begin

text \<open>
  Changes to a list of items that become visible at once, \<^verbatim>\<open>linked_items.rs\<close>: \<open>retain\<close> and \<open>garbage_collect\<close>
  remove entries and give empty pages back, \<open>atomically\<close> copies a list, and \<open>AtomicGuard::commit\<close> puts the
  copy in the place of the list.  \<open>garbage_collect_index\<close> of \<^verbatim>\<open>postgres/merge.rs\<close> puts them together.
\<close>

section \<open>The model\<close>

subsection \<open>Retaining\<close>

datatype 't retain_item = Remove 't | Retain

text \<open>One page: its line pointers, the entries removed so far and the offsets to delete.\<close>

definition retain_step ::
  "(u8 list \<Rightarrow> 't) \<Rightarrow> ('t \<Rightarrow> 't retain_item) \<Rightarrow> nat \<Rightarrow> line_pointer list \<times> 't list \<times> nat list \<Rightarrow>
     line_pointer list \<times> 't list \<times> nat list" where
  "retain_step dec f off st = (case st of (ls, recycled, offs) \<Rightarrow>
     if item_is_dead ls off then (ls, recycled, offs)
     else (case deserialize_item dec ls off of
             None \<Rightarrow> (ls, recycled, offs)
           | Some (t, _) \<Rightarrow>
               (case f t of
                  Remove e \<Rightarrow> (mark_item_dead ls off, recycled @ [e], offs @ [off])
                | Retain \<Rightarrow> (ls, recycled, offs))))"

definition retain_page ::
  "(u8 list \<Rightarrow> 't) \<Rightarrow> ('t \<Rightarrow> 't retain_item) \<Rightarrow> line_pointer list \<Rightarrow> 't list \<Rightarrow> line_pointer list \<times> 't list \<times> nat list" where
  "retain_page dec f ls recycled = fold (retain_step dec f) (offsets ls) (ls, recycled, [])"

partial_function (option) retain_loop ::
  "(u8 list \<Rightarrow> 't) \<Rightarrow> (store \<Rightarrow> block_number list \<Rightarrow> store option) \<Rightarrow> ('t \<Rightarrow> 't retain_item) \<Rightarrow> store \<Rightarrow>
     block_number \<Rightarrow> block_number \<Rightarrow> bool \<Rightarrow> 't list \<Rightarrow> (store \<times> 't list) option" where
  "retain_loop dec free f s prev b is_first recycled =
     (if b = InvalidBlockNumber then Some (s, recycled)
      else do {
        ls \<leftarrow> items_on s b;
        let (ls, recycled, offs) = retain_page dec f ls recycled;
        let ls = (if offs \<noteq> [] then delete_items ls offs else ls);
        s \<leftarrow> (if offs \<noteq> [] then set_body s b (Items ls) else Some s);
        next \<leftarrow> next_blockno s b;
        (if length ls = 0 \<and> \<not> is_first
         then do {
           s \<leftarrow> set_next s prev next;
           s \<leftarrow> free s [b];
           retain_loop dec free f s prev next False recycled
         }
         else retain_loop dec free f s b next False recycled)
      })"

lemmas [code] = retain_loop.simps

definition li_retain ::
  "(u8 list \<Rightarrow> 't) \<Rightarrow> (store \<Rightarrow> block_number list \<Rightarrow> store option) \<Rightarrow> ('t \<Rightarrow> 't retain_item) \<Rightarrow> store \<Rightarrow>
     block_number \<Rightarrow> (store \<times> 't list) option" where
  "li_retain dec free f s hdr = do {
     start \<leftarrow> get_start_blockno s hdr;
     retain_loop dec free f s hdr start True []
   }"

text \<open>The test whether an entry can go may panic; every entry of the list is tested.\<close>

definition garbage_collect ::
  "(u8 list \<Rightarrow> 't) \<Rightarrow> (store \<Rightarrow> block_number list \<Rightarrow> store option) \<Rightarrow> ('t \<Rightarrow> bool option) \<Rightarrow> store \<Rightarrow>
     block_number \<Rightarrow> (store \<times> 't list) option" where
  "garbage_collect dec free recyclable s hdr = do {
     ts \<leftarrow> li_list dec s hdr;
     _ \<leftarrow> those (map recyclable ts);
     li_retain dec free (\<lambda>t. if recyclable t = Some True then Remove t else Retain) s hdr
   }"

subsection \<open>Atomic changes\<close>

record atomic_guard =
  ag_original :: block_number
  ag_cloned :: block_number

fun copy_items :: "(nat list \<Rightarrow> bool) \<Rightarrow> line_pointer list \<Rightarrow> nat list \<Rightarrow> line_pointer list \<Rightarrow> line_pointer list option" where
  "copy_items fits ls [] acc = Some acc"
| "copy_items fits ls (off # offs) acc =
     (case read_item ls off of
        Some d \<Rightarrow> do { acc \<leftarrow> append_item fits acc d; copy_items fits ls offs acc }
      | None \<Rightarrow> copy_items fits ls offs acc)"

definition set_special :: "store \<Rightarrow> block_number \<Rightarrow> page \<Rightarrow> store option" where
  "set_special s b p = modify_at s b (\<lambda>q. q\<lparr>pg_next := pg_next p, pg_xmax := pg_xmax p\<rparr>)"

definition link_clone :: "store \<Rightarrow> block_number \<Rightarrow> block_number option \<Rightarrow> block_number \<Rightarrow> store option" where
  "link_clone s hdr prev new_blockno =
     (case prev of
        Some p \<Rightarrow> set_next s p new_blockno
      | None \<Rightarrow> do {
          d \<leftarrow> get_linked_list_data s hdr;
          set_body s hdr (ListHeader (d\<lparr>ll_start := new_blockno\<rparr>))
        })"

partial_function (option) clone_loop ::
  "(nat list \<Rightarrow> bool) \<Rightarrow> (store \<Rightarrow> (store \<times> block_number) option) \<Rightarrow> store \<Rightarrow> block_number \<Rightarrow> block_number option \<Rightarrow>
     block_number \<Rightarrow> store option" where
  "clone_loop fits alloc s hdr prev b =
     (if b = InvalidBlockNumber then Some s
      else do {
        (s, new_blockno) \<leftarrow> alloc s;
        s \<leftarrow> init_page s new_blockno;
        s \<leftarrow> link_clone s hdr prev new_blockno;
        ls \<leftarrow> items_on s b;
        copy \<leftarrow> copy_items fits ls (offsets ls) [];
        s \<leftarrow> set_body s new_blockno (Items copy);
        p \<leftarrow> get_at s b;
        s \<leftarrow> set_special s new_blockno p;
        clone_loop fits alloc s hdr (Some new_blockno) (pg_next p)
      })"

lemmas [code] = clone_loop.simps

definition atomically ::
  "(nat list \<Rightarrow> bool) \<Rightarrow> (store \<Rightarrow> (store \<times> block_number) option) \<Rightarrow> store \<Rightarrow> block_number \<Rightarrow> (store \<times> atomic_guard) option" where
  "atomically fits alloc s hdr = do {
     (s, cloned) \<leftarrow> create_without_start_page alloc s;
     d \<leftarrow> get_linked_list_data s hdr;
     (if ll_start d = InvalidBlockNumber then None
      else do {
        s \<leftarrow> clone_loop fits alloc s cloned None (ll_start d);
        Some (s, \<lparr>ag_original = hdr, ag_cloned = cloned\<rparr>)
      })
   }"

definition commit :: "(store \<Rightarrow> block_number list \<Rightarrow> store option) \<Rightarrow> store \<Rightarrow> atomic_guard \<Rightarrow> store option" where
  "commit free s g = do {
     d \<leftarrow> get_linked_list_data s (ag_cloned g);
     original \<leftarrow> get_linked_list_data s (ag_original g);
     s \<leftarrow> set_body s (ag_original g) (ListHeader d);
     bs \<leftarrow> freeable_blocks_without_header s (ll_start original);
     free s (bs @ [ag_cloned g])
   }"

subsection \<open>Retaining on a page\<close>

definition doomed :: "(u8 list \<Rightarrow> 't) \<Rightarrow> ('t \<Rightarrow> 't retain_item) \<Rightarrow> line_pointer \<Rightarrow> bool" where
  "doomed dec f lp \<longleftrightarrow> live lp \<and> f (dec (lp_data lp)) \<noteq> Retain"

text \<open>Nothing is left on the page.\<close>

definition emptied :: "(u8 list \<Rightarrow> 't) \<Rightarrow> ('t \<Rightarrow> 't retain_item) \<Rightarrow> page \<Rightarrow> bool" where
  "emptied dec f p \<longleftrightarrow> (\<forall>ls. page_items (pg_body p) = Some ls \<longrightarrow> (\<forall>lp\<in>set ls. doomed dec f lp))"

definition removed :: "('t \<Rightarrow> 't retain_item) \<Rightarrow> 't list \<Rightarrow> 't list" where
  "removed f ts = List.map_filter (\<lambda>t. case f t of Remove e \<Rightarrow> Some e | Retain \<Rightarrow> None) ts"

lemma removed_simps [simp]: "removed f [] = []" "removed f (xs @ ys) = removed f xs @ removed f ys"
  by (simp_all add: removed_def List.map_filter_def)

lemma delete_items_filter:
  assumes "length ls' = length ls" "\<And>i. i < length ls \<Longrightarrow> Suc i \<in> set offs \<longleftrightarrow> Q (ls ! i)"
    "\<And>i. i < length ls \<Longrightarrow> Suc i \<notin> set offs \<Longrightarrow> ls' ! i = ls ! i"
  shows "delete_items ls' offs = filter (\<lambda>lp. \<not> Q lp) ls"
proof -
  have "zip (offsets ls') ls' = map (\<lambda>i. (Suc i, ls' ! i)) [0..<length ls]"
    by (rule nth_equalityI) (simp_all add: offsets_Suc assms(1))
  then have "delete_items ls' offs = map (\<lambda>i. ls' ! i) (filter (\<lambda>i. Suc i \<notin> set offs) [0..<length ls])"
    by (simp add: delete_items_def filter_map comp_def)
  also have "\<dots> = map (\<lambda>i. ls ! i) (filter (\<lambda>i. \<not> Q (ls ! i)) [0..<length ls])"
    using assms(2,3) by (intro map_cong filter_cong) auto
  also have "\<dots> = filter (\<lambda>lp. \<not> Q lp) (map (\<lambda>i. ls ! i) [0..<length ls])" by (simp add: filter_map comp_def)
  finally show ?thesis by (simp add: map_nth)
qed

lemma retain_step_doomed:
  assumes "doomed dec f (ls ! k)" "f (dec (lp_data (ls ! k))) = Remove e"
  shows "retain_step dec f (Suc k) (ls, r, offs) = (mark_item_dead ls (Suc k), r @ [e], offs @ [Suc k])"
  using assms by (simp add: retain_step_def item_is_dead_def deserialize_live doomed_def live_def Let_def)

lemma retain_step_kept: "\<not> doomed dec f (ls ! k) \<Longrightarrow> retain_step dec f (Suc k) (ls, r, offs) = (ls, r, offs)"
  by (simp add: retain_step_def deserialize_live doomed_def Let_def)

lemma removed_doomed: "doomed dec f lp \<Longrightarrow> f (dec (lp_data lp)) = Remove e \<Longrightarrow> removed f (live_items dec [lp]) = [e]"
  by (simp add: doomed_def live_items_filter removed_def List.map_filter_simps)

lemma removed_kept: "\<not> doomed dec f lp \<Longrightarrow> removed f (live_items dec [lp]) = []"
  by (auto simp: doomed_def live_items_filter removed_def List.map_filter_simps)

lemma retain_prefix:
  assumes "k \<le> length ls"
  shows "\<exists>ls'. fold (retain_step dec f) [1..<Suc k] (ls, recycled, []) =
      (ls', recycled @ removed f (live_items dec (take k ls)), filter (\<lambda>off. doomed dec f (ls ! (off - 1))) [1..<Suc k]) \<and>
      length ls' = length ls \<and> (\<forall>i<length ls. \<not> (i < k \<and> doomed dec f (ls ! i)) \<longrightarrow> ls' ! i = ls ! i)"
  using assms
proof (induction k)
  case (Suc k)
  define offs where "offs = filter (\<lambda>off. doomed dec f (ls ! (off - 1))) [1..<Suc k]"
  obtain ls' where ih: "fold (retain_step dec f) [1..<Suc k] (ls, recycled, []) =
      (ls', recycled @ removed f (live_items dec (take k ls)), offs)"
      "length ls' = length ls" "\<forall>i<length ls. \<not> (i < k \<and> doomed dec f (ls ! i)) \<longrightarrow> ls' ! i = ls ! i"
    using Suc unfolding offs_def by auto
  have k: "ls' ! k = ls ! k" "k < length ls" using ih(3) Suc.prems by auto
  have tk: "take (Suc k) ls = take k ls @ [ls ! k]" using k(2) by (rule take_Suc_conv_app_nth)
  have up: "[1..<Suc (Suc k)] = [1..<Suc k] @ [Suc k]" by simp
  have fo: "filter (\<lambda>off. doomed dec f (ls ! (off - 1))) [1..<Suc (Suc k)] = offs @ (if doomed dec f (ls ! k) then [Suc k] else [])"
    unfolding up offs_def by (simp del: upt_Suc)
  have st: "fold (retain_step dec f) [1..<Suc (Suc k)] (ls, recycled, []) =
      retain_step dec f (Suc k) (ls', recycled @ removed f (live_items dec (take k ls)), offs)"
    unfolding up fold_append comp_def ih(1) by simp
  show ?case
  proof (cases "doomed dec f (ls ! k)")
    case True
    then obtain e where e: "f (dec (lp_data (ls ! k))) = Remove e" by (cases "f (dec (lp_data (ls ! k)))") (auto simp: doomed_def)
    have d: "doomed dec f (ls' ! k)" "f (dec (lp_data (ls' ! k))) = Remove e" using True e k by simp_all
    have m: "mark_item_dead ls' (Suc k) ! i = ls' ! i" if "\<not> doomed dec f (ls ! i)" for i
      using that True by (cases "i = k") (auto simp: mark_item_dead_def)
    show ?thesis unfolding st fo retain_step_doomed [OF d] tk live_items_simps removed_simps removed_doomed [OF True e]
      using ih(2,3) True m by (intro exI [of _ "mark_item_dead ls' (Suc k)"]) (auto simp: mark_item_dead_def less_Suc_eq)
  next
    case False
    then have d: "\<not> doomed dec f (ls' ! k)" using k by simp
    show ?thesis unfolding st fo retain_step_kept [OF d] tk live_items_simps removed_simps removed_kept [OF False]
      using ih(2,3) False by (intro exI [of _ ls']) (auto simp: less_Suc_eq)
  qed
qed simp

lemma retain_page_ok:
  obtains ls' offs where "retain_page dec f ls recycled = (ls', recycled @ removed f (live_items dec ls), offs)"
    "(if offs \<noteq> [] then delete_items ls' offs else ls') = filter (\<lambda>lp. \<not> doomed dec f lp) ls"
    "offs = [] \<longrightarrow> filter (\<lambda>lp. \<not> doomed dec f lp) ls = ls"
proof -
  define offs where "offs = filter (\<lambda>off. doomed dec f (ls ! (off - 1))) [1..<Suc (length ls)]"
  obtain ls' where r: "retain_page dec f ls recycled = (ls', recycled @ removed f (live_items dec ls), offs)"
    "length ls' = length ls" "\<forall>i<length ls. \<not> (i < length ls \<and> doomed dec f (ls ! i)) \<longrightarrow> ls' ! i = ls ! i"
    using retain_prefix [of "length ls" ls dec f recycled] by (auto simp: retain_page_def offsets_def offs_def)
  have mem: "Suc i \<in> set offs \<longleftrightarrow> doomed dec f (ls ! i)" if "i < length ls" for i
  proof -
    have "offs = map Suc (filter (\<lambda>i. doomed dec f (ls ! i)) [0..<length ls])"
      unfolding offs_def One_nat_def map_Suc_upt [symmetric] filter_map by (simp add: comp_def)
    then show ?thesis using that by auto
  qed
  have del: "delete_items ls' offs = filter (\<lambda>lp. \<not> doomed dec f lp) ls"
    by (rule delete_items_filter [OF r(2) mem]) (use r(3) mem in auto)
  have nil: "filter (\<lambda>lp. \<not> doomed dec f lp) ls = ls \<and> ls' = ls" if "offs = []"
  proof
    have n: "\<not> doomed dec f (ls ! i)" if "i < length ls" for i using mem [OF that] \<open>offs = []\<close> by simp
    then show "filter (\<lambda>lp. \<not> doomed dec f lp) ls = ls" by (auto simp: filter_id_conv in_set_conv_nth)
    show "ls' = ls" using r(2,3) n by (intro nth_equalityI) auto
  qed
  show thesis by (rule that [OF r(1)]) (use del nil in auto)
qed

lemma live_items_retained: "live_items dec (filter (\<lambda>lp. \<not> doomed dec f lp) ls) = filter (\<lambda>t. f t = Retain) (live_items dec ls)"
  by (induction ls) (auto simp: live_items_Cons doomed_def)

lemma read_item_live: "read_item ls off = (let lp = ls ! (off - 1) in if live lp then Some (lp_data lp) else None)"
  by (simp add: read_item_def live_def Let_def)

lemma live_eq: "live lp \<Longrightarrow> \<lparr>lp_dead = False, lp_data = lp_data lp\<rparr> = lp"
  by (simp add: live_def)

lemma copy_items_from:
  assumes "room_ok fits" "fits (sizes ls)" "k \<le> length ls"
  shows "copy_items fits ls (map Suc [k..<length ls]) (filter live (take k ls)) = Some (filter live ls)"
  using assms(3)
proof (induction k rule: inc_induct)
  case (step k)
  have k: "[k..<length ls] = k # [Suc k..<length ls]" using step by (simp add: upt_conv_Cons)
  have tk: "take (Suc k) ls = take k ls @ [ls ! k]" using step(2) by (rule take_Suc_conv_app_nth)
  have "fits (sizes (filter live (take (Suc k) ls)))"
  proof -
    have "subseq (sizes (take (Suc k) ls)) (sizes ls)" unfolding sizes_def by (intro subseq_map) (metis append_take_drop_id subseq_rev_drop_many subseq_order.order_refl)
    then have "fits (sizes (take (Suc k) ls))" using assms(1,2) by (auto simp: room_ok_def)
    then show ?thesis by (rule room_filter [OF assms(1)])
  qed
  then show ?case using step.IH by (auto simp: k tk read_item_live append_item_def sizes_def live_eq Let_def)
qed simp

lemma copy_items_ok: "room_ok fits \<Longrightarrow> fits (sizes ls) \<Longrightarrow> copy_items fits ls (offsets ls) [] = Some (filter live ls)"
  using copy_items_from [of fits ls 0] by (simp add: offsets_Suc)

subsection \<open>Retaining\<close>

text \<open>
  The pages \<open>bs\<close> of a list are now \<open>kept\<close>, hold the entries that were to be retained, and the other pages
  are no longer owned.
\<close>

definition kept_in ::
  "(block_number set \<Rightarrow> nat \<Rightarrow> store \<Rightarrow> bool) \<Rightarrow> (u8 list \<Rightarrow> 't) \<Rightarrow> ('t \<Rightarrow> 't retain_item) \<Rightarrow> block_number set \<Rightarrow> nat \<Rightarrow> store \<Rightarrow>
     block_number list \<Rightarrow> block_number list \<Rightarrow> store \<Rightarrow> bool" where
  "kept_in ok dec f U n s bs kept s' \<longleftrightarrow>
     subseq kept bs \<and> li_data dec s' kept = filter (\<lambda>t. f t = Retain) (li_data dec s bs) \<and>
     ok (U - (set bs - set kept)) n s' \<and> (\<forall>x\<in>U - set bs. pg_body (s' ! x) = pg_body (s ! x)) \<and> length s \<le> length s'"

lemma li_chain_drop:
  assumes "li_chain fits s (pre @ p # b # post)"
  shows "li_chain fits (s[p := (s ! p)\<lparr>pg_next := pg_next (s ! b)\<rparr>]) (pre @ p # post)"
proof -
  let ?s = "s[p := (s ! p)\<lparr>pg_next := pg_next (s ! b)\<rparr>]"
  have d: "distinct (pre @ p # b # post)" and l: "pages_from s (hd (pre @ p # b # post)) ((pre @ [p]) @ b # post)"
    using assms by (auto simp: li_chain_def)
  obtain m where m: "lseg s (hd (pre @ p # b # post)) (pre @ [p]) m" "pages_from s m (b # post)"
    using l unfolding lseg_append by blast
  have p: "p < length s" using m(1) by (simp add: lseg_snoc)
  have a: "lseg ?s (hd (pre @ p # b # post)) (pre @ [p]) (pg_next (s ! b))" by (rule lseg_relink [OF m(1)]) (use d in auto)
  have "pages_from ?s (pg_next (s ! b)) post"
  proof (rule lseg_cong)
    show "pages_from s (pg_next (s ! b)) post" using m(2) by simp
    fix x assume "x \<in> set post"
    then have "x \<noteq> p" "x < length s" using d li_chain_bound [OF assms, of x] by auto
    then show "x < length ?s \<and> pg_next (?s ! x) = pg_next (s ! x)" by simp
  qed
  with a have "pages_from ?s (hd (pre @ p # post)) ((pre @ [p]) @ post)" unfolding lseg_append by (auto simp: hd_append)
  moreover have "item_page fits (?s ! x)" if "x \<in> set (pre @ p # post)" for x
  proof -
    have "item_page fits (s ! x)" using li_chain_bound [OF assms, of x] that by auto
    then show ?thesis using p by (cases "x = p") (auto simp: item_page_def)
  qed
  ultimately show ?thesis using assms by (auto simp: li_chain_def)
qed

lemma subseq_set: "subseq xs ys \<Longrightarrow> set xs \<subseteq> set ys"
  by (auto elim: list_emb_set)

lemma kept_in_keep:
  assumes "kept_in ok dec f U n s1 post kept s'" "page_data dec (s1 ! b) = filter (\<lambda>t. f t = Retain) (page_data dec (s ! b))"
    "\<forall>x. x \<noteq> b \<longrightarrow> s1 ! x = s ! x" "length s1 = length s" "b \<in> U" "b \<notin> set post"
  shows "kept_in ok dec f U n s (b # post) (b # kept) s'"
proof -
  note k = assms(1) [unfolded kept_in_def]
  have "pg_body (s' ! b) = pg_body (s1 ! b)" using k assms(5,6) by auto
  then have "page_data dec (s' ! b) = filter (\<lambda>t. f t = Retain) (page_data dec (s ! b))" using assms(2) by (simp add: page_data_def)
  moreover have "li_data dec s1 post = li_data dec s post" by (rule li_data_cong) (use assms(3,6) in auto)
  moreover have "set (b # post) - set (b # kept) = set post - set kept" using assms(6) by auto
  ultimately show ?thesis unfolding kept_in_def using k assms(3,4) by auto
qed

lemma kept_in_drop:
  assumes "kept_in ok dec f (U - {b}) n s3 post kept s'" "filter (\<lambda>t. f t = Retain) (page_data dec (s ! b)) = []"
    "\<And>x. x \<in> U - {b} \<Longrightarrow> pg_body (s3 ! x) = pg_body (s ! x)" "length s \<le> length s3" "b \<notin> set post" "set post \<subseteq> U"
  shows "kept_in ok dec f U n s (b # post) kept s'"
proof -
  note k = assms(1) [unfolded kept_in_def]
  have "set kept \<subseteq> set post" using k by (auto dest: subseq_set)
  then have U: "U - {b} - (set post - set kept) = U - (set (b # post) - set kept)" using assms(5) by auto
  have "li_data dec s3 post = li_data dec s post"
    by (rule li_data_body, rule assms(3)) (use assms(5,6) in auto)
  then have "li_data dec s' kept = filter (\<lambda>t. f t = Retain) (li_data dec s (b # post))" using k assms(2) by simp
  then show ?thesis unfolding kept_in_def U [symmetric] using k assms(3,4) by auto
qed

text \<open>What the loop does with one page before it decides whether to keep it.\<close>

lemma retain_loop_step:
  assumes "room_ok fits" "li_chain fits s (pre @ b # post)"
  obtains s1 ls where "li_chain fits s1 (pre @ b # post)" "page_items (pg_body (s1 ! b)) = Some ls"
    "page_data dec (s1 ! b) = filter (\<lambda>t. f t = Retain) (page_data dec (s ! b))"
    "\<forall>x. x \<noteq> b \<longrightarrow> s1 ! x = s ! x" "pg_next (s1 ! b) = pg_next (s ! b)" "length s1 = length s"
    "ls = [] \<longleftrightarrow> emptied dec f (s ! b)"
    "retain_loop dec free f s prev b first recycled =
       (let recycled = recycled @ removed f (page_data dec (s ! b)) in
        if ls = [] \<and> \<not> first
        then Option.bind (set_next s1 prev (pg_next (s ! b)))
          (\<lambda>s2. Option.bind (free s2 [b]) (\<lambda>s3. retain_loop dec free f s3 prev (pg_next (s ! b)) False recycled))
        else retain_loop dec free f s1 b (pg_next (s ! b)) False recycled)"
proof -
  have b: "b < length s" "b \<noteq> InvalidBlockNumber" "item_page fits (s ! b)" using li_chain_bound [OF assms(2)] by auto
  obtain ls0 where ls0: "page_items (pg_body (s ! b)) = Some ls0" "fits (sizes ls0)" "page_data dec (s ! b) = live_items dec ls0"
    by (rule item_page_dest [OF b(3)])
  define ls where "ls = filter (\<lambda>lp. \<not> doomed dec f lp) ls0"
  obtain ls' offs where r0: "retain_page dec f ls0 recycled = (ls', recycled @ removed f (live_items dec ls0), offs)"
    "(if offs \<noteq> [] then delete_items ls' offs else ls') = filter (\<lambda>lp. \<not> doomed dec f lp) ls0"
    "offs = [] \<longrightarrow> filter (\<lambda>lp. \<not> doomed dec f lp) ls0 = ls0" by (rule retain_page_ok [of dec f ls0 recycled])
  note r = r0 [folded ls_def]
  define s1 where "s1 = (if offs \<noteq> [] then s[b := (s ! b)\<lparr>pg_body := Items ls\<rparr>] else s)"
  have fit: "fits (sizes ls)" unfolding ls_def by (rule room_filter [OF assms(1) ls0(2)])
  have pi: "page_items (pg_body (s1 ! b)) = Some ls" using b(1) r(3) ls0(1) by (auto simp: s1_def)
  have pd: "page_data dec (s1 ! b) = filter (\<lambda>t. f t = Retain) (page_data dec (s ! b))"
    using pi ls0(3) by (simp add: page_data_def ls_def live_items_retained)
  have lc: "li_chain fits s1 (pre @ b # post)" using assms(2) li_chain_body(1) [OF assms(2) fit] by (simp add: s1_def)
  have rl: "retain_loop dec free f s prev b first recycled =
       (let recycled = recycled @ removed f (page_data dec (s ! b)) in
        if ls = [] \<and> \<not> first
        then Option.bind (set_next s1 prev (pg_next (s ! b)))
          (\<lambda>s2. Option.bind (free s2 [b]) (\<lambda>s3. retain_loop dec free f s3 prev (pg_next (s ! b)) False recycled))
        else retain_loop dec free f s1 b (pg_next (s ! b)) False recycled)"
    using b ls0(1) r by (subst retain_loop.simps) (auto simp: ls0(3) s1_def Let_def)
  have em: "ls = [] \<longleftrightarrow> emptied dec f (s ! b)" by (simp add: ls_def emptied_def ls0(1) filter_empty_conv)
  show thesis by (rule that [OF lc pi pd _ _ _ em rl]) (use b(1) in \<open>auto simp: s1_def\<close>)
qed

context page_pool
begin

lemma retain_loop_ok:
  assumes room: "room_ok fits"
  shows "li_chain fits s (pre @ p # post) \<Longrightarrow> ok U (length post + n) s \<Longrightarrow> set (pre @ p # post) \<subseteq> U \<Longrightarrow>
    \<exists>s' kept. retain_loop dec free f s p (pg_next (s ! p)) False recycled = Some (s', recycled @ removed f (li_data dec s post)) \<and>
      li_chain fits s' (pre @ p # kept) \<and> kept_in ok dec f U n s post kept s' \<and> (\<forall>x\<in>U - set (pre @ p # post). s' ! x = s ! x) \<and>
      kept = filter (\<lambda>b. \<not> emptied dec f (s ! b)) post \<and> filed s (filter (\<lambda>b. emptied dec f (s ! b)) post) s'"
proof (induction post arbitrary: s pre p U recycled)
  case Nil
  then have "pg_next (s ! p) = InvalidBlockNumber" by (simp add: li_chain_def lseg_snoc)
  then show ?case using Nil filed_write [OF Nil(2) frame_refl refl] by (intro exI [of _ s] exI [of _ "[]"]) (simp add: retain_loop.simps kept_in_def)
next
  case (Cons b post)
  have nx: "pg_next (s ! p) = b" using Cons.prems(1) by (auto simp: li_chain_def lseg_append)
  have c: "li_chain fits s ((pre @ [p]) @ b # post)" using Cons.prems(1) by simp
  define rec1 where "rec1 = recycled @ removed f (page_data dec (s ! b))"
  obtain s1 ls where t: "li_chain fits s1 ((pre @ [p]) @ b # post)" "page_items (pg_body (s1 ! b)) = Some ls"
    "page_data dec (s1 ! b) = filter (\<lambda>t. f t = Retain) (page_data dec (s ! b))"
    "\<forall>x. x \<noteq> b \<longrightarrow> s1 ! x = s ! x" "pg_next (s1 ! b) = pg_next (s ! b)" "length s1 = length s"
    "ls = [] \<longleftrightarrow> emptied dec f (s ! b)"
    "retain_loop dec free f s p b False recycled =
       (let recycled = rec1 in
        if ls = [] \<and> \<not> False
        then Option.bind (set_next s1 p (pg_next (s ! b)))
          (\<lambda>s2. Option.bind (free s2 [b]) (\<lambda>s3. retain_loop dec free f s3 p (pg_next (s ! b)) False recycled))
        else retain_loop dec free f s1 b (pg_next (s ! b)) False recycled)"
    unfolding rec1_def by (rule retain_loop_step [OF room c, where dec = dec and free = free and f = f and prev = p and first = False and recycled = recycled])
  have bU: "b \<in> U" "b \<notin> set (pre @ p # post)" "p \<noteq> b" using Cons.prems(1,3) by (auto simp: li_chain_def)
  have fr1: "frame U s s1" using t(4,6) bU(1) by (auto simp: frame_def)
  then have ok1: "ok U (Suc (length post + n)) s1" using ok_frame [OF Cons.prems(2)] t(6) by simp
  note w1 = filed_write [OF Cons.prems(2) fr1 t(6)]
  have post1: "li_data dec s1 post = li_data dec s post" by (rule li_data_cong) (use t(4) bU(2) in auto)
  show ?case
  proof (cases "ls = []")
    case True
    let ?s2 = "s1[p := (s1 ! p)\<lparr>pg_next := pg_next (s1 ! b)\<rparr>]"
    have "li_chain fits s1 (pre @ p # b # post)" using t(1) by simp
    then have c2: "li_chain fits ?s2 (pre @ p # post)" by (rule li_chain_drop)
    have pl: "p < length s1" using li_chain_bound [OF t(1), of p] by simp
    have "ok U (length [b] + (length post + n)) ?s2" using ok_write [OF ok1, of p] Cons.prems(3) by simp
    then obtain s3 where s3: "free ?s2 [b] = Some s3" "ok (U - set [b]) (length post + n) s3" "\<forall>x\<in>U. s3 ! x = ?s2 ! x" "length ?s2 \<le> length s3"
      "filed ?s2 [b] s3"
      using free_law [of U "[b]" "length post + n" ?s2] bU(1) by auto
    have "frame U s1 ?s2" using Cons.prems(3) by (intro frame_step frame_refl) auto
    from filed_trans [OF filed_trans [OF w1 filed_write [OF ok1 this]] s3(5)] have w3: "filed s [b] s3" by simp
    have c3: "li_chain fits s3 (pre @ p # post)" by (rule li_chain_cong [OF c2 s3(4)]) (use s3(3) Cons.prems(3) in auto)
    have nx3: "pg_next (s3 ! p) = pg_next (s ! b)" using s3(3) Cons.prems(3) pl t(5) by simp
    have "set (pre @ p # post) \<subseteq> U - set [b]" using Cons.prems(3) bU by auto
    then obtain s' kept where r: "retain_loop dec free f s3 p (pg_next (s3 ! p)) False rec1 = Some (s', rec1 @ removed f (li_data dec s3 post))"
      "li_chain fits s' (pre @ p # kept)" "kept_in ok dec f (U - set [b]) n s3 post kept s'" "\<forall>x\<in>U - set [b] - set (pre @ p # post). s' ! x = s3 ! x"
      "kept = filter (\<lambda>b. \<not> emptied dec f (s3 ! b)) post" "filed s3 (filter (\<lambda>b. emptied dec f (s3 ! b)) post) s'"
      using Cons.IH [OF c3 s3(2), of rec1] by auto
    have body: "pg_body (s3 ! x) = pg_body (s ! x)" if "x \<in> U - {b}" for x
      using s3(3) that t(4) pl by (cases "x = p") auto
    have em: "emptied dec f (s3 ! x) = emptied dec f (s ! x)" if "x \<in> set post" for x
    proof -
      have "pg_body (s3 ! x) = pg_body (s ! x)" by (rule body) (use that bU Cons.prems(3) in auto)
      then show ?thesis by (simp add: emptied_def)
    qed
    have "filter (\<lambda>b. \<not> emptied dec f (s3 ! b)) post = filter (\<lambda>b. \<not> emptied dec f (s ! b)) post"
      "filter (\<lambda>b. emptied dec f (s3 ! b)) post = filter (\<lambda>b. emptied dec f (s ! b)) post"
      by (auto intro!: filter_cong simp: em)
    then have gone: "kept = filter (\<lambda>b. \<not> emptied dec f (s ! b)) (b # post)" "filed s (filter (\<lambda>b. emptied dec f (s ! b)) (b # post)) s'"
      using r(5) filed_trans [OF w3 r(6)] t(7) True by simp_all
    have post3: "li_data dec s3 post = li_data dec s post"
      by (rule li_data_body, rule body) (use bU Cons.prems(3) in auto)
    have "retain_loop dec free f s p (pg_next (s ! p)) False recycled = Some (s', recycled @ removed f (li_data dec s (b # post)))"
      unfolding nx t(8) using r(1) s3(1) nx3 t(5) post3 True pl by (simp add: rec1_def Let_def)
    moreover have "filter (\<lambda>t. f t = Retain) (page_data dec (s ! b)) = []" using t(2,3) True by (simp add: page_data_def)
    then have "kept_in ok dec f U n s (b # post) kept s'"
      using kept_in_drop [OF r(3) [simplified] _ body] bU s3(4) t(6) Cons.prems(3) by auto
    moreover have "s' ! x = s ! x" if "x \<in> U - set (pre @ p # b # post)" for x
    proof -
      have "x \<noteq> p" "x \<noteq> b" "s' ! x = s3 ! x" "s3 ! x = ?s2 ! x" using that r(4) s3(3) by auto
      then show ?thesis using t(4) by simp
    qed
    ultimately show ?thesis using r(2) gone by (intro exI [of _ s'] exI [of _ kept]) simp
  next
    case False
    have c1: "li_chain fits s1 ((pre @ [p]) @ b # post)" by (rule t(1))
    obtain s' kept where r: "retain_loop dec free f s1 b (pg_next (s1 ! b)) False rec1 = Some (s', rec1 @ removed f (li_data dec s1 post))"
      "li_chain fits s' ((pre @ [p]) @ b # kept)" "kept_in ok dec f U n s1 post kept s'" "\<forall>x\<in>U - set ((pre @ [p]) @ b # post). s' ! x = s1 ! x"
      "kept = filter (\<lambda>b. \<not> emptied dec f (s1 ! b)) post" "filed s1 (filter (\<lambda>b. emptied dec f (s1 ! b)) post) s'"
      using Cons.IH [OF c1 ok_mono [OF ok1], of rec1] Cons.prems(3) by auto
    have "s1 ! x = s ! x" if "x \<in> set post" for x using t(4) that bU(2) by auto
    then have "filter (\<lambda>b. \<not> emptied dec f (s1 ! b)) post = filter (\<lambda>b. \<not> emptied dec f (s ! b)) post"
      "filter (\<lambda>b. emptied dec f (s1 ! b)) post = filter (\<lambda>b. emptied dec f (s ! b)) post"
      by (auto intro!: filter_cong)
    then have gone: "b # kept = filter (\<lambda>b. \<not> emptied dec f (s ! b)) (b # post)" "filed s (filter (\<lambda>b. emptied dec f (s ! b)) (b # post)) s'"
      using r(5) filed_trans [OF w1 r(6)] t(7) False by simp_all
    have "retain_loop dec free f s p (pg_next (s ! p)) False recycled = Some (s', recycled @ removed f (li_data dec s (b # post)))"
      unfolding nx t(8) using r(1) t(5) post1 False by (simp add: rec1_def Let_def)
    moreover have "kept_in ok dec f U n s (b # post) (b # kept) s'" by (rule kept_in_keep [OF r(3) t(3,4,6)]) (use bU in auto)
    moreover have "\<forall>x\<in>U - set (pre @ p # b # post). s' ! x = s ! x" using r(4) t(4) by auto
    ultimately show ?thesis using r(2) gone by (intro exI [of _ s'] exI [of _ "b # kept"]) simp
  qed
qed

lemma li_retain_ok:
  assumes "room_ok fits" "li_rep fits s hdr bs" "ok U (length bs + n) s" "insert hdr (set bs) \<subseteq> U"
  shows "\<exists>s' kept. li_retain dec free f s hdr = Some (s', removed f (li_data dec s bs)) \<and> li_rep fits s' hdr kept \<and>
     kept_in ok dec f U n s bs kept s' \<and> (\<forall>x\<in>U - set bs. s' ! x = s ! x) \<and>
     kept = hd bs # filter (\<lambda>b. \<not> emptied dec f (s ! b)) (tl bs) \<and> filed s (filter (\<lambda>b. emptied dec f (s ! b)) (tl bs)) s'"
proof -
  obtain b post where bs: "bs = b # post" using assms(2) by (cases bs) (auto simp: li_rep_def li_chain_def)
  have c: "li_chain fits s ([] @ b # post)" and hb: "hdr \<notin> set (b # post)" using assms(2) by (auto simp: li_rep_def bs)
  obtain s1 ls where t: "li_chain fits s1 ([] @ b # post)" "page_items (pg_body (s1 ! b)) = Some ls"
    "page_data dec (s1 ! b) = filter (\<lambda>t. f t = Retain) (page_data dec (s ! b))"
    "\<forall>x. x \<noteq> b \<longrightarrow> s1 ! x = s ! x" "pg_next (s1 ! b) = pg_next (s ! b)" "length s1 = length s"
    "ls = [] \<longleftrightarrow> emptied dec f (s ! b)"
    "retain_loop dec free f s hdr b True [] =
       (let recycled = [] @ removed f (page_data dec (s ! b)) in
        if ls = [] \<and> \<not> True
        then Option.bind (set_next s1 hdr (pg_next (s ! b)))
          (\<lambda>s2. Option.bind (free s2 [b]) (\<lambda>s3. retain_loop dec free f s3 hdr (pg_next (s ! b)) False recycled))
        else retain_loop dec free f s1 b (pg_next (s ! b)) False recycled)"
    by (rule retain_loop_step [OF assms(1) c, where dec = dec and free = free and f = f and prev = hdr and first = True and recycled = "[]"])
  have bU: "b \<in> U" "b \<notin> set post" using assms(4) c by (auto simp: bs li_chain_def)
  have fr1: "frame U s s1" using t(4,6) bU(1) by (auto simp: frame_def)
  then have ok1: "ok U (length post + n) s1" using ok_mono [OF ok_frame [OF assms(3)], of s1 "length post + n"] t(6) by (simp add: bs)
  have post1: "li_data dec s1 post = li_data dec s post" by (rule li_data_cong) (use t(4) bU(2) in auto)
  obtain s' kept where r: "retain_loop dec free f s1 b (pg_next (s1 ! b)) False (removed f (page_data dec (s ! b))) =
      Some (s', removed f (page_data dec (s ! b)) @ removed f (li_data dec s1 post))"
      "li_chain fits s' ([] @ b # kept)" "kept_in ok dec f U n s1 post kept s'" "\<forall>x\<in>U - set ([] @ b # post). s' ! x = s1 ! x"
      "kept = filter (\<lambda>b. \<not> emptied dec f (s1 ! b)) post" "filed s1 (filter (\<lambda>b. emptied dec f (s1 ! b)) post) s'"
    using retain_loop_ok [OF assms(1) t(1) ok1, of dec f "removed f (page_data dec (s ! b))"] assms(4) by (auto simp: bs)
  have run: "li_retain dec free f s hdr = Some (s', removed f (li_data dec s bs))"
    using li_rep_start [OF assms(2)] t(5,8) r(1) post1 by (simp add: li_retain_def bs Let_def)
  have kp: "kept_in ok dec f U n s bs (b # kept) s'" unfolding bs by (rule kept_in_keep [OF r(3) t(3,4,6) bU])
  have same: "\<forall>x\<in>U - set bs. s' ! x = s ! x" using r(4) t(4) by (auto simp: bs)
  have "set kept \<subseteq> set post" using r(3) by (auto simp: kept_in_def dest: subseq_set)
  moreover have "length s \<le> length s'" using kp by (simp add: kept_in_def)
  moreover have "s' ! hdr = s ! hdr" using same assms(4) hb by (auto simp: bs)
  ultimately have "li_rep fits s' hdr (b # kept)" using r(2) hb assms(2) by (auto simp: li_rep_def bs get_linked_list_data_def)
  moreover have "s1 ! x = s ! x" if "x \<in> set post" for x using t(4) that bU(2) by auto
  then have "filter (\<lambda>b. \<not> emptied dec f (s1 ! b)) post = filter (\<lambda>b. \<not> emptied dec f (s ! b)) post"
    "filter (\<lambda>b. emptied dec f (s1 ! b)) post = filter (\<lambda>b. emptied dec f (s ! b)) post"
    by (auto intro!: filter_cong)
  ultimately show ?thesis using run kp same r(5) filed_trans [OF filed_write [OF assms(3) fr1 t(6)] r(6)]
    by (intro exI [of _ s'] exI [of _ "b # kept"]) (simp add: bs)
qed

end

section \<open>Atomic changes\<close>

lemma set_special_in [simp]: "b < length s \<Longrightarrow> set_special s b p = Some (s[b := (s ! b)\<lparr>pg_next := pg_next p, pg_xmax := pg_xmax p\<rparr>])"
  by (simp add: set_special_def)

context page_pool
begin

text \<open>One page is copied.  The page \<open>q\<close> the copy is linked to becomes \<open>g new\<close>.\<close>

lemma clone_step:
  assumes room: "room_ok fits" and ok: "ok U (Suc n) s" and b: "b \<in> U" "b \<noteq> InvalidBlockNumber" "item_page fits (s ! b)"
    and q: "q \<in> U" "q \<noteq> b" and link: "\<forall>s1 new. (\<forall>x\<in>U. s1 ! x = s ! x) \<longrightarrow> length s \<le> length s1 \<longrightarrow> link_clone s1 hdr prev new = Some (s1[q := g new])"
  obtains s' new where "clone_loop fits alloc s hdr prev b = clone_loop fits alloc s' hdr (Some new) (pg_next (s ! b))"
    "new \<notin> U" "new < length s'" "new \<noteq> InvalidBlockNumber" "length s \<le> length s'" "s' ! q = g new" "\<forall>x\<in>U - {q}. s' ! x = s ! x"
    "ok (insert new U) n s'" "pg_next (s' ! new) = pg_next (s ! b)" "item_page fits (s' ! new)" "page_data dec (s' ! new) = page_data dec (s ! b)"
proof -
  obtain s1 x where a: "alloc s = Some (s1, x)" "gives U s s1 x" "ok (insert x U) n s1" using alloc_law [OF ok] by blast
  note g = a(2) [unfolded gives_def]
  have len: "b < length s" "q < length s" using ok_bound [OF ok] b(1) q(1) by auto
  have xq: "x \<noteq> q" "x \<noteq> b" using g b(1) q(1) by auto
  obtain ls where ls: "page_items (pg_body (s ! b)) = Some ls" "fits (sizes ls)" "page_data dec (s ! b) = live_items dec ls"
    by (rule item_page_dest [OF b(3)])
  note copy = copy_items_ok [OF room ls(2)]
  define s2 where "s2 = s1[x := blank_page, q := g x]"
  define s' where "s' = s2[x := \<lparr>pg_next = pg_next (s ! b), pg_xmax = pg_xmax (s ! b), pg_body = Items (filter live ls)\<rparr>]"
  have "\<forall>y\<in>U. s1[x := blank_page] ! y = s ! y" using g by (auto simp: nth_update_outside)
  then have lk: "link_clone (s1[x := blank_page]) hdr prev x = Some s2" unfolding s2_def using link g by simp
  have s2: "s2 ! b = s ! b" "length s2 = length s1" "s2 ! x = blank_page" using g b(1) xq q(2) by (simp_all add: s2_def)
  have run: "clone_loop fits alloc s hdr prev b = clone_loop fits alloc s' hdr (Some x) (pg_next (s ! b))"
    using a(1) lk s2 ls(1) copy g len b(2) xq
    by (subst clone_loop.simps) (simp add: s'_def get_at_def blank_page_def)
  have "frame (insert x U) s1 s'" unfolding s'_def s2_def using q(1) by (intro frame_step frame_refl) auto
  then have ok': "ok (insert x U) n s'" by (rule ok_frame [OF a(3)]) (simp add: s'_def s2_def)
  have new: "s' ! x = \<lparr>pg_next = pg_next (s ! b), pg_xmax = pg_xmax (s ! b), pg_body = Items (filter live ls)\<rparr>"
    using g by (simp add: s'_def s2_def)
  have same: "s' ! y = s ! y" if "y \<in> U - {q}" for y
  proof -
    have "y \<noteq> x" "y \<noteq> q" "s1 ! y = s ! y" using that g by auto
    then show ?thesis by (simp add: s'_def s2_def)
  qed
  have pg: "item_page fits (s' ! x)" "page_data dec (s' ! x) = page_data dec (s ! b)" "pg_next (s' ! x) = pg_next (s ! b)"
    unfolding item_page_def page_data_def new using room_filter [OF room ls(2)] ls(3) by (auto simp: live_items_filter page_data_def)
  have sq: "s' ! q = g x" using xq len g by (simp add: s'_def s2_def)
  have "x \<notin> U" "x < length s'" "x \<noteq> InvalidBlockNumber" "length s \<le> length s'" using g by (simp_all add: s'_def s2_def)
  from that [OF run this sq _ ok' pg(3,1,2)] same show thesis by blast
qed

lemma clone_loop_ok:
  assumes room: "room_ok fits"
  shows "pages_from s b bs \<Longrightarrow> \<forall>x\<in>set bs. item_page fits (s ! x) \<Longrightarrow> insert p (set bs) \<subseteq> U \<Longrightarrow> distinct (p # bs) \<Longrightarrow> pg_next (s ! p) = b \<Longrightarrow>
    ok U (length bs + n) s \<Longrightarrow>
    \<exists>s' new. clone_loop fits alloc s hdr (Some p) b = Some s' \<and> pages_from s' (pg_next (s' ! p)) new \<and> distinct new \<and> set new \<inter> U = {} \<and>
      pg_body (s' ! p) = pg_body (s ! p) \<and> (\<forall>x\<in>set new. item_page fits (s' ! x)) \<and> li_data dec s' new = li_data dec s bs \<and>
      length new = length bs \<and> ok (U \<union> set new) n s' \<and> (\<forall>x\<in>U - {p}. s' ! x = s ! x) \<and> length s \<le> length s'"
proof (induction bs arbitrary: s b p U)
  case Nil
  then show ?case by (intro exI [of _ s] exI [of _ "[]"]) (simp add: clone_loop.simps)
next
  case (Cons y bs)
  have y: "b = y" "y \<noteq> InvalidBlockNumber" "y \<in> U" "item_page fits (s ! y)" "p \<in> U" "p \<noteq> y" "pages_from s (pg_next (s ! y)) bs"
    using Cons.prems by auto
  have link: "\<forall>s1 new. (\<forall>x\<in>U. s1 ! x = s ! x) \<longrightarrow> length s \<le> length s1 \<longrightarrow>
      link_clone s1 hdr (Some p) new = Some (s1[p := (\<lambda>new. (s ! p)\<lparr>pg_next := new\<rparr>) new])"
    using y(5) ok_bound [OF Cons.prems(6)] by (auto simp: link_clone_def dest!: subsetD)
  have ok: "ok U (Suc (length bs + n)) s" using Cons.prems(6) by simp
  obtain s1 x where t: "clone_loop fits alloc s hdr (Some p) y = clone_loop fits alloc s1 hdr (Some x) (pg_next (s ! y))"
    "x \<notin> U" "x < length s1" "x \<noteq> InvalidBlockNumber" "length s \<le> length s1" "s1 ! p = (s ! p)\<lparr>pg_next := x\<rparr>" "\<forall>z\<in>U - {p}. s1 ! z = s ! z"
    "ok (insert x U) (length bs + n) s1" "pg_next (s1 ! x) = pg_next (s ! y)" "item_page fits (s1 ! x)" "page_data dec (s1 ! x) = page_data dec (s ! y)"
    by (rule clone_step [OF room ok y(3,2,4,5,6) link])
  have same: "s1 ! z = s ! z" if "z \<in> set bs" for z using t(7) that Cons.prems(3,4) by auto
  have "pages_from s1 (pg_next (s ! y)) bs"
  proof (rule lseg_cong [OF y(7)])
    fix z assume "z \<in> set bs"
    then show "z < length s1 \<and> pg_next (s1 ! z) = pg_next (s ! z)" using same lseg_bound [OF y(7)] t(5) by force
  qed
  moreover have "\<forall>z\<in>set bs. item_page fits (s1 ! z)" using same Cons.prems(2) by simp
  moreover have "insert x (set bs) \<subseteq> insert x U" "distinct (x # bs)" using Cons.prems(3,4) t(2) by auto
  ultimately obtain s' new where r: "clone_loop fits alloc s1 hdr (Some x) (pg_next (s ! y)) = Some s'" "pages_from s' (pg_next (s' ! x)) new" "distinct new"
    "set new \<inter> insert x U = {}" "pg_body (s' ! x) = pg_body (s1 ! x)" "\<forall>z\<in>set new. item_page fits (s' ! z)" "li_data dec s' new = li_data dec s1 bs"
    "length new = length bs" "ok (insert x U \<union> set new) n s'" "\<forall>z\<in>insert x U - {x}. s' ! z = s1 ! z" "length s1 \<le> length s'"
    using Cons.IH [of s1 "pg_next (s ! y)" x "insert x U"] t(8,9) by blast
  have sp: "s' ! z = s1 ! z" if "z \<in> U" for z using r(10) that t(2) by auto
  have p: "s' ! p = (s ! p)\<lparr>pg_next := x\<rparr>" using sp [OF y(5)] t(6) by simp
  have "li_data dec s' (x # new) = li_data dec s (y # bs)"
    using r(5,7) t(11) li_data_cong [OF same, where bs = bs and dec = dec] by (simp add: page_data_def)
  moreover have "\<forall>z\<in>set (x # new). item_page fits (s' ! z)" using r(5,6) t(10) by (simp add: item_page_def)
  moreover have "\<forall>z\<in>U - {p}. s' ! z = s ! z" using sp t(7) by auto
  moreover have "ok (U \<union> set (x # new)) n s'" using r(9) by simp
  moreover have "pages_from s' x (x # new)" using r(2,11) t(3,4) by simp
  ultimately show ?case using r(1,3,4,8,11) t(1,2,5) p y(1)
    by (intro exI [of _ s'] exI [of _ "x # new"]) auto
qed

end

context page_pool
begin

lemma atomically_ok:
  assumes room: "room_ok fits" and rep: "li_rep fits s hdr bs" and ok: "ok U (Suc (length bs) + n) s" and own: "insert hdr (set bs) \<subseteq> U" and z: "0 \<in> U"
  obtains s' cl cs where "atomically fits alloc s hdr = Some (s', \<lparr>ag_original = hdr, ag_cloned = cl\<rparr>)" "li_rep fits s' cl cs"
    "li_data dec s' cs = li_data dec s bs" "length cs = length bs" "insert cl (set cs) \<inter> U = {}" "ok (U \<union> insert cl (set cs)) n s'"
    "\<forall>x\<in>U. s' ! x = s ! x" "length s \<le> length s'"
proof -
  obtain b rest where bs: "bs = b # rest" using rep by (cases bs) (auto simp: li_rep_def li_chain_def)
  have ok0: "ok U (Suc (Suc (length rest + n))) s" using ok by (simp add: bs)
  obtain s1 cl where a: "alloc s = Some (s1, cl)" "gives U s s1 cl" "ok (insert cl U) (Suc (length rest + n)) s1" using alloc_law [OF ok0] by blast
  note g = a(2) [unfolded gives_def]
  let ?s = "s1[cl := blank_page]" and ?V = "insert cl U"
  have ok1: "ok ?V (Suc (length rest + n)) ?s" by (rule ok_write [OF a(3)]) simp
  have same: "?s ! x = s ! x" if "x \<in> U" for x using g that by (metis nth_update_outside)
  have rep1: "li_rep fits ?s hdr bs" by (rule li_rep_cong [OF rep]) (use g same own in auto)
  obtain d where d: "get_linked_list_data ?s hdr = Some d" "ll_start d = b" using rep1 by (auto simp: li_rep_def bs)
  have c: "b \<noteq> InvalidBlockNumber" "pages_from ?s (pg_next (?s ! b)) rest" "\<forall>x\<in>set bs. item_page fits (?s ! x)" "distinct bs"
    using rep1 by (auto simp: li_rep_def li_chain_def bs)
  have clb: "cl \<noteq> b" "cl \<notin> set bs" using g own by (auto simp: bs)
  define g' where "g' = (\<lambda>new. blank_page\<lparr>pg_body := ListHeader \<lparr>ll_start = new, ll_last = 0, ll_blocklist = 0\<rparr>\<rparr>)"
  have link: "\<forall>s1 new. (\<forall>x\<in>?V. s1 ! x = ?s ! x) \<longrightarrow> length ?s \<le> length s1 \<longrightarrow> link_clone s1 cl None new = Some (s1[cl := g' new])"
    using g by (auto simp: link_clone_def get_linked_list_data_def g'_def)
  obtain s2 x where t: "clone_loop fits alloc ?s cl None b = clone_loop fits alloc s2 cl (Some x) (pg_next (?s ! b))"
    "x \<notin> ?V" "x < length s2" "x \<noteq> InvalidBlockNumber" "length ?s \<le> length s2" "s2 ! cl = g' x" "\<forall>y\<in>?V - {cl}. s2 ! y = ?s ! y"
    "ok (insert x ?V) (length rest + n) s2" "pg_next (s2 ! x) = pg_next (?s ! b)" "item_page fits (s2 ! x)" "page_data dec (s2 ! x) = page_data dec (?s ! b)"
    by (rule clone_step [OF room ok1 _ c(1) _ _ clb(1) link]) (use own c(3) bs in auto)
  have same2: "s2 ! y = s ! y" if "y \<in> U" for y using t(7) that g same by auto
  have "pages_from s2 (pg_next (?s ! b)) rest"
    by (rule lseg_cong [OF c(2)]) (use lseg_bound [OF c(2)] t(5) same same2 own bs in force)
  moreover have "\<forall>y\<in>set rest. item_page fits (s2 ! y)"
  proof
    fix y assume "y \<in> set rest"
    then have "y \<in> U" "item_page fits (?s ! y)" using own c(3) by (auto simp: bs)
    then show "item_page fits (s2 ! y)" using same same2 by metis
  qed
  moreover have "insert x (set rest) \<subseteq> insert x ?V" "distinct (x # rest)" using own t(2) c(4) by (auto simp: bs)
  ultimately obtain s' new where r: "clone_loop fits alloc s2 cl (Some x) (pg_next (?s ! b)) = Some s'" "pages_from s' (pg_next (s' ! x)) new" "distinct new"
    "set new \<inter> insert x ?V = {}" "pg_body (s' ! x) = pg_body (s2 ! x)" "\<forall>z\<in>set new. item_page fits (s' ! z)" "li_data dec s' new = li_data dec s2 rest"
    "length new = length rest" "ok (insert x ?V \<union> set new) n s'" "\<forall>z\<in>insert x ?V - {x}. s' ! z = s2 ! z" "length s2 \<le> length s'"
    using clone_loop_ok [OF room, of s2 "pg_next (?s ! b)" rest x "insert x ?V" n cl dec] t(8,9) by blast
  have same3: "s' ! y = s2 ! y" if "y \<in> ?V" for y using r(10) that t(2) by auto
  have dat: "li_data dec s' (x # new) = li_data dec s bs"
    using r(5,7) t(11) li_data_cong [of rest s2 s dec] same same2 own by (auto simp: page_data_def bs)
  have rp: "li_rep fits s' cl (x # new)"
    using r t same3 [of cl] z g by (auto simp: li_rep_def li_chain_def item_page_def get_linked_list_data_def g'_def)
  have run: "atomically fits alloc s hdr = Some (s', \<lparr>ag_original = hdr, ag_cloned = cl\<rparr>)"
    using a(1) g d c(1) t(1) r(1) by (simp add: atomically_def create_without_start_page_def)
  show thesis
  proof (rule that [OF run rp dat])
    show "ok (U \<union> insert cl (set (x # new))) n s'" using r(9) by (simp add: insert_commute Un_commute)
    show "\<forall>x\<in>U. s' ! x = s ! x" using same3 same2 by auto
  qed (use r t g in \<open>auto simp: bs\<close>)
qed

lemma commit_ok:
  assumes rep: "li_rep fits s hdr bs" and cl: "li_rep fits s cl cs" and ok: "ok U (Suc (length bs) + n) s"
    and own: "insert hdr (set bs) \<union> insert cl (set cs) \<subseteq> U" and dis: "insert hdr (set bs) \<inter> insert cl (set cs) = {}"
  obtains s' where "commit free s \<lparr>ag_original = hdr, ag_cloned = cl\<rparr> = Some s'" "li_rep fits s' hdr cs" "li_data dec s' cs = li_data dec s cs"
    "ok (U - insert cl (set bs)) n s'" "\<forall>x\<in>U - {hdr}. s' ! x = s ! x" "length s \<le> length s'" "filed s (bs @ [cl]) s'"
proof -
  obtain d where d: "get_linked_list_data s cl = Some d" "ll_start d = hd cs" using cl by (auto simp: li_rep_def)
  obtain d0 where d0: "get_linked_list_data s hdr = Some d0" "ll_start d0 = hd bs" using rep by (auto simp: li_rep_def)
  have h: "hdr < length s" using rep by (simp add: li_rep_def)
  let ?s = "s[hdr := (s ! hdr)\<lparr>pg_body := ListHeader d\<rparr>]"
  have "pages_from ?s (hd bs) bs" using rep by (simp add: li_rep_def li_chain_def)
  then have walk: "freeable_blocks_without_header ?s (ll_start d0) = Some bs"
    unfolding d0(2) freeable_blocks_without_header_def by (rule walk_pages_ok)
  have "ok U (length (bs @ [cl]) + n) ?s" using ok_write [OF ok] own by simp
  moreover have "distinct (bs @ [cl])" "set (bs @ [cl]) \<subseteq> U" using rep own dis by (auto simp: li_rep_def li_chain_def)
  ultimately obtain s' where f: "free ?s (bs @ [cl]) = Some s'" "ok (U - set (bs @ [cl])) n s'" "\<forall>x\<in>U. s' ! x = ?s ! x" "length ?s \<le> length s'"
    "filed ?s (bs @ [cl]) s'"
    using free_law by blast
  have "frame U s ?s" using own by (intro frame_step frame_refl) auto
  from filed_trans [OF filed_write [OF ok this] f(5)] have fl: "filed s (bs @ [cl]) s'" by simp
  have run: "commit free s \<lparr>ag_original = hdr, ag_cloned = cl\<rparr> = Some s'" using d(1) d0(1) h walk f(1) by (simp add: commit_def)
  have same: "s' ! x = s ! x" if "x \<in> U - {hdr}" for x using f(3) that by auto
  have "li_chain fits s' cs" by (rule li_chain_cong [of fits s]) (use cl f(4) same own dis in \<open>auto simp: li_rep_def\<close>)
  moreover have "get_linked_list_data s' hdr = Some d" using f(3,4) own h by (simp add: get_linked_list_data_def)
  ultimately have rp: "li_rep fits s' hdr cs" using d(2) h f(4) dis by (auto simp: li_rep_def)
  have dat: "li_data dec s' cs = li_data dec s cs" by (rule li_data_cong, rule same) (use own dis in auto)
  have "ok (U - insert cl (set bs)) n s'" using f(2) by simp
  from that [OF run rp dat this _ _ fl] same f(4) show thesis by simp
qed

end

section \<open>Collecting garbage in a copy\<close>

abbreviation recycle_at :: "fsm_env \<Rightarrow> block_number \<Rightarrow> nat \<Rightarrow> store \<Rightarrow> block_number list \<Rightarrow> store option" where
  "recycle_at env fsm w \<equiv> (\<lambda>s. extend_with_when_recyclable env s fsm w)"

lemma gc_removed:
  "removed (\<lambda>t. if recyclable t = Some True then Remove t else Retain) ts = filter (\<lambda>t. recyclable t = Some True) ts"
  "((if recyclable t = Some True then Remove t else Retain) = Retain) \<longleftrightarrow> recyclable t \<noteq> Some True"
  by (induction ts) (simp_all add: removed_def List.map_filter_simps)

lemma those_total: "\<forall>t\<in>set ts. g t \<noteq> None \<Longrightarrow> \<exists>vs. those (map g ts) = Some vs"
  by (induction ts) auto

lemma garbage_collect_retain:
  assumes "li_list dec s hdr = Some ts" "\<forall>t\<in>set ts. recyclable t \<noteq> None"
  shows "garbage_collect dec free recyclable s hdr = li_retain dec free (\<lambda>t. if recyclable t = Some True then Remove t else Retain) s hdr"
  using assms those_total [OF assms(2)] by (auto simp: garbage_collect_def)

text \<open>
  A list is copied, the copy is cleaned with its empty pages filed under \<open>w\<close>, and the copy takes the place of
  the list.  Until then the list is the old one.
\<close>

lemma collect_in_copy:
  assumes "room_ok fits" "li_rep fits s hdr bs" "fsm_room env (insert w K) fsm U [] (2 + 3 * length bs + n) s" "insert hdr (set bs) \<subseteq> U" "0 \<in> U"
    "li_list dec s hdr = Some ts" "\<forall>t\<in>set ts. recyclable t \<noteq> None"
  obtains s1 cl cs s2 dropped s3 kept where "atomically fits (new_buffer env fsm) s hdr = Some (s1, \<lparr>ag_original = hdr, ag_cloned = cl\<rparr>)" "li_list dec s1 hdr = Some ts"
    "garbage_collect dec (recycle_at env fsm w) recyclable s1 cl = Some (s2, filter (\<lambda>t. recyclable t = Some True) ts)" "li_list dec s2 hdr = Some ts"
    "fsm_files fsm w s1 dropped s2" "set dropped \<inter> U = {}"
    "commit (recycle_at env fsm (next_xid env)) s2 \<lparr>ag_original = hdr, ag_cloned = cl\<rparr> = Some s3" "li_list dec s3 hdr = Some (filter (\<lambda>t. recyclable t \<noteq> Some True) ts)"
    "fsm_files fsm (next_xid env) s2 (bs @ [cl]) s3" "cl \<notin> U"
    "li_rep fits s3 hdr kept" "set kept \<inter> U = {}" "fsm_room env (insert w K) fsm (U - set bs \<union> set kept) [] n s3" "\<forall>x\<in>U - {hdr}. s3 ! x = s ! x" "length s \<le> length s3"
proof -
  have ts: "ts = li_data dec s bs" using li_list_ok [OF assms(2), of dec] assms(6) by simp
  let ?f = "\<lambda>t. if recyclable t = Some True then Remove t else Retain"
  have ok: "fsm_room env (insert w K) fsm U [] (Suc (length bs) + (length bs + (Suc (length bs) + n))) s" using assms(3) by (simp add: add.assoc eval_nat_numeral)
  obtain s1 cl cs where a: "atomically fits (new_buffer env fsm) s hdr = Some (s1, \<lparr>ag_original = hdr, ag_cloned = cl\<rparr>)" "li_rep fits s1 cl cs"
    "li_data dec s1 cs = li_data dec s bs" "length cs = length bs" "insert cl (set cs) \<inter> U = {}"
    "fsm_room env (insert w K) fsm (U \<union> insert cl (set cs)) [] (length bs + (Suc (length bs) + n)) s1" "\<forall>x\<in>U. s1 ! x = s ! x" "length s \<le> length s1"
    by (rule fsmp.atomically_ok [where dec = dec, OF assms(1,2) ok assms(4,5)])
  let ?V = "U \<union> insert cl (set cs)"
  have rep1: "li_rep fits s1 hdr bs" by (rule li_rep_cong [OF assms(2) a(8)]) (use a(7) assms(4) in auto)
  have ok1: "fsm_room env (insert w K) fsm ?V [] (length cs + (Suc (length bs) + n)) s1" using a(4,6) by simp
  have ownc: "insert cl (set cs) \<subseteq> ?V" by auto
  obtain s2 kept where r: "li_retain dec (recycle_at env fsm w) ?f s1 cl = Some (s2, removed ?f (li_data dec s1 cs))" "li_rep fits s2 cl kept"
    "kept_in (\<lambda>U. fsm_room env (insert w K) fsm U []) dec ?f ?V (Suc (length bs) + n) s1 cs kept s2" "\<forall>x\<in>?V - set cs. s2 ! x = s1 ! x"
    "fsm_files fsm w s1 (filter (\<lambda>b. emptied dec ?f (s1 ! b)) (tl cs)) s2"
    using fsmr.li_retain_ok [OF assms(1) a(2) ok1 ownc, of dec ?f] by blast
  note k = r(3) [unfolded kept_in_def]
  have same2: "s2 ! x = s ! x" if "x \<in> U" for x
  proof -
    have "x \<in> ?V - set cs" using that a(5) by auto
    then show ?thesis using r(4) a(7) that by metis
  qed
  have rep2: "li_rep fits s2 hdr bs" by (rule li_rep_cong [OF rep1]) (use k same2 a(7) assms(4) in auto)
  have kc: "set kept \<subseteq> set cs" using k subseq_set by blast
  let ?W = "?V - (set cs - set kept)"
  have okW: "fsm_room env (insert w K) fsm ?W [] (Suc (length bs) + n) s2" using k by simp
  have own2: "insert hdr (set bs) \<union> insert cl (set kept) \<subseteq> ?W" "insert hdr (set bs) \<inter> insert cl (set kept) = {}"
    using assms(4) a(5) kc lookup_rep(1) [OF a(2)] a(2) by (auto simp: li_rep_def)
  obtain s3 where c: "commit (recycle_at env fsm (next_xid env)) s2 \<lparr>ag_original = hdr, ag_cloned = cl\<rparr> = Some s3" "li_rep fits s3 hdr kept"
    "li_data dec s3 kept = li_data dec s2 kept" "fsm_room env (insert w K) fsm (?W - insert cl (set bs)) [] n s3" "\<forall>x\<in>?W - {hdr}. s3 ! x = s2 ! x" "length s2 \<le> length s3"
    "fsm_files fsm (next_xid env) s2 (bs @ [cl]) s3"
    by (rule fsmp.commit_ok [where dec = dec, OF rep2 r(2) okW own2])
  have W: "?W - insert cl (set bs) = U - set bs \<union> set kept" using a(2,5) kc own2 by (auto simp: li_rep_def)
  have lc: "li_list dec s1 cl = Some ts" using li_list_ok [OF a(2), of dec] a(3) by (simp add: ts)
  have gc: "garbage_collect dec (recycle_at env fsm w) recyclable s1 cl = Some (s2, filter (\<lambda>t. recyclable t = Some True) ts)"
    using r(1) a(3) garbage_collect_retain [OF lc assms(7), of "recycle_at env fsm w"] by (simp add: gc_removed ts)
  have l3: "li_list dec s3 hdr = Some (filter (\<lambda>t. recyclable t \<noteq> Some True) ts)" using li_list_ok [OF c(2), of dec] c(3) k a(3) by (simp add: gc_removed ts)
  have l12: "li_list dec s1 hdr = Some ts" "li_list dec s2 hdr = Some ts"
    using li_list_ok [OF rep1, of dec] li_list_ok [OF rep2, of dec] li_data_cong [of bs s1 s dec] li_data_cong [of bs s2 s dec] a(7) same2 assms(4) by (auto simp: ts)
  have "U - {hdr} \<subseteq> ?W - {hdr}" using a(5) by auto
  then have s3: "\<forall>x\<in>U - {hdr}. s3 ! x = s ! x" using c(5) same2 by (metis Diff_iff subsetD)
  have dr: "set (filter (\<lambda>b. emptied dec ?f (s1 ! b)) (tl cs)) \<inter> U = {}" using a(5) by (cases cs) auto
  have kU: "set kept \<inter> U = {}" and cU: "cl \<notin> U" using kc a(5) by auto
  have le: "length s \<le> length s3" using a(8) k c(6) by linarith
  show thesis by (rule that [OF a(1) l12(1) gc l12(2) r(5) dr c(1) l3 c(7) cU c(2) kU c(4) [unfolded W] s3 le])
qed

section \<open>Properties\<close>

text \<open>
  C26. Retaining entries.  \<open>retain\<close> removes exactly the entries that the function says to remove, returns what it
  says to return for them, in order, and keeps the others in order.  The list keeps its first page and every page on
  which something is left; the other pages, and no other block, are put on record in the free space manager under
  the given transaction id, and are no longer owned.  Pages that are not of the list do not change.  The free space
  manager must have a slot for this and for the next transaction id, and the index must not be under creation.
\<close>

theorem retain_filters:
  assumes "room_ok fits" "li_rep fits s hdr bs" "fsm_room env (insert w K) fsm U [] (length bs + n) s" "insert hdr (set bs) \<subseteq> U" "li_list dec s hdr = Some ts"
  shows "\<exists>s' kept. li_retain dec (recycle_at env fsm w) f s hdr = Some (s', List.map_filter (\<lambda>t. case f t of Remove e \<Rightarrow> Some e | Retain \<Rightarrow> None) ts) \<and>
     li_list dec s' hdr = Some (filter (\<lambda>t. f t = Retain) ts) \<and>
     li_rep fits s' hdr kept \<and> kept = hd bs # filter (\<lambda>b. \<not> emptied dec f (s ! b)) (tl bs) \<and>
     fsm_files fsm w s (filter (\<lambda>b. emptied dec f (s ! b)) (tl bs)) s' \<and>
     fsm_room env (insert w K) fsm (U - (set bs - set kept)) [] n s' \<and> (\<forall>x\<in>U - set bs. s' ! x = s ! x)"
proof -
  have ts: "ts = li_data dec s bs" using li_list_ok [OF assms(2), of dec] assms(5) by simp
  obtain s' kept where r: "li_retain dec (recycle_at env fsm w) f s hdr = Some (s', removed f (li_data dec s bs))" "li_rep fits s' hdr kept"
    "kept_in (\<lambda>U. fsm_room env (insert w K) fsm U []) dec f U n s bs kept s'" "\<forall>x\<in>U - set bs. s' ! x = s ! x"
    "kept = hd bs # filter (\<lambda>b. \<not> emptied dec f (s ! b)) (tl bs)" "fsm_files fsm w s (filter (\<lambda>b. emptied dec f (s ! b)) (tl bs)) s'"
    using fsmr.li_retain_ok [OF assms(1-4), of dec f] by blast
  have k: "li_data dec s' kept = filter (\<lambda>t. f t = Retain) ts" "fsm_room env (insert w K) fsm (U - (set bs - set kept)) [] n s'"
    using r(3) unfolding kept_in_def ts by blast+
  show ?thesis using r(1,2,4-6) k(2) li_list_ok [OF r(2), of dec, unfolded k(1)]
    unfolding removed_def ts [symmetric] by (intro exI [of _ s'] exI [of _ kept]) blast
qed

subsection \<open>Witnesses\<close>

definition ex_segments :: store where
  "ex_segments = ex_pool
     [4 := blank_page\<lparr>pg_body := ListHeader \<lparr>ll_start = 5, ll_last = 5, ll_blocklist = 0\<rparr>\<rparr>,
      5 := blank_page\<lparr>pg_next := 6, pg_body := Items [\<lparr>lp_dead = False, lp_data = [7]\<rparr>, \<lparr>lp_dead = False, lp_data = [8]\<rparr>]\<rparr>,
      6 := blank_page\<lparr>pg_body := Items [\<lparr>lp_dead = False, lp_data = [9]\<rparr>]\<rparr>]"

lemma ex_segments_ok:
  "li_rep page_room ex_segments 4 [5, 6]" "li_list hd ex_segments 4 = Some [7, 8, 9 :: u8]" "fsm_room ex_env {5} 1 {0, 4, 5, 6} [] 100 ex_segments"
proof -
  have len: "length ex_pool = 9" by (simp add: ex_pool_def)
  show r: "li_rep page_room ex_segments 4 [5, 6]"
    by (simp add: li_rep_def li_chain_def ex_segments_def item_page_def page_room_def sizes_def get_linked_list_data_def len
        InvalidBlockNumber_def blank_page_def bm25_max_free_space_def BLCKSZ_def page_items_def)
  show "li_list hd ex_segments 4 = Some [7, 8, 9 :: u8]"
    unfolding li_list_ok [OF r] by (simp add: page_data_def ex_segments_def len page_items_def live_items_filter live_def blank_page_def)
  have o: "fsm_room ex_env {5} 1 {0, 4, 5, 6} [] 100 ex_pool" by (rule ex_pool_room) auto
  show "fsm_room ex_env {5} 1 {0, 4, 5, 6} [] 100 ex_segments"
    by (rule fsmb.ok_frame [OF o]) (auto simp: ex_segments_def intro!: frame_step)
qed

text \<open>The second page is emptied, unlinked and filed under transaction 5.\<close>

theorem retain_filters_witness:
  "\<exists>s'. li_retain hd (recycle_at ex_env 1 5) (\<lambda>t :: u8. if t > 8 then Remove t else Retain) ex_segments 4 = Some (s', [9]) \<and>
     li_list hd s' 4 = Some [7, 8] \<and> li_rep page_room s' 4 [5] \<and> fsm_files 1 5 ex_segments [6] s'"
proof -
  have o: "fsm_room ex_env (insert 5 {}) 1 {0, 4, 5, 6} [] (length [5, 6 :: nat] + 98) ex_segments" using ex_segments_ok(3) by simp
  have e: "emptied hd (\<lambda>t :: u8. if t > 8 then Remove t else Retain) (ex_segments ! 6)"
    by (simp add: emptied_def doomed_def live_def ex_segments_def ex_pool_def page_items_def)
  from retain_filters [OF page_room_ok ex_segments_ok(1) o _ ex_segments_ok(2), of "\<lambda>t. if t > 8 then Remove t else Retain"] e
  show ?thesis by (auto simp: List.map_filter_simps)
qed

end
