(* ===== verification/Segment_Gc.thy ===== *)
theory Segment_Gc
  imports Atomic_Items Segment_Meta
begin

text \<open>
  The end of a segment: the blocks that a segment's files take up, \<open>SegmentMetaEntry::freeable_blocks\<close> of
  \<^verbatim>\<open>postgres/storage/block.rs\<close>, and the garbage collection of the segment list, \<open>garbage_collect_index\<close> and
  \<open>free_entries\<close> of \<^verbatim>\<open>postgres/merge.rs\<close>.
\<close>

section \<open>The model\<close>

text \<open>
  An orphaned delete stands for a replaced delete file, and only this file is freed.  The code chains lazy
  iterators that are run while the free space manager is extended, which does not touch the pages they read.
\<close>

definition sme_freeable_blocks :: "packers \<Rightarrow> store \<Rightarrow> segment_meta_entry \<Rightarrow> block_number list option" where
  "sme_freeable_blocks ps s e =
     (case sme_content e of
        Immutable content \<Rightarrow>
          (if is_orphaned_delete e
           then do {
             d \<leftarrow> ei_delete content;
             lb_freeable_blocks ps s (lb_open (starting_block (de_file_entry d)))
           }
           else do {
             bss \<leftarrow> those (map (\<lambda>(fe, _). lb_freeable_blocks ps s (lb_open (starting_block fe))) (file_entries content));
             Some (concat bss)
           })
      | Mutable content \<Rightarrow> li_freeable_blocks s (em_header_block content))"

definition free_entries ::
  "fsm_env \<Rightarrow> block_number \<Rightarrow> packers \<Rightarrow> store \<Rightarrow> segment_meta_entry list \<Rightarrow> nat \<Rightarrow> store option" where
  "free_entries env fsm ps s freeable_entries xid = do {
     bss \<leftarrow> those (map (sme_freeable_blocks ps s) freeable_entries);
     extend_with_when_recyclable env s fsm xid (concat bss)
   }"

text \<open>
  \<open>dec\<close> reads an entry off a page, \<open>fits\<close> is the room on a page and \<open>cleanup\<close> says which blocks nobody pins.  \<open>cxid\<close> and
  \<open>nxid\<close> are the two transaction ids the caller passes; the commit reads the next one itself.
\<close>

definition garbage_collect_index ::
  "fsm_env \<Rightarrow> block_number \<Rightarrow> packers \<Rightarrow> (u8 list \<Rightarrow> segment_meta_entry) \<Rightarrow> (nat list \<Rightarrow> bool) \<Rightarrow> (block_number \<Rightarrow> bool) \<Rightarrow>
     store \<Rightarrow> block_number \<Rightarrow> nat \<Rightarrow> nat \<Rightarrow> store option" where
  "garbage_collect_index env fsm ps dec fits cleanup s hdr cxid nxid = do {
     (s, guard) \<leftarrow> atomically fits (new_buffer env fsm) s hdr;
     (s, entries) \<leftarrow> garbage_collect dec (recycle_at env fsm nxid) (sme_recyclable cleanup) s (ag_cloned guard);
     s \<leftarrow> commit (recycle_at env fsm (next_xid env)) s guard;
     free_entries env fsm ps s entries cxid
   }"

section \<open>The blocks of an entry\<close>

text \<open>Finding the blocks of an entry reads only pages that are among them.\<close>

lemma walk_pages_dest: "walk_pages s b = Some bs \<Longrightarrow> pages_from s b bs"
proof (induction bs arbitrary: b)
  case Nil
  then show ?case by (subst (asm) walk_pages.simps) (auto split: if_splits bind_splits)
next
  case (Cons x xs)
  then show ?case
    by (subst (asm) walk_pages.simps) (auto simp: next_blockno_def get_at_def split: if_splits bind_splits)
qed

lemma walk_pages_same:
  assumes "walk_pages s b = Some bs" "length s \<le> length s'" "\<forall>x\<in>set bs. s' ! x = s ! x"
  shows "walk_pages s' b = Some bs"
proof (rule walk_pages_ok)
  note p = walk_pages_dest [OF assms(1)]
  show "pages_from s' b bs" by (rule lseg_cong [OF p]) (use lseg_bound [OF p] assms(2,3) in force)
qed

lemma read_blocks_same:
  "pages_from s b (x # bs) \<Longrightarrow> length s \<le> length s' \<Longrightarrow> \<forall>y\<in>set (x # bs). s' ! y = s ! y \<Longrightarrow> read_blocks ps s' b = read_blocks ps s b"
proof (induction bs arbitrary: b x)
  case Nil
  then show ?case by (subst (1 2) read_blocks.simps) (simp add: body_of_def next_blockno_def get_at_def)
next
  case (Cons y bs)
  have "read_blocks ps s' y = read_blocks ps s y" using Cons by (intro Cons.IH [of y y]) auto
  then show ?case using Cons.prems by (subst (1 2) read_blocks.simps) (simp add: body_of_def next_blockno_def get_at_def)
qed

lemma header_data_same:
  assumes "get_linked_list_data s h = Some d" "length s \<le> length s'" "s' ! h = s ! h"
  shows "get_linked_list_data s' h = Some d"
  using assms by (auto simp: get_linked_list_data_def body_of_def get_at_def split: if_splits bind_splits)

lemma lb_freeable_same:
  assumes "lb_freeable_blocks ps s (lb_open h) = Some fb" "length s \<le> length s'" "\<forall>x\<in>set fb. s' ! x = s ! x"
  shows "lb_freeable_blocks ps s' (lb_open h) = Some fb"
proof -
  obtain d blocks own where o: "get_linked_list_data s h = Some d" "bl_read ps s (ll_blocklist d) = Some blocks"
    "walk_pages s (ll_blocklist d) = Some own" "fb = blocks @ [h] @ own"
    using assms(1) by (auto simp: lb_freeable_blocks_def lb_open_def split: bind_splits)
  have d: "get_linked_list_data s' h = Some d" by (rule header_data_same [OF o(1) assms(2)]) (use assms(3) o(4) in simp)
  have w: "walk_pages s' (ll_blocklist d) = Some own" by (rule walk_pages_same [OF o(3) assms(2)]) (use assms(3) o(4) in simp)
  have "bl_read ps s' (ll_blocklist d) = Some blocks"
  proof (cases own)
    case Nil
    then show ?thesis using o(2) walk_pages_dest [OF o(3)] by (simp add: bl_read_def)
  next
    case (Cons x xs)
    have "read_blocks ps s' (ll_blocklist d) = read_blocks ps s (ll_blocklist d)"
      by (rule read_blocks_same [OF walk_pages_dest [OF o(3), unfolded Cons] assms(2)]) (use assms(3) o(4) Cons in simp)
    then show ?thesis using o(2) unfolding bl_read_def by (cases "ll_blocklist d = InvalidBlockNumber") simp_all
  qed
  then show ?thesis using d w o(4) by (simp add: lb_freeable_blocks_def lb_open_def)
qed

lemma li_freeable_same:
  assumes "li_freeable_blocks s h = Some fb" "length s \<le> length s'" "\<forall>x\<in>set fb. s' ! x = s ! x"
  shows "li_freeable_blocks s' h = Some fb"
proof -
  obtain d bs where o: "get_linked_list_data s h = Some d" "ll_start d \<noteq> 0" "ll_start d \<noteq> InvalidBlockNumber"
    "walk_pages s (ll_start d) = Some bs" "fb = h # bs"
    using assms(1)
    by (auto simp: li_freeable_blocks_def freeable_blocks_without_header_def get_start_blockno_def split: bind_splits if_splits)
  have "get_linked_list_data s' h = Some d" by (rule header_data_same [OF o(1) assms(2)]) (use assms(3) o(5) in simp)
  moreover have "walk_pages s' (ll_start d) = Some bs" by (rule walk_pages_same [OF o(4) assms(2)]) (use assms(3) o(5) in simp)
  ultimately show ?thesis using o
    by (simp add: li_freeable_blocks_def freeable_blocks_without_header_def get_start_blockno_def)
qed

lemma those_same:
  "those (map g xs) = Some bss \<Longrightarrow> (\<And>x fb. x \<in> set xs \<Longrightarrow> g x = Some fb \<Longrightarrow> set fb \<subseteq> set (concat bss) \<Longrightarrow> g' x = Some fb) \<Longrightarrow>
     those (map g' xs) = Some bss"
proof (induction xs arbitrary: bss)
  case (Cons x xs)
  obtain fb fbs where o: "g x = Some fb" "those (map g xs) = Some fbs" "bss = fb # fbs"
    using Cons.prems(1) by (auto split: option.splits)
  have "g' x = Some fb" by (rule Cons.prems(2)) (use o in auto)
  moreover have "those (map g' xs) = Some fbs" 
  proof (rule Cons.IH [OF o(2)])
    fix y fb' assume "y \<in> set xs" "g y = Some fb'" "set fb' \<subseteq> set (concat fbs)"
    then show "g' y = Some fb'" using o(3) by (intro Cons.prems(2)) auto
  qed
  ultimately show ?case using o(3) by simp
qed simp

lemma sme_freeable_same:
  assumes "sme_freeable_blocks ps s e = Some fb" "length s \<le> length s'" "\<forall>x\<in>set fb. s' ! x = s ! x"
  shows "sme_freeable_blocks ps s' e = Some fb"
proof (cases "sme_content e")
  case (Mutable c)
  then have "li_freeable_blocks s (em_header_block c) = Some fb" using assms(1) by (simp add: sme_freeable_blocks_def)
  from li_freeable_same [OF this assms(2,3)] show ?thesis using Mutable by (simp add: sme_freeable_blocks_def)
next
  case (Immutable c)
  show ?thesis
  proof (cases "is_orphaned_delete e")
    case True
    then obtain d where d: "ei_delete c = Some d" "lb_freeable_blocks ps s (lb_open (starting_block (de_file_entry d))) = Some fb"
      using assms(1) Immutable by (auto simp: sme_freeable_blocks_def split: bind_splits)
    from lb_freeable_same [OF d(2) assms(2,3)] show ?thesis using Immutable True d(1) by (simp add: sme_freeable_blocks_def)
  next
    case False
    obtain bss where o: "those (map (\<lambda>(fe, _). lb_freeable_blocks ps s (lb_open (starting_block fe))) (file_entries c)) = Some bss"
      "fb = concat bss" using assms(1) Immutable False by (auto simp: sme_freeable_blocks_def split: bind_splits)
    have "those (map (\<lambda>(fe, _). lb_freeable_blocks ps s' (lb_open (starting_block fe))) (file_entries c)) = Some bss"
    proof (rule those_same [OF o(1)])
      fix x fb' assume a: "(case x of (fe, _) \<Rightarrow> lb_freeable_blocks ps s (lb_open (starting_block fe))) = Some fb'" "set fb' \<subseteq> set (concat bss)"
      obtain fe cp where x: "x = (fe, cp)" by (cases x)
      have f: "lb_freeable_blocks ps s (lb_open (starting_block fe)) = Some fb'" using a(1) x by simp
      have "\<forall>y\<in>set fb'. s' ! y = s ! y" using a(2) assms(3) o(2) by blast
      from lb_freeable_same [OF f assms(2) this]
      show "(case x of (fe, _) \<Rightarrow> lb_freeable_blocks ps s' (lb_open (starting_block fe))) = Some fb'" by (simp add: x)
    qed
    then show ?thesis using Immutable False o(2) by (simp add: sme_freeable_blocks_def)
  qed
qed

lemma free_entries_ok:
  assumes "those (map (sme_freeable_blocks ps s) es) = Some fbs" "length s \<le> length s1" "\<forall>x\<in>set (concat fbs). s1 ! x = s ! x"
    "fsm_room env (insert w K) fsm U [] (length (concat fbs) + n) s1" "distinct (concat fbs)" "set (concat fbs) \<subseteq> U"
  obtains s' where "free_entries env fsm ps s1 es w = Some s'" "fsm_room env (insert w K) fsm (U - set (concat fbs)) [] n s'"
    "\<forall>x\<in>U. s' ! x = s1 ! x" "length s1 \<le> length s'" "fsm_files fsm w s1 (concat fbs) s'"
    "extend_with_when_recyclable env s1 fsm w (concat fbs) = Some s'"
proof -
  have "those (map (sme_freeable_blocks ps s1) es) = Some fbs"

  proof (rule those_same [OF assms(1)])
    fix e fb assume "sme_freeable_blocks ps s e = Some fb" "set fb \<subseteq> set (concat fbs)"
    then show "sme_freeable_blocks ps s1 e = Some fb" using assms(3) by (intro sme_freeable_same [OF _ assms(2)]) blast+
  qed
  moreover obtain s' where "extend_with_when_recyclable env s1 fsm w (concat fbs) = Some s'" "fsm_room env (insert w K) fsm (U - set (concat fbs)) [] n s'"
    "\<forall>x\<in>U. s' ! x = s1 ! x" "length s1 \<le> length s'" "fsm_files fsm w s1 (concat fbs) s'"
    using fsmr.free_law [OF assms(4-6)] by (elim exE conjE) (rule that)
  ultimately show thesis by (intro that) (auto simp: free_entries_def)
qed

text \<open>Filing blocks leaves the blocks that are on record alone.\<close>

lemma extend_keeps_recorded:
  assumes "fsm_room env K fsm U [] (length ws + n) s" "w \<in> insert (next_xid env) K" "extend_with_when_recyclable env s fsm w ws = Some s'"
    and "fsm_files fsm v s0 bs s" "x \<in> set bs"
  shows "s' ! x = s ! x"
proof (cases "ws = []")
  case True
  then show ?thesis using assms(3) by (simp add: extend_with_when_recyclable_def)
next
  case False
  obtain xs ts G where o: "fsm_inv s fsm xs ts G" "\<not> create_index env"
    "max (current_xid env) FirstNormalTransactionId < next_xid env" "fsm_spare (insert (next_xid env) K) xs ts"
    "\<forall>x. count (fsm_total s G xs ts + mset []) x \<le> 1" "\<forall>x. x \<in># fsm_total s G xs ts + mset [] \<longrightarrow> x < length s \<and> x \<noteq> fsm \<and> x \<notin> U"
    "length s + (length ws + n) \<le> InvalidBlockNumber" "\<forall>k\<in>K. FirstNormalTransactionId \<le> k"
    using assms(1) unfolding fsm_room_def by (elim exE conjE) (rule that)
  have w: "w = (if create_index env then FirstNormalTransactionId else w)" "FirstNormalTransactionId \<le> w" using o(2,3,8) assms(2) by auto
  have sp: "length s + length ws \<le> InvalidBlockNumber" using o(7) by simp
  obtain t where t: "frame (insert fsm (set (G t))) s s'" "map_of xs w = Some ((), t) \<or> map_of xs w = None \<and> t \<in> set ts"
    by (rule extend_room [OF o(1) False w sp fsm_spare_key [OF o(4) assms(2)]]) (use assms(3) that in auto)
  obtain M where "fsm_records s fsm (M + image_mset (Pair v) (mset bs))" using assms(4) by (auto simp: fsm_files_def)
  from fsm_records_unique [OF this o(1)] have "(v, x) \<in># fsm_entries s G xs" using assms(5) by (metis image_eqI set_image_mset set_mset_mset union_iff)
  then have x: "x \<in># image_mset snd (fsm_entries s G xs)" by force
  have "t \<in> set (fsm_tags xs ts)" using t(2) fsm_tag_in [of xs w "()" t ts] by (auto simp: fsm_tags_def)
  then have "set (G t) \<subseteq> set (fsm_pages G xs ts)" by (auto simp: fsm_pages_def)
  moreover have "x \<notin> set (fsm_pages G xs ts)"
  proof
    assume "x \<in> set (fsm_pages G xs ts)"
    then have a: "0 < count (mset (fsm_pages G xs ts)) x" by (simp only: count_greater_zero_iff set_mset_mset)
    have b: "0 < count (image_mset snd (fsm_entries s G xs)) x" using x by (simp only: count_greater_zero_iff)
    have "count (image_mset snd (fsm_entries s G xs)) x + count (mset (fsm_pages G xs ts)) x \<le> 1"
      using spec [OF o(5), of x] by (simp only: fsm_total_def count_union mset.simps(1) empty_neutral)
    then show False using a b by linarith
  qed
  ultimately show ?thesis using frame_nth [OF t(1), of x] spec [OF o(6), of x] x by (auto simp: fsm_total_def)
qed

section \<open>Properties\<close>

text \<open>
  C1. Garbage collection of an index is atomic and loses no block.  Take a segment list whose entries can all be
  tested, and whose recyclable entries (deleted, with a first block that nobody pins) have files on pages \<open>fbs\<close> of
  their own.  Until the commit the list on the header is the old one.  The commit makes it the list without the
  recyclable entries, in order; the old pages and the header of the copy go on record under the next
  transaction id.  Then exactly the blocks of the removed entries go on record, under \<open>cxid\<close>.  The pages of
  the old list and of the removed files keep their content, so that a reader that is still on them is not disturbed,
  and every other page in use is as before.  The free space manager must have slots for the three transaction
  ids and the relation room to grow, and the index must not be under creation.
\<close>

theorem garbage_collection_atomic:
  assumes "room_ok fits" "li_rep fits s hdr bs" "insert hdr (set bs) \<subseteq> U" "0 \<in> U" "li_list dec s hdr = Some ts"
    and "\<forall>t\<in>set ts. sme_recyclable cleanup t \<noteq> None" "dead = filter (\<lambda>t. sme_recyclable cleanup t = Some True) ts"
    and "those (map (sme_freeable_blocks ps s) dead) = Some fbs" "distinct (concat fbs)" "set (concat fbs) \<subseteq> U - insert hdr (set bs)"
    and "fsm_room env {nxid, cxid} fsm U [] (2 + 3 * length bs + (length (concat fbs) + n)) s"
  shows "\<exists>s1 guard s2 dropped s3 s4 bs'. atomically fits (new_buffer env fsm) s hdr = Some (s1, guard) \<and> li_list dec s1 hdr = Some ts \<and>
     garbage_collect dec (recycle_at env fsm nxid) (sme_recyclable cleanup) s1 (ag_cloned guard) = Some (s2, dead) \<and> li_list dec s2 hdr = Some ts \<and>
     fsm_files fsm nxid s1 dropped s2 \<and> set dropped \<inter> U = {} \<and>
     commit (recycle_at env fsm (next_xid env)) s2 guard = Some s3 \<and> li_list dec s3 hdr = Some (filter (\<lambda>t. sme_recyclable cleanup t \<noteq> Some True) ts) \<and>
     fsm_files fsm (next_xid env) s2 (bs @ [ag_cloned guard]) s3 \<and> ag_cloned guard \<notin> U \<and>
     garbage_collect_index env fsm ps dec fits cleanup s hdr cxid nxid = Some s4 \<and> fsm_files fsm cxid s3 (concat fbs) s4 \<and>
     li_list dec s4 hdr = Some (filter (\<lambda>t. sme_recyclable cleanup t \<noteq> Some True) ts) \<and> li_rep fits s4 hdr bs' \<and> set bs' \<inter> U = {} \<and>
     fsm_room env {nxid, cxid} fsm (U - set bs - set (concat fbs) \<union> set bs') [] n s4 \<and> (\<forall>x\<in>U - {hdr}. s4 ! x = s ! x)"
proof -
  obtain s1 cl cs s2 dropped s3 kept where c: "atomically fits (new_buffer env fsm) s hdr = Some (s1, \<lparr>ag_original = hdr, ag_cloned = cl\<rparr>)" "li_list dec s1 hdr = Some ts"
    "garbage_collect dec (recycle_at env fsm nxid) (sme_recyclable cleanup) s1 cl = Some (s2, filter (\<lambda>t. sme_recyclable cleanup t = Some True) ts)" "li_list dec s2 hdr = Some ts"
    "fsm_files fsm nxid s1 dropped s2" "set dropped \<inter> U = {}"
    "commit (recycle_at env fsm (next_xid env)) s2 \<lparr>ag_original = hdr, ag_cloned = cl\<rparr> = Some s3" "li_list dec s3 hdr = Some (filter (\<lambda>t. sme_recyclable cleanup t \<noteq> Some True) ts)"
    "fsm_files fsm (next_xid env) s2 (bs @ [cl]) s3" "cl \<notin> U"
    "li_rep fits s3 hdr kept" "set kept \<inter> U = {}" "fsm_room env (insert nxid {cxid}) fsm (U - set bs \<union> set kept) [] (length (concat fbs) + n) s3"
    "\<forall>x\<in>U - {hdr}. s3 ! x = s ! x" "length s \<le> length s3"
    by (rule collect_in_copy [OF assms(1,2,11,3,4,5,6)])
  have keep: "\<forall>x\<in>set (concat fbs). s3 ! x = s ! x" using c(14) assms(10) by blast
  have sub: "set (concat fbs) \<subseteq> U - set bs \<union> set kept" using assms(10) by blast
  have room: "fsm_room env (insert cxid {nxid}) fsm (U - set bs \<union> set kept) [] (length (concat fbs) + n) s3"
    using c(13) by (simp only: insert_commute)
  obtain s4 where f: "free_entries env fsm ps s3 dead cxid = Some s4" "fsm_room env (insert cxid {nxid}) fsm (U - set bs \<union> set kept - set (concat fbs)) [] n s4"
    "\<forall>x\<in>U - set bs \<union> set kept. s4 ! x = s3 ! x" "length s3 \<le> length s4" "fsm_files fsm cxid s3 (concat fbs) s4"
    "extend_with_when_recyclable env s3 fsm cxid (concat fbs) = Some s4"
    by (rule free_entries_ok [OF assms(8) c(15) keep room assms(9) sub])
  have run: "garbage_collect_index env fsm ps dec fits cleanup s hdr cxid nxid = Some s4"
    using c(1,3,7) f(1) by (simp add: garbage_collect_index_def assms(7))
  have hU: "hdr \<in> U - set bs" using assms(2,3) by (auto simp: li_rep_def)
  have rep: "li_rep fits s4 hdr kept" by (rule li_rep_cong [OF c(11) f(4)]) (use f(3) hU in auto)
  have "li_data dec s4 kept = li_data dec s3 kept" by (rule li_data_cong) (use f(3) in auto)
  then have l4: "li_list dec s4 hdr = Some (filter (\<lambda>t. sme_recyclable cleanup t \<noteq> Some True) ts)"
    using li_list_ok [OF rep, of dec] li_list_ok [OF c(11), of dec] c(8) by simp
  have "U - set bs \<union> set kept - set (concat fbs) = U - set bs - set (concat fbs) \<union> set kept" using c(12) assms(10) by blast
  then have room4: "fsm_room env {nxid, cxid} fsm (U - set bs - set (concat fbs) \<union> set kept) [] n s4" using f(2) by (simp only: insert_commute)
  have ext: "extend_with_when_recyclable env s3 fsm cxid (concat fbs) = Some s4" using f(6) .
  have s4: "\<forall>x\<in>U - {hdr}. s4 ! x = s ! x"
  proof
    fix x assume x: "x \<in> U - {hdr}"
    have "s4 ! x = s3 ! x"
    proof (cases "x \<in> set bs")
      case True
      then show ?thesis by (intro extend_keeps_recorded [OF c(13) _ ext c(9)]) auto
    next
      case False
      then show ?thesis using f(3) x by auto
    qed
    then show "s4 ! x = s ! x" using c(14) x by auto
  qed
  show ?thesis
    by (rule exI [of _ s1], rule exI [of _ "\<lparr>ag_original = hdr, ag_cloned = cl\<rparr>"], rule exI [of _ s2], rule exI [of _ dropped], rule exI [of _ s3],
        rule exI [of _ s4], rule exI [of _ kept])
      (unfold atomic_guard.select_convs, intro conjI; fact c c(3) [folded assms(7)] f(5) run l4 rep room4 s4)
qed

subsection \<open>Witness\<close>

text \<open>A list of two segments on block 5; the second is mutable, deleted, and has its rows on the blocks 6 and 9.\<close>

definition ex_live :: segment_meta_entry where
  "ex_live = new_immutable 77 10 InvalidTransactionId ex_files"

definition ex_dead :: segment_meta_entry where
  "ex_dead = new_mutable 78 4 FrozenTransactionId \<lparr>em_header_block = 6, em_num_deleted_docs = 0, em_frozen = True\<rparr>"

definition ex_read :: "u8 list \<Rightarrow> segment_meta_entry" where
  "ex_read bs = (if bs = [1] then ex_live else ex_dead)"

definition ex_index :: store where
  "ex_index = (ex_pool @ [zero_page])
     [4 := blank_page\<lparr>pg_body := ListHeader \<lparr>ll_start = 5, ll_last = 5, ll_blocklist = 0\<rparr>\<rparr>,
      5 := blank_page\<lparr>pg_body := Items [\<lparr>lp_dead = False, lp_data = [1]\<rparr>, \<lparr>lp_dead = False, lp_data = [2]\<rparr>]\<rparr>,
      6 := blank_page\<lparr>pg_body := ListHeader \<lparr>ll_start = 9, ll_last = 9, ll_blocklist = 0\<rparr>\<rparr>,
      9 := blank_page]"

lemma ex_index_ok:
  "li_rep page_room ex_index 4 [5]" "li_list ex_read ex_index 4 = Some [ex_live, ex_dead]"
  "fsm_room ex_env {7, 5} 1 {0, 4, 5, 6, 9} [] 100 ex_index" "sme_freeable_blocks ps ex_index ex_dead = Some [6, 9]"
proof -
  have len: "length ex_pool = 9" by (simp add: ex_pool_def)
  show r: "li_rep page_room ex_index 4 [5]"
    by (simp add: li_rep_def li_chain_def ex_index_def item_page_def page_room_def sizes_def get_linked_list_data_def len
        InvalidBlockNumber_def blank_page_def bm25_max_free_space_def BLCKSZ_def page_items_def)
  show "li_list ex_read ex_index 4 = Some [ex_live, ex_dead]"
    unfolding li_list_ok [OF r] by (simp add: page_data_def ex_index_def len page_items_def live_items_filter live_def blank_page_def ex_read_def)
  have "pages_from ex_index 9 [9]" by (simp add: ex_index_def len InvalidBlockNumber_def)
  from walk_pages_ok [OF this] show "sme_freeable_blocks ps ex_index ex_dead = Some [6, 9]"
    by (simp add: sme_freeable_blocks_def ex_dead_def new_mutable_def li_freeable_blocks_def freeable_blocks_without_header_def get_start_blockno_def
        get_linked_list_data_def ex_index_def len InvalidBlockNumber_def)
  have "fsm_room ex_env {7, 5} 1 {0, 4, 5, 6} [] (1 + 100) ex_pool" by (rule ex_pool_room) auto
  from fsm_ok_extend [OF this] have "fsm_room ex_env {7, 5} 1 {0, 4, 5, 6} [9] 100 (ex_pool @ [zero_page])" by (simp add: len)
  from fsm_ok_own(1) [OF this] have o: "fsm_room ex_env {7, 5} 1 {0, 4, 5, 6, 9} [] 100 (ex_pool @ [zero_page])" by (simp add: insert_commute)
  show "fsm_room ex_env {7, 5} 1 {0, 4, 5, 6, 9} [] 100 ex_index"
    by (rule fsmb.ok_frame [OF o]) (auto simp: ex_index_def intro!: frame_step)
qed

theorem garbage_collection_atomic_witness:
  "\<exists>s1 guard s2 s3 s4. atomically page_room (new_buffer ex_env 1) ex_index 4 = Some (s1, guard) \<and>
     garbage_collect ex_read (recycle_at ex_env 1 7) (sme_recyclable (\<lambda>_. True)) s1 (ag_cloned guard) = Some (s2, [ex_dead]) \<and>
     li_list ex_read s2 4 = Some [ex_live, ex_dead] \<and> commit (recycle_at ex_env 1 7) s2 guard = Some s3 \<and>
     garbage_collect_index ex_env 1 raw_packers ex_read page_room (\<lambda>_. True) ex_index 4 5 7 = Some s4 \<and>
     li_list ex_read s4 4 = Some [ex_live] \<and> fsm_files 1 5 s3 [6, 9] s4 \<and> s4 ! 9 = ex_index ! 9"
proof -
  have rec: "sme_recyclable (\<lambda>_. True) ex_live = Some False" "sme_recyclable (\<lambda>_. True) ex_dead = Some True"
    by (simp_all add: sme_recyclable_def is_deleted_def sme_xmax_def ex_live_def ex_dead_def new_immutable_def new_mutable_def
        sme_pintest_blockno_def FrozenTransactionId_def InvalidTransactionId_def)
  have own: "insert 4 (set [5]) \<subseteq> {0, 4, 5, 6, 9 :: nat}" "0 \<in> {0, 4, 5, 6, 9 :: nat}" by auto
  have t: "\<forall>t\<in>set [ex_live, ex_dead]. sme_recyclable (\<lambda>_. True) t \<noteq> None" using rec by auto
  have d: "[ex_dead] = filter (\<lambda>t. sme_recyclable (\<lambda>_. True) t = Some True) [ex_live, ex_dead]" using rec by simp
  have fb: "those (map (sme_freeable_blocks raw_packers ex_index) [ex_dead]) = Some [[6, 9]]" using ex_index_ok(4) by simp
  have fd: "distinct (concat [[6, 9 :: nat]])" "set (concat [[6, 9]]) \<subseteq> {0, 4, 5, 6, 9} - insert 4 (set [5 :: nat])" by auto
  have room: "fsm_room ex_env {7, 5} 1 {0, 4, 5, 6, 9} [] (2 + 3 * length [5 :: nat] + (length (concat [[6, 9 :: nat]]) + 93)) ex_index"
    using ex_index_ok(3) by simp
  have nx: "next_xid ex_env = 7" by (simp add: ex_env_def)
  have f: "filter (\<lambda>t. sme_recyclable (\<lambda>_. True) t \<noteq> Some True) [ex_live, ex_dead] = [ex_live]" using rec by simp
  note g = garbage_collection_atomic [OF page_room_ok ex_index_ok(1) own ex_index_ok(2) t d fb fd room, unfolded nx f]
  from g obtain s1 guard s2 s3 s4 where o: "atomically page_room (new_buffer ex_env 1) ex_index 4 = Some (s1, guard)"
    "garbage_collect ex_read (recycle_at ex_env 1 7) (sme_recyclable (\<lambda>_. True)) s1 (ag_cloned guard) = Some (s2, [ex_dead])"
    "li_list ex_read s2 4 = Some [ex_live, ex_dead]" "commit (recycle_at ex_env 1 7) s2 guard = Some s3"
    "garbage_collect_index ex_env 1 raw_packers ex_read page_room (\<lambda>_. True) ex_index 4 5 7 = Some s4"
    "li_list ex_read s4 4 = Some [ex_live]" "fsm_files 1 5 s3 (concat [[6, 9]]) s4" "\<forall>x\<in>{0, 4, 5, 6, 9} - {4}. s4 ! x = ex_index ! x"
    by (elim exE conjE) (rule that)
  have "s4 ! 9 = ex_index ! 9" "fsm_files 1 5 s3 [6, 9] s4" using o(7,8) by auto
  then show ?thesis using o(1-6) by blast
qed

end
