(* ===== verification/Vacuum_List.thy ===== *)
theory Vacuum_List
  imports Atomic_Items
begin

text \<open>
  The list of segments a vacuum is working on, \<open>VacuumList\<close> of \<^verbatim>\<open>storage/merge.rs\<close>: pages of segment ids, each
  with the number of entries in use.  A segment id is its 16 bytes.  The order \<open>SegmentId\<close> is sorted by is
  that of the crate \<open>tantivy\<close> and a parameter, and so is whether the sentinel block is pinned.
\<close>

section \<open>The model\<close>

definition VACUUM_IDS_PER_PAGE :: nat where
  "VACUUM_IDS_PER_PAGE = (bm25_max_free_space - 2) div 16"

definition zero_vacuum_list :: vacuum_list_data where
  "zero_vacuum_list = \<lparr>vl_segment_ids = replicate VACUUM_IDS_PER_PAGE (replicate 16 0), vl_nentries = 0\<rparr>"

definition as_vacuum_list :: "page_body \<Rightarrow> vacuum_list_data option" where
  "as_vacuum_list c = (case c of Blank \<Rightarrow> Some zero_vacuum_list | VacuumPage d \<Rightarrow> Some d | _ \<Rightarrow> None)"

definition vacuum_list_at :: "store \<Rightarrow> block_number \<Rightarrow> vacuum_list_data option" where
  "vacuum_list_at s b = do { c \<leftarrow> body_of s b; as_vacuum_list c }"

record vacuum_list =
  start_block_number :: block_number
  vl_sentinel :: block_number

definition vl_open :: "block_number \<Rightarrow> block_number \<Rightarrow> vacuum_list" where
  "vl_open start sentinel = \<lparr>start_block_number = start, vl_sentinel = sentinel\<rparr>"

text \<open>\<open>copy_from_slice\<close> panics when the lengths differ.\<close>

definition put_segment_id :: "vacuum_list_data \<Rightarrow> u8 list \<Rightarrow> vacuum_list_data option" where
  "put_segment_id d segment_id =
     (let i = unat (vl_nentries d) in
      if i < length (vl_segment_ids d) \<and> length (vl_segment_ids d ! i) = length segment_id
      then Some (d\<lparr>vl_segment_ids := (vl_segment_ids d)[i := segment_id], vl_nentries := vl_nentries d + 1\<rparr>)
      else None)"

definition next_vacuum_page ::
  "(store \<Rightarrow> (store \<times> block_number) option) \<Rightarrow> store \<Rightarrow> block_number \<Rightarrow> (store \<times> block_number) option" where
  "next_vacuum_page alloc s b = do {
     next \<leftarrow> next_blockno s b;
     (if next \<noteq> InvalidBlockNumber then Some (s, next)
      else do {
        (s, next) \<leftarrow> alloc s;
        s \<leftarrow> set_next s b next;
        s \<leftarrow> init_page s next;
        Some (s, next)
      })
   }"

definition clear_vacuum_page :: "store \<Rightarrow> block_number \<Rightarrow> store option" where
  "clear_vacuum_page s b = do {
     d \<leftarrow> vacuum_list_at s b;
     set_body s b (VacuumPage (d\<lparr>vl_nentries := 0\<rparr>))
   }"

fun write_ids ::
  "(store \<Rightarrow> (store \<times> block_number) option) \<Rightarrow> store \<Rightarrow> block_number \<Rightarrow> u8 list list \<Rightarrow> store option" where
  "write_ids alloc s b [] = Some s"
| "write_ids alloc s b (segment_id # ids) = do {
     d \<leftarrow> vacuum_list_at s b;
     (s, b) \<leftarrow> (if unat (vl_nentries d) \<ge> length (vl_segment_ids d)
        then do {
          (s, b) \<leftarrow> next_vacuum_page alloc s b;
          s \<leftarrow> clear_vacuum_page s b;
          Some (s, b)
        }
        else Some (s, b));
     d \<leftarrow> vacuum_list_at s b;
     d \<leftarrow> put_segment_id d segment_id;
     s \<leftarrow> set_body s b (VacuumPage d);
     write_ids alloc s b ids
   }"

definition write_list ::
  "(u8 list list \<Rightarrow> u8 list list) \<Rightarrow> (store \<Rightarrow> (store \<times> block_number) option) \<Rightarrow> store \<Rightarrow> vacuum_list \<Rightarrow> u8 list list \<Rightarrow> store option" where
  "write_list sort_ids alloc s vl ids = do {
     s \<leftarrow> clear_vacuum_page s (start_block_number vl);
     write_ids alloc s (start_block_number vl) (sort_ids ids)
   }"

partial_function (option) read_list_loop :: "store \<Rightarrow> block_number \<Rightarrow> u8 list list option" where
  "read_list_loop s b = do {
     d \<leftarrow> vacuum_list_at s b;
     if vl_nentries d = 0 then Some []
     else if unat (vl_nentries d) > length (vl_segment_ids d) then None
     else do {
       let ids = take (unat (vl_nentries d)) (vl_segment_ids d);
       next \<leftarrow> next_blockno s b;
       (if next = InvalidBlockNumber then Some ids
        else do { rest \<leftarrow> read_list_loop s next; Some (ids @ rest) })
     }
   }"

lemmas [code] = read_list_loop.simps

text \<open>\<open>pinned\<close>: no cleanup lock can be had on the sentinel block, since \<open>ambulkdelete\<close> holds a pin on it.\<close>

definition is_ambulkdelete_running :: "(block_number \<Rightarrow> bool) \<Rightarrow> vacuum_list \<Rightarrow> bool" where
  "is_ambulkdelete_running pinned vl = pinned (vl_sentinel vl)"

definition read_list :: "(block_number \<Rightarrow> bool) \<Rightarrow> store \<Rightarrow> vacuum_list \<Rightarrow> u8 list set option" where
  "read_list pinned s vl =
     (if \<not> is_ambulkdelete_running pinned vl then Some {}
      else map_option set (read_list_loop s (start_block_number vl)))"

section \<open>Pages of segment ids\<close>

definition vac_ok :: "vacuum_list_data \<Rightarrow> bool" where
  "vac_ok d \<longleftrightarrow> length (vl_segment_ids d) = VACUUM_IDS_PER_PAGE \<and> (\<forall>x\<in>set (vl_segment_ids d). length x = 16) \<and>
     unat (vl_nentries d) \<le> VACUUM_IDS_PER_PAGE"

definition vac_page :: "page \<Rightarrow> bool" where
  "vac_page p \<longleftrightarrow> (\<exists>d. as_vacuum_list (pg_body p) = Some d \<and> vac_ok d)"

definition page_ids :: "page \<Rightarrow> u8 list list" where
  "page_ids p = (let d = the (as_vacuum_list (pg_body p)) in take (unat (vl_nentries d)) (vl_segment_ids d))"

definition vac_chain :: "store \<Rightarrow> block_number list \<Rightarrow> bool" where
  "vac_chain s bs \<longleftrightarrow> bs \<noteq> [] \<and> distinct bs \<and> pages_from s (hd bs) bs \<and> (\<forall>b\<in>set bs. vac_page (s ! b))"

text \<open>What a reader sees on the pages \<open>bs\<close>: it stops at the first page without entries.\<close>

definition vac_ids :: "store \<Rightarrow> block_number list \<Rightarrow> u8 list list" where
  "vac_ids s bs = concat (map (\<lambda>b. page_ids (s ! b)) (takeWhile (\<lambda>b. page_ids (s ! b) \<noteq> []) bs))"

lemma ids_per_page: "VACUUM_IDS_PER_PAGE = 509"
  by (simp add: VACUUM_IDS_PER_PAGE_def bm25_max_free_space_def BLCKSZ_def)

lemma zero_vac_ok [simp]: "vac_ok zero_vacuum_list"
  by (simp add: vac_ok_def zero_vacuum_list_def)

lemma as_vacuum_list_simps [simp]: "as_vacuum_list Blank = Some zero_vacuum_list" "as_vacuum_list (VacuumPage d) = Some d"
  by (simp_all add: as_vacuum_list_def)

lemma vacuum_list_at_in [simp]: "b < length s \<Longrightarrow> vacuum_list_at s b = as_vacuum_list (pg_body (s ! b))"
  by (simp add: vacuum_list_at_def)

lemma page_ids_empty: "as_vacuum_list (pg_body p) = Some d \<Longrightarrow> vac_ok d \<Longrightarrow> page_ids p = [] \<longleftrightarrow> vl_nentries d = 0"
proof -
  assume "as_vacuum_list (pg_body p) = Some d" "vac_ok d"
  then have "page_ids p = [] \<longleftrightarrow> unat (vl_nentries d) = 0 \<or> vl_segment_ids d = []" by (simp add: page_ids_def)
  then show ?thesis using \<open>vac_ok d\<close> by (auto simp: vac_ok_def ids_per_page unat_eq_0)
qed

lemma read_list_loop_ok: "vac_chain s bs \<Longrightarrow> read_list_loop s (hd bs) = Some (vac_ids s bs)"
proof (induction bs)
  case (Cons b bs)
  have b: "b < length s" "pages_from s (pg_next (s ! b)) bs" using Cons.prems by (auto simp: vac_chain_def)
  obtain d where d: "as_vacuum_list (pg_body (s ! b)) = Some d" "vac_ok d" using Cons.prems by (auto simp: vac_chain_def vac_page_def)
  note e = page_ids_empty [OF d]
  have le: "\<not> unat (vl_nentries d) > length (vl_segment_ids d)" using d(2) by (simp add: vac_ok_def)
  have ids: "page_ids (s ! b) = take (unat (vl_nentries d)) (vl_segment_ids d)" using d(1) by (simp add: page_ids_def)
  show ?case
  proof (cases "bs = []")
    case True
    then have "pg_next (s ! b) = InvalidBlockNumber" using b(2) by simp
    then show ?thesis using True b(1) d(1) e le ids by (simp add: read_list_loop.simps [of s b] vac_ids_def)
  next
    case False
    then have "pg_next (s ! b) = hd bs" "hd bs \<noteq> InvalidBlockNumber" using b(2) by (cases bs; auto)+
    moreover have "vac_chain s bs" using Cons.prems False calculation by (auto simp: vac_chain_def)
    ultimately show ?thesis using Cons.IH b(1) d(1) e le ids by (simp add: read_list_loop.simps [of s b] vac_ids_def)
  qed
qed (simp add: vac_chain_def)
section \<open>Writing\<close>

lemma put_segment_id_ok:
  assumes "vac_ok d" "unat (vl_nentries d) < VACUUM_IDS_PER_PAGE" "length x = 16"
  obtains d' where "put_segment_id d x = Some d'" "vac_ok d'" "unat (vl_nentries d') = Suc (unat (vl_nentries d))"
    "take (unat (vl_nentries d')) (vl_segment_ids d') = take (unat (vl_nentries d)) (vl_segment_ids d) @ [x]"
proof -
  let ?i = "unat (vl_nentries d)"
  let ?d = "d\<lparr>vl_segment_ids := (vl_segment_ids d)[?i := x], vl_nentries := vl_nentries d + 1\<rparr>"
  have i: "?i < length (vl_segment_ids d)" using assms(1,2) by (simp add: vac_ok_def)
  have n: "unat (vl_nentries d + 1) = Suc ?i" using iffD1 [OF unat_add_lem, of "vl_nentries d" 1] assms(2) by (simp add: ids_per_page)
  have "put_segment_id d x = Some ?d" using assms i by (simp add: put_segment_id_def vac_ok_def)
  moreover have "vac_ok ?d" using assms n by (auto simp: vac_ok_def dest: subsetD [OF set_update_subset_insert])
  moreover have "take (Suc ?i) ((vl_segment_ids d)[?i := x]) = take ?i (vl_segment_ids d) @ [x]"
    using i by (simp add: take_Suc_conv_app_nth)
  ultimately show thesis using that [of ?d] n by simp
qed

lemma vac_chain_bound: "vac_chain s bs \<Longrightarrow> b \<in> set bs \<Longrightarrow> b < length s \<and> b \<noteq> InvalidBlockNumber \<and> vac_page (s ! b)"
  using lseg_bound by (fastforce simp: vac_chain_def)

lemma vac_chain_body:
  assumes "vac_chain s bs" "vac_ok d"
  shows "vac_chain (s[b := (s ! b)\<lparr>pg_body := VacuumPage d\<rparr>]) bs"
proof -
  let ?s = "s[b := (s ! b)\<lparr>pg_body := VacuumPage d\<rparr>]"
  have "vac_page (?s ! x)" if "x \<in> set bs" for x
    using vac_chain_bound [OF assms(1) that] assms(2) by (cases "x = b") (auto simp: vac_page_def)
  then show ?thesis using assms(1) by (simp add: vac_chain_def)
qed

lemma vac_chain_cong:
  assumes "vac_chain s bs" "length s \<le> length s'" "\<And>b. b \<in> set bs \<Longrightarrow> s' ! b = s ! b"
  shows "vac_chain s' bs"
proof -
  have p: "pages_from s (hd bs) bs" using assms(1) by (simp add: vac_chain_def)
  have "pages_from s' (hd bs) bs"
  proof (rule lseg_cong [OF p])
    fix x assume x: "x \<in> set bs"
    then show "x < length s' \<and> pg_next (s' ! x) = pg_next (s ! x)" using lseg_bound [OF p x] assms(2,3) by auto
  qed
  then show ?thesis using assms by (auto simp: vac_chain_def)
qed

lemma vac_chain_append:
  assumes "vac_chain s (pre @ [b])" "x \<notin> set (pre @ [b])" "x \<noteq> InvalidBlockNumber" "x < length s"
  shows "vac_chain (s[b := (s ! b)\<lparr>pg_next := x\<rparr>, x := blank_page]) (pre @ [b, x])"
proof -
  let ?s = "s[b := (s ! b)\<lparr>pg_next := x\<rparr>]"
  have b: "b < length s" "x \<noteq> b" using vac_chain_bound [OF assms(1)] assms(2) by auto
  have "lseg ?s (hd (pre @ [b])) (pre @ [b]) x" by (rule lseg_relink) (use assms(1) in \<open>auto simp: vac_chain_def\<close>)
  then have "lseg (?s[x := blank_page]) (hd (pre @ [b])) (pre @ [b]) x"
  proof (rule lseg_cong)
    fix y assume "y \<in> set (pre @ [b])"
    then have "y \<noteq> x" "y < length s" using assms(2) vac_chain_bound [OF assms(1)] by auto
    then show "y < length (?s[x := blank_page]) \<and> pg_next (?s[x := blank_page] ! y) = pg_next (?s ! y)" by simp
  qed
  then have "pages_from (?s[x := blank_page]) (hd (pre @ [b])) ((pre @ [b]) @ [x])" using assms(3,4) by (subst lseg_snoc) simp
  moreover have "vac_page (?s[x := blank_page] ! y)" if "y \<in> set (pre @ [b, x])" for y
  proof (cases "y = x")
    case False
    then have "vac_page (s ! y)" using that vac_chain_bound [OF assms(1), of y] by auto
    then show ?thesis using False b by (cases "y = b") (auto simp: vac_page_def)
  qed (use assms(4) in \<open>simp add: vac_page_def\<close>)
  ultimately show ?thesis using assms(1,2) by (auto simp: vac_chain_def hd_append)
qed

lemma clear_vacuum_page_ok:
  assumes "vac_chain s bs" "b \<in> set bs"
  obtains d where "clear_vacuum_page s b = Some (s[b := (s ! b)\<lparr>pg_body := VacuumPage d\<rparr>])" "vac_ok d" "vl_nentries d = 0"
proof -
  obtain d where d: "as_vacuum_list (pg_body (s ! b)) = Some d" "vac_ok d" "b < length s"
    using vac_chain_bound [OF assms] by (auto simp: vac_page_def)
  show thesis by (rule that [of "d\<lparr>vl_nentries := 0\<rparr>"]) (use d in \<open>simp_all add: clear_vacuum_page_def vac_ok_def\<close>)
qed

context page_pool
begin

text \<open>The next page, whether it was linked already or comes from the pool.\<close>

lemma next_vacuum_page_ok:
  assumes c: "vac_chain s (pre @ b # post)" and ok: "ok U (Suc n) s" and own: "set (pre @ b # post) \<subseteq> U"
  obtains s1 y where "next_vacuum_page alloc s b = Some (s1, y)" "vac_chain s1 (pre @ b # y # tl post)" "ok (insert y U) n s1"
    "\<forall>x\<in>U. pg_body (s1 ! x) = pg_body (s ! x)" "\<forall>x\<in>U - set (pre @ b # post). s1 ! x = s ! x" "length s \<le> length s1"
    "post = [] \<longrightarrow> y \<notin> U" "post \<noteq> [] \<longrightarrow> y = hd post"
proof (cases post)
  case Nil
  obtain s1 x where a: "alloc s = Some (s1, x)" "gives U s s1 x" "ok (insert x U) n s1" using alloc_law [OF ok] by blast
  note g = a(2) [unfolded gives_def]
  have last: "b < length s" "pg_next (s ! b) = InvalidBlockNumber" using c Nil by (auto simp: vac_chain_def lseg_snoc)
  have x: "x \<notin> set (pre @ [b])" "x \<noteq> InvalidBlockNumber" "x < length s1" "b \<in> U" "x \<noteq> b" using g own Nil by auto
  let ?s = "s1[b := (s1 ! b)\<lparr>pg_next := x\<rparr>, x := blank_page]"
  have c1: "vac_chain s1 (pre @ [b])" by (rule vac_chain_cong [of s]) (use c g own Nil in auto)
  have run: "next_vacuum_page alloc s b = Some (?s, x)" using a(1) g last x by (simp add: next_vacuum_page_def)
  have ch: "vac_chain ?s (pre @ b # x # tl post)" using vac_chain_append [OF c1 x(1-3)] Nil by simp
  have ok': "ok (insert x U) n ?s" by (intro ok_write a(3)) (use x(4) in auto)
  have nx: "y \<noteq> x" "s1 ! y = s ! y" if "y \<in> U" for y using g that by auto
  have body: "\<forall>y\<in>U. pg_body (?s ! y) = pg_body (s ! y)"
  proof
    fix y assume "y \<in> U"
    then show "pg_body (?s ! y) = pg_body (s ! y)" using nx [of y] last g by (cases "y = b") auto
  qed
  have rest: "\<forall>y\<in>U - set (pre @ b # post). ?s ! y = s ! y"
  proof
    fix y assume "y \<in> U - set (pre @ b # post)"
    then show "?s ! y = s ! y" using nx [of y] by simp
  qed
  show thesis by (rule that [OF run ch ok' body rest]) (use g Nil in auto)
next
  case (Cons y post')
  have l: "pg_next (s ! b) = y" "y \<noteq> InvalidBlockNumber" "b < length s" using c Cons by (auto simp: vac_chain_def lseg_append)
  have "insert y U = U" using own Cons by auto
  moreover have "ok U n s" by (rule ok_mono [OF ok]) simp
  ultimately show thesis using l c Cons by (intro that [of s y]) (auto simp: next_vacuum_page_def)
qed

end
text \<open>
  The ids went to the page \<open>b\<close> and the pages \<open>mid\<close> behind it, of which all but the last are full; the pages
  that were behind these are still in the list, with what they held before.
\<close>

definition ids_written ::
  "(block_number set \<Rightarrow> nat \<Rightarrow> store \<Rightarrow> bool) \<Rightarrow> block_number set \<Rightarrow> nat \<Rightarrow> store \<Rightarrow> block_number list \<Rightarrow> block_number \<Rightarrow> block_number list \<Rightarrow>
     u8 list list \<Rightarrow> block_number list \<Rightarrow> store \<Rightarrow> bool" where
  "ids_written ok U n s pre b post ids mid s' \<longleftrightarrow>
     vac_chain s' (pre @ b # mid @ drop (length mid) post) \<and>
     concat (map (\<lambda>x. page_ids (s' ! x)) (b # mid)) = page_ids (s ! b) @ ids \<and> (\<forall>x\<in>set mid. page_ids (s' ! x) \<noteq> []) \<and>
     (\<forall>x\<in>set (butlast (b # mid)). length (page_ids (s' ! x)) = VACUUM_IDS_PER_PAGE) \<and>
     (\<forall>x\<in>set pre \<union> set (drop (length mid) post). pg_body (s' ! x) = pg_body (s ! x)) \<and>
     ok (U \<union> set mid) n s' \<and> (\<forall>x\<in>U - set (pre @ b # post). s' ! x = s ! x) \<and> length s \<le> length s'"

lemma ids_written_same:
  assumes "ids_written ok U n (s[b := p]) pre b post ids mid s'" "page_ids p = page_ids (s ! b) @ [x]" "b < length s" "b \<notin> set pre" "b \<notin> set post"
  shows "ids_written ok U n s pre b post (x # ids) mid s'"
proof -
  note v = assms(1) [unfolded ids_written_def]
  have same: "s[b := p] ! y = s ! y" if "y \<noteq> b" for y using that by simp
  have "pg_body (s' ! y) = pg_body (s ! y)" if "y \<in> set pre \<union> set (drop (length mid) post)" for y
  proof -
    have "y \<noteq> b" using that assms(4,5) by (auto dest: in_set_dropD)
    then show ?thesis using v that same by metis
  qed
  moreover have "s' ! y = s ! y" if "y \<in> U - set (pre @ b # post)" for y
  proof -
    have "y \<noteq> b" using that by auto
    then show ?thesis using v that same by metis
  qed
  ultimately show ?thesis using v assms(2,3) unfolding ids_written_def by simp
qed

lemma page_ids_body: "pg_body p = pg_body q \<Longrightarrow> page_ids p = page_ids q"
  by (simp add: page_ids_def)

lemma ids_written_next:
  assumes w: "ids_written ok (insert y U) n s2 (pre @ [b]) y (tl post) ids mid s'" and y: "page_ids (s2 ! y) = [x]" and full: "length (page_ids (s ! b)) = VACUUM_IDS_PER_PAGE"
    and body: "\<forall>z\<in>U - {y}. pg_body (s2 ! z) = pg_body (s ! z)" and same: "\<forall>z\<in>U - set (pre @ b # post) - {y}. s2 ! z = s ! z" and len: "length s \<le> length s2"
    and hd: "post = [] \<longrightarrow> y \<notin> U" "post \<noteq> [] \<longrightarrow> y = hd post" and own: "set (pre @ b # post) \<subseteq> U" "distinct (pre @ b # post)"
  shows "ids_written ok U n s pre b post (x # ids) (y # mid) s'"
proof -
  note v = w [unfolded ids_written_def]
  have yn: "y \<notin> set (pre @ [b])" "y \<notin> set (tl post)" using hd own by (cases post; auto)+
  have dr: "drop (length (y # mid)) post = drop (length mid) (tl post)" by (simp add: drop_Suc)
  have sub: "set (drop (length mid) (tl post)) \<subseteq> set (tl post)" "set (tl post) \<subseteq> U" using own(1) by (cases post; auto dest: in_set_dropD)+
  have b2: "pg_body (s' ! z) = pg_body (s ! z)" if "z \<in> set (pre @ [b]) \<union> set (drop (length mid) (tl post))" for z
  proof -
    have "z \<noteq> y" "z \<in> U" using that yn sub own(1) by auto
    then show ?thesis using that v body by auto
  qed
  have pb: "page_ids (s' ! b) = page_ids (s ! b)" by (rule page_ids_body [OF b2]) simp
  have fulls: "\<forall>z\<in>set (butlast (b # y # mid)). length (page_ids (s' ! z)) = VACUUM_IDS_PER_PAGE" using v pb full by auto
  have "concat (map (\<lambda>x. page_ids (s' ! x)) (y # mid)) = [x] @ ids" using v y by simp
  then have cc: "concat (map (\<lambda>x. page_ids (s' ! x)) (b # y # mid)) = page_ids (s ! b) @ x # ids" using pb by simp
  have "page_ids (s' ! y) \<noteq> []"
  proof (cases "mid = []")
    case False
    then have "length (page_ids (s' ! y)) = VACUUM_IDS_PER_PAGE" using v by simp
    then show ?thesis by (auto simp: ids_per_page)
  qed (use v y in simp)
  then have ne: "\<forall>z\<in>set (y # mid). page_ids (s' ! z) \<noteq> []" using v by simp
  have un: "insert y U \<union> set mid = U \<union> set (y # mid)" by auto
  have "s' ! z = s ! z" if z: "z \<in> U - set (pre @ b # post)" for z
  proof -
    have "z \<noteq> y" using z hd by (cases post) auto
    moreover have "z \<in> insert y U - set ((pre @ [b]) @ y # tl post)" using z \<open>z \<noteq> y\<close> by (cases post) auto
    ultimately show ?thesis using v same z by (metis DiffI empty_iff insert_iff)
  qed
  then show ?thesis unfolding ids_written_def dr using v cc fulls b2 ne len un by simp
qed
context page_pool
begin

lemma write_ids_ok:
  shows "vac_chain s (pre @ b # post) \<Longrightarrow> ok U (length ids + n) s \<Longrightarrow> set (pre @ b # post) \<subseteq> U \<Longrightarrow> \<forall>x\<in>set ids. length x = 16 \<Longrightarrow>
    \<exists>s' mid. write_ids alloc s b ids = Some s' \<and> ids_written ok U n s pre b post ids mid s'"
proof (induction ids arbitrary: s pre b post U)
  case Nil
  then show ?case by (intro exI [of _ s] exI [of _ "[]"]) (simp add: ids_written_def)
next
  case (Cons x ids)
  have x: "length x = 16" "\<forall>x\<in>set ids. length x = 16" using Cons.prems(4) by auto
  have b: "b < length s" "b \<notin> set pre" "b \<notin> set post" "b \<in> U" using vac_chain_bound [OF Cons.prems(1)] Cons.prems(1,3) by (auto simp: vac_chain_def)
  obtain d where d: "as_vacuum_list (pg_body (s ! b)) = Some d" "vac_ok d" using vac_chain_bound [OF Cons.prems(1), of b] by (auto simp: vac_page_def)
  have len: "length (vl_segment_ids d) = VACUUM_IDS_PER_PAGE" "unat (vl_nentries d) \<le> VACUUM_IDS_PER_PAGE" using d(2) by (auto simp: vac_ok_def)
  have pid: "page_ids (s ! b) = take (unat (vl_nentries d)) (vl_segment_ids d)" using d(1) by (simp add: page_ids_def)
  show ?case
  proof (cases "unat (vl_nentries d) < VACUUM_IDS_PER_PAGE")
    case True
    obtain d' where p: "put_segment_id d x = Some d'" "vac_ok d'" "unat (vl_nentries d') = Suc (unat (vl_nentries d))"
      "take (unat (vl_nentries d')) (vl_segment_ids d') = take (unat (vl_nentries d)) (vl_segment_ids d) @ [x]"
      by (rule put_segment_id_ok [OF d(2) True x(1)])
    let ?p = "(s ! b)\<lparr>pg_body := VacuumPage d'\<rparr>"
    have ok: "ok U (length ids + n) (s[b := ?p])" by (rule ok_write [OF ok_mono [OF Cons.prems(2)] b(4)]) simp
    obtain s' mid where r: "write_ids alloc (s[b := ?p]) b ids = Some s'" "ids_written ok U n (s[b := ?p]) pre b post ids mid s'"
      using Cons.IH [OF vac_chain_body [OF Cons.prems(1) p(2)] ok Cons.prems(3) x(2)] by blast
    have "ids_written ok U n s pre b post (x # ids) mid s'"
      by (rule ids_written_same [OF r(2) _ b(1-3)]) (use p(4) pid in \<open>simp add: page_ids_def\<close>)
    then show ?thesis using r(1) b(1) d(1) p(1) len(1) True by (intro exI [of _ s'] exI [of _ mid]) simp
  next
    case False
    have ok0: "ok U (Suc (length ids + n)) s" using Cons.prems(2) by simp
    obtain s1 y where nx: "next_vacuum_page alloc s b = Some (s1, y)" "vac_chain s1 (pre @ b # y # tl post)" "ok (insert y U) (length ids + n) s1"
      "\<forall>x\<in>U. pg_body (s1 ! x) = pg_body (s ! x)" "\<forall>x\<in>U - set (pre @ b # post). s1 ! x = s ! x" "length s \<le> length s1"
      "post = [] \<longrightarrow> y \<notin> U" "post \<noteq> [] \<longrightarrow> y = hd post"
      by (rule next_vacuum_page_ok [OF Cons.prems(1) ok0 Cons.prems(3)])
    obtain d0 where c: "clear_vacuum_page s1 y = Some (s1[y := (s1 ! y)\<lparr>pg_body := VacuumPage d0\<rparr>])" "vac_ok d0" "vl_nentries d0 = 0"
      by (rule clear_vacuum_page_ok [OF nx(2), of y]) auto
    obtain d' where p: "put_segment_id d0 x = Some d'" "vac_ok d'" "unat (vl_nentries d') = Suc (unat (vl_nentries d0))"
      "take (unat (vl_nentries d')) (vl_segment_ids d') = take (unat (vl_nentries d0)) (vl_segment_ids d0) @ [x]"
      by (rule put_segment_id_ok [OF c(2) _ x(1)]) (simp add: c(3) ids_per_page)
    let ?s = "s1[y := (s1 ! y)\<lparr>pg_body := VacuumPage d'\<rparr>]"
    have yl: "y < length s1" using vac_chain_bound [OF nx(2), of y] by simp
    have c2: "vac_chain ?s ((pre @ [b]) @ y # tl post)" using vac_chain_body [OF nx(2) p(2), of y] by simp
    have ok2: "ok (insert y U) (length ids + n) ?s" by (rule ok_write [OF nx(3)]) simp
    have own2: "set ((pre @ [b]) @ y # tl post) \<subseteq> insert y U" using Cons.prems(3) by (cases post) auto
    obtain s' mid where r: "write_ids alloc ?s y ids = Some s'" "ids_written ok (insert y U) n ?s (pre @ [b]) y (tl post) ids mid s'"
      using Cons.IH [OF c2 ok2 own2 x(2)] by blast
    have "ids_written ok U n s pre b post (x # ids) (y # mid) s'"
    proof (rule ids_written_next [OF r(2)])
      show "page_ids (?s ! y) = [x]" using p(4) c(3) yl by (simp add: page_ids_def)
      show "length (page_ids (s ! b)) = VACUUM_IDS_PER_PAGE" using pid len False by simp
      show "distinct (pre @ b # post)" using Cons.prems(1) by (simp add: vac_chain_def)
    qed (use nx Cons.prems(3) in \<open>auto simp: nth_list_update\<close>)
    moreover have "write_ids alloc s b (x # ids) = Some s'" using r(1) b(1) d(1) len(1) False nx(1) c(1) p(1) yl by simp
    ultimately show ?thesis by blast
  qed
qed

lemma write_list_ok:
  assumes "vac_chain s bs" "ok U (length ids + n) s" "set bs \<subseteq> U" "\<forall>x\<in>set ids. length x = 16" "mset (sort_ids ids) = mset ids" "start_block_number vl = hd bs"
  obtains s' b mid where "write_list sort_ids alloc s vl ids = Some s'" "bs = b # tl bs" "vac_chain s' (b # mid @ drop (length mid) (tl bs))"
    "concat (map (\<lambda>x. page_ids (s' ! x)) (b # mid)) = sort_ids ids" "\<forall>x\<in>set mid. page_ids (s' ! x) \<noteq> []"
    "\<forall>x\<in>set (butlast (b # mid)). length (page_ids (s' ! x)) = VACUUM_IDS_PER_PAGE"
    "\<forall>x\<in>set (drop (length mid) (tl bs)). pg_body (s' ! x) = pg_body (s ! x)"
    "ok (U \<union> set mid) n s'" "\<forall>x\<in>U - set bs. s' ! x = s ! x"
proof -
  obtain b post where bs: "bs = b # post" using assms(1) by (cases bs) (auto simp: vac_chain_def)
  obtain d where c: "clear_vacuum_page s b = Some (s[b := (s ! b)\<lparr>pg_body := VacuumPage d\<rparr>])" "vac_ok d" "vl_nentries d = 0"
    by (rule clear_vacuum_page_ok [OF assms(1)]) (auto simp: bs)
  let ?s = "s[b := (s ! b)\<lparr>pg_body := VacuumPage d\<rparr>]"
  have bl: "b < length s" "b \<notin> set post" using vac_chain_bound [OF assms(1), of b] assms(1) by (auto simp: bs vac_chain_def)
  have ls: "length (sort_ids ids) = length ids" "set (sort_ids ids) = set ids"
    using assms(5) by (metis size_mset, metis mset_eq_setD)
  have c1: "vac_chain ?s ([] @ b # post)" using vac_chain_body [OF assms(1) c(2)] by (simp add: bs)
  have ok1: "ok U (length (sort_ids ids) + n) ?s" using ok_write [OF assms(2)] assms(3) ls(1) by (simp add: bs)
  have pr: "set ([] @ b # post) \<subseteq> U" "\<forall>x\<in>set (sort_ids ids). length x = 16" using assms(3,4) ls(2) by (auto simp: bs)
  obtain s' mid where r: "write_ids alloc ?s b (sort_ids ids) = Some s'" "ids_written ok U n ?s [] b post (sort_ids ids) mid s'"
    using write_ids_ok [OF c1 ok1 pr] by blast
  have e: "page_ids (?s ! b) = []" using c(3) bl by (simp add: page_ids_def)
  have nb: "?s ! x = s ! x" if "x \<in> set (drop (length mid) post)" for x
  proof -
    have "x \<noteq> b" using that bl(2) by (auto dest: in_set_dropD)
    then show ?thesis by simp
  qed
  have run: "write_list sort_ids alloc s vl ids = Some s'" using r(1) c(1) assms(6) by (simp add: write_list_def bs)
  note v = r(2) [unfolded ids_written_def]
  show thesis by (rule that [OF run, of b mid]) (use v e nb in \<open>auto simp: bs\<close>)
qed

end

subsection \<open>What is read back\<close>

lemma vac_ids_append: "\<forall>x\<in>set xs. page_ids (s ! x) \<noteq> [] \<Longrightarrow> vac_ids s (xs @ ys) = concat (map (\<lambda>x. page_ids (s ! x)) xs) @ vac_ids s ys"
  by (simp add: vac_ids_def)

lemma vac_ids_body: "\<forall>x\<in>set bs. pg_body (s' ! x) = pg_body (s ! x) \<Longrightarrow> vac_ids s' bs = vac_ids s bs"
  by (induction bs) (simp_all add: vac_ids_def page_ids_def)

lemma length_concat_full:
  "\<forall>x\<in>set (butlast (b # mid)). length (f x) = n \<Longrightarrow> length (concat (map f (b # mid))) = n * length mid + length (f (last (b # mid)))"
proof (induction mid arbitrary: b)
  case (Cons y mid)
  then have "length (concat (map f (y # mid))) = n * length mid + length (f (last (y # mid)))" by simp
  then show ?case using Cons.prems by simp
qed simp

lemma pages_written:
  assumes "concat (map (\<lambda>x. page_ids (s ! x)) (b # mid)) = ids" "\<forall>x\<in>set (butlast (b # mid)). length (page_ids (s ! x)) = VACUUM_IDS_PER_PAGE"
    "\<forall>x\<in>set (b # mid). page_ids (s ! x) \<noteq> []" "vac_page (s ! last (b # mid))"
  shows "(length ids + VACUUM_IDS_PER_PAGE - 1) div VACUUM_IDS_PER_PAGE = Suc (length mid)"
proof -
  define r where "r = length (page_ids (s ! last (b # mid)))"
  have "length ids = VACUUM_IDS_PER_PAGE * length mid + r" unfolding assms(1) [symmetric] r_def by (rule length_concat_full [OF assms(2)])
  moreover have "0 < r" unfolding r_def using assms(3) last_in_set [of "b # mid"] by blast
  moreover have "r \<le> VACUUM_IDS_PER_PAGE" unfolding r_def using assms(4) by (auto simp: vac_page_def vac_ok_def page_ids_def)
  ultimately show ?thesis unfolding ids_per_page by simp
qed

lemma write_then_read:
  assumes "vac_chain s bs" "fsm_ok env fsm U [] (length ids + n) s" "set bs \<subseteq> U" "\<forall>x\<in>set ids. length x = 16" "mset (sort_ids ids) = mset ids"
    "start_block_number vl = hd bs" "ids \<noteq> []"
  shows "\<exists>s'. write_list sort_ids (new_buffer env fsm) s vl ids = Some s' \<and>
     read_list pinned s' vl =
       Some (if pinned (vl_sentinel vl) then set ids \<union> set (vac_ids s (drop ((length ids + VACUUM_IDS_PER_PAGE - 1) div VACUUM_IDS_PER_PAGE) bs)) else {}) \<and>
     (\<forall>x\<in>U - set bs. s' ! x = s ! x)"
proof -
  obtain s' b mid where w: "write_list sort_ids (new_buffer env fsm) s vl ids = Some s'" "bs = b # tl bs" "vac_chain s' (b # mid @ drop (length mid) (tl bs))"
    "concat (map (\<lambda>x. page_ids (s' ! x)) (b # mid)) = sort_ids ids" "\<forall>x\<in>set mid. page_ids (s' ! x) \<noteq> []"
    "\<forall>x\<in>set (butlast (b # mid)). length (page_ids (s' ! x)) = VACUUM_IDS_PER_PAGE"
    "\<forall>x\<in>set (drop (length mid) (tl bs)). pg_body (s' ! x) = pg_body (s ! x)"
    "fsm_ok env fsm (U \<union> set mid) [] n s'" "\<forall>x\<in>U - set bs. s' ! x = s ! x"
    by (rule fsmp.write_list_ok [where sort_ids = sort_ids, OF assms(1-6)])
  let ?rest = "drop (length mid) (tl bs)"
  have st: "length (sort_ids ids) = length ids" "set (sort_ids ids) = set ids" using assms(5) by (metis size_mset, metis mset_eq_setD)
  have "sort_ids ids \<noteq> []" using st(1) assms(7) by auto
  then have ne: "\<forall>x\<in>set (b # mid). page_ids (s' ! x) \<noteq> []" using w(4-6) by (cases "mid = []") (auto simp: ids_per_page)
  have tw: "vac_ids s' (b # mid @ ?rest) = sort_ids ids @ vac_ids s' ?rest" using vac_ids_append [OF ne, of ?rest] w(4) by simp
  have same: "vac_ids s' ?rest = vac_ids s ?rest" by (rule vac_ids_body [OF w(7)])
  have "vac_page (s' ! last (b # mid))" using vac_chain_bound [OF w(3), of "last (b # mid)"] last_in_set [of "b # mid"] by auto
  then have cnt: "(length ids + VACUUM_IDS_PER_PAGE - 1) div VACUUM_IDS_PER_PAGE = Suc (length mid)"
    using pages_written [OF w(4,6)] ne st(1) by simp
  have dr: "drop (Suc (length mid)) bs = ?rest" by (subst w(2)) simp
  have "start_block_number vl = b" using assms(6) w(2) by (metis list.sel(1))
  then have "read_list_loop s' (start_block_number vl) = Some (sort_ids ids @ vac_ids s ?rest)" using read_list_loop_ok [OF w(3)] tw same by simp
  then show ?thesis using w(1,9) st(2) unfolding cnt dr by (auto simp: read_list_def is_ambulkdelete_running_def)
qed

section \<open>Properties\<close>

text \<open>
  C13. What a reader of the vacuum list sees after a write of at least one id, while \<open>ambulkdelete\<close> is running: the ids written and
  also the ids that are left from earlier on the pages behind, up to the first page without entries; these are
  not cleared.  Without a vacuum the list reads as empty.  Only pages of the list and new ones are written.
\<close>

theorem vacuum_list_read_back:
  assumes "vac_chain s bs" "fsm_ok env fsm U [] (length ids + n) s" "set bs \<subseteq> U" "\<forall>x\<in>set ids. length x = 16" "mset (sort_ids ids) = mset ids"
    "start_block_number vl = hd bs" "ids \<noteq> []"
  shows "\<exists>s'. write_list sort_ids (new_buffer env fsm) s vl ids = Some s' \<and>
     read_list pinned s' vl =
       Some (if pinned (vl_sentinel vl) then set ids \<union> set (vac_ids s (drop ((length ids + VACUUM_IDS_PER_PAGE - 1) div VACUUM_IDS_PER_PAGE) bs)) else {}) \<and>
     (\<forall>x\<in>U - set bs. s' ! x = s ! x)"
  by (rule write_then_read [where sort_ids = sort_ids, OF assms])

text \<open>A list of two pages, the first blank and the second with an id of an earlier vacuum.\<close>

definition stale_pages :: store where
  "stale_pages = ex_pool
     [4 := blank_page\<lparr>pg_next := 5\<rparr>,
      5 := blank_page\<lparr>pg_body := VacuumPage (zero_vacuum_list
        \<lparr>vl_segment_ids := (vl_segment_ids zero_vacuum_list)[0 := replicate 16 9], vl_nentries := 1\<rparr>)\<rparr>]"

lemma stale_pages_ok:
  "vac_chain stale_pages [4, 5]" "vac_ids stale_pages [5] = [replicate 16 9]" "fsm_ok ex_env 1 {4, 5} [] 10 stale_pages"
proof -
  have len: "length ex_pool = 9" by (simp add: ex_pool_def)
  define d where "d = zero_vacuum_list\<lparr>vl_segment_ids := (vl_segment_ids zero_vacuum_list)[0 := replicate 16 9], vl_nentries := 1\<rparr>"
  have d: "vac_ok d" "take 1 (vl_segment_ids d) = [replicate 16 9]"
    by (auto simp: d_def vac_ok_def zero_vacuum_list_def ids_per_page take_Suc_conv_app_nth dest: subsetD [OF set_update_subset_insert])
  have st: "stale_pages = ex_pool[4 := blank_page\<lparr>pg_next := 5\<rparr>, 5 := blank_page\<lparr>pg_body := VacuumPage d\<rparr>]" by (simp add: stale_pages_def d_def)
  show "vac_chain stale_pages [4, 5]"
    using d(1) by (simp add: vac_chain_def st len vac_page_def InvalidBlockNumber_def blank_page_def)
  show "vac_ids stale_pages [5] = [replicate 16 9]"
    using d(2) by (simp add: vac_ids_def st len page_ids_def d_def)
  have o: "fsm_ok ex_env 1 {4, 5} [] 10 ex_pool" by (rule ex_pool_ok) auto
  show "fsm_ok ex_env 1 {4, 5} [] 10 stale_pages" by (rule fsmb.ok_frame [OF o]) (auto simp: stale_pages_def intro!: frame_step)
qed

text \<open>
  An instance: writing a list does not replace the one before: with one page of ids written over a list that had two,
  a reader also gets the id that the second page still holds.
\<close>

lemma vacuum_list_keeps_stale_ids:
  "\<exists>s'. write_list id (new_buffer ex_env 1) stale_pages (vl_open 4 6) [replicate 16 1] = Some s' \<and>
     read_list (\<lambda>_. True) s' (vl_open 4 6) = Some {replicate 16 1, replicate 16 9}"
proof -
  have o: "fsm_ok ex_env 1 {4, 5} [] (length [replicate 16 1 :: u8 list] + 9) stale_pages" using stale_pages_ok(3) by simp
  have n: "(length [replicate 16 1 :: u8 list] + VACUUM_IDS_PER_PAGE - 1) div VACUUM_IDS_PER_PAGE = 1" by (simp add: ids_per_page)
  from write_then_read [where sort_ids = id and ids = "[replicate 16 1]" and vl = "vl_open 4 6" and pinned = "\<lambda>_. True", OF stale_pages_ok(1) o]
  show ?thesis unfolding n by (auto simp: vl_open_def stale_pages_ok(2) insert_commute)
qed

theorem vacuum_list_read_back_witness:
  "\<exists>s'. write_list rev (new_buffer ex_env 1) stale_pages (vl_open 4 6) [replicate 16 1, replicate 16 2] = Some s' \<and>
     read_list (\<lambda>b. b = 6) s' (vl_open 4 6) = Some ({replicate 16 1, replicate 16 2} \<union> {replicate 16 9})"
proof -
  have o: "fsm_ok ex_env 1 {4, 5} [] (length [replicate 16 1, replicate 16 2 :: u8 list] + 8) stale_pages" using stale_pages_ok(3) by simp
  have n: "(length [replicate 16 1, replicate 16 2 :: u8 list] + VACUUM_IDS_PER_PAGE - 1) div VACUUM_IDS_PER_PAGE = 1" by (simp add: ids_per_page)
  from vacuum_list_read_back [where sort_ids = rev and ids = "[replicate 16 1, replicate 16 2]" and vl = "vl_open 4 6" and pinned = "\<lambda>b. b = 6", OF stale_pages_ok(1) o]
  show ?thesis unfolding n by (simp add: vl_open_def stale_pages_ok(2))
qed

end
