(* ===== verification/Merge_List.thy ===== *)
theory Merge_List
  imports Vacuum_List
begin

text \<open>
  The list of merges in progress, \<open>MergeLock\<close>, \<open>MergeEntry\<close> and \<open>MergeList\<close> of \<^verbatim>\<open>storage/merge.rs\<close>: a list of
  items whose entries name a list of bytes that holds the ids of the segments being merged.  A segment id
  is its 16 bytes.  The encoding of an entry (the crate \<open>bincode\<close>) is the parameters \<open>enc\<close> and \<open>dec\<close>.
\<close>

section \<open>The model\<close>

record merge_entry =
  me_pid :: u32
  me_xmin :: u32
  me_unused :: u32
  me_segment_ids_start :: u32

definition entry_list :: "merge_entry \<Rightarrow> linked_bytes" where
  "entry_list e = lb_open (unat (me_segment_ids_start e))"

subsection \<open>The lock\<close>

definition merge_lock_data :: "store \<Rightarrow> block_number \<Rightarrow> block_number option" where
  "merge_lock_data s b = do {
     c \<leftarrow> body_of s b;
     (case c of Blank \<Rightarrow> Some 0 | MergeLockPage l \<Rightarrow> Some l | _ \<Rightarrow> None)
   }"

text \<open>The result is the header of the merge list.\<close>

definition merge_lock_acquire ::
  "(store \<Rightarrow> (store \<times> block_number) option) \<Rightarrow> store \<Rightarrow> block_number \<Rightarrow> (store \<times> block_number) option" where
  "merge_lock_acquire alloc s b = do {
     l \<leftarrow> merge_lock_data s b;
     (if \<not> block_number_is_valid l
      then do {
        (s, l) \<leftarrow> li_create_with_fsm alloc s;
        s \<leftarrow> set_body s b (MergeLockPage l);
        Some (s, l)
      }
      else Some (s, l))
   }"

subsection \<open>Entries\<close>

definition merge_entry_recyclable :: "(u32 \<Rightarrow> bool) \<Rightarrow> merge_entry \<Rightarrow> bool" where
  "merge_entry_recyclable in_progress e \<longleftrightarrow> me_xmin e \<noteq> 0 \<and> \<not> in_progress (me_xmin e)"

text \<open>\<open>chunks(16)\<close>; a last chunk that is shorter is a malformed entry.\<close>

function chunks16 :: "u8 list \<Rightarrow> u8 list list option" where
  "chunks16 bytes =
     (if bytes = [] then Some []
      else if length bytes < 16 then None
      else do { rest \<leftarrow> chunks16 (drop 16 bytes); Some (take 16 bytes # rest) })"
  by pat_completeness auto
termination by (relation "measure length") auto

declare chunks16.simps [simp del]

definition segment_ids :: "store \<Rightarrow> merge_entry \<Rightarrow> u8 list list option" where
  "segment_ids s e = do { bytes \<leftarrow> read_all s (entry_list e); chunks16 bytes }"

subsection \<open>The list\<close>

definition ml_is_empty :: "(u8 list \<Rightarrow> merge_entry) \<Rightarrow> store \<Rightarrow> block_number \<Rightarrow> bool option" where
  "ml_is_empty dec s hdr = li_is_empty dec s hdr"

definition ml_list :: "(u8 list \<Rightarrow> merge_entry) \<Rightarrow> store \<Rightarrow> block_number \<Rightarrow> merge_entry list option" where
  "ml_list dec s hdr = li_list dec s hdr"

definition add_segment_ids ::
  "(merge_entry \<Rightarrow> u8 list) \<Rightarrow> (nat list \<Rightarrow> bool) \<Rightarrow> fsm_env \<Rightarrow> block_number \<Rightarrow> packers \<Rightarrow> u32 \<Rightarrow> store \<Rightarrow> block_number \<Rightarrow>
     u8 list list \<Rightarrow> xid \<Rightarrow> (store \<times> merge_entry) option" where
  "add_segment_ids enc fits env fsm ps pid s hdr ids xid = do {
     (s, lb) \<leftarrow> lb_create_with_fsm (new_buffers env fsm) next_buffer s;
     w \<leftarrow> lb_writer s lb;
     (s, w) \<leftarrow> bw_write (new_buffers env fsm) next_buffer ps s w (concat ids);
     let e = \<lparr>me_pid = pid, me_xmin = of_nat xid, me_unused = 0, me_segment_ids_start = of_nat (lb_header lb)\<rparr>;
     s \<leftarrow> add_items enc fits (new_buffer env fsm) s hdr [e] None;
     Some (s, e)
   }"

definition list_segment_ids :: "(u8 list \<Rightarrow> merge_entry) \<Rightarrow> store \<Rightarrow> block_number \<Rightarrow> u8 list list option" where
  "list_segment_ids dec s hdr = do {
     es \<leftarrow> ml_list dec s hdr;
     idss \<leftarrow> those (map (segment_ids s) es);
     Some (concat idss)
   }"

definition remove_entry ::
  "(u8 list \<Rightarrow> merge_entry) \<Rightarrow> fsm_env \<Rightarrow> block_number \<Rightarrow> packers \<Rightarrow> store \<Rightarrow> block_number \<Rightarrow> merge_entry \<Rightarrow>
     (store \<times> (list_error + merge_entry)) option" where
  "remove_entry dec env fsm ps s hdr e = do {
     (s, r) \<leftarrow> remove_item dec (\<lambda>x. x = e) s hdr;
     (case r of
        Inl err \<Rightarrow> Some (s, Inl err)
      | Inr removed_entry \<Rightarrow> do {
          s \<leftarrow> lb_return_to_fsm env ps s fsm (entry_list removed_entry);
          Some (s, Inr removed_entry)
        })
   }"

definition ml_garbage_collect ::
  "(u8 list \<Rightarrow> merge_entry) \<Rightarrow> fsm_env \<Rightarrow> block_number \<Rightarrow> packers \<Rightarrow> (u32 \<Rightarrow> bool) \<Rightarrow> store \<Rightarrow> block_number \<Rightarrow> nat \<Rightarrow> store option" where
  "ml_garbage_collect dec env fsm ps in_progress s hdr when_recyclable = do {
     (s, recycled) \<leftarrow> garbage_collect dec (recycle_at env fsm when_recyclable) (\<lambda>e. Some (merge_entry_recyclable in_progress e)) s hdr;
     bss \<leftarrow> those (map (\<lambda>e. lb_freeable_blocks ps s (entry_list e)) recycled);
     fsm_extend env s fsm (concat bss)
   }"

section \<open>Segment ids on pages\<close>

lemma chunks16_concat: "\<forall>x\<in>set ids. length x = 16 \<Longrightarrow> chunks16 (concat ids) = Some ids"
  by (induction ids) (auto simp: chunks16.simps)

text \<open>The list of bytes at \<open>h\<close> holds \<open>bs\<close> and lies in \<open>V\<close>.\<close>

definition stored_at :: "store \<Rightarrow> block_number set \<Rightarrow> block_number \<Rightarrow> u8 list \<Rightarrow> bool" where
  "stored_at s V h bs \<longleftrightarrow> (\<exists>d pgs bss. header_of s h d \<and> ll_start d = hd pgs \<and> 0 \<notin> set pgs \<and> lb_data s pgs bss \<and> concat bss = bs \<and>
     insert h (set pgs) \<subseteq> V)"

lemma stored_at_read: "stored_at s V h bs \<Longrightarrow> read_all s (lb_open h) = Some bs"
  unfolding stored_at_def by (auto intro!: lb_data_read_all)

lemma stored_at_cong:
  assumes "stored_at s V h bs" "\<And>x. x \<in> V \<Longrightarrow> x < length s' \<and> s' ! x = s ! x"
  shows "stored_at s' V h bs"
proof -
  obtain d pgs bss where d: "header_of s h d" "ll_start d = hd pgs" "0 \<notin> set pgs" "lb_data s pgs bss" "concat bss = bs" "insert h (set pgs) \<subseteq> V"
    using assms(1) unfolding stored_at_def by (elim exE conjE) (rule that)
  have "lb_data s' pgs bss" by (rule lb_data_cong [OF d(4)]) (use d(6) assms(2) in auto)
  moreover have "header_of s' h d" using d(1,6) assms(2) by (auto simp: header_of_def)
  ultimately show ?thesis unfolding stored_at_def using d by blast
qed

lemma li_rep_moved:
  assumes "li_rep fits s hdr bs" "\<And>x. x \<in> insert hdr (set bs) \<Longrightarrow> x < length s' \<and> s' ! x = s ! x"
  shows "li_rep fits s' hdr bs"
proof -
  have "pages_from s (hd bs) bs" using assms(1) by (simp add: li_rep_def li_chain_def)
  then have "pages_from s' (hd bs) bs" by (rule lseg_cong) (use assms(2) in auto)
  then show ?thesis using assms by (auto simp: li_rep_def li_chain_def get_linked_list_data_def)
qed

definition holds_ids :: "store \<Rightarrow> block_number set \<Rightarrow> merge_entry \<Rightarrow> u8 list list \<Rightarrow> bool" where
  "holds_ids s V e ids \<longleftrightarrow> stored_at s V (unat (me_segment_ids_start e)) (concat ids) \<and> (\<forall>x\<in>set ids. length x = 16)"

lemma holds_ids_read: "holds_ids s V e ids \<Longrightarrow> segment_ids s e = Some ids"
  using stored_at_read [of s V "unat (me_segment_ids_start e)" "concat ids"] by (simp add: holds_ids_def segment_ids_def entry_list_def chunks16_concat)

lemma list_segment_ids_ok:
  assumes "li_list dec s hdr = Some es" "\<And>e. e \<in> set es \<Longrightarrow> segment_ids s e = Some (f e)"
  shows "list_segment_ids dec s hdr = Some (concat (map f es))"
proof -
  have "those (map (segment_ids s) es) = Some (map f es)" using assms(2) by (induction es) auto
  then show ?thesis by (simp add: list_segment_ids_def ml_list_def assms(1))
qed
text \<open>A list that was written but not finished names no block list.\<close>

definition unfinished :: "store \<Rightarrow> block_number \<Rightarrow> bool" where
  "unfinished s h \<longleftrightarrow> (\<exists>d. header_of s h d \<and> ll_blocklist d = InvalidBlockNumber)"

lemma unfinished_freeable: "unfinished s h \<Longrightarrow> lb_freeable_blocks ps s (lb_open h) = Some [h]"
  by (auto simp: unfinished_def header_of_def get_linked_list_data_def lb_freeable_blocks_def lb_open_def bl_read_def walk_pages.simps)

lemma unfinished_cong: "unfinished s h \<Longrightarrow> h < length s' \<Longrightarrow> s' ! h = s ! h \<Longrightarrow> unfinished s' h"
  by (auto simp: unfinished_def header_of_def)

lemma writer_stored:
  assumes "writer_state ps s w pgs bs pushed" "bw_list w = lb_open h"
  shows "stored_at s (insert h (set pgs)) h bs" "pgs \<noteq> []" "h \<notin> set pgs" "unfinished s h" "get_start_blockno s h = Some (hd pgs)"
    "pages_from s (hd pgs) pgs"
proof -
  obtain d bss where st: "header_of s (lb_header (bw_list w)) d" "ll_start d = hd pgs" "0 \<notin> set pgs" "lb_data s pgs bss" "concat bss = bs"
    "lb_header (bw_list w) \<notin> set pgs" "ll_blocklist d = InvalidBlockNumber"
    using assms(1) unfolding writer_state_def by (elim exE conjE) (rule that)
  show "stored_at s (insert h (set pgs)) h bs" "pgs \<noteq> []" "h \<notin> set pgs" "unfinished s h"
    unfolding stored_at_def unfinished_def using st by (auto simp: assms(2) lb_data_def)
  show "pages_from s (hd pgs) pgs" using st(4) by (simp add: lb_data_def)
  show "get_start_blockno s h = Some (hd pgs)" using lb_data_start [OF st(4,1-3)] by (simp add: assms(2))
qed

lemma add_segment_ids_run:
  assumes "write_bytes env fsm ps s [concat ids] = Some (s1, w)" "bw_list w = lb_open h"
    "add_items enc fits (new_buffer env fsm) s1 hdr
       [\<lparr>me_pid = pid, me_xmin = of_nat xid, me_unused = 0, me_segment_ids_start = of_nat h\<rparr>] None = Some s'"
  shows "add_segment_ids enc fits env fsm ps pid s hdr ids xid =
     Some (s', \<lparr>me_pid = pid, me_xmin = of_nat xid, me_unused = 0, me_segment_ids_start = of_nat h\<rparr>)"
proof -
  obtain s0 lb w0 where c: "lb_create_with_fsm (new_buffers env fsm) next_buffer s = Some (s0, lb)" "lb_writer s0 lb = Some w0"
    "bw_write (new_buffers env fsm) next_buffer ps s0 w0 (concat ids) = Some (s1, w)"
    using assms(1) by (auto simp: write_bytes_def split: bind_splits)
  have "bw_list w = bw_list w0" using c(3) by (auto simp: bw_write_def split: bind_splits)
  also have "\<dots> = lb" using c(2) by (auto simp: lb_writer_def split: bind_splits)
  finally have "lb = lb_open h" using assms(2) by simp
  then show ?thesis using c assms(3) by (simp add: add_segment_ids_def Let_def)
qed

lemma add_segment_ids_ok:
  assumes pk: "packers_ok ps" and it: "items_ok enc dec fits UNIV" "fits []" and rep: "li_rep fits s hdr bs"
    and ok: "fsm_room env K fsm U [] (2 + length (concat ids) + (1 + n)) s" and own: "insert hdr (set bs) \<subseteq> U" "0 \<in> U"
    and ids: "length (concat ids) < 2 ^ 39" "\<forall>x\<in>set ids. length x = 16"
  obtains s' e h pgs new where "add_segment_ids enc fits env fsm ps pid s hdr ids xid = Some (s', e)" "unat (me_segment_ids_start e) = h" "h \<notin> U"
    "li_rep fits s' hdr (bs @ new)" "mset (li_data dec s' (bs @ new)) = mset (li_data dec s bs) + {#e#}" "holds_ids s' (insert h (set pgs)) e ids"
    "pgs \<noteq> []" "h \<notin> set pgs" "set pgs \<inter> U = {}" "\<forall>x\<in>U - set bs. s' ! x = s ! x" "unfinished s' h" "get_start_blockno s' h = Some (hd pgs)" "h \<notin> set (bs @ new)"
    "fsm_room env K fsm (U \<union> set (h # pgs) \<union> set new) [] n s'" "pages_from s' (hd pgs) pgs" "set pgs \<inter> set (bs @ new) = {}"
proof -
  have ok1: "fsm_room env K fsm U [] (2 + sum_list (map length [concat ids]) + (1 + n)) s" using ok by simp
  have sm: "\<forall>x\<in>set [concat ids]. length x < 2 ^ 39" using ids(1) by simp
  obtain s1 w h pgs where w: "write_bytes env fsm ps s [concat ids] = Some (s1, w)" "bw_list w = lb_open h"
    "writer_state ps s1 w pgs (concat [concat ids]) (concat [concat ids] \<noteq> [])" "h \<notin> U" "set pgs \<inter> U = {}" "\<forall>x\<in>U. s1 ! x = s ! x"
    "fsm_room env K fsm (U \<union> set (h # pgs)) [] (1 + n) s1"
    by (rule write_bytes_ok [OF pk ok1 own(2) sm])
  note st = writer_stored [OF w(3,2)]
  let ?V = "U \<union> set (h # pgs)"
  have Vl: "?V \<subseteq> {..<length s1}" by (rule fsmb.ok_bound [OF w(7)])
  have h32: "unat (of_nat h :: u32) = h"
  proof -
    have "h < length s1" "length s1 \<le> InvalidBlockNumber" using Vl fsm_ok_length [OF w(7)] by auto
    then have "h < 2 ^ 32" by (simp add: InvalidBlockNumber_def)
    then show ?thesis unfolding unsigned_of_nat by (simp add: take_bit_nat_eq_self)
  qed
  define e where "e = \<lparr>me_pid = pid, me_xmin = of_nat xid, me_unused = 0, me_segment_ids_start = of_nat h :: u32\<rparr>"
  have rep1: "li_rep fits s1 hdr bs" by (rule li_rep_moved [OF rep]) (use w(6) own Vl in auto)
  have it1: "items_ok enc dec fits (set [e])" using it(1) by (simp add: items_ok_def)
  have ok2: "fsm_room env K fsm ?V [] (length [e] + n) s1" using w(7) by simp
  have own2: "insert hdr (set bs) \<subseteq> ?V" "0 \<in> ?V" using own by auto
  obtain s' new where a: "add_items enc fits (new_buffer env fsm) s1 hdr [e] None = Some s'" "li_rep fits s' hdr (bs @ new)"
    "mset (li_data dec s' (bs @ new)) = mset (li_data dec s1 bs) + mset [e]" "fsm_room env K fsm (?V \<union> set new) [] n s'" "grown ?V bs s1 s' new"
    by (rule fsmp.add_items_ok [OF it1 it(2) rep1 ok2 own2])
  have dis: "insert h (set pgs) \<inter> set bs = {}" using w(4,5) own(1) by auto
  have g: "s' ! x = s1 ! x" if "x \<in> ?V - set bs" for x using a(5) that by (auto simp: grown_def)
  have len2: "length s1 \<le> length s'" using a(5) by (simp add: grown_def)
  have run: "add_segment_ids enc fits env fsm ps pid s hdr ids xid = Some (s', e)"
    unfolding e_def by (rule add_segment_ids_run [OF w(1,2) a(1) [unfolded e_def]])
  have ld: "li_data dec s1 bs = li_data dec s bs" by (rule li_data_cong) (use w(6) own(1) in auto)
  have hold: "holds_ids s' (insert h (set pgs)) e ids"
    unfolding holds_ids_def using stored_at_cong [OF st(1), of s'] g dis ids(2) h32 Vl len2 by (force simp: e_def)
  have hl: "h < length s1" "h < length s'" "s' ! h = s1 ! h" using g dis Vl len2 by auto
  have fr: "unfinished s' h" by (rule unfinished_cong [OF st(4) hl(2,3)])
  have gs: "get_start_blockno s' h = Some (hd pgs)" using st(5) hl by (simp add: get_start_blockno_def get_linked_list_data_def)
  have nn: "h \<notin> set (bs @ new)" using a(5) dis by (auto simp: grown_def)
  have same: "\<forall>x\<in>U - set bs. s' ! x = s ! x" using g w(6) by auto
  have pd: "set pgs \<inter> set (bs @ new) = {}" using a(5) dis by (auto simp: grown_def)
  have "pages_from s1 (hd pgs) pgs" using st(6) .
  then have pf: "pages_from s' (hd pgs) pgs" by (rule lseg_cong) (use g dis Vl len2 in force)
  show thesis by (rule that [OF run _ w(4) a(2) _ hold st(2,3) w(5) same fr gs nn a(4) pf pd]) (use h32 a(3) ld in \<open>auto simp: e_def\<close>)
qed
lemma mset_concat_map: "mset (concat (map f xs)) = (\<Sum>x\<in>#mset xs. mset (f x))"
  by (induction xs) simp_all

lemma add_segment_ids_fields:
  "add_segment_ids enc fits env fsm ps pid s hdr ids xid = Some (s', e) \<Longrightarrow> me_xmin e = of_nat xid \<and> me_pid e = pid \<and> me_unused e = 0"
  by (auto simp: add_segment_ids_def Let_def split: bind_splits)

section \<open>Properties\<close>

text \<open>
  C29. Registering a merge.  \<open>add_segment_ids\<close> adds one entry to the list of merges in progress, with the process and
  transaction id of the merge and a new block as the start of its ids, and returns it.  The entry reads back the
  segment ids that were given, the other entries read back what they did before, and the ids of all merges in progress
  are afterwards the ones before and the new ones.  The pages of the other entries do not change.
\<close>

theorem merge_list_add_ids:
  assumes "packers_ok ps" "items_ok enc dec fits UNIV" "fits []" "li_rep fits s hdr bs" "fsm_ok env fsm U [] (2 + length (concat ids) + (1 + n)) s"
    "insert hdr (set bs) \<subseteq> U" "0 \<in> U" "length (concat ids) < 2 ^ 39" "\<forall>x\<in>set ids. length x = 16"
    "ml_list dec s hdr = Some es" "\<forall>e\<in>set es. holds_ids s (U - set bs) e (f e)"
  shows "\<exists>s' e es' out. add_segment_ids enc fits env fsm ps pid s hdr ids xid = Some (s', e) \<and>
     me_pid e = pid \<and> me_xmin e = of_nat xid \<and> me_unused e = 0 \<and> unat (me_segment_ids_start e) \<notin> U \<and>
     ml_list dec s' hdr = Some es' \<and> mset es' = mset es + {#e#} \<and>
     segment_ids s' e = Some ids \<and> (\<forall>x\<in>set es. segment_ids s x = Some (f x) \<and> segment_ids s' x = Some (f x)) \<and>
     list_segment_ids dec s hdr = Some (concat (map f es)) \<and> list_segment_ids dec s' hdr = Some out \<and>
     mset out = mset (concat (map f es)) + mset ids \<and> (\<forall>x\<in>U - set bs. s' ! x = s ! x)"
proof -
  obtain s' e h pgs new where a: "add_segment_ids enc fits env fsm ps pid s hdr ids xid = Some (s', e)" "unat (me_segment_ids_start e) = h" "h \<notin> U"
    "li_rep fits s' hdr (bs @ new)" "mset (li_data dec s' (bs @ new)) = mset (li_data dec s bs) + {#e#}" "holds_ids s' (insert h (set pgs)) e ids"
    "pgs \<noteq> []" "h \<notin> set pgs" "set pgs \<inter> U = {}" "\<forall>x\<in>U - set bs. s' ! x = s ! x" "unfinished s' h" "get_start_blockno s' h = Some (hd pgs)" "h \<notin> set (bs @ new)"
    "fsm_ok env fsm (U \<union> set (h # pgs) \<union> set new) [] n s'"
    by (rule add_segment_ids_ok [OF assms(1-9)])
  have es: "es = li_data dec s bs" using assms(10) li_list_ok [OF assms(4), of dec] by (simp add: ml_list_def)
  have U: "U \<subseteq> {..<length s'}" using fsmb.ok_bound [OF a(14)] by auto
  have old: "segment_ids s' x = Some (f x) \<and> x \<noteq> e \<and> segment_ids s x = Some (f x)" if "x \<in> set es" for x
  proof -
    have h: "holds_ids s (U - set bs) x (f x)" using assms(11) that by blast
    then have "holds_ids s' (U - set bs) x (f x)" unfolding holds_ids_def using stored_at_cong [of s "U - set bs" _ _ s'] a(10) U by auto
    moreover have "unat (me_segment_ids_start x) \<in> U" using h by (auto simp: holds_ids_def stored_at_def)
    ultimately show ?thesis using h holds_ids_read a(2,3) by blast
  qed
  let ?g = "f(e := ids)"
  let ?es = "li_data dec s' (bs @ new)"
  have new: "segment_ids s' e = Some ids" by (rule holds_ids_read [OF a(6)])
  have mem: "set ?es = insert e (set es)" using arg_cong [OF a(5), of set_mset] es by simp
  have "list_segment_ids dec s' hdr = Some (concat (map ?g ?es))"
    by (rule list_segment_ids_ok [OF li_list_ok [OF a(4)]]) (use mem old new in auto)
  moreover have "list_segment_ids dec s hdr = Some (concat (map f es))"
    by (rule list_segment_ids_ok) (use assms(10,11) holds_ids_read in \<open>auto simp: ml_list_def\<close>)
  moreover have "mset (concat (map ?g ?es)) = mset (concat (map f es)) + mset ids"
  proof -
    have "mset (concat (map ?g ?es)) = (\<Sum>x\<in>#mset ?es. mset (?g x))" by (simp add: mset_concat_map)
    also have "\<dots> = mset ids + (\<Sum>x\<in>#mset es. mset (?g x))" using a(5) es by simp
    also have "(\<Sum>x\<in>#mset es. mset (?g x)) = (\<Sum>x\<in>#mset es. mset (f x))" using old by (intro arg_cong [of _ _ sum_mset] image_mset_cong) auto
    also have "\<dots> = mset (concat (map f es))" by (simp add: mset_concat_map)
    finally show ?thesis by (simp only: add.commute)
  qed
  moreover have "ml_list dec s' hdr = Some ?es" "mset ?es = mset es + {#e#}" using li_list_ok [OF a(4), of dec] a(5) es by (simp_all add: ml_list_def)
  moreover have "unat (me_segment_ids_start e) \<notin> U" using a(2,3) by simp
  ultimately show ?thesis using a(1,10) new old add_segment_ids_fields [OF a(1)] by blast
qed

text \<open>
  C38. Merges leak pages.  \<open>add_segment_ids\<close> never finishes the list of bytes it writes, so the list has no block list.
  Removing the entry that was just added succeeds, and puts exactly one block on record in the free space manager, the
  header of the list of ids.  The data pages of that list, of which there is at least one, are then neither on record
  nor part of the free space manager or of the list of merges: they are lost.  This is stated for a free space
  manager with slots for the transaction ids involved.
\<close>

theorem merge_entry_pages_lost:
  assumes "packers_ok ps" "items_ok enc dec fits UNIV" "room_ok fits" "li_rep fits s hdr bs" "w = max (current_xid env) FirstNormalTransactionId"
    "fsm_room env {w} fsm U [] (2 + length (concat ids) + (1 + (1 + n))) s"
    "insert hdr (set bs) \<subseteq> U" "0 \<in> U" "length (concat ids) < 2 ^ 39" "\<forall>x\<in>set ids. length x = 16"
  shows "\<exists>s1 e h start pgs bs' s2. add_segment_ids enc fits env fsm ps pid s hdr ids xid = Some (s1, e) \<and> h = unat (me_segment_ids_start e) \<and>
     get_start_blockno s1 h = Some start \<and> walk_pages s1 start = Some pgs \<and> pgs \<noteq> [] \<and> set pgs \<inter> U = {} \<and> h \<notin> set pgs \<and>
     remove_entry dec env fsm ps s1 hdr e = Some (s2, Inr e) \<and> fsm_files fsm w s1 [h] s2 \<and>
     li_rep fits s2 hdr bs' \<and> set pgs \<inter> set bs' = {} \<and> (\<forall>M. fsm_records s2 fsm M \<longrightarrow> (\<forall>p\<in>set pgs. p \<notin># image_mset snd M)) \<and>
     fsm_room env {w} fsm (U \<union> set pgs \<union> set bs') [] n s2"
proof -
  have f0: "fits []" using assms(3) by (simp add: room_ok_def)
  obtain s1 e h pgs new where a: "add_segment_ids enc fits env fsm ps pid s hdr ids xid = Some (s1, e)" "unat (me_segment_ids_start e) = h" "h \<notin> U"
    "li_rep fits s1 hdr (bs @ new)" "mset (li_data dec s1 (bs @ new)) = mset (li_data dec s bs) + {#e#}" "holds_ids s1 (insert h (set pgs)) e ids"
    "pgs \<noteq> []" "h \<notin> set pgs" "set pgs \<inter> U = {}" "\<forall>x\<in>U - set bs. s1 ! x = s ! x" "unfinished s1 h" "get_start_blockno s1 h = Some (hd pgs)" "h \<notin> set (bs @ new)"
    "fsm_room env {w} fsm (U \<union> set (h # pgs) \<union> set new) [] (1 + n) s1" "pages_from s1 (hd pgs) pgs" "set pgs \<inter> set (bs @ new) = {}"
    by (rule add_segment_ids_ok [OF assms(1,2) f0 assms(4,6-10)])
  let ?V = "U \<union> set (h # pgs) \<union> set new"
  have es: "li_list dec s1 hdr = Some (li_data dec s1 (bs @ new))" by (rule li_list_ok [OF a(4)])
  have "e \<in> set (li_data dec s1 (bs @ new))" using arg_cong [OF a(5), of set_mset] by simp
  then have "List.find (\<lambda>x. x = e) (li_data dec s1 (bs @ new)) = Some e"
    by (cases "List.find (\<lambda>x. x = e) (li_data dec s1 (bs @ new))") (auto simp: find_None_iff find_Some_iff)
  then obtain s0 where r: "remove_item dec (\<lambda>x. x = e) s1 hdr = Some (s0, Inr e)" "frame (set (bs @ new)) s1 s0" "length s0 = length s1" "li_rep fits s0 hdr (bs @ new)"
    using remove_item_ok [OF assms(3) a(4) es, of "\<lambda>x. x = e"] by auto
  have hl: "h < length s1" using a(11) by (auto simp: unfinished_def header_of_def)
  have "unfinished s0 h" by (rule unfinished_cong [OF a(11)]) (use r(2,3) hl a(13) frame_nth in auto)
  then have fb: "lb_freeable_blocks ps s0 (entry_list e) = Some [h]" using unfinished_freeable [of s0 h ps] a(2) by (simp add: entry_list_def)
  have fr: "frame ?V s1 s0" by (rule frame_mono [OF r(2)]) (use assms(7) in auto)
  have room0: "fsm_room env {w} fsm ?V [] (length [h] + n) s0" using fsm_ok_frame [OF a(14) fr r(3)] by simp
  obtain s2 where x: "extend_with_when_recyclable env s0 fsm w [h] = Some s2" "fsm_room env {w} fsm (?V - set [h]) [] n s2"
    "\<forall>x\<in>?V. s2 ! x = s0 ! x" "length s0 \<le> length s2" "fsm_files fsm w s0 [h] s2"
    using fsmr.free_law [OF room0] by auto
  have run: "remove_entry dec env fsm ps s1 hdr e = Some (s2, Inr e)"
    using r(1) fb x(1) by (simp add: remove_entry_def lb_return_to_fsm_def fsm_extend_def assms(5))
  have fl: "fsm_files fsm w s1 [h] s2" using fsm_files_trans [OF fsm_files_write [OF a(14) fr r(3)] x(5)] by simp
  have rep2: "li_rep fits s2 hdr (bs @ new)" by (rule li_rep_cong [OF r(4) x(4)]) (use x(3) assms(7) in auto)
  have V: "?V - set [h] = U \<union> set pgs \<union> set (bs @ new)" using a(3,8,13) assms(7) by auto
  have un: "\<forall>M. fsm_records s2 fsm M \<longrightarrow> (\<forall>p\<in>set pgs. p \<notin># image_mset snd M)"
    using fsm_room_unrecorded [OF x(2)] unfolding V by blast
  show ?thesis
    by (rule exI [of _ s1], rule exI [of _ e], rule exI [of _ h], rule exI [of _ "hd pgs"], rule exI [of _ pgs], rule exI [of _ "bs @ new"], rule exI [of _ s2])
      (intro conjI; fact a a(2) [symmetric] walk_pages_ok [OF a(15)] run fl rep2 un x(2) [unfolded V])
qed

text \<open>
  C30. The merge lock page names one list: the first \<open>acquire\<close> creates it, empty, and every later one returns the
  same list without a change.
\<close>

theorem merge_lock_one_list:
  assumes "fsm_ok env fsm U [] (2 + n) s" "0 \<in> U" "b \<in> U" "pg_body (s ! b) = Blank"
  shows "\<exists>s' hdr. merge_lock_acquire (new_buffer env fsm) s b = Some (s', hdr) \<and> ml_list dec s' hdr = Some [] \<and> ml_is_empty dec s' hdr = Some True \<and>
     merge_lock_acquire (new_buffer env fsm) s' b = Some (s', hdr) \<and> (\<forall>x\<in>U - {b}. s' ! x = s ! x)"
proof -
  obtain s1 hdr p where c: "li_create_with_fsm (new_buffer env fsm) s = Some (s1, hdr)" "li_rep (\<lambda>_. True) s1 hdr [p]" "li_data dec s1 [p] = []"
    "hdr \<notin> U" "p \<notin> U" "fsm_ok env fsm (insert p (insert hdr U)) [] n s1" "\<forall>x\<in>U. s1 ! x = s ! x" "length s \<le> length s1"
    by (rule fsmp.create_ok [where dec = dec and fits = "\<lambda>_. True", OF assms(1,2)]) simp
  have b: "b < length s" using fsmb.ok_bound [OF assms(1)] assms(3) by auto
  let ?s = "s1[b := (s1 ! b)\<lparr>pg_body := MergeLockPage hdr\<rparr>]"
  have "hdr < length s1" "length s1 \<le> InvalidBlockNumber" using c(2) fsm_ok_length [OF c(6)] by (auto simp: li_rep_def)
  moreover have "hdr \<noteq> 0" using c(4) assms(2) by (cases "hdr = 0") auto
  ultimately have v: "block_number_is_valid hdr" by (simp add: block_number_is_valid_def)
  have run: "merge_lock_acquire (new_buffer env fsm) s b = Some (?s, hdr)"
    using c(1,8) b assms(4) by (simp add: merge_lock_acquire_def merge_lock_data_def block_number_is_valid_def)
  have again: "merge_lock_acquire (new_buffer env fsm) ?s b = Some (?s, hdr)"
    using b c(8) v by (simp add: merge_lock_acquire_def merge_lock_data_def)
  have nb: "b \<noteq> hdr" "b \<noteq> p" using assms(3) c(4,5) by auto
  have r: "li_rep (\<lambda>_. True) ?s hdr [p]" by (rule li_rep_cong [OF c(2)]) (use nb in auto)
  have l: "li_list dec ?s hdr = Some []" using li_list_ok [OF r, of dec] c(3) nb by (simp add: page_data_def)
  have "li_is_empty dec ?s hdr = Some True"
    using is_empty_loop_ok [OF lookup_rep(2,3) [OF r], of dec] li_rep_start [OF r] c(3) nb by (simp add: li_is_empty_def page_data_def)
  then show ?thesis using run again l c(7) by (intro exI [of _ ?s] exI [of _ hdr]) (auto simp: ml_list_def ml_is_empty_def)
qed

subsection \<open>Witnesses\<close>

definition entry_enc :: "merge_entry \<Rightarrow> u8 list" where
  "entry_enc e = to_le_bytes (unat (me_pid e)) @ to_le_bytes (unat (me_xmin e)) @ to_le_bytes (unat (me_unused e)) @ to_le_bytes (unat (me_segment_ids_start e))"

definition entry_dec :: "u8 list \<Rightarrow> merge_entry" where
  "entry_dec bs = \<lparr>me_pid = of_nat (from_le_bytes (take 4 bs)), me_xmin = of_nat (from_le_bytes (take 4 (drop 4 bs))),
     me_unused = of_nat (from_le_bytes (take 4 (drop 8 bs))), me_segment_ids_start = of_nat (from_le_bytes (take 4 (drop 12 bs)))\<rparr>"

lemma entry_codec_ok: "items_ok entry_enc entry_dec page_room UNIV"
proof -
  have r: "from_le_bytes (to_le_bytes (unat x)) = unat x" for x :: u32
    by (rule le_bytes_roundtrip) (use unsigned_less [of x] in simp)
  have l: "length (entry_enc e) = 16" for e by (simp add: entry_enc_def)
  then have "entry_enc e \<noteq> []" for e by (metis list.size(3) zero_neq_numeral)
  moreover have "entry_dec (entry_enc e) = e" for e by (cases e) (simp add: entry_enc_def entry_dec_def r)
  ultimately show ?thesis using l by (simp add: items_ok_def page_room_def bm25_max_free_space_def BLCKSZ_def)
qed

definition ex_merges :: store where
  "ex_merges = ex_pool[4 := blank_page\<lparr>pg_body := ListHeader \<lparr>ll_start = 5, ll_last = 5, ll_blocklist = 0\<rparr>\<rparr>, 5 := blank_page]"

lemma ex_merges_ok:
  "li_rep page_room ex_merges 4 [5]" "ml_list dec ex_merges 4 = Some []" "fsm_ok ex_env 1 {0, 4, 5} [] 100 ex_merges"
proof -
  have len: "length ex_pool = 9" by (simp add: ex_pool_def)
  show r: "li_rep page_room ex_merges 4 [5]"
    by (simp add: li_rep_def li_chain_def ex_merges_def item_page_def page_room_def sizes_def get_linked_list_data_def len InvalidBlockNumber_def)
  show "ml_list dec ex_merges 4 = Some []"
    unfolding ml_list_def li_list_ok [OF r] by (simp add: page_data_def ex_merges_def len)
  have o: "fsm_ok ex_env 1 {0, 4, 5} [] 100 ex_pool" by (rule ex_pool_ok) auto
  show "fsm_ok ex_env 1 {0, 4, 5} [] 100 ex_merges" by (rule fsmb.ok_frame [OF o]) (auto simp: ex_merges_def intro!: frame_step)
qed

theorem merge_list_add_ids_witness:
  "\<exists>s' e. add_segment_ids entry_enc page_room ex_env 1 raw_packers 77 ex_merges 4 [replicate 16 1, replicate 16 2] 9 = Some (s', e) \<and>
     me_xmin e = 9 \<and> ml_list entry_dec s' 4 = Some [e] \<and> segment_ids s' e = Some [replicate 16 1, replicate 16 2]"
proof -
  have f: "page_room []" using page_room_ok by (simp add: room_ok_def)
  have o: "fsm_ok ex_env 1 {0, 4, 5} [] (2 + length (concat [replicate 16 1, replicate 16 2 :: u8 list]) + (1 + 65)) ex_merges"
    by (rule fsm_ok_mono [OF ex_merges_ok(3)]) simp_all
  from merge_list_add_ids [OF raw_packers_ok entry_codec_ok f ex_merges_ok(1) o _ _ _ _ ex_merges_ok(2), of undefined 77 9]
  show ?thesis by auto
qed

text \<open>At transaction 5, for which the tree has a slot.\<close>

definition ex_env_5 :: fsm_env where
  "ex_env_5 = ex_env\<lparr>current_xid := 5\<rparr>"

theorem merge_entry_pages_lost_witness:
  "\<exists>s1 e h start pgs s2. add_segment_ids entry_enc page_room ex_env_5 1 raw_packers 77 ex_merges 4 [replicate 16 1] 9 = Some (s1, e) \<and>
     h = unat (me_segment_ids_start e) \<and> get_start_blockno s1 h = Some start \<and> walk_pages s1 start = Some pgs \<and> pgs \<noteq> [] \<and>
     remove_entry entry_dec ex_env_5 1 raw_packers s1 4 e = Some (s2, Inr e) \<and> fsm_files 1 5 s1 [h] s2 \<and>
     (\<forall>M. fsm_records s2 1 M \<longrightarrow> (\<forall>p\<in>set pgs. p \<notin># image_mset snd M))"
proof -
  have "fsm_room ex_env {5} 1 {0, 4, 5} [] 100 ex_pool" by (rule ex_pool_room) auto
  then have "fsm_room ex_env {5} 1 {0, 4, 5} [] 100 ex_merges"
    by (rule fsmb.ok_frame) (auto simp: ex_merges_def intro!: frame_step)
  then have o: "fsm_room ex_env_5 {5} 1 {0, 4, 5} [] (2 + length (concat [replicate 16 1 :: u8 list]) + (1 + (1 + 80))) ex_merges"
    unfolding fsm_room_def by (elim exE conjE) (intro exI conjI; (assumption | simp add: ex_env_5_def ex_env_def FirstNormalTransactionId_def))
  have w: "5 = max (current_xid ex_env_5) FirstNormalTransactionId" by (simp add: ex_env_5_def FirstNormalTransactionId_def)
  have own: "insert 4 (set [5]) \<subseteq> {0, 4, 5 :: nat}" "0 \<in> {0, 4, 5 :: nat}" "length (concat [replicate 16 1 :: u8 list]) < 2 ^ 39"
    "\<forall>x\<in>set [replicate 16 1 :: u8 list]. length x = 16" by auto
  note g = merge_entry_pages_lost [OF raw_packers_ok entry_codec_ok page_room_ok ex_merges_ok(1) w o own, of 77 9]
  from g obtain s1 e h start pgs s2 where
    "add_segment_ids entry_enc page_room ex_env_5 1 raw_packers 77 ex_merges 4 [replicate 16 1] 9 = Some (s1, e)"
    "h = unat (me_segment_ids_start e)" "get_start_blockno s1 h = Some start" "walk_pages s1 start = Some pgs" "pgs \<noteq> []"
    "remove_entry entry_dec ex_env_5 1 raw_packers s1 4 e = Some (s2, Inr e)" "fsm_files 1 5 s1 [h] s2"
    "\<forall>M. fsm_records s2 1 M \<longrightarrow> (\<forall>p\<in>set pgs. p \<notin># image_mset snd M)"
    by (elim exE conjE) (rule that)
  then show ?thesis by blast
qed

theorem merge_lock_one_list_witness:
  "\<exists>s' hdr. merge_lock_acquire (new_buffer ex_env 1) ex_merges 5 = Some (s', hdr) \<and> ml_list entry_dec s' hdr = Some [] \<and>
     merge_lock_acquire (new_buffer ex_env 1) s' 5 = Some (s', hdr)"
proof -
  have o: "fsm_ok ex_env 1 {0, 4, 5} [] (2 + 98) ex_merges" using ex_merges_ok(3) by simp
  have b: "pg_body (ex_merges ! 5) = Blank" by (simp add: ex_merges_def ex_pool_def)
  from merge_lock_one_list [OF o _ _ b, of entry_dec] show ?thesis by auto
qed

end
