(* ===== verification/Fsm_V1.thy ===== *)
theory Fsm_V1
  imports Buffer_Manager
begin

text \<open>
  The older free space manager, \<open>v1\<close> of \<^verbatim>\<open>fsm.rs\<close>, and its conversion to the current one: a list of pages with a
  fixed number of entries, each a block and the 32 bit id of the transaction that freed it.  A page of the
  format before that (\<open>v0\<close>) is one whose kind reads as zero; its content is never looked at.
\<close>

section \<open>The model\<close>

definition transaction_id_precedes_or_equals :: "u32 \<Rightarrow> u32 \<Rightarrow> bool" where
  "transaction_id_precedes_or_equals id1 id2 =
     (if id1 < 3 \<or> id2 < 3 then id1 \<le> id2 else sint (id1 - id2) \<le> 0)"

definition passes_visibility_horizon :: "xid \<Rightarrow> u32 \<Rightarrow> bool" where
  "passes_visibility_horizon fsm_xid horizon = transaction_id_precedes_or_equals (of_nat fsm_xid) horizon"

definition MAX_ENTRIES_PER_PAGE :: nat where
  "MAX_ENTRIES_PER_PAGE = (bm25_max_free_space - 8) div 8"

definition v1_default :: v1_block where
  "v1_default = \<lparr>vb_empty = False, vb_entries = replicate MAX_ENTRIES_PER_PAGE (InvalidBlockNumber, InvalidTransactionId)\<rparr>"

definition any_invalid :: "v1_block \<Rightarrow> bool" where
  "any_invalid d = list_ex (\<lambda>(b, _). b = InvalidBlockNumber) (vb_entries d)"

text \<open>The kind of a page and its block: \<open>None\<close> for \<open>v0\<close>.\<close>

definition v1_block_at :: "store \<Rightarrow> block_number \<Rightarrow> v1_block option option" where
  "v1_block_at s b = do {
     c \<leftarrow> body_of s b;
     (case c of Blank \<Rightarrow> Some None | FsmV1 d \<Rightarrow> Some (Some d) | _ \<Rightarrow> None)
   }"

definition v1_create :: "store \<Rightarrow> (store \<times> block_number) option" where
  "v1_create s = do {
     (s, b) \<leftarrow> init_new_buffer s;
     s \<leftarrow> set_body s b (FsmV1 v1_default);
     Some (s, b)
   }"

definition xid_horizon :: "fsm_env \<Rightarrow> u32" where
  "xid_horizon env = max (of_nat (current_xid env)) (of_nat FirstNormalTransactionId)"

subsection \<open>Taking blocks\<close>

text \<open>One pass over the entries of a page: the entries after it, the blocks taken, and whether no block is left.\<close>

fun drain_entries ::
  "nat \<Rightarrow> u32 \<Rightarrow> (block_number \<times> xid) list \<Rightarrow> block_number list \<Rightarrow> (block_number \<times> xid) list \<times> block_number list \<times> bool" where
  "drain_entries n horizon [] blocks = ([], blocks, True)"
| "drain_entries n horizon ((b, x) # es) blocks =
     (let take_it = length blocks < n \<and> b \<noteq> InvalidBlockNumber \<and> passes_visibility_horizon x horizon;
          b' = (if take_it then InvalidBlockNumber else b);
          (es', blocks', all_invalid) = drain_entries n horizon es (if take_it then blocks @ [b] else blocks)
      in ((b', x) # es', blocks', b' = InvalidBlockNumber \<and> all_invalid))"

partial_function (option) v1_drain_loop ::
  "fsm_env \<Rightarrow> nat \<Rightarrow> store \<Rightarrow> block_number \<Rightarrow> block_number list \<Rightarrow> (store \<times> block_number list) option" where
  "v1_drain_loop env n s b blocks =
     (if b = InvalidBlockNumber then Some (s, blocks)
      else do {
        next \<leftarrow> next_blockno s b;
        c \<leftarrow> v1_block_at s b;
        (case c of
           None \<Rightarrow> v1_drain_loop env n s next blocks
         | Some d \<Rightarrow>
             if vb_empty d \<or> \<not> can_lock env b then v1_drain_loop env n s next blocks
             else do {
               let (es, blocks', all_invalid) = drain_entries n (xid_horizon env) (vb_entries d) blocks;
               s \<leftarrow> set_body s b (FsmV1 (d\<lparr>vb_empty := all_invalid, vb_entries := es\<rparr>));
               if \<not> all_invalid \<and> length blocks' = length blocks then v1_drain_loop env n s next blocks'
               else if length blocks' = n then Some (s, blocks')
               else v1_drain_loop env n s next blocks'
             })
      })"

lemmas [code] = v1_drain_loop.simps

definition v1_drain :: "fsm_env \<Rightarrow> store \<Rightarrow> block_number \<Rightarrow> nat \<Rightarrow> (store \<times> block_number list) option" where
  "v1_drain env s start n = v1_drain_loop env n s start []"

text \<open>\<open>pop\<close> waits for the lock on the last page.  Its pass over the entries stops at the first match.\<close>

partial_function (option) v1_pop_loop :: "fsm_env \<Rightarrow> store \<Rightarrow> block_number \<Rightarrow> (store \<times> block_number option) option" where
  "v1_pop_loop env s b =
     (if b = InvalidBlockNumber then Some (s, None)
      else do {
        next \<leftarrow> next_blockno s b;
        c \<leftarrow> v1_block_at s b;
        (case c of
           None \<Rightarrow> v1_pop_loop env s next
         | Some d \<Rightarrow>
             if vb_empty d \<or> (next \<noteq> InvalidBlockNumber \<and> \<not> can_lock env b) then v1_pop_loop env s next
             else do {
               let (es, found, all_invalid) = drain_entries 1 (xid_horizon env) (vb_entries d) [];
               s \<leftarrow> set_body s b (FsmV1 (d\<lparr>vb_empty := all_invalid, vb_entries := es\<rparr>));
               (case found of
                  [] \<Rightarrow> v1_pop_loop env s next
                | w # _ \<Rightarrow> Some (s, Some w))
             })
      })"

lemmas [code] = v1_pop_loop.simps

definition v1_pop :: "fsm_env \<Rightarrow> store \<Rightarrow> block_number \<Rightarrow> (store \<times> block_number option) option" where
  "v1_pop env s start = v1_pop_loop env s start"

subsection \<open>Adding blocks\<close>

fun fill_entries :: "xid \<Rightarrow> (block_number \<times> xid) list \<Rightarrow> block_number list \<Rightarrow> (block_number \<times> xid) list \<times> block_number list" where
  "fill_entries w [] ws = ([], ws)"
| "fill_entries w (e # es) ws =
     (if fst e = InvalidBlockNumber
      then (case ws of
              [] \<Rightarrow> (e # es, [])
            | v # vs \<Rightarrow> (let (es', ws') = fill_entries w es vs in ((v, w) # es', ws')))
      else (let (es', ws') = fill_entries w es ws in (e # es', ws')))"

definition v1_fill :: "xid \<Rightarrow> v1_block \<Rightarrow> block_number list \<Rightarrow> v1_block \<times> block_number list" where
  "v1_fill w d ws =
     (let (es, ws') = fill_entries w (vb_entries d) ws
      in (d\<lparr>vb_empty := (if length ws' = length ws then vb_empty d else False), vb_entries := es\<rparr>, ws'))"

definition v1_next_page :: "store \<Rightarrow> block_number \<Rightarrow> (store \<times> block_number) option" where
  "v1_next_page s b = do {
     next \<leftarrow> next_blockno s b;
     (if next \<noteq> InvalidBlockNumber then Some (s, next)
      else do {
        (s, new_blockno) \<leftarrow> init_new_buffer s;
        s \<leftarrow> set_body s new_blockno (FsmV1 v1_default);
        s \<leftarrow> set_next s b new_blockno;
        Some (s, new_blockno)
      })
   }"

text \<open>When no block was added, the page is not written, also if it was to be upgraded.\<close>

partial_function (option) v1_extend_loop :: "xid \<Rightarrow> store \<Rightarrow> block_number \<Rightarrow> block_number list \<Rightarrow> store option" where
  "v1_extend_loop w s b ws = do {
     c \<leftarrow> v1_block_at s b;
     let d = (case c of None \<Rightarrow> v1_default | Some d \<Rightarrow> d);
     if c = None \<or> vb_empty d \<or> any_invalid d
     then do {
       let (d, ws') = v1_fill w d ws;
       s \<leftarrow> (if length ws' = length ws then Some s else set_body s b (FsmV1 d));
       if ws' = [] then Some s
       else do {
         (s, b) \<leftarrow> v1_next_page s b;
         v1_extend_loop w s b ws'
       }
     }
     else do {
       (s, b) \<leftarrow> v1_next_page s b;
       v1_extend_loop w s b ws
     }
   }"

lemmas [code] = v1_extend_loop.simps

definition v1_extend_with_when_recyclable :: "store \<Rightarrow> block_number \<Rightarrow> xid \<Rightarrow> block_number list \<Rightarrow> store option" where
  "v1_extend_with_when_recyclable s start when_recyclable ws =
     v1_extend_loop (when_recyclable mod 2 ^ 32) s start ws"

subsection \<open>Conversion\<close>

definition used_blocks :: "store \<Rightarrow> block_number \<Rightarrow> block_number list option" where
  "used_blocks s start = walk_pages s start"

partial_function (option) convert_loop :: "fsm_env \<Rightarrow> store \<Rightarrow> block_number \<Rightarrow> block_number \<Rightarrow> store option" where
  "convert_loop env s v1 v2 = do {
     (s, drained) \<leftarrow> v1_drain env s v1 1000;
     if drained \<noteq> []
     then do {
       s \<leftarrow> extend_with_when_recyclable env s v2 FirstNormalTransactionId drained;
       convert_loop env s v1 v2
     }
     else Some s
   }"

lemmas [code] = convert_loop.simps

definition convert_v1_to_v2 :: "fsm_env \<Rightarrow> store \<Rightarrow> block_number \<Rightarrow> block_number \<Rightarrow> store option" where
  "convert_v1_to_v2 env s v1 v2 = do {
     s \<leftarrow> convert_loop env s v1 v2;
     bs \<leftarrow> used_blocks s v1;
     extend_with_when_recyclable env s v2 FirstNormalTransactionId bs
   }"
section \<open>Pages of entries\<close>

definition valid_entries :: "(block_number \<times> xid) list \<Rightarrow> (block_number \<times> xid) list" where
  "valid_entries es = filter (\<lambda>e. fst e \<noteq> InvalidBlockNumber) es"

definition v1_page :: "page \<Rightarrow> bool" where
  "v1_page p \<longleftrightarrow> pg_body p = Blank \<or>
     (\<exists>d. pg_body p = FsmV1 d \<and> length (vb_entries d) = MAX_ENTRIES_PER_PAGE \<and> (vb_empty d \<longrightarrow> valid_entries (vb_entries d) = []))"

definition page_entries :: "page \<Rightarrow> (block_number \<times> xid) list" where
  "page_entries p = (case pg_body p of FsmV1 d \<Rightarrow> valid_entries (vb_entries d) | _ \<Rightarrow> [])"

definition v1_entries :: "store \<Rightarrow> block_number list \<Rightarrow> (block_number \<times> xid) list" where
  "v1_entries s bs = concat (map (\<lambda>b. page_entries (s ! b)) bs)"

definition v1_chain :: "store \<Rightarrow> block_number list \<Rightarrow> bool" where
  "v1_chain s bs \<longleftrightarrow> bs \<noteq> [] \<and> distinct bs \<and> pages_from s (hd bs) bs \<and> (\<forall>b\<in>set bs. v1_page (s ! b))"

definition passing :: "fsm_env \<Rightarrow> block_number \<times> xid \<Rightarrow> bool" where
  "passing env e = passes_visibility_horizon (snd e) (xid_horizon env)"

lemma entries_per_page: "MAX_ENTRIES_PER_PAGE = 1019"
  by (simp add: MAX_ENTRIES_PER_PAGE_def bm25_max_free_space_def BLCKSZ_def)

lemma valid_entries_simps [simp]:
  "valid_entries [] = []" "valid_entries (e # es) = (if fst e \<noteq> InvalidBlockNumber then e # valid_entries es else valid_entries es)"
  "valid_entries (xs @ ys) = valid_entries xs @ valid_entries ys"
  by (simp_all add: valid_entries_def)

lemma v1_entries_simps [simp]:
  "v1_entries s [] = []" "v1_entries s (b # bs) = page_entries (s ! b) @ v1_entries s bs" "v1_entries s (xs @ ys) = v1_entries s xs @ v1_entries s ys"
  by (simp_all add: v1_entries_def)

lemma v1_entries_cong: "(\<And>b. b \<in> set bs \<Longrightarrow> pg_body (s' ! b) = pg_body (s ! b)) \<Longrightarrow> v1_entries s' bs = v1_entries s bs"
  by (induction bs) (simp_all add: page_entries_def)

lemma v1_page_cases:
  assumes "v1_page (s ! b)" "b < length s"
  obtains (v0) "v1_block_at s b = Some None" "page_entries (s ! b) = []"
  | (v1) d where "v1_block_at s b = Some (Some d)" "pg_body (s ! b) = FsmV1 d" "length (vb_entries d) = MAX_ENTRIES_PER_PAGE"
      "vb_empty d \<longrightarrow> valid_entries (vb_entries d) = []" "page_entries (s ! b) = valid_entries (vb_entries d)"
  using assms by (auto simp: v1_page_def v1_block_at_def page_entries_def)

lemma v1_chain_bound: "v1_chain s bs \<Longrightarrow> b \<in> set bs \<Longrightarrow> b < length s \<and> b \<noteq> InvalidBlockNumber \<and> v1_page (s ! b)"
  using lseg_bound by (fastforce simp: v1_chain_def)

section \<open>Taking blocks\<close>

lemma drain_entries_ok:
  assumes "drain_entries n h es bl = (es', bl', iv)"
  shows "\<exists>ds. bl' = bl @ map fst ds \<and> mset (valid_entries es) = mset (valid_entries es') + mset ds \<and>
     (\<forall>e\<in>set ds. passes_visibility_horizon (snd e) h) \<and> length es' = length es \<and> (iv \<longleftrightarrow> valid_entries es' = []) \<and>
     (length bl \<le> n \<longrightarrow> length bl' \<le> n) \<and> (length bl' < n \<longrightarrow> (\<forall>e\<in>set (valid_entries es'). \<not> passes_visibility_horizon (snd e) h))"
  using assms
proof (induction es arbitrary: bl es' bl' iv)
  case (Cons e es)
  obtain b x where e: "e = (b, x)" by (cases e)
  define t where "t \<longleftrightarrow> length bl < n \<and> b \<noteq> InvalidBlockNumber \<and> passes_visibility_horizon x h"
  obtain es1 bl1 iv1 where r: "drain_entries n h es (if t then bl @ [b] else bl) = (es1, bl1, iv1)"
    by (cases "drain_entries n h es (if t then bl @ [b] else bl)") auto
  have eq: "es' = ((if t then InvalidBlockNumber else b), x) # es1" "bl' = bl1" "iv \<longleftrightarrow> (if t then InvalidBlockNumber else b) = InvalidBlockNumber \<and> iv1"
    using Cons.prems r unfolding e drain_entries.simps t_def [symmetric] Let_def by auto
  obtain ds where d: "bl1 = (if t then bl @ [b] else bl) @ map fst ds" "mset (valid_entries es) = mset (valid_entries es1) + mset ds"
     "\<forall>e\<in>set ds. passes_visibility_horizon (snd e) h" "length es1 = length es" "iv1 \<longleftrightarrow> valid_entries es1 = []"
     "length (if t then bl @ [b] else bl) \<le> n \<longrightarrow> length bl1 \<le> n" "length bl1 < n \<longrightarrow> (\<forall>e\<in>set (valid_entries es1). \<not> passes_visibility_horizon (snd e) h)"
    using Cons.IH [OF r] by (elim exE conjE) (rule that)
  show ?case
  proof (cases t)
    case True
    then have "b \<noteq> InvalidBlockNumber" "passes_visibility_horizon x h" "length bl < n" by (simp_all add: t_def)
    then show ?thesis using True d eq e by (intro exI [of _ "(b, x) # ds"]) auto
  next
    case False
    have "\<not> passes_visibility_horizon x h" if "length bl1 < n" "b \<noteq> InvalidBlockNumber" using False that d(1) by (auto simp: t_def)
    then show ?thesis using False d eq e by (intro exI [of _ ds]) auto
  qed
qed auto

text \<open>What a drain does to the pages \<open>bs\<close>: the entries \<open>ds\<close> are gone, the others are where they were.\<close>

definition drained ::
  "fsm_env \<Rightarrow> nat \<Rightarrow> store \<Rightarrow> block_number \<Rightarrow> block_number list \<Rightarrow> nat \<Rightarrow> (block_number \<times> xid) list \<Rightarrow> store \<Rightarrow> bool" where
  "drained env n s b bs k ds s' \<longleftrightarrow>
     pages_from s' b bs \<and> (\<forall>b\<in>set bs. v1_page (s' ! b)) \<and> mset (v1_entries s bs) = mset (v1_entries s' bs) + mset ds \<and>
     (\<forall>e\<in>set ds. passing env e) \<and> k + length ds \<le> n \<and>
     (k + length ds < n \<longrightarrow> (\<forall>b. can_lock env b) \<longrightarrow> (\<forall>e\<in>set (v1_entries s' bs). \<not> passing env e)) \<and> frame (set bs) s s' \<and> length s' = length s"

lemma drained_skip:
  assumes "drained env n s (pg_next (s ! b)) bs k ds s'" "b \<notin> set bs" "b < length s" "b \<noteq> InvalidBlockNumber" "v1_page (s ! b)" "page_entries (s ! b) = [] \<or> \<not> can_lock env b"
  shows "drained env n s b (b # bs) k ds s'"
proof -
  note d = assms(1) [unfolded drained_def]
  have "s' ! b = s ! b" using d assms(2,3) frame_nth by blast
  then show ?thesis unfolding drained_def using d assms(2-6) frame_mono [of "set bs" s s' "set (b # bs)"] by auto
qed

lemma drained_page:
  assumes r: "drained env n s1 (pg_next (s ! b)) bs (k + length ds0) ds s'" and s1: "s1 = s[b := (s ! b)\<lparr>pg_body := FsmV1 d\<rparr>]"
    and b: "b \<notin> set bs" "b < length s" "b \<noteq> InvalidBlockNumber" and d: "v1_page (s1 ! b)"
    and e: "mset (page_entries (s ! b)) = mset (page_entries (s1 ! b)) + mset ds0" "\<forall>e\<in>set ds0. passing env e"
      "k + length ds0 < n \<longrightarrow> (\<forall>e\<in>set (page_entries (s1 ! b)). \<not> passing env e)"
  shows "drained env n s b (b # bs) k (ds0 @ ds) s'"
proof -
  note v = r [unfolded drained_def]
  have sb: "s' ! b = s1 ! b" using v b frame_nth [of "set bs" s1 s' b] by (simp add: s1)
  have "v1_entries s1 bs = v1_entries s bs" by (rule v1_entries_cong) (use b(1) s1 in \<open>auto simp: nth_list_update intro!: arg_cong [of _ _ pg_body] nth_list_update_neq\<close>)
  moreover have "frame (set (b # bs)) s s1" unfolding s1 by (rule frame_update) simp
  then have "frame (set (b # bs)) s s'" using frame_trans [of "set (b # bs)" s s1 "set bs" s'] v by (auto intro: frame_mono)
  moreover have "pg_next (s1 ! b) = pg_next (s ! b)" using b(2) by (simp add: s1)
  ultimately show ?thesis unfolding drained_def using v sb b d e s1 by auto
qed
lemma drained_refl:
  assumes "k \<le> n" "pages_from s b bs" "\<forall>b\<in>set bs. v1_page (s ! b)" "k = n \<or> bs = []"
  shows "drained env n s b bs k [] s"
  using assms by (auto simp: drained_def)

lemma drain_page_ok:
  assumes "pg_body (s ! b) = FsmV1 d" "length (vb_entries d) = MAX_ENTRIES_PER_PAGE" "b < length s"
    "drain_entries n (xid_horizon env) (vb_entries d) bl = (es, bl', iv)" "length bl \<le> n"
  obtains ds where "bl' = bl @ map fst ds"
    "mset (page_entries (s ! b)) = mset (page_entries (s[b := (s ! b)\<lparr>pg_body := FsmV1 (d\<lparr>vb_empty := iv, vb_entries := es\<rparr>)\<rparr>] ! b)) + mset ds"
    "\<forall>e\<in>set ds. passing env e"
    "length bl + length ds < n \<longrightarrow> (\<forall>e\<in>set (page_entries (s[b := (s ! b)\<lparr>pg_body := FsmV1 (d\<lparr>vb_empty := iv, vb_entries := es\<rparr>)\<rparr>] ! b)). \<not> passing env e)"
    "length bl' \<le> n" "v1_page (s[b := (s ! b)\<lparr>pg_body := FsmV1 (d\<lparr>vb_empty := iv, vb_entries := es\<rparr>)\<rparr>] ! b)"
proof -
  obtain ds where d: "bl' = bl @ map fst ds" "mset (valid_entries (vb_entries d)) = mset (valid_entries es) + mset ds"
    "\<forall>e\<in>set ds. passes_visibility_horizon (snd e) (xid_horizon env)" "length es = length (vb_entries d)" "iv \<longleftrightarrow> valid_entries es = []"
    "length bl \<le> n \<longrightarrow> length bl' \<le> n" "length bl' < n \<longrightarrow> (\<forall>e\<in>set (valid_entries es). \<not> passes_visibility_horizon (snd e) (xid_horizon env))"
    using drain_entries_ok [OF assms(4)] by (elim exE conjE) (rule that)
  show thesis by (rule that [OF d(1)]) (use assms d in \<open>auto simp: page_entries_def v1_page_def passing_def\<close>)
qed

lemma v1_drain_loop_ok:
  assumes "pages_from s b bs" "distinct bs" "\<forall>b\<in>set bs. v1_page (s ! b)" "length bl \<le> n"
  shows "\<exists>s' ds. v1_drain_loop env n s b bl = Some (s', bl @ map fst ds) \<and> drained env n s b bs (length bl) ds s'"
  using assms
proof (induction bs arbitrary: s b bl)
  case Nil
  then show ?case by (subst v1_drain_loop.simps) (auto simp: drained_def)
next
  case (Cons x bs)
  have x: "x = b" "b < length s" "b \<noteq> InvalidBlockNumber" "b \<notin> set bs" "distinct bs" "pages_from s (pg_next (s ! b)) bs" "v1_page (s ! b)"
    using Cons.prems by auto
  have nx: "next_blockno s b = Some (pg_next (s ! b))" using x(2) by (simp add: next_blockno_def)
  have skip: "\<exists>s' ds. v1_drain_loop env n s (pg_next (s ! b)) bl = Some (s', bl @ map fst ds) \<and> drained env n s b (b # bs) (length bl) ds s'"
    if "page_entries (s ! b) = [] \<or> \<not> can_lock env b"
  proof -
    obtain s' ds where "v1_drain_loop env n s (pg_next (s ! b)) bl = Some (s', bl @ map fst ds)" "drained env n s (pg_next (s ! b)) bs (length bl) ds s'"
      using Cons.IH [OF x(6,5) _ Cons.prems(4)] Cons.prems(3) by auto
    then show ?thesis using drained_skip [OF _ x(4,2,3,7) that] by blast
  qed
  show ?case unfolding x(1)
  proof (cases rule: v1_page_cases [OF x(7,2)])
    case 1
    then show "\<exists>s' ds. v1_drain_loop env n s b bl = Some (s', bl @ map fst ds) \<and> drained env n s b (b # bs) (length bl) ds s'"
      using skip x(3) nx by (subst v1_drain_loop.simps) simp
  next
    case (2 d)
    show "\<exists>s' ds. v1_drain_loop env n s b bl = Some (s', bl @ map fst ds) \<and> drained env n s b (b # bs) (length bl) ds s'"
    proof (cases "vb_empty d \<or> \<not> can_lock env b")
      case True
      then show ?thesis using skip x(3) nx 2 by (subst v1_drain_loop.simps) auto
    next
      case False
      obtain es bl' iv where de: "drain_entries n (xid_horizon env) (vb_entries d) bl = (es, bl', iv)" by (cases "drain_entries n (xid_horizon env) (vb_entries d) bl") auto
      define d1 where "d1 = d\<lparr>vb_empty := iv, vb_entries := es\<rparr>"
      define s1 where "s1 = s[b := (s ! b)\<lparr>pg_body := FsmV1 d1\<rparr>]"
      obtain ds0 where d0: "bl' = bl @ map fst ds0" "mset (page_entries (s ! b)) = mset (page_entries (s1 ! b)) + mset ds0"
        "\<forall>e\<in>set ds0. passing env e" "length bl + length ds0 < n \<longrightarrow> (\<forall>e\<in>set (page_entries (s1 ! b)). \<not> passing env e)" "length bl' \<le> n" "v1_page (s1 ! b)"
        by (rule drain_page_ok [OF 2(2,3) x(2) de Cons.prems(4), folded d1_def, folded s1_def])
      have sb: "set_body s b (FsmV1 d1) = Some s1" using x(2) by (simp add: s1_def)
      have rest: "pages_from s1 (pg_next (s ! b)) bs" "\<forall>c\<in>set bs. v1_page (s1 ! c)"
        using x(6) Cons.prems(3) by (auto simp: s1_def nth_update_outside [OF _ x(4)])
      have k: "length bl' = length bl + length ds0" using d0(1) by simp
      have fin: "drained env n s b (b # bs) (length bl) (ds0 @ ds) s'" if "drained env n s1 (pg_next (s ! b)) bs (length bl') ds s'" for ds s'
        by (rule drained_page [OF that [unfolded k] s1_def x(4,2,3) d0(6,2-4)])
      have go: "\<exists>s' ds. v1_drain_loop env n s1 (pg_next (s ! b)) bl' = Some (s', bl @ map fst ds) \<and> drained env n s b (b # bs) (length bl) ds s'"
      proof -
        obtain s' ds where "v1_drain_loop env n s1 (pg_next (s ! b)) bl' = Some (s', bl' @ map fst ds)" "drained env n s1 (pg_next (s ! b)) bs (length bl') ds s'"
          using Cons.IH [OF rest(1) x(5) rest(2) d0(5)] by auto
        then show ?thesis using fin d0(1) by (intro exI [of _ s'] exI [of _ "ds0 @ ds"]) simp
      qed
      have stop: "\<exists>s' ds. Some (s1, bl') = Some (s', bl @ map fst ds) \<and> drained env n s b (b # bs) (length bl) ds s'" if "length bl' = n"
        using fin [OF drained_refl [OF _ rest]] that d0(1) by auto
      show ?thesis using False x(3) nx 2(1) de sb go stop by (subst v1_drain_loop.simps) (auto simp: d1_def [symmetric])
    qed
  qed
qed

lemma v1_pop_loop_ok:
  assumes "pages_from s b bs" "distinct bs" "\<forall>b\<in>set bs. v1_page (s ! b)"
  shows "\<exists>s' ds. v1_pop_loop env s b = Some (s', map_option fst (List.find (\<lambda>_. True) ds)) \<and> drained env 1 s b bs 0 ds s'"
  using assms
proof (induction bs arbitrary: s b)
  case Nil
  then show ?case by (subst v1_pop_loop.simps) (auto simp: drained_def intro!: exI [of _ "[]"])
next
  case (Cons x bs)
  have x: "x = b" "b < length s" "b \<noteq> InvalidBlockNumber" "b \<notin> set bs" "distinct bs" "pages_from s (pg_next (s ! b)) bs" "v1_page (s ! b)"
    using Cons.prems by auto
  have nx: "next_blockno s b = Some (pg_next (s ! b))" using x(2) by simp
  have skip: "\<exists>s' ds. v1_pop_loop env s (pg_next (s ! b)) = Some (s', map_option fst (List.find (\<lambda>_. True) ds)) \<and> drained env 1 s b (b # bs) 0 ds s'"
    if "page_entries (s ! b) = [] \<or> \<not> can_lock env b"
    using Cons.IH [OF x(6,5)] Cons.prems(3) drained_skip [OF _ x(4,2,3,7) that] by (metis list.set_intros(2))
  show ?case unfolding x(1)
  proof (cases rule: v1_page_cases [OF x(7,2)])
    case 1
    then show "\<exists>s' ds. v1_pop_loop env s b = Some (s', map_option fst (List.find (\<lambda>_. True) ds)) \<and> drained env 1 s b (b # bs) 0 ds s'"
      using skip x(3) nx by (subst v1_pop_loop.simps) simp
  next
    case (2 d)
    show "\<exists>s' ds. v1_pop_loop env s b = Some (s', map_option fst (List.find (\<lambda>_. True) ds)) \<and> drained env 1 s b (b # bs) 0 ds s'"
    proof (cases "vb_empty d \<or> pg_next (s ! b) \<noteq> InvalidBlockNumber \<and> \<not> can_lock env b")
      case True
      then show ?thesis using skip x(3) nx 2 by (subst v1_pop_loop.simps) auto
    next
      case False
      obtain es bl iv where de: "drain_entries 1 (xid_horizon env) (vb_entries d) [] = (es, bl, iv)" by (cases "drain_entries 1 (xid_horizon env) (vb_entries d) []") auto
      define d1 where "d1 = d\<lparr>vb_empty := iv, vb_entries := es\<rparr>"
      define s1 where "s1 = s[b := (s ! b)\<lparr>pg_body := FsmV1 d1\<rparr>]"
      obtain ds0 where d0: "bl = [] @ map fst ds0" "mset (page_entries (s ! b)) = mset (page_entries (s1 ! b)) + mset ds0"
        "\<forall>e\<in>set ds0. passing env e" "length [] + length ds0 < 1 \<longrightarrow> (\<forall>e\<in>set (page_entries (s1 ! b)). \<not> passing env e)" "length bl \<le> 1" "v1_page (s1 ! b)"
        by (rule drain_page_ok [OF 2(2,3) x(2) de, folded d1_def, folded s1_def]) simp_all
      have rest: "pages_from s1 (pg_next (s ! b)) bs" "\<forall>c\<in>set bs. v1_page (s1 ! c)"
        using x(6) Cons.prems(3) by (auto simp: s1_def nth_update_outside [OF _ x(4)])
      have fin: "drained env 1 s b (b # bs) 0 (ds0 @ ds) s'" if "drained env 1 s1 (pg_next (s ! b)) bs (0 + length ds0) ds s'" for ds s'
        by (rule drained_page [OF that s1_def x(4,2,3) d0(6,2,3)]) (use d0(4) in simp)
      have eq: "v1_pop_loop env s b = (case ds0 of [] \<Rightarrow> v1_pop_loop env s1 (pg_next (s ! b)) | e # _ \<Rightarrow> Some (s1, Some (fst e)))"
        using False x(2,3) 2(1) de d0(1) by (subst v1_pop_loop.simps) (auto simp: d1_def [symmetric] s1_def split: list.splits)
      show ?thesis
      proof (cases ds0)
        case Nil
        then show ?thesis using Cons.IH [OF rest(1) x(5) rest(2)] fin eq by fastforce
      next
        case (Cons e es')
        then have "length ds0 = 1" using d0(1,5) by auto
        then show ?thesis using fin [OF drained_refl [OF _ rest]] eq Cons by (intro exI [of _ s1] exI [of _ ds0]) auto
      qed
    qed
  qed
qed

lemma v1_pop_ok:
  assumes "v1_chain s bs"
  shows "\<exists>s' r. v1_pop env s (hd bs) = Some (s', r) \<and> v1_chain s' bs \<and>
     (case r of None \<Rightarrow> mset (v1_entries s' bs) = mset (v1_entries s bs) \<and> ((\<forall>b. can_lock env b) \<longrightarrow> (\<forall>e\<in>set (v1_entries s' bs). \<not> passing env e))
      | Some b \<Rightarrow> \<exists>x. passing env (b, x) \<and> mset (v1_entries s bs) = add_mset (b, x) (mset (v1_entries s' bs)))"
proof -
  have ch: "bs \<noteq> []" "distinct bs" "pages_from s (hd bs) bs" "\<forall>b\<in>set bs. v1_page (s ! b)" using assms by (auto simp: v1_chain_def)
  obtain s' ds where d: "v1_pop env s (hd bs) = Some (s', map_option fst (List.find (\<lambda>_. True) ds))" "drained env 1 s (hd bs) bs 0 ds s'"
    using v1_pop_loop_ok [OF ch(3,2,4), of env] by (auto simp: v1_pop_def)
  have "v1_chain s' bs" using ch d(2) by (auto simp: drained_def v1_chain_def)
  moreover have "ds = [] \<or> (\<exists>b x. ds = [(b, x)])" using d(2) by (cases ds) (auto simp: drained_def)
  ultimately show ?thesis using d by (auto simp: drained_def)
qed
section \<open>Adding blocks\<close>

definition stamped :: "xid \<Rightarrow> block_number list \<Rightarrow> (block_number \<times> xid) multiset" where
  "stamped w bs = image_mset (\<lambda>b. (b, w)) (mset bs)"

lemma stamped_append [simp]: "stamped w (xs @ ys) = stamped w xs + stamped w ys" "stamped w [] = {#}"
  by (simp_all add: stamped_def)

lemma fill_entries_ok:
  assumes "fill_entries w es ws = (es', ws')" "InvalidBlockNumber \<notin> set ws"
  shows "\<exists>us. ws = us @ ws' \<and> mset (valid_entries es') = mset (valid_entries es) + stamped w us \<and> length es' = length es \<and>
     (us = [] \<longrightarrow> es' = es \<and> (ws = [] \<or> valid_entries es = es))"
  using assms
proof (induction w es ws arbitrary: es' ws' rule: fill_entries.induct)
  case (2 w e es ws)
  consider (v) "fst e \<noteq> InvalidBlockNumber" | (n) "fst e = InvalidBlockNumber" "ws = []" | (c) v vs where "fst e = InvalidBlockNumber" "ws = v # vs"
    by (cases ws) auto
  then show ?case
  proof cases
    case v
    obtain es1 ws1 where r: "fill_entries w es ws = (es1, ws1)" by (cases "fill_entries w es ws")
    then show ?thesis using 2(2) [OF _ r 2(4)] 2(3) v by (auto simp: Let_def)
  next
    case n
    then show ?thesis using 2(3) by auto
  next
    case c
    obtain es1 ws1 where r: "fill_entries w es vs = (es1, ws1)" by (cases "fill_entries w es vs")
    have "InvalidBlockNumber \<notin> set vs" using 2(4) c by simp
    then obtain us where "vs = us @ ws1" "mset (valid_entries es1) = mset (valid_entries es) + stamped w us" "length es1 = length es"
      using 2(1) [OF c r] by blast
    then show ?thesis using 2(3,4) c r by (intro exI [of _ "v # us"]) (auto simp: Let_def stamped_def)
  qed
qed auto

lemma valid_entries_replicate: "valid_entries (replicate n (InvalidBlockNumber, x)) = []"
  by (induction n) auto

lemma v1_default_simps: "length (vb_entries v1_default) = MAX_ENTRIES_PER_PAGE" "valid_entries (vb_entries v1_default) = []" "vb_empty v1_default = False"
  by (simp_all add: v1_default_def valid_entries_replicate)

definition full_page :: "page \<Rightarrow> bool" where
  "full_page p \<longleftrightarrow> length (page_entries p) = MAX_ENTRIES_PER_PAGE"

lemma any_invalid_iff: "any_invalid d \<longleftrightarrow> valid_entries (vb_entries d) \<noteq> vb_entries d"
  by (force simp: any_invalid_def valid_entries_def list_ex_iff filter_id_conv)

text \<open>One round of the loop of \<open>extend\<close> on page \<open>b\<close>.\<close>

lemma v1_extend_page:
  assumes "v1_page (s ! b)" "b < length s" "ws \<noteq> []" "InvalidBlockNumber \<notin> set ws"
  obtains c us ws' where "ws = us @ ws'" "v1_page (s[b := (s ! b)\<lparr>pg_body := c\<rparr>] ! b)"
    "mset (page_entries (s[b := (s ! b)\<lparr>pg_body := c\<rparr>] ! b)) = mset (page_entries (s ! b)) + stamped w us" "us = [] \<longrightarrow> full_page (s ! b)"
    "v1_extend_loop w s b ws = (if ws' = [] then Some (s[b := (s ! b)\<lparr>pg_body := c\<rparr>])
       else Option.bind (v1_next_page (s[b := (s ! b)\<lparr>pg_body := c\<rparr>]) b) (\<lambda>(s, b). v1_extend_loop w s b ws'))"
proof -
  obtain d where d: "v1_block_at s b = Some None \<and> d = v1_default \<or> v1_block_at s b = Some (Some d) \<and> pg_body (s ! b) = FsmV1 d"
    "length (vb_entries d) = MAX_ENTRIES_PER_PAGE" "page_entries (s ! b) = valid_entries (vb_entries d)" "vb_empty d \<longrightarrow> valid_entries (vb_entries d) = []"
  proof (cases rule: v1_page_cases [OF assms(1,2)])
    case 1
    then show ?thesis by (intro that [of v1_default]) (simp_all add: v1_default_simps)
  qed (rule that, auto)
  obtain es ws' where f: "fill_entries w (vb_entries d) ws = (es, ws')" by (cases "fill_entries w (vb_entries d) ws")
  obtain us where u: "ws = us @ ws'" "mset (valid_entries es) = mset (valid_entries (vb_entries d)) + stamped w us" "length es = length (vb_entries d)"
     "us = [] \<longrightarrow> es = vb_entries d \<and> (ws = [] \<or> valid_entries (vb_entries d) = vb_entries d)"
    using fill_entries_ok [OF f assms(4)] by blast
  define d1 where "d1 = d\<lparr>vb_empty := (if length ws' = length ws then vb_empty d else False), vb_entries := es\<rparr>"
  have fill: "v1_fill w d ws = (d1, ws')" using f by (simp add: v1_fill_def d1_def)
  have ok1: "v1_page (s[b := (s ! b)\<lparr>pg_body := FsmV1 d1\<rparr>] ! b)" "page_entries (s[b := (s ! b)\<lparr>pg_body := FsmV1 d1\<rparr>] ! b) = valid_entries es"
    using d u assms(2) by (auto simp: v1_page_def page_entries_def d1_def)
  have full: "us = [] \<longrightarrow> full_page (s ! b)" using u(4) d assms(3) by (auto simp: full_page_def)
  have unwritten: "s[b := (s ! b)\<lparr>pg_body := FsmV1 d1\<rparr>] = s" if z: "length ws' = length ws"
  proof -
    have us: "us = []" using z u(1) by simp
    then have "es = vb_entries d" "valid_entries (vb_entries d) = vb_entries d" using u(4) assms(3) by auto
    then have "pg_body (s ! b) = FsmV1 d" "d1 = d" using d v1_default_simps z by (auto simp: d1_def entries_per_page)
    then show ?thesis by (metis list_update_id page.surjective page.update_convs(3))
  qed
  show thesis
  proof (cases "v1_block_at s b = Some None \<or> vb_empty d \<or> any_invalid d")
    case True
    have "v1_extend_loop w s b ws = (if ws' = [] then Some (s[b := (s ! b)\<lparr>pg_body := FsmV1 d1\<rparr>])
       else Option.bind (v1_next_page (s[b := (s ! b)\<lparr>pg_body := FsmV1 d1\<rparr>]) b) (\<lambda>(s, b). v1_extend_loop w s b ws'))"
      using True fill assms(2) d(1) unwritten by (auto simp: v1_extend_loop.simps [of w s b ws])
    then show ?thesis using u(2) d(3) ok1(2) full by (intro that [OF u(1) ok1(1)]) simp_all
  next
    case False
    then have dd: "v1_block_at s b = Some (Some d)" "pg_body (s ! b) = FsmV1 d" "full_page (s ! b)"
      using d by (auto simp: any_invalid_iff full_page_def)
    have same: "s[b := (s ! b)\<lparr>pg_body := FsmV1 d\<rparr>] = s" using dd(2) by (metis list_update_id page.surjective page.update_convs(3))
    show ?thesis using False dd assms(1,3) same by (intro that [of "[]" ws "FsmV1 d"]) (auto simp: v1_extend_loop.simps [of w s b ws])
  qed
qed
lemma v1_chain_body:
  assumes "v1_chain s bs" "b \<in> set bs" "v1_page (s[b := (s ! b)\<lparr>pg_body := c\<rparr>] ! b)"
  shows "v1_chain (s[b := (s ! b)\<lparr>pg_body := c\<rparr>]) bs"
proof -
  have "v1_page (s[b := (s ! b)\<lparr>pg_body := c\<rparr>] ! x)" if "x \<in> set bs" for x
    using assms that by (cases "x = b") (auto simp: v1_chain_def)
  then show ?thesis using assms(1) by (simp add: v1_chain_def)
qed

lemma v1_entries_body:
  assumes "distinct bs" "b \<in> set bs" "mset (page_entries (s[b := (s ! b)\<lparr>pg_body := c\<rparr>] ! b)) = mset (page_entries (s ! b)) + M"
  shows "mset (v1_entries (s[b := (s ! b)\<lparr>pg_body := c\<rparr>]) bs) = mset (v1_entries s bs) + M"
  using assms
proof (induction bs)
  case (Cons x bs)
  show ?case
  proof (cases "x = b")
    case True
    then have "b \<notin> set bs" using Cons.prems(1) by simp
    then have "v1_entries (s[b := (s ! b)\<lparr>pg_body := c\<rparr>]) bs = v1_entries s bs" by (intro v1_entries_cong) (simp add: nth_update_outside)
    then show ?thesis using True Cons.prems(3) by simp
  next
    case False
    then show ?thesis using Cons by simp
  qed
qed simp

text \<open>A new page at the end of the chain.\<close>

lemma v1_chain_grow:
  assumes "v1_chain s (bs @ [b])" "length s < InvalidBlockNumber"
  obtains s' where "v1_next_page s b = Some (s', length s)" "v1_chain s' (bs @ [b, length s])" "v1_entries s' (bs @ [b, length s]) = v1_entries s (bs @ [b])"
    "\<not> full_page (s' ! length s)" "frame (set (bs @ [b])) s s'" "length s' = Suc (length s)"
proof -
  have b: "b < length s" "b \<noteq> InvalidBlockNumber" "pg_next (s ! b) = InvalidBlockNumber" "b \<notin> set bs" "distinct bs" "lseg s (hd (bs @ [b])) bs b"
    using assms(1) by (auto simp: v1_chain_def lseg_snoc)
  define n where "n = length s"
  define s1 where "s1 = s @ [blank_page\<lparr>pg_body := FsmV1 v1_default\<rparr>]"
  define s' where "s' = s1[b := (s1 ! b)\<lparr>pg_next := n\<rparr>]"
  have np: "v1_next_page s b = Some (s', n)" using assms(2) b by (simp add: v1_next_page_def s'_def s1_def n_def)
  have old: "x < length s \<and> x \<noteq> n" if "x \<in> set (bs @ [b])" for x using v1_chain_bound [OF assms(1) that] by (simp add: n_def)
  have len: "length s' = Suc (length s)" by (simp add: s'_def s1_def)
  have at: "s' ! n = blank_page\<lparr>pg_body := FsmV1 v1_default\<rparr>" "pg_next (s' ! b) = n" "\<And>x. x < length s \<Longrightarrow> pg_body (s' ! x) = pg_body (s ! x)"
    "\<And>x. x < length s \<Longrightarrow> x \<noteq> b \<Longrightarrow> s' ! x = s ! x"
    using b(1) by (auto simp: s'_def s1_def n_def nth_append nth_list_update)
  have "lseg s' (hd (bs @ [b])) bs b" by (rule lseg_cong [OF b(6)]) (use old b(4) at(4) len in force)
  then have "lseg s' (hd (bs @ [b])) (bs @ [b]) n" using b(1,2) at(2) by (simp add: lseg_snoc s'_def s1_def)
  then have "pages_from s' (hd (bs @ [b])) ((bs @ [b]) @ [n])" unfolding lseg_snoc using at(1) assms(2) len by (simp add: n_def)
  then have pf: "pages_from s' (hd (bs @ [b, n])) (bs @ [b, n])" by (cases bs) simp_all
  have vp: "v1_page (s' ! x)" if "x \<in> set (bs @ [b, n])" for x
  proof (cases "x = n")
    case True
    then show ?thesis using at(1) by (simp add: v1_page_def v1_default_simps)
  next
    case False
    then have "x \<in> set (bs @ [b])" using that by auto
    then show ?thesis using v1_chain_bound [OF assms(1)] at(3) by (simp add: v1_page_def)
  qed
  have "v1_entries s' (bs @ [b]) = v1_entries s (bs @ [b])" by (rule v1_entries_cong) (use old at(3) in blast)
  then have e: "v1_entries s' (bs @ [b, n]) = v1_entries s (bs @ [b])" using at(1) by (simp add: page_entries_def v1_default_simps)
  have "frame (set (bs @ [b])) s s'" unfolding s'_def s1_def by (rule frame_step) simp_all
  moreover have "\<not> full_page (s' ! n)" using at(1) by (simp add: full_page_def page_entries_def v1_default_simps entries_per_page)
  moreover have "v1_chain s' (bs @ [b, n])" using pf vp old b(4,5) by (auto simp: v1_chain_def)
  ultimately show thesis using np e len that unfolding n_def by blast
qed

definition v1_added :: "xid \<Rightarrow> store \<Rightarrow> block_number list \<Rightarrow> block_number list \<Rightarrow> store \<Rightarrow> bool" where
  "v1_added w s bs ws s' \<longleftrightarrow> (\<exists>new. v1_chain s' (bs @ new) \<and> mset (v1_entries s' (bs @ new)) = mset (v1_entries s bs) + stamped w ws) \<and> frame (set bs) s s'"

lemma v1_added_trans:
  assumes "mset (v1_entries s1 bs) = mset (v1_entries s bs) + stamped w us" "frame (set bs) s s1" "v1_added w s1 bs ws' s'"
  shows "v1_added w s bs (us @ ws') s'"
  using assms frame_trans [OF assms(2), of "set bs" s'] by (auto simp: v1_added_def ac_simps)

lemma v1_added_grow:
  assumes "v1_entries s1 (bs @ [n]) = v1_entries s bs" "frame (set bs) s s1" "length s \<le> n" "v1_added w s1 (bs @ [n]) ws s'"
  shows "v1_added w s bs ws s'"
proof -
  have "frame (set bs \<union> {length s..}) s1 s'" using assms(3,4) by (auto simp: v1_added_def intro: frame_mono)
  then have "frame (set bs) s s'" by (rule frame_new [OF assms(2)])
  then show ?thesis using assms(1,4) unfolding v1_added_def by auto
qed

lemma v1_extend_loop_ok:
  assumes "v1_chain s (pre @ b # post)" "ws \<noteq> []" "InvalidBlockNumber \<notin> set ws" "length s + length ws \<le> InvalidBlockNumber + (if full_page (s ! b) then 0 else 1)"
  shows "\<exists>s'. v1_extend_loop w s b ws = Some s' \<and> v1_added w s (pre @ b # post) ws s' \<and>
     length s' + (if full_page (s ! b) then 0 else 1) \<le> length s + length ws"
  using assms
proof (induction "2 * (length ws + length post) + (if full_page (s ! b) then 1 else 0)" arbitrary: s pre b post ws rule: less_induct)
  case less
  note c = less.prems(1)
  have b: "b < length s" "v1_page (s ! b)" using v1_chain_bound [OF c, of b] by auto
  obtain d us ws' where p: "ws = us @ ws'" "v1_page (s[b := (s ! b)\<lparr>pg_body := d\<rparr>] ! b)"
    "mset (page_entries (s[b := (s ! b)\<lparr>pg_body := d\<rparr>] ! b)) = mset (page_entries (s ! b)) + stamped w us" "us = [] \<longrightarrow> full_page (s ! b)"
    "v1_extend_loop w s b ws = (if ws' = [] then Some (s[b := (s ! b)\<lparr>pg_body := d\<rparr>])
       else Option.bind (v1_next_page (s[b := (s ! b)\<lparr>pg_body := d\<rparr>]) b) (\<lambda>(s, b). v1_extend_loop w s b ws'))"
    by (rule v1_extend_page [OF b(2,1) less.prems(2,3)])
  define s1 where "s1 = s[b := (s ! b)\<lparr>pg_body := d\<rparr>]"
  have c1: "v1_chain s1 (pre @ b # post)" unfolding s1_def by (rule v1_chain_body [OF c _ p(2)]) simp
  have e1: "mset (v1_entries s1 (pre @ b # post)) = mset (v1_entries s (pre @ b # post)) + stamped w us"
    unfolding s1_def by (rule v1_entries_body [OF _ _ p(3)]) (use c in \<open>simp_all add: v1_chain_def\<close>)
  have f1: "frame (set (pre @ b # post)) s s1" "length s1 = length s" by (simp_all add: s1_def)
  have iv: "InvalidBlockNumber \<notin> set ws'" using less.prems(3) p(1) by simp
  have le: "length ws' + (if full_page (s ! b) then 0 else 1) \<le> length ws" using p(1,4) by (cases us) auto
  have add: "v1_added w s (pre @ b # post) ws s'" if "v1_added w s1 (pre @ b # post) ws' s'" for s'
    unfolding p(1) by (rule v1_added_trans [OF e1 f1(1) that])
  consider (fin) "ws' = []" | (link) q post' where "ws' \<noteq> []" "post = q # post'" | (grow) "ws' \<noteq> []" "post = []" by (cases post) auto
  then show ?case
  proof cases
    case fin
    have "v1_added w s1 (pre @ b # post) ws' s1" unfolding v1_added_def using c1 fin by (auto intro!: exI [of _ "[]"])
    then show ?thesis using add fin p(5) f1(2) le less.prems(2) by (auto simp: s1_def [symmetric] Suc_le_eq)
  next
    case (link q post')
    have "pg_next (s1 ! b) = q" using c1 link(2) by (auto simp: v1_chain_def lseg_append)
    then have l: "v1_extend_loop w s b ws = v1_extend_loop w s1 q ws'" using p(5) link b(1) v1_chain_bound [OF c, of q]
      by (simp add: s1_def [symmetric] v1_next_page_def f1(2))
    have c2: "v1_chain s1 ((pre @ [b]) @ q # post')" using c1 link(2) by simp
    have "\<exists>s'. v1_extend_loop w s1 q ws' = Some s' \<and> v1_added w s1 ((pre @ [b]) @ q # post') ws' s' \<and> length s' \<le> length s1 + length ws'"
      using less.hyps [OF _ c2 link(1) iv] less.prems(4) le f1(2) link(2) by (cases "full_page (s1 ! q)"; cases "full_page (s ! b)") force+
    then show ?thesis using le f1(2) link(2) l add by auto
  next
    case grow
    have sp: "length s1 < InvalidBlockNumber" using less.prems(4) le grow(1) f1(2) by (cases ws') (auto split: if_splits)
    obtain s2 where g: "v1_next_page s1 b = Some (s2, length s1)" "v1_chain s2 (pre @ [b, length s1])"
      "v1_entries s2 (pre @ [b, length s1]) = v1_entries s1 (pre @ [b])" "\<not> full_page (s2 ! length s1)" "frame (set (pre @ [b])) s1 s2" "length s2 = Suc (length s1)"
      using v1_chain_grow [OF _ sp, of pre b] c1 grow(2) by auto
    have l: "v1_extend_loop w s b ws = v1_extend_loop w s2 (length s1) ws'" using p(5) grow(1) g(1) by (simp add: s1_def [symmetric])
    have c2: "v1_chain s2 ((pre @ [b]) @ length s1 # [])" using g(2) by simp
    have "\<exists>s'. v1_extend_loop w s2 (length s1) ws' = Some s' \<and> v1_added w s2 ((pre @ [b]) @ [length s1]) ws' s' \<and> length s' + 1 \<le> length s2 + length ws'"
      using less.hyps [OF _ c2 grow(1) iv] less.prems(4) le f1(2) g(4,6) grow(2) by (auto split: if_splits)
    then show ?thesis using l g(6) f1(2) le add v1_added_grow [OF _ g(5), of "length s1"] g(3) grow(2) by (auto split: if_splits)
  qed
qed
section \<open>Conversion\<close>

text \<open>A \<open>v1\<close> list on the pages \<open>bs\<close> beside a free space manager with a slot for the first normal transaction id.\<close>

definition both ::
  "store \<Rightarrow> block_number list \<Rightarrow> block_number \<Rightarrow> (nat \<times> unit \<times> block_number) list \<Rightarrow> block_number list \<Rightarrow> (block_number \<Rightarrow> block_number list) \<Rightarrow> bool" where
  "both s bs v2 xs ts G \<longleftrightarrow> fsm_inv s v2 xs ts G \<and> v1_chain s bs \<and> insert v2 (set (fsm_pages G xs ts)) \<inter> set bs = {} \<and>
     (map_of xs FirstNormalTransactionId \<noteq> None \<or> ts \<noteq> [])"

lemma both_drained:
  assumes "both s bs v2 xs ts G" "drained env n s (hd bs) bs k ds s'"
  shows "both s' bs v2 xs ts G" "fsm_entries s' G xs = fsm_entries s G xs"
proof -
  note b = assms(1) [unfolded both_def] and d = assms(2) [unfolded drained_def]
  have i: "fsm_inv s v2 xs ts G" "frame (set bs) s s'" "v2 \<notin> set bs" "set (fsm_pages G xs ts) \<inter> set bs = {}" using b d by auto
  have len: "length s' \<le> InvalidBlockNumber" using fsm_inv_dest(1) [OF i(1)] d by simp
  show "both s' bs v2 xs ts G" unfolding both_def using fsm_inv_frame(1) [OF i len] b d by (auto simp: v1_chain_def)
  show "fsm_entries s' G xs = fsm_entries s G xs" by (rule fsm_inv_frame(2) [OF i len])
qed

lemma both_extend:
  assumes "both s bs v2 xs ts G" "ws \<noteq> []" "length s + length ws \<le> InvalidBlockNumber"
  obtains s' xs' ts' G' where "extend_with_when_recyclable env s v2 FirstNormalTransactionId ws = Some s'" "both s' bs v2 xs' ts' G'"
    "fsm_entries s' G' xs' = fsm_entries s G xs + image_mset (Pair FirstNormalTransactionId) (mset ws)"
    "v1_entries s' bs = v1_entries s bs" "length s' \<le> length s + length ws" "frame (insert v2 (set (fsm_pages G xs ts))) s s'"
    "set (fsm_pages G' xs' ts') \<subseteq> set (fsm_pages G xs ts) \<union> {length s..}"
proof -
  note b = assms(1) [unfolded both_def]
  have w: "FirstNormalTransactionId = (if create_index env then FirstNormalTransactionId else FirstNormalTransactionId)" by simp
  have i: "fsm_inv s v2 xs ts G" and r: "map_of xs FirstNormalTransactionId \<noteq> None \<or> ts \<noteq> []" using b by auto
  obtain s' xs' ts' G' t where e: "extend_with_when_recyclable env s v2 FirstNormalTransactionId ws = Some s'"
    "fsm_inv s' v2 xs' ts' G'" "frame (insert v2 (set (G t))) s s'" "length s' \<le> length s + length ws"
    "fsm_entries s' G' xs' = fsm_entries s G xs + image_mset (Pair FirstNormalTransactionId) (mset ws)"
    "mset (fsm_pages G' xs' ts') = mset (fsm_pages G xs ts) + mset [length s..<length s']"
    "map_of xs' = (map_of xs)(FirstNormalTransactionId \<mapsto> ((), t))"
    "map_of xs FirstNormalTransactionId = Some ((), t) \<or> map_of xs FirstNormalTransactionId = None \<and> t \<in> set ts"
    "\<forall>t'. t' \<noteq> t \<longrightarrow> G' t' = G t'" "set (fsm_tags xs' ts') = set (fsm_tags xs ts)"
    by (rule extend_room [OF i assms(2) w order_refl assms(3) r])
  have "t \<in> set (fsm_tags xs ts)" using e(8) fsm_tag_in [of xs FirstNormalTransactionId "()" t ts] by (auto simp: fsm_tags_def)
  then have gt: "set (G t) \<subseteq> set (fsm_pages G xs ts)" by (auto simp: fsm_pages_def)
  have old: "s' ! x = s ! x \<and> x < length s" if "x \<in> set bs" for x
    using frame_nth [OF e(3), of x] v1_chain_bound [of s bs x] that b gt by auto
  have "v1_chain s' bs" using b lseg_cong [of s "hd bs" bs InvalidBlockNumber s'] old frame_length [OF e(3)] by (fastforce simp: v1_chain_def)
  moreover have pg: "set (fsm_pages G' xs' ts') = set (fsm_pages G xs ts) \<union> {length s..<length s'}" using arg_cong [OF e(6), of set_mset] by simp
  ultimately have "both s' bs v2 xs' ts' G'" unfolding both_def using e(2,7) b old by fastforce
  moreover have "v1_entries s' bs = v1_entries s bs" by (rule v1_entries_cong) (use old in simp)
  moreover have "frame (insert v2 (set (fsm_pages G xs ts))) s s'" by (rule frame_mono [OF e(3)]) (use gt in auto)
  moreover have "set (fsm_pages G' xs' ts') \<subseteq> set (fsm_pages G xs ts) \<union> {length s..}" unfolding pg by auto
  ultimately show thesis using that e(1,4,5) by blast
qed

lemma convert_loop_ok:
  assumes "both s bs v2 xs ts G" "length s + length (v1_entries s bs) + k \<le> InvalidBlockNumber"
  shows "\<exists>s' xs' ts' G' ds. convert_loop env s (hd bs) v2 = Some s' \<and> both s' bs v2 xs' ts' G' \<and> mset (v1_entries s bs) = mset (v1_entries s' bs) + mset ds \<and>
     (\<forall>e\<in>set ds. passing env e) \<and> fsm_entries s' G' xs' = fsm_entries s G xs + image_mset (Pair FirstNormalTransactionId) (mset (map fst ds)) \<and>
     ((\<forall>b. can_lock env b) \<longrightarrow> (\<forall>e\<in>set (v1_entries s' bs). \<not> passing env e)) \<and> length s' + k \<le> InvalidBlockNumber \<and>
     frame (insert v2 (set bs \<union> set (fsm_pages G xs ts))) s s' \<and> set (fsm_pages G' xs' ts') \<subseteq> set (fsm_pages G xs ts) \<union> {length s..}"
  using assms
proof (induction "length (v1_entries s bs)" arbitrary: s xs ts G rule: less_induct)
  case less
  have ch: "pages_from s (hd bs) bs" "distinct bs" "\<forall>b\<in>set bs. v1_page (s ! b)" using less.prems(1) by (auto simp: both_def v1_chain_def)
  obtain s1 ds where d: "v1_drain env s (hd bs) 1000 = Some (s1, map fst ds)" "drained env 1000 s (hd bs) bs 0 ds s1"
    using v1_drain_loop_ok [OF ch, of "[]" 1000 env] by (auto simp: v1_drain_def)
  note b1 = both_drained [OF less.prems(1) d(2)]
  have e1: "mset (v1_entries s bs) = mset (v1_entries s1 bs) + mset ds" "\<forall>e\<in>set ds. passing env e" "length s1 = length s"
    "length ds < 1000 \<longrightarrow> (\<forall>b. can_lock env b) \<longrightarrow> (\<forall>e\<in>set (v1_entries s1 bs). \<not> passing env e)"
    using d(2) by (auto simp: drained_def)
  have ln: "length (v1_entries s bs) = length (v1_entries s1 bs) + length ds" using arg_cong [OF e1(1), of size] by simp
  show ?case
  proof (cases "ds = []")
    case True
    then have "convert_loop env s (hd bs) v2 = Some s1" using d(1) by (simp add: convert_loop.simps [of env s])
    moreover have "frame (insert v2 (set bs \<union> set (fsm_pages G xs ts))) s s1" using d(2) by (auto simp: drained_def intro: frame_mono)
    ultimately show ?thesis using True b1 e1 less.prems(2)
      by (intro exI [of _ s1] exI [of _ xs] exI [of _ ts] exI [of _ G] exI [of _ "[]"]) auto
  next
    case False
    then have ne: "map fst ds \<noteq> []" by simp
    have sp: "length s1 + length (map fst ds) \<le> InvalidBlockNumber" using less.prems(2) ln e1(3) by simp
    obtain s2 xs2 ts2 G2 where x: "extend_with_when_recyclable env s1 v2 FirstNormalTransactionId (map fst ds) = Some s2" "both s2 bs v2 xs2 ts2 G2"
      "fsm_entries s2 G2 xs2 = fsm_entries s1 G xs + image_mset (Pair FirstNormalTransactionId) (mset (map fst ds))"
      "v1_entries s2 bs = v1_entries s1 bs" "length s2 \<le> length s1 + length (map fst ds)"
      "frame (insert v2 (set (fsm_pages G xs ts))) s1 s2" "set (fsm_pages G2 xs2 ts2) \<subseteq> set (fsm_pages G xs ts) \<union> {length s1..}"
      by (rule both_extend [OF b1(1) ne sp])
    have lt: "length (v1_entries s2 bs) < length (v1_entries s bs)" using ln x(4) False by (cases ds) simp_all
    have sp2: "length s2 + length (v1_entries s2 bs) + k \<le> InvalidBlockNumber" using less.prems(2) ln x(4,5) e1(3) by simp
    obtain s' xs' ts' G' ds' where r: "convert_loop env s2 (hd bs) v2 = Some s'" "both s' bs v2 xs' ts' G'" "mset (v1_entries s2 bs) = mset (v1_entries s' bs) + mset ds'"
      "\<forall>e\<in>set ds'. passing env e" "fsm_entries s' G' xs' = fsm_entries s2 G2 xs2 + image_mset (Pair FirstNormalTransactionId) (mset (map fst ds'))"
      "(\<forall>b. can_lock env b) \<longrightarrow> (\<forall>e\<in>set (v1_entries s' bs). \<not> passing env e)" "length s' + k \<le> InvalidBlockNumber"
      "frame (insert v2 (set bs \<union> set (fsm_pages G2 xs2 ts2))) s2 s'" "set (fsm_pages G' xs' ts') \<subseteq> set (fsm_pages G2 xs2 ts2) \<union> {length s2..}"
      using less.hyps [OF lt x(2) sp2] by (elim exE conjE) (rule that)
    let ?V = "insert v2 (set bs \<union> set (fsm_pages G xs ts))"
    have "frame (set bs) s s1" using d(2) by (simp add: drained_def)
    from frame_trans [OF this x(6)] have f2: "frame ?V s s2" by (auto intro: frame_mono)
    have "frame (?V \<union> {length s..}) s2 s'" by (rule frame_mono [OF r(8)]) (use x(7) e1(3) in auto)
    from frame_new [OF f2 this] have fr: "frame ?V s s'" .
    have pg: "set (fsm_pages G' xs' ts') \<subseteq> set (fsm_pages G xs ts) \<union> {length s..}" using r(9) x(7) e1(3) frame_length [OF f2] by auto
    have "convert_loop env s (hd bs) v2 = Some s'" using d(1) ne x(1) r(1) by (simp add: convert_loop.simps [of env s])
    then show ?thesis using fr pg r(2-7) e1(1,2) x(3,4) b1(2)
      by (intro exI [of _ s'] exI [of _ xs'] exI [of _ ts'] exI [of _ G'] exI [of _ "ds @ ds'"]) (auto simp: ac_simps)
  qed
qed

lemma convert_ok:
  assumes "both s bs v2 xs ts G" "length s + length (v1_entries s bs) + length bs + k \<le> InvalidBlockNumber" "\<forall>b. can_lock env b"
  shows "\<exists>s' xs' ts' G'. convert_v1_to_v2 env s (hd bs) v2 = Some s' \<and> fsm_inv s' v2 xs' ts' G' \<and>
     fsm_entries s' G' xs' = fsm_entries s G xs +
       image_mset (Pair FirstNormalTransactionId) (mset (map fst (filter (passing env) (v1_entries s bs))) + mset bs) \<and>
     frame (insert v2 (set bs \<union> set (fsm_pages G xs ts))) s s' \<and> set (fsm_pages G' xs' ts') \<subseteq> set (fsm_pages G xs ts) \<union> {length s..} \<and>
     (map_of xs' FirstNormalTransactionId \<noteq> None \<or> ts' \<noteq> []) \<and> length s' + k \<le> InvalidBlockNumber"
proof -
  have sp: "length s + length (v1_entries s bs) + (length bs + k) \<le> InvalidBlockNumber" using assms(2) by simp
  obtain s1 xs1 ts1 G1 ds where c: "convert_loop env s (hd bs) v2 = Some s1" "both s1 bs v2 xs1 ts1 G1" "mset (v1_entries s bs) = mset (v1_entries s1 bs) + mset ds"
     "\<forall>e\<in>set ds. passing env e" "fsm_entries s1 G1 xs1 = fsm_entries s G xs + image_mset (Pair FirstNormalTransactionId) (mset (map fst ds))"
     "(\<forall>b. can_lock env b) \<longrightarrow> (\<forall>e\<in>set (v1_entries s1 bs). \<not> passing env e)" "length s1 + (length bs + k) \<le> InvalidBlockNumber"
     "frame (insert v2 (set bs \<union> set (fsm_pages G xs ts))) s s1" "set (fsm_pages G1 xs1 ts1) \<subseteq> set (fsm_pages G xs ts) \<union> {length s..}"
    using convert_loop_ok [where env = env, OF assms(1) sp] by (elim exE conjE) (rule that)
  have ch: "bs \<noteq> []" "pages_from s1 (hd bs) bs" using c(2) by (auto simp: both_def v1_chain_def)
  have f: "mset (filter (passing env) (v1_entries s bs)) = mset ds"
  proof -
    have "filter_mset (passing env) (mset (v1_entries s1 bs)) = {#}" using c(6) assms(3) by simp
    moreover have "filter_mset (passing env) (mset ds) = mset ds" using c(4) by (simp add: filter_mset_eq_conv)
    ultimately show ?thesis using c(3) by simp
  qed
  obtain s2 xs2 ts2 G2 where x: "extend_with_when_recyclable env s1 v2 FirstNormalTransactionId bs = Some s2" "both s2 bs v2 xs2 ts2 G2"
    "fsm_entries s2 G2 xs2 = fsm_entries s1 G1 xs1 + image_mset (Pair FirstNormalTransactionId) (mset bs)"
    "v1_entries s2 bs = v1_entries s1 bs" "length s2 \<le> length s1 + length bs"
    "frame (insert v2 (set (fsm_pages G1 xs1 ts1))) s1 s2" "set (fsm_pages G2 xs2 ts2) \<subseteq> set (fsm_pages G1 xs1 ts1) \<union> {length s1..}"
    by (rule both_extend [OF c(2) ch(1)]) (use c(7) in simp)
  have "convert_v1_to_v2 env s (hd bs) v2 = Some s2" using c(1) walk_pages_ok [OF ch(2)] x(1) by (simp add: convert_v1_to_v2_def used_blocks_def)
  moreover have "fsm_inv s2 v2 xs2 ts2 G2" using x(2) by (simp add: both_def)
  moreover have "map_of xs2 FirstNormalTransactionId \<noteq> None \<or> ts2 \<noteq> []" using x(2) by (simp add: both_def)
  moreover have "frame (insert v2 (set bs \<union> set (fsm_pages G xs ts)) \<union> {length s..}) s1 s2" by (rule frame_mono [OF x(6)]) (use c(9) in auto)
  then have "frame (insert v2 (set bs \<union> set (fsm_pages G xs ts))) s s2" by (rule frame_new [OF c(8)])
  moreover have "set (fsm_pages G2 xs2 ts2) \<subseteq> set (fsm_pages G xs ts) \<union> {length s..}" using x(7) c(9) frame_length [OF c(8)] by auto
  ultimately show ?thesis using c(5,7) f x(3,5) by (intro exI [of _ s2] exI [of _ xs2] exI [of _ ts2] exI [of _ G2]) simp
qed
section \<open>Properties\<close>

text \<open>
  C12. The older free space manager is a bag of blocks, each with the transaction that freed it.  \<open>drain\<close> takes
  at most as many entries as asked for, all of which pass the horizon, and leaves every other entry; it takes
  all that pass when it gets every lock and is asked for more.  \<open>pop\<close> takes one such entry.  \<open>extend\<close> adds exactly the blocks given, under
  the low 32 bits of the transaction id.  Both keep the pages well formed.
\<close>

theorem v1_refines_bag:
  assumes "v1_chain s bs" "ws \<noteq> []" "InvalidBlockNumber \<notin> set ws" "length s + length ws \<le> InvalidBlockNumber"
  shows "(\<exists>s' ds. v1_drain env s (hd bs) n = Some (s', map fst ds) \<and> v1_chain s' bs \<and> mset (v1_entries s bs) = mset (v1_entries s' bs) + mset ds \<and>
       (\<forall>e\<in>set ds. passing env e) \<and> length ds \<le> n \<and>
       (length ds < n \<and> (\<forall>b. can_lock env b) \<longrightarrow> (\<forall>e\<in>set (v1_entries s' bs). \<not> passing env e)) \<and> frame (set bs) s s' \<and> length s' = length s) \<and>
     (\<exists>s' r. v1_pop env s (hd bs) = Some (s', r) \<and> v1_chain s' bs \<and>
       (case r of None \<Rightarrow> mset (v1_entries s' bs) = mset (v1_entries s bs) \<and> ((\<forall>b. can_lock env b) \<longrightarrow> (\<forall>e\<in>set (v1_entries s' bs). \<not> passing env e))
        | Some b \<Rightarrow> \<exists>x. passing env (b, x) \<and> mset (v1_entries s bs) = add_mset (b, x) (mset (v1_entries s' bs)))) \<and>
     (\<exists>s' new. v1_extend_with_when_recyclable s (hd bs) x ws = Some s' \<and> v1_chain s' (bs @ new) \<and>
       mset (v1_entries s' (bs @ new)) = mset (v1_entries s bs) + stamped (x mod 2 ^ 32) ws \<and> frame (set bs) s s')"
proof (intro conjI)
  have ch: "bs \<noteq> []" "distinct bs" "pages_from s (hd bs) bs" "\<forall>b\<in>set bs. v1_page (s ! b)" using assms(1) by (auto simp: v1_chain_def)
  obtain s' ds where "v1_drain env s (hd bs) n = Some (s', map fst ds)" "drained env n s (hd bs) bs 0 ds s'"
    using v1_drain_loop_ok [OF ch(3,2,4), of "[]" n env] by (auto simp: v1_drain_def)
  then show "\<exists>s' ds. v1_drain env s (hd bs) n = Some (s', map fst ds) \<and> v1_chain s' bs \<and> mset (v1_entries s bs) = mset (v1_entries s' bs) + mset ds \<and>
       (\<forall>e\<in>set ds. passing env e) \<and> length ds \<le> n \<and>
       (length ds < n \<and> (\<forall>b. can_lock env b) \<longrightarrow> (\<forall>e\<in>set (v1_entries s' bs). \<not> passing env e)) \<and> frame (set bs) s s' \<and> length s' = length s"
    using ch(1,2) by (intro exI [of _ s'] exI [of _ ds]) (auto simp: drained_def v1_chain_def)
  show "\<exists>s' r. v1_pop env s (hd bs) = Some (s', r) \<and> v1_chain s' bs \<and>
       (case r of None \<Rightarrow> mset (v1_entries s' bs) = mset (v1_entries s bs) \<and> ((\<forall>b. can_lock env b) \<longrightarrow> (\<forall>e\<in>set (v1_entries s' bs). \<not> passing env e))
        | Some b \<Rightarrow> \<exists>x. passing env (b, x) \<and> mset (v1_entries s bs) = add_mset (b, x) (mset (v1_entries s' bs)))"
    by (rule v1_pop_ok [OF assms(1)])
  have c: "v1_chain s ([] @ hd bs # tl bs)" using assms(1) ch(1) by simp
  have sp: "length s + length ws \<le> InvalidBlockNumber + (if full_page (s ! hd bs) then 0 else 1)" using assms(4) by simp
  show "\<exists>s' new. v1_extend_with_when_recyclable s (hd bs) x ws = Some s' \<and> v1_chain s' (bs @ new) \<and>
       mset (v1_entries s' (bs @ new)) = mset (v1_entries s bs) + stamped (x mod 2 ^ 32) ws \<and> frame (set bs) s s'"
    using v1_extend_loop_ok [OF c assms(2,3) sp, of "x mod 2 ^ 32"] ch(1)
    by (auto simp: v1_added_def v1_extend_with_when_recyclable_def)
qed

text \<open>
  C33. When every conditional lock on a page of the old manager is granted, the conversion puts on record in the new
  free space manager, under the first normal transaction id, every block of the old one that passes the horizon and the
  pages of the old one themselves.  The blocks that do not pass are on record nowhere afterwards.  Only pages of the two
  managers are written.
\<close>

theorem conversion_keeps_passing_blocks:
  assumes "both s bs v2 xs ts G" "length s + length (v1_entries s bs) + length bs \<le> InvalidBlockNumber" "\<forall>b. can_lock env b"
  shows "\<exists>s' xs' ts' G'. convert_v1_to_v2 env s (hd bs) v2 = Some s' \<and> fsm_inv s' v2 xs' ts' G' \<and>
     fsm_entries s' G' xs' = fsm_entries s G xs +
       image_mset (Pair FirstNormalTransactionId) (mset (map fst (filter (passing env) (v1_entries s bs))) + mset bs) \<and>
     frame (insert v2 (set bs \<union> set (fsm_pages G xs ts))) s s'"
  using convert_ok [of s bs v2 xs ts G 0 env] assms by auto

subsection \<open>An example\<close>

text \<open>Block 6 was freed by transaction 3, block 5 by transaction 9, which is after the current one.\<close>

definition ex_v1 :: store where
  "ex_v1 = ex_pool[4 := blank_page\<lparr>pg_body := FsmV1 (v1_default
     \<lparr>vb_entries := [(6, 3), (5, 9)] @ replicate 1017 (InvalidBlockNumber, InvalidTransactionId)\<rparr>)\<rparr>]"

lemma ex_v1_ok:
  "both ex_v1 [4] 1 [(5, (), 2)] [3] (\<lambda>t. [t])" "v1_entries ex_v1 [4] = [(6, 3), (5, 9)]" "passing ex_env (6, 3)" "\<not> passing ex_env (5, 9)"
  "length ex_v1 = 9"
proof -
  have t: "avl_rel (ex_tree [2, 3]) [(5, (), 2)] [3]" by (rule ex_tree_rel) simp
  have "fsm_inv ex_v1 1 [(5, (), 2)] [3] (\<lambda>t. [t])"
    using t by (auto simp: fsm_inv_def ex_v1_def ex_pool_def fsm_tags_def fsm_pages_def leaf_ok_def leaf_blocks_def as_leaf_def
        InvalidBlockNumber_def FirstNormalTransactionId_def)
  moreover have "v1_chain ex_v1 [4]"
    by (simp add: v1_chain_def ex_v1_def ex_pool_def v1_page_def entries_per_page v1_default_simps InvalidBlockNumber_def)
  ultimately show "both ex_v1 [4] 1 [(5, (), 2)] [3] (\<lambda>t. [t])" by (simp add: both_def fsm_pages_def fsm_tags_def)
  have "6 \<noteq> InvalidBlockNumber" "5 \<noteq> InvalidBlockNumber" by (simp_all add: InvalidBlockNumber_def)
  then show "v1_entries ex_v1 [4] = [(6, 3), (5, 9)]"
    by (simp add: ex_v1_def ex_pool_def page_entries_def valid_entries_replicate)
  show "passing ex_env (6, 3)" "\<not> passing ex_env (5, 9)"
    by (simp_all add: passing_def passes_visibility_horizon_def transaction_id_precedes_or_equals_def xid_horizon_def ex_env_def FirstNormalTransactionId_def)
  show "length ex_v1 = 9" by (simp add: ex_v1_def ex_pool_def)
qed

theorem v1_refines_bag_witness:
  "\<exists>s'. v1_drain ex_env ex_v1 4 5 = Some (s', [6]) \<and> v1_entries s' [4] = [(5, 9)]"
proof -
  have c: "v1_chain ex_v1 [4]" using ex_v1_ok(1) by (simp add: both_def)
  have l: "\<forall>b. can_lock ex_env b" by (simp add: ex_env_def)
  obtain s' ds where d: "v1_drain ex_env ex_v1 4 5 = Some (s', map fst ds)" "mset (v1_entries ex_v1 [4]) = mset (v1_entries s' [4]) + mset ds"
     "\<forall>e\<in>set ds. passing ex_env e" "length ds < 5 \<and> (\<forall>b. can_lock ex_env b) \<longrightarrow> (\<forall>e\<in>set (v1_entries s' [4]). \<not> passing ex_env e)"
    using v1_refines_bag [OF c, of "[6]" ex_env 5 7] ex_v1_ok(5) by (auto simp: InvalidBlockNumber_def)
  have n: "length (v1_entries s' [4]) + length ds = 2" using arg_cong [OF d(2), of size] ex_v1_ok(2) by simp
  have "filter_mset (passing ex_env) (mset (v1_entries s' [4])) = {#}" using d(4) l n by simp
  moreover have "filter_mset (passing ex_env) (mset ds) = mset ds" using d(3) by (simp add: filter_mset_eq_conv)
  moreover have "filter_mset (passing ex_env) (mset (v1_entries ex_v1 [4])) = mset [(6, 3)]"
    unfolding ex_v1_ok(2) using ex_v1_ok(3,4) by simp
  ultimately have ds: "mset ds = mset [(6, 3)]" using arg_cong [OF d(2), of "filter_mset (passing ex_env)"] by (simp only: filter_union_mset add_0)
  then have e: "mset (v1_entries s' [4]) = mset [(5, 9)]" using d(2) unfolding ex_v1_ok(2) by simp
  show ?thesis using d(1) ds e by (auto simp: mset_single_iff_right)
qed

theorem conversion_keeps_passing_blocks_witness:
  "\<exists>s' xs' ts' G'. convert_v1_to_v2 ex_env ex_v1 4 1 = Some s' \<and> fsm_inv s' 1 xs' ts' G' \<and>
     fsm_entries s' G' xs' = {#(5, 7), (5, 8), (FirstNormalTransactionId, 6), (FirstNormalTransactionId, 4)#}"
proof -
  have l: "\<forall>b. can_lock ex_env b" by (simp add: ex_env_def)
  have sp: "length ex_v1 + length (v1_entries ex_v1 [4]) + length [4 :: nat] \<le> InvalidBlockNumber" using ex_v1_ok(2,5) by (simp add: InvalidBlockNumber_def)
  have e: "fsm_entries ex_v1 (\<lambda>t. [t]) [(5, (), 2)] = {#(5, 7), (5, 8)#}" by (simp add: fsm_entries_def ex_v1_def ex_pool_def leaf_blocks_def)
  show ?thesis using conversion_keeps_passing_blocks [OF ex_v1_ok(1) sp l] unfolding e ex_v1_ok(2) using ex_v1_ok(3,4) by (fastforce simp: add_mset_commute)
qed

end
