(* ===== verification/Meta_Page.thy ===== *)
theory Meta_Page
  imports Merge_List Fsm_V1
begin

text \<open>
  The metapage, \<^verbatim>\<open>metadata.rs\<close>: block 0 of an index names the first page of every other structure.
  \<open>init\<close> lays out a new index; \<open>open\<close> reads the page and, for an index made by an older version, creates the
  structures that version did not have and converts its free space manager.
\<close>

section \<open>The model\<close>

definition METAPAGE :: block_number where "METAPAGE = 0"

text \<open>A page that was only initialised reads as zero in every field.\<close>

definition zero_meta :: meta_page_data where
  "zero_meta = \<lparr>active_vacuum_list = 0, ambulkdelete_sentinel = 0, merge_lock = 0, cleanup_lock = 0, schema_start = 0, settings_start = 0,
     segment_metas_start = 0, v1_fsm = 0, segment_meta_garbage = 0, ambulkdelete_epoch = 0, v2_fsm = 0, bgmerger = 0\<rparr>"

definition meta_at :: "store \<Rightarrow> meta_page_data option" where
  "meta_at s = do {
     c \<leftarrow> body_of s METAPAGE;
     (case c of Blank \<Rightarrow> Some zero_meta | MetaPage d \<Rightarrow> Some d | _ \<Rightarrow> None)
   }"

definition meta_init :: "store \<Rightarrow> store option" where
  "meta_init s = do {
     (s, b) \<leftarrow> init_new_buffer s;
     if b \<noteq> 0 then None
     else do {
       (s, vacuum) \<leftarrow> init_new_buffer s;
       (s, sentinel) \<leftarrow> init_new_buffer s;
       (s, lock) \<leftarrow> init_new_buffer s;
       (s, fsm) \<leftarrow> v2_create s;
       (s, garbage) \<leftarrow> li_create_without_fsm s;
       (s, cleanup) \<leftarrow> init_new_buffer s;
       (s, schema) \<leftarrow> lb_create_without_fsm s;
       (s, settings) \<leftarrow> lb_create_without_fsm s;
       (s, segments) \<leftarrow> li_create_without_fsm s;
       (s, merger) \<leftarrow> init_new_buffer s;
       set_body s b (MetaPage (zero_meta\<lparr>active_vacuum_list := vacuum, ambulkdelete_sentinel := sentinel, merge_lock := lock, v2_fsm := fsm,
         segment_meta_garbage := garbage, cleanup_lock := cleanup, schema_start := schema, settings_start := settings,
         segment_metas_start := segments, bgmerger := merger\<rparr>))
     }
   }"

definition may_need_init :: "meta_page_data \<Rightarrow> bool" where
  "may_need_init d \<longleftrightarrow> \<not> block_number_is_valid (active_vacuum_list d) \<or> \<not> block_number_is_valid (ambulkdelete_sentinel d) \<or>
     \<not> block_number_is_valid (merge_lock d) \<or> \<not> block_number_is_valid (v2_fsm d) \<or> \<not> block_number_is_valid (segment_meta_garbage d) \<or>
     \<not> block_number_is_valid (bgmerger d)"

definition ensure_block :: "(store \<Rightarrow> (store \<times> block_number) option) \<Rightarrow> store \<Rightarrow> block_number \<Rightarrow> (store \<times> block_number) option" where
  "ensure_block create s b = (if \<not> block_number_is_valid b then create s else Some (s, b))"

definition ensure_fsm :: "fsm_env \<Rightarrow> store \<Rightarrow> meta_page_data \<Rightarrow> (store \<times> meta_page_data) option" where
  "ensure_fsm env s d =
     (if \<not> block_number_is_valid (v2_fsm d)
      then do {
        (s, v2) \<leftarrow> v2_create s;
        if block_number_is_valid (v1_fsm d)
        then do {
          s \<leftarrow> convert_v1_to_v2 env s (v1_fsm d) v2;
          Some (s, d\<lparr>v2_fsm := v2, v1_fsm := InvalidBlockNumber\<rparr>)
        }
        else Some (s, d\<lparr>v2_fsm := v2\<rparr>)
      }
      else Some (s, d))"

text \<open>\<open>read_only\<close>: a hot standby, on which no log record may be written.  \<open>open\<close> reports an error there.\<close>

definition meta_open :: "fsm_env \<Rightarrow> bool \<Rightarrow> store \<Rightarrow> (store \<times> meta_page_data) option" where
  "meta_open env read_only s =
     (if read_only then None
      else do {
        d \<leftarrow> meta_at s;
        if may_need_init d
        then do {
          (s, vacuum) \<leftarrow> ensure_block init_new_buffer s (active_vacuum_list d);
          (s, sentinel) \<leftarrow> ensure_block init_new_buffer s (ambulkdelete_sentinel d);
          (s, lock) \<leftarrow> ensure_block init_new_buffer s (merge_lock d);
          (s, d) \<leftarrow> ensure_fsm env s d;
          (s, garbage) \<leftarrow> ensure_block li_create_without_fsm s (segment_meta_garbage d);
          (s, merger) \<leftarrow> ensure_block init_new_buffer s (bgmerger d);
          let d = d\<lparr>active_vacuum_list := vacuum, ambulkdelete_sentinel := sentinel, merge_lock := lock,
            segment_meta_garbage := garbage, bgmerger := merger\<rparr>;
          s \<leftarrow> set_body s METAPAGE (MetaPage d);
          Some (s, d)
        }
        else Some (s, d)
      })"

subsection \<open>What the page names\<close>

definition acquire_merge_lock :: "fsm_env \<Rightarrow> store \<Rightarrow> meta_page_data \<Rightarrow> (store \<times> block_number) option" where
  "acquire_merge_lock env s d =
     (if block_number_is_valid (merge_lock d) then merge_lock_acquire (new_buffer env (v2_fsm d)) s (merge_lock d) else None)"

definition mp_vacuum_list :: "meta_page_data \<Rightarrow> vacuum_list option" where
  "mp_vacuum_list d =
     (if block_number_is_valid (active_vacuum_list d) then Some (vl_open (active_vacuum_list d) (ambulkdelete_sentinel d)) else None)"

definition pin_ambulkdelete_sentinel :: "meta_page_data \<Rightarrow> block_number option" where
  "pin_ambulkdelete_sentinel d = (if block_number_is_valid (ambulkdelete_sentinel d) then Some (ambulkdelete_sentinel d) else None)"

definition mp_fsm :: "meta_page_data \<Rightarrow> block_number option" where
  "mp_fsm d = (if block_number_is_valid (v2_fsm d) then Some (v2_fsm d) else None)"

definition segment_metas_garbage :: "meta_page_data \<Rightarrow> block_number option" where
  "segment_metas_garbage d = (if \<not> block_number_is_valid (segment_meta_garbage d) then None else Some (segment_meta_garbage d))"

text \<open>Before these fields existed the structures were at fixed blocks.\<close>

definition LEGACY_CLEANUP_LOCK :: block_number where "LEGACY_CLEANUP_LOCK = 1"
definition LEGACY_SCHEMA_START :: block_number where "LEGACY_SCHEMA_START = 2"
definition LEGACY_SETTINGS_START :: block_number where "LEGACY_SETTINGS_START = 4"
definition LEGACY_SEGMENT_METAS_START :: block_number where "LEGACY_SEGMENT_METAS_START = 6"

definition mp_cleanup_lock :: "meta_page_data \<Rightarrow> block_number" where
  "mp_cleanup_lock d = (if cleanup_lock d = 0 then LEGACY_CLEANUP_LOCK else cleanup_lock d)"

definition schema_bytes :: "meta_page_data \<Rightarrow> linked_bytes" where
  "schema_bytes d = lb_open (if schema_start d = 0 then LEGACY_SCHEMA_START else schema_start d)"

definition settings_bytes :: "meta_page_data \<Rightarrow> linked_bytes" where
  "settings_bytes d = lb_open (if settings_start d = 0 then LEGACY_SETTINGS_START else settings_start d)"

definition segment_metas :: "meta_page_data \<Rightarrow> block_number" where
  "segment_metas d = (if segment_metas_start d = 0 then LEGACY_SEGMENT_METAS_START else segment_metas_start d)"

definition increment_ambulkdelete_epoch :: "store \<Rightarrow> store option" where
  "increment_ambulkdelete_epoch s = do {
     d \<leftarrow> meta_at s;
     set_body s METAPAGE (MetaPage (d\<lparr>ambulkdelete_epoch := ambulkdelete_epoch d + 1\<rparr>))
   }"
section \<open>New structures\<close>

lemma meta_at_body: "s \<noteq> [] \<Longrightarrow> meta_at s = (case pg_body (s ! 0) of Blank \<Rightarrow> Some zero_meta | MetaPage d \<Rightarrow> Some d | _ \<Rightarrow> None)"
  by (simp add: meta_at_def METAPAGE_def)

lemma li_create_without_fsm_ok:
  assumes "Suc (length s) < InvalidBlockNumber"
  shows "li_create_without_fsm s =
    Some (s @ [blank_page\<lparr>pg_body := ListHeader \<lparr>ll_start = Suc (length s), ll_last = Suc (length s), ll_blocklist = 0\<rparr>\<rparr>, blank_page], length s)"
  using assms by (simp add: li_create_without_fsm_def list_update_append nth_append)

lemma lb_create_without_fsm_ok:
  assumes "Suc (length s) < InvalidBlockNumber"
  shows "lb_create_without_fsm s =
    Some (s @ [blank_page\<lparr>pg_body := ListHeader \<lparr>ll_start = Suc (length s), ll_last = Suc (length s), ll_blocklist = InvalidBlockNumber\<rparr>\<rparr>, blank_page], length s)"
  using assms by (simp add: lb_create_without_fsm_def list_update_append nth_append)

text \<open>An empty list whose header names a blank page.\<close>

definition empty_at :: "store \<Rightarrow> block_number \<Rightarrow> bool" where
  "empty_at s h \<longleftrightarrow> (\<exists>d. pg_body (s ! h) = ListHeader d \<and> ll_start d = Suc h) \<and> s ! Suc h = blank_page \<and> Suc h < length s \<and> Suc h \<noteq> InvalidBlockNumber"

lemma empty_at_items: "empty_at s h \<Longrightarrow> li_list dec s h = Some []"
proof -
  assume e: "empty_at s h"
  then have "li_rep (\<lambda>_. True) s h [Suc h]"
    by (auto simp: empty_at_def li_rep_def li_chain_def item_page_def get_linked_list_data_def)
  then show ?thesis using li_list_ok [of "\<lambda>_. True" s h "[Suc h]" dec] e by (simp add: li_data_def page_data_def empty_at_def live_items_def offsets_def List.map_filter_def)
qed

lemma empty_at_bytes: "empty_at s h \<Longrightarrow> read_all s (lb_open h) = Some []"
  by (auto simp: empty_at_def read_all_def lb_open_def get_start_blockno_def get_linked_list_data_def read_pages.simps [of s "Suc h"] read_pages.simps [of s InvalidBlockNumber] page_bytes_def bytes_on_def)

section \<open>A new index\<close>

lemma slots_val: "MAX_SLOTS = 338"
  by (simp add: MAX_SLOTS_def bm25_max_free_space_def BLCKSZ_def)

definition new_meta :: meta_page_data where
  "new_meta = zero_meta\<lparr>active_vacuum_list := 1, ambulkdelete_sentinel := 2, merge_lock := 3, v2_fsm := 4, segment_meta_garbage := 343,
     cleanup_lock := 345, schema_start := 346, settings_start := 348, segment_metas_start := 350, bgmerger := 352\<rparr>"

lemma meta_init_run:
  obtains s1 where "fsm_inv s1 4 [] [5..<343] (\<lambda>t. [t])" "fsm_entries s1 (\<lambda>t. [t]) [] = {#}" "length s1 = 343" "\<forall>i<4. s1 ! i = blank_page"
    "meta_init [] = Some ((s1 @
       [blank_page\<lparr>pg_body := ListHeader \<lparr>ll_start = 344, ll_last = 344, ll_blocklist = 0\<rparr>\<rparr>, blank_page, blank_page,
        blank_page\<lparr>pg_body := ListHeader \<lparr>ll_start = 347, ll_last = 347, ll_blocklist = InvalidBlockNumber\<rparr>\<rparr>, blank_page,
        blank_page\<lparr>pg_body := ListHeader \<lparr>ll_start = 349, ll_last = 349, ll_blocklist = InvalidBlockNumber\<rparr>\<rparr>, blank_page,
        blank_page\<lparr>pg_body := ListHeader \<lparr>ll_start = 351, ll_last = 351, ll_blocklist = 0\<rparr>\<rparr>, blank_page, blank_page])
       [0 := blank_page\<lparr>pg_body := MetaPage new_meta\<rparr>])"
proof -
  let ?s0 = "replicate 4 blank_page"
  have i: "InvalidBlockNumber = 4294967295" by (simp add: InvalidBlockNumber_def)
  obtain s1 where c: "v2_create ?s0 = Some (s1, 4)" "length s1 = 343" "frame {} ?s0 s1" "fsm_inv s1 4 [] [5..<343] (\<lambda>t. [t])" "fsm_entries s1 (\<lambda>t. [t]) [] = {#}"
    using v2_create_ok [of ?s0] unfolding slots_val i by auto
  have b: "\<forall>i<4. s1 ! i = blank_page" using c(3) by (auto simp: frame_def)
  have s0: "[blank_page, blank_page, blank_page, blank_page] = ?s0" by (simp add: eval_nat_numeral)
  have s10: "s1 ! 0 = blank_page" using b by simp
  have run: "meta_init [] = Some ((s1 @
       [blank_page\<lparr>pg_body := ListHeader \<lparr>ll_start = 344, ll_last = 344, ll_blocklist = 0\<rparr>\<rparr>, blank_page, blank_page,
        blank_page\<lparr>pg_body := ListHeader \<lparr>ll_start = 347, ll_last = 347, ll_blocklist = InvalidBlockNumber\<rparr>\<rparr>, blank_page,
        blank_page\<lparr>pg_body := ListHeader \<lparr>ll_start = 349, ll_last = 349, ll_blocklist = InvalidBlockNumber\<rparr>\<rparr>, blank_page,
        blank_page\<lparr>pg_body := ListHeader \<lparr>ll_start = 351, ll_last = 351, ll_blocklist = 0\<rparr>\<rparr>, blank_page, blank_page])
       [0 := blank_page\<lparr>pg_body := MetaPage new_meta\<rparr>])"
    using c(1,2) s10 by (simp add: meta_init_def i s0 li_create_without_fsm_ok lb_create_without_fsm_ok nth_append new_meta_def numeral_2_eq_2 numeral_3_eq_3)
  show thesis by (rule that [OF c(4,5,2) b run])
qed
lemma new_index:
  obtains s where "meta_init [] = Some s" "meta_at s = Some new_meta" "length s = 353" "fsm_inv s 4 [] [5..<343] (\<lambda>t. [t])"
    "fsm_entries s (\<lambda>t. [t]) [] = {#}" "empty_at s 343" "empty_at s 346" "empty_at s 348" "empty_at s 350"
proof -
  obtain s1 where r: "fsm_inv s1 4 [] [5..<343] (\<lambda>t. [t])" "fsm_entries s1 (\<lambda>t. [t]) [] = {#}" "length s1 = 343" "\<forall>i<4. s1 ! i = blank_page"
    "meta_init [] = Some ((s1 @
       [blank_page\<lparr>pg_body := ListHeader \<lparr>ll_start = 344, ll_last = 344, ll_blocklist = 0\<rparr>\<rparr>, blank_page, blank_page,
        blank_page\<lparr>pg_body := ListHeader \<lparr>ll_start = 347, ll_last = 347, ll_blocklist = InvalidBlockNumber\<rparr>\<rparr>, blank_page,
        blank_page\<lparr>pg_body := ListHeader \<lparr>ll_start = 349, ll_last = 349, ll_blocklist = InvalidBlockNumber\<rparr>\<rparr>, blank_page,
        blank_page\<lparr>pg_body := ListHeader \<lparr>ll_start = 351, ll_last = 351, ll_blocklist = 0\<rparr>\<rparr>, blank_page, blank_page])
       [0 := blank_page\<lparr>pg_body := MetaPage new_meta\<rparr>])" (is "_ = Some ?s")
    by (rule meta_init_run)
  have fr: "frame {0} s1 ?s" by (rule frame_step) simp_all
  have inv: "fsm_inv ?s 4 [] [5..<343] (\<lambda>t. [t])" "fsm_entries ?s (\<lambda>t. [t]) [] = fsm_entries s1 (\<lambda>t. [t]) []"
    by (rule fsm_inv_frame [OF r(1) fr]; simp add: fsm_pages_def fsm_tags_def InvalidBlockNumber_def r(3))+
  have "meta_at ?s = Some new_meta" using r(3) by (simp add: meta_at_def METAPAGE_def)
  moreover have "empty_at ?s 343" "empty_at ?s 346" "empty_at ?s 348" "empty_at ?s 350"
    using r(3) by (simp_all add: empty_at_def nth_append InvalidBlockNumber_def)
  ultimately show thesis using that [OF r(5)] inv r(2,3) by simp
qed

lemma meta_open_ready: "meta_at s = Some d \<Longrightarrow> \<not> may_need_init d \<Longrightarrow> meta_open env False s = Some (s, d)"
  by (simp add: meta_open_def)

lemma count_upt_le: "count (mset [a..<b]) x \<le> (1 :: nat)"
  using distinct_count_atmost_1 [of "[a..<b]"] by (simp split: if_splits)
section \<open>An index of an older version\<close>

text \<open>A field after it was ensured: valid, and a new block unless it was valid before.\<close>

definition ensured :: "store \<Rightarrow> block_number \<Rightarrow> store \<Rightarrow> block_number \<Rightarrow> bool" where
  "ensured s b s' b' \<longleftrightarrow> block_number_is_valid b' \<and> (if block_number_is_valid b then b' = b else length s \<le> b' \<and> b' < length s') \<and> frame {} s s'"

lemma ensure_block_buffer:
  assumes "s \<noteq> []" "length s < InvalidBlockNumber"
  obtains s' b' where "ensure_block init_new_buffer s b = Some (s', b')" "ensured s b s' b'" "length s' \<le> Suc (length s)"
  using assms that [of "if block_number_is_valid b then s else s @ [blank_page]" "if block_number_is_valid b then b else length s"]
  by (cases "block_number_is_valid b") (auto simp: ensure_block_def ensured_def block_number_is_valid_def)

lemma ensure_block_list:
  assumes "s \<noteq> []" "Suc (length s) < InvalidBlockNumber"
  obtains s' b' where "ensure_block li_create_without_fsm s b = Some (s', b')" "ensured s b s' b'" "length s' \<le> Suc (Suc (length s))"
    "\<not> block_number_is_valid b \<longrightarrow> empty_at s' b'"
proof (cases "block_number_is_valid b")
  case True
  then show thesis using that [of s b] by (simp add: ensure_block_def ensured_def)
next
  case False
  define s' where "s' = s @ [blank_page\<lparr>pg_body := ListHeader \<lparr>ll_start = Suc (length s), ll_last = Suc (length s), ll_blocklist = 0\<rparr>\<rparr>, blank_page]"
  have "ensure_block li_create_without_fsm s b = Some (s', length s)" using False assms by (simp add: ensure_block_def li_create_without_fsm_ok s'_def)
  moreover have "ensured s b s' (length s)" "empty_at s' (length s)" "length s' = Suc (Suc (length s))"
    using False assms by (auto simp: ensured_def block_number_is_valid_def s'_def empty_at_def nth_append)
  ultimately show thesis using that by simp
qed

text \<open>The pages of the older free space manager, when it is there to be converted.\<close>

definition old_fsm :: "store \<Rightarrow> meta_page_data \<Rightarrow> block_number list \<Rightarrow> bool" where
  "old_fsm s d bs \<longleftrightarrow> 0 \<notin> set bs \<and>
     (if \<not> block_number_is_valid (v2_fsm d) \<and> block_number_is_valid (v1_fsm d) then v1_chain s bs \<and> hd bs = v1_fsm d else bs = [])"

lemma v1_chain_frame:
  assumes "v1_chain s bs" "frame V s s'" "set bs \<inter> V = {}"
  shows "v1_chain s' bs" "v1_entries s' bs = v1_entries s bs"
proof -
  have old: "s' ! x = s ! x" if "x \<in> set bs" for x using frame_nth [OF assms(2), of x] v1_chain_bound [OF assms(1) that] that assms(3) by auto
  show "v1_entries s' bs = v1_entries s bs" by (rule v1_entries_cong) (simp add: old)
  show "v1_chain s' bs" using assms(1) lseg_frame [OF _ assms(2,3), of "hd bs" InvalidBlockNumber] old by (simp add: v1_chain_def)
qed

lemma old_fsm_frame:
  assumes "old_fsm s d bs" "frame {} s s'"
  shows "old_fsm s' d bs" "v1_entries s' bs = v1_entries s bs"
  using assms v1_chain_frame [of s bs "{}" s'] by (auto simp: old_fsm_def split: if_splits)

text \<open>The new free space manager records exactly the blocks \<open>M\<close>; its pages are at or above \<open>k\<close>.\<close>

definition fsm_filed :: "store \<Rightarrow> block_number \<Rightarrow> block_number multiset \<Rightarrow> nat \<Rightarrow> bool" where
  "fsm_filed s v2 M k \<longleftrightarrow> (\<exists>xs ts G. fsm_inv s v2 xs ts G \<and> fsm_entries s G xs = image_mset (Pair FirstNormalTransactionId) M \<and>
     k \<le> v2 \<and> set (fsm_pages G xs ts) \<subseteq> {k..} \<and> (map_of xs FirstNormalTransactionId \<noteq> None \<or> ts \<noteq> []))"

lemma fsm_filed_frame:
  assumes "fsm_filed s v2 M k" "frame V s s'" "V \<subseteq> {..<k}" "length s' \<le> InvalidBlockNumber"
  shows "fsm_filed s' v2 M k"
proof -
  obtain xs ts G where f: "fsm_inv s v2 xs ts G" "fsm_entries s G xs = image_mset (Pair FirstNormalTransactionId) M" "k \<le> v2"
    "set (fsm_pages G xs ts) \<subseteq> {k..}" "map_of xs FirstNormalTransactionId \<noteq> None \<or> ts \<noteq> []"
    using assms(1) by (auto simp: fsm_filed_def)
  have "v2 \<notin> V" "set (fsm_pages G xs ts) \<inter> V = {}" using f(3,4) assms(3) by (auto, fastforce)
  note i = fsm_inv_frame [OF f(1) assms(2) this assms(4)]
  show ?thesis unfolding fsm_filed_def by (intro exI [of _ xs] exI [of _ ts] exI [of _ G]) (use i f in simp)
qed

lemma meta_same: "d\<lparr>v2_fsm := v2_fsm d, v1_fsm := v1_fsm d\<rparr> = d" "d\<lparr>v2_fsm := x, v1_fsm := v1_fsm d\<rparr> = d\<lparr>v2_fsm := x\<rparr>"
  by (cases d, simp)+

lemma ensure_fsm_ok:
  assumes "old_fsm s d bs" "\<forall>b. can_lock env b" "length s + length (v1_entries s bs) + length bs + MAX_SLOTS + 1 + k \<le> InvalidBlockNumber" "s \<noteq> []" "0 < k"
  obtains s' v2 v1 where "ensure_fsm env s d = Some (s', d\<lparr>v2_fsm := v2, v1_fsm := v1\<rparr>)" "block_number_is_valid v2" "frame (set bs) s s'" "length s' + k \<le> InvalidBlockNumber"
    "block_number_is_valid (v2_fsm d) \<longrightarrow> v2 = v2_fsm d \<and> v1 = v1_fsm d"
    "\<not> block_number_is_valid (v2_fsm d) \<longrightarrow> \<not> block_number_is_valid v1 \<and>
       fsm_filed s' v2 (mset (map fst (filter (passing env) (v1_entries s bs))) + mset bs) (length s)"
proof (cases "block_number_is_valid (v2_fsm d)")
  case True
  then have "ensure_fsm env s d = Some (s, d\<lparr>v2_fsm := v2_fsm d, v1_fsm := v1_fsm d\<rparr>)" by (simp add: ensure_fsm_def meta_same)
  then show thesis by (rule that) (use True assms(3) in simp_all)
next
  case False
  have "length s + MAX_SLOTS < InvalidBlockNumber" using assms(3,5) by simp
  from v2_create_ok [OF this] obtain s1 where c: "v2_create s = Some (s1, length s)" "length s1 = length s + 1 + MAX_SLOTS" "frame {} s s1"
    "fsm_inv s1 (length s) [] [length s + 1..<length s + 1 + MAX_SLOTS] (\<lambda>t. [t])" "fsm_entries s1 (\<lambda>t. [t]) [] = {#}" by (elim exE conjE) (rule that)
  let ?ts = "[length s + 1..<length s + 1 + MAX_SLOTS]"
  have pg: "set (fsm_pages (\<lambda>t. [t]) [] ?ts) = {length s + 1..<length s + 1 + MAX_SLOTS}" by (auto simp: fsm_pages_def fsm_tags_def)
  have ts: "?ts \<noteq> []" by (simp add: slots_val)
  have v2: "block_number_is_valid (length s)" using assms(3,4,5) by (auto simp: block_number_is_valid_def)
  show thesis
  proof (cases "block_number_is_valid (v1_fsm d)")
    case v1: False
    then have bs: "bs = []" using assms(1) False by (simp add: old_fsm_def)
    have "fsm_filed s1 (length s) {#} (length s)" unfolding fsm_filed_def
      by (intro exI [of _ "[]"] exI [of _ ?ts] exI [of _ "\<lambda>t. [t]"]) (simp only: c(4,5) pg, use ts in auto)
    moreover have e: "ensure_fsm env s d = Some (s1, d\<lparr>v2_fsm := length s, v1_fsm := v1_fsm d\<rparr>)" using False v1 c(1) by (simp add: ensure_fsm_def meta_same)
    moreover have "length s1 + k \<le> InvalidBlockNumber" using c(2) assms(3) by simp
    ultimately show ?thesis using False v1 bs v2 c(3) by (intro that [OF e]) simp_all
  next
    case v1: True
    have o: "v1_chain s bs" "hd bs = v1_fsm d" using assms(1) False v1 by (auto simp: old_fsm_def)
    note o1 = v1_chain_frame [OF o(1) c(3)]
    have dis: "insert (length s) {length s + 1..<length s + 1 + MAX_SLOTS} \<inter> set bs = {}" using v1_chain_bound [OF o(1)] by fastforce
    have b: "both s1 bs (length s) [] ?ts (\<lambda>t. [t])" unfolding both_def pg using c(4) o1(1) ts dis by blast
    have sp: "length s1 + length (v1_entries s1 bs) + length bs + k \<le> InvalidBlockNumber" using assms(3) c(2) o1(2) by simp
    obtain s2 xs2 ts2 G2 where v: "convert_v1_to_v2 env s1 (hd bs) (length s) = Some s2" "fsm_inv s2 (length s) xs2 ts2 G2"
      "fsm_entries s2 G2 xs2 = fsm_entries s1 (\<lambda>t. [t]) [] + image_mset (Pair FirstNormalTransactionId) (mset (map fst (filter (passing env) (v1_entries s1 bs))) + mset bs)"
      "frame (insert (length s) (set bs \<union> set (fsm_pages (\<lambda>t. [t]) [] ?ts))) s1 s2" "set (fsm_pages G2 xs2 ts2) \<subseteq> set (fsm_pages (\<lambda>t. [t]) [] ?ts) \<union> {length s1..}"
      "map_of xs2 FirstNormalTransactionId \<noteq> None \<or> ts2 \<noteq> []" "length s2 + k \<le> InvalidBlockNumber"
      using convert_ok [OF b sp assms(2)] by (elim exE conjE) (rule that)
    have "frame (set bs \<union> {length s..}) s1 s2" by (rule frame_mono [OF v(4)]) (use pg in auto)
    then have fr: "frame (set bs) s s2" by (rule frame_new [OF frame_mono [OF c(3) empty_subsetI]])
    have up: "set (fsm_pages G2 xs2 ts2) \<subseteq> {length s..}" using v(5) c(2) unfolding pg by auto
    have "fsm_filed s2 (length s) (mset (map fst (filter (passing env) (v1_entries s bs))) + mset bs) (length s)"
      unfolding fsm_filed_def by (intro exI [of _ xs2] exI [of _ ts2] exI [of _ G2]) (use v(2,3,6) c(5) o1(2) up in simp)
    moreover have "ensure_fsm env s d = Some (s2, d\<lparr>v2_fsm := length s, v1_fsm := InvalidBlockNumber\<rparr>)" using False v1 c(1) v(1) o(2) by (simp add: ensure_fsm_def)
    moreover have "\<not> block_number_is_valid InvalidBlockNumber" by (simp add: block_number_is_valid_def)
    ultimately show ?thesis using that [OF _ v2 fr v(7)] False by blast
  qed
qed

text \<open>What \<open>open\<close> leaves in the fields: valid ones stay, the others name new blocks.\<close>

definition field_kept :: "store \<Rightarrow> block_number \<Rightarrow> block_number \<Rightarrow> bool" where
  "field_kept s b b' \<longleftrightarrow> (if block_number_is_valid b then b' = b else length s \<le> b')"

lemma ensured_kept: "ensured s b s' b' \<Longrightarrow> length s0 \<le> length s \<Longrightarrow> field_kept s0 b b' \<and> block_number_is_valid b'"
  by (auto simp: ensured_def field_kept_def)

lemma ensured_frame: "ensured s b s' b' \<Longrightarrow> frame {} s s' \<and> (s \<noteq> [] \<longrightarrow> s' \<noteq> [])"
  by (auto simp: ensured_def frame_def)
lemma ensure_first:
  assumes "s \<noteq> []" "length s + 3 \<le> InvalidBlockNumber"
  obtains s1 s2 s3 vac sen lock where "ensure_block init_new_buffer s (active_vacuum_list d) = Some (s1, vac)"
    "ensure_block init_new_buffer s1 (ambulkdelete_sentinel d) = Some (s2, sen)" "ensure_block init_new_buffer s2 (merge_lock d) = Some (s3, lock)"
    "frame {} s s3" "length s3 \<le> length s + 3" "s3 \<noteq> []"
    "field_kept s (active_vacuum_list d) vac \<and> block_number_is_valid vac" "field_kept s (ambulkdelete_sentinel d) sen \<and> block_number_is_valid sen"
    "field_kept s (merge_lock d) lock \<and> block_number_is_valid lock"
proof -
  have l0: "length s < InvalidBlockNumber" using assms(2) by simp
  obtain s1 vac where e1: "ensure_block init_new_buffer s (active_vacuum_list d) = Some (s1, vac)" "ensured s (active_vacuum_list d) s1 vac" "length s1 \<le> Suc (length s)"
    by (rule ensure_block_buffer [OF assms(1) l0])
  note f1 = ensured_frame [OF e1(2)]
  have n1: "s1 \<noteq> []" and l1: "length s1 < InvalidBlockNumber" using f1 assms e1(3) by simp_all
  obtain s2 sen where e2: "ensure_block init_new_buffer s1 (ambulkdelete_sentinel d) = Some (s2, sen)" "ensured s1 (ambulkdelete_sentinel d) s2 sen" "length s2 \<le> Suc (length s1)"
    by (rule ensure_block_buffer [OF n1 l1])
  note f2 = ensured_frame [OF e2(2)]
  have n2: "s2 \<noteq> []" and l2: "length s2 < InvalidBlockNumber" using f2 n1 assms(2) e1(3) e2(3) by simp_all
  obtain s3 lock where e3: "ensure_block init_new_buffer s2 (merge_lock d) = Some (s3, lock)" "ensured s2 (merge_lock d) s3 lock" "length s3 \<le> Suc (length s2)"
    by (rule ensure_block_buffer [OF n2 l2])
  note f3 = ensured_frame [OF e3(2)]
  have f12: "frame {} s s2" using frame_trans [OF conjunct1 [OF f1] conjunct1 [OF f2]] by simp
  have f: "frame {} s s3" using frame_trans [OF f12 conjunct1 [OF f3]] by simp
  show thesis
    by (rule that [OF e1(1) e2(1) e3(1) f _ _ ensured_kept [OF e1(2) order_refl] ensured_kept [OF e2(2) frame_length [OF conjunct1 [OF f1]]]
          ensured_kept [OF e3(2) frame_length [OF f12]]])
      (use e1(3) e2(3) e3(3) f3 n2 in simp_all)
qed

lemma empty_at_frame: "empty_at s h \<Longrightarrow> frame V s s' \<Longrightarrow> V \<inter> {h, Suc h} = {} \<Longrightarrow> empty_at s' h"
  by (auto simp: empty_at_def frame_def)

lemma ensure_last:
  assumes "s \<noteq> []" "length s + 3 \<le> InvalidBlockNumber" "length s0 \<le> length s"
  obtains s1 s2 gar bg where "ensure_block li_create_without_fsm s g = Some (s1, gar)" "ensure_block init_new_buffer s1 b = Some (s2, bg)"
    "frame {} s s2" "length s2 \<le> InvalidBlockNumber" "s2 \<noteq> []" "field_kept s0 g gar \<and> block_number_is_valid gar" "field_kept s0 b bg \<and> block_number_is_valid bg"
    "\<not> block_number_is_valid g \<longrightarrow> empty_at s2 gar"
proof -
  have l0: "Suc (length s) < InvalidBlockNumber" using assms(2) by simp
  obtain s1 gar where e1: "ensure_block li_create_without_fsm s g = Some (s1, gar)" "ensured s g s1 gar" "length s1 \<le> Suc (Suc (length s))"
    "\<not> block_number_is_valid g \<longrightarrow> empty_at s1 gar"
    by (rule ensure_block_list [OF assms(1) l0])
  note f1 = ensured_frame [OF e1(2)]
  have n1: "s1 \<noteq> []" and l1: "length s1 < InvalidBlockNumber" using f1 assms e1(3) by simp_all
  obtain s2 bg where e2: "ensure_block init_new_buffer s1 b = Some (s2, bg)" "ensured s1 b s2 bg" "length s2 \<le> Suc (length s1)"
    by (rule ensure_block_buffer [OF n1 l1])
  note f2 = ensured_frame [OF e2(2)]
  have f: "frame {} s s2" using frame_trans [OF conjunct1 [OF f1] conjunct1 [OF f2]] by simp
  have g: "\<not> block_number_is_valid g \<longrightarrow> empty_at s2 gar" using e1(4) empty_at_frame [OF _ conjunct1 [OF f2]] by blast
  have le: "length s0 \<le> length s1" using assms(3) frame_length [OF conjunct1 [OF f1]] by simp
  show thesis
    by (rule that [OF e1(1) e2(1) f _ _ ensured_kept [OF e1(2) assms(3)] ensured_kept [OF e2(2) le] g])
      (use e1(3) e2(3) assms(2) f2 n1 in simp_all)
qed
lemma fsm_filed_mono: "fsm_filed s v2 M k \<Longrightarrow> j \<le> k \<Longrightarrow> fsm_filed s v2 M j"
  unfolding fsm_filed_def by (meson atLeast_subset_iff le_trans subset_trans)

lemma meta_open_ok:
  assumes d: "meta_at s = Some d" "may_need_init d" and o: "old_fsm s d bs" "\<forall>b. can_lock env b"
    and sp: "length s + length (v1_entries s bs) + length bs + MAX_SLOTS + 7 \<le> InvalidBlockNumber"
  obtains s' d' where "meta_open env False s = Some (s', d')" "meta_at s' = Some d'" "\<not> may_need_init d'" "frame (insert 0 (set bs)) s s'"
    "field_kept s (active_vacuum_list d) (active_vacuum_list d')" "field_kept s (ambulkdelete_sentinel d) (ambulkdelete_sentinel d')"
    "field_kept s (merge_lock d) (merge_lock d')" "field_kept s (segment_meta_garbage d) (segment_meta_garbage d')" "field_kept s (bgmerger d) (bgmerger d')"
    "cleanup_lock d' = cleanup_lock d \<and> schema_start d' = schema_start d \<and> settings_start d' = settings_start d \<and>
       segment_metas_start d' = segment_metas_start d \<and> ambulkdelete_epoch d' = ambulkdelete_epoch d"
    "if block_number_is_valid (v2_fsm d) then v2_fsm d' = v2_fsm d
     else fsm_filed s' (v2_fsm d') (mset (map fst (filter (passing env) (v1_entries s bs))) + mset bs) (length s) \<and> \<not> block_number_is_valid (v1_fsm d')"
    "\<not> block_number_is_valid (segment_meta_garbage d) \<longrightarrow> empty_at s' (segment_meta_garbage d')"
proof -
  have ne: "s \<noteq> []" using d(1) by (auto simp: meta_at_def METAPAGE_def body_of_def get_at_def)
  have l0: "length s + 3 \<le> InvalidBlockNumber" using sp by simp
  obtain s1 s2 s3 vac sen lock where e1: "ensure_block init_new_buffer s (active_vacuum_list d) = Some (s1, vac)"
    "ensure_block init_new_buffer s1 (ambulkdelete_sentinel d) = Some (s2, sen)" "ensure_block init_new_buffer s2 (merge_lock d) = Some (s3, lock)"
    "frame {} s s3" "length s3 \<le> length s + 3" "s3 \<noteq> []"
    "field_kept s (active_vacuum_list d) vac \<and> block_number_is_valid vac" "field_kept s (ambulkdelete_sentinel d) sen \<and> block_number_is_valid sen"
    "field_kept s (merge_lock d) lock \<and> block_number_is_valid lock"
    by (rule ensure_first [OF ne l0])
  note o3 = old_fsm_frame [OF o(1) e1(4)]
  have sp3: "length s3 + length (v1_entries s3 bs) + length bs + MAX_SLOTS + 1 + 3 \<le> InvalidBlockNumber" using sp e1(5) o3(2) by simp
  obtain s4 v2 v1 where e4: "ensure_fsm env s3 d = Some (s4, d\<lparr>v2_fsm := v2, v1_fsm := v1\<rparr>)" "block_number_is_valid v2" "frame (set bs) s3 s4" "length s4 + 3 \<le> InvalidBlockNumber"
    "block_number_is_valid (v2_fsm d) \<longrightarrow> v2 = v2_fsm d \<and> v1 = v1_fsm d"
    "\<not> block_number_is_valid (v2_fsm d) \<longrightarrow> \<not> block_number_is_valid v1 \<and> fsm_filed s4 v2 (mset (map fst (filter (passing env) (v1_entries s3 bs))) + mset bs) (length s3)"
    by (rule ensure_fsm_ok [OF o3(1) o(2) sp3 e1(6)]) simp
  have n4: "s4 \<noteq> []" "length s \<le> length s4" using frame_length [OF e4(3)] frame_length [OF e1(4)] e1(6) by (cases s4; simp)+
  obtain s5 s6 gar bg where e5: "ensure_block li_create_without_fsm s4 (segment_meta_garbage d) = Some (s5, gar)" "ensure_block init_new_buffer s5 (bgmerger d) = Some (s6, bg)"
    "frame {} s4 s6" "length s6 \<le> InvalidBlockNumber" "s6 \<noteq> []" "field_kept s (segment_meta_garbage d) gar \<and> block_number_is_valid gar" "field_kept s (bgmerger d) bg \<and> block_number_is_valid bg"
    "\<not> block_number_is_valid (segment_meta_garbage d) \<longrightarrow> empty_at s6 gar"
    by (rule ensure_last [OF n4(1) e4(4) n4(2)])
  define d' where "d' = d\<lparr>v2_fsm := v2, v1_fsm := v1, active_vacuum_list := vac, ambulkdelete_sentinel := sen, merge_lock := lock, segment_meta_garbage := gar, bgmerger := bg\<rparr>"
  define s' where "s' = s6[0 := (s6 ! 0)\<lparr>pg_body := MetaPage d'\<rparr>]"
  have len: "0 < length s6" "length s' = length s6" using e5(5) by (simp_all add: s'_def)
  have run: "meta_open env False s = Some (s', d')"
    using d e1(1-3) e4(1) e5(1,2) len(1) by (simp add: meta_open_def d'_def s'_def METAPAGE_def Let_def)
  have at: "meta_at s' = Some d'" using len by (simp add: meta_at_def METAPAGE_def s'_def)
  have fz: "frame {0} s4 s'" unfolding s'_def by (rule frame_step) (use e5(3) in \<open>auto intro: frame_mono\<close>)
  have fr: "frame (insert 0 (set bs)) s s'" using frame_trans [OF frame_trans [OF e1(4) e4(3)] fz] by simp
  have ready: "\<not> may_need_init d'" using e1(7-9) e4(2) e5(6,7) by (simp add: may_need_init_def d'_def)
  have fsm: "if block_number_is_valid (v2_fsm d) then v2_fsm d' = v2_fsm d
     else fsm_filed s' (v2_fsm d') (mset (map fst (filter (passing env) (v1_entries s bs))) + mset bs) (length s) \<and> \<not> block_number_is_valid (v1_fsm d')"
    using e4(5,6) fsm_filed_mono [OF fsm_filed_frame [OF _ fz], of v2 _ "length s3" "length s"] frame_length [OF e1(4)] e1(6) e5(4) len(2) o3(2)
    by (auto simp: d'_def)
  have emp: "\<not> block_number_is_valid (segment_meta_garbage d) \<longrightarrow> empty_at s' (segment_meta_garbage d')"
    using e5(6,8) empty_at_frame [of s6 gar "{0}" s'] by (auto simp: d'_def s'_def block_number_is_valid_def)
  show thesis by (rule that [OF run at ready fr _ _ _ _ _ _ fsm emp]) (use e1(7-9) e5(6,7) in \<open>simp_all add: d'_def\<close>)
qed
section \<open>Properties\<close>

text \<open>
  C32. \<open>init\<close> on an empty relation lays out a usable index: every structure the metapage names has a block of its
  own, the segment lists, the schema and the settings are empty, and the free space manager meets the contract of
  the buffer manager with all other pages in use.  Opening the index then changes nothing.
\<close>

theorem new_index_laid_out:
  assumes "\<not> create_index env" "max (current_xid env) FirstNormalTransactionId < next_xid env" "n \<le> 4000000000"
  shows "\<exists>s d. meta_init [] = Some s \<and> meta_open env False s = Some (s, d) \<and>
     distinct [METAPAGE, active_vacuum_list d, ambulkdelete_sentinel d, merge_lock d, v2_fsm d, segment_meta_garbage d, mp_cleanup_lock d, schema_start d,
       settings_start d, segment_metas d, bgmerger d] \<and>
     fsm_ok env (v2_fsm d) ({..<length s} - {v2_fsm d..<segment_meta_garbage d}) [] n s \<and> segment_metas_garbage d = Some (segment_meta_garbage d) \<and>
     li_list dec s (segment_metas d) = Some [] \<and> li_list dec s (segment_meta_garbage d) = Some [] \<and>
     read_all s (schema_bytes d) = Some [] \<and> read_all s (settings_bytes d) = Some []"
proof -
  obtain s where s: "meta_init [] = Some s" "meta_at s = Some new_meta" "length s = 353" "fsm_inv s 4 [] [5..<343] (\<lambda>t. [t])"
    "fsm_entries s (\<lambda>t. [t]) [] = {#}" "empty_at s 343" "empty_at s 346" "empty_at s 348" "empty_at s 350"
    by (rule new_index)
  note fields = new_meta_def METAPAGE_def mp_cleanup_lock_def segment_metas_def schema_bytes_def settings_bytes_def segment_metas_garbage_def
    block_number_is_valid_def InvalidBlockNumber_def
  have "meta_open env False s = Some (s, new_meta)" by (rule meta_open_ready [OF s(2)]) (simp add: may_need_init_def fields)
  moreover
  have tot: "fsm_total s (\<lambda>t. [t]) [] [5..<343] + mset [] = mset [5..<343]"
    by (simp add: fsm_total_def s(5) fsm_pages_def fsm_tags_def del: upt_rec_numeral)
  have "fsm_ok env 4 ({..<length s} - {4..<343}) [] n s"
    by (rule fsm_okI [OF s(4) assms(1,2) _ tot count_upt_le]) (use s(3) assms(3) in \<open>auto simp: InvalidBlockNumber_def simp del: upt_rec_numeral\<close>)
  ultimately show ?thesis using s(1) empty_at_items [of s 343 dec] empty_at_items [of s 350 dec] empty_at_bytes [of s 346] empty_at_bytes [of s 348] s(6-9)
    by (intro exI [of _ s] exI [of _ new_meta]) (simp add: fields)
qed

text \<open>
  C9. Opening an index of an older version brings it up to date, when every conditional lock on a page of its old
  free space manager is granted.  Structures it has keep their blocks, those it lacks get new ones (that did not exist
  before), and the free space manager of the older kind is converted: the new one records, under the
  first normal transaction id, the blocks that pass the horizon and the pages of the old one.  Only the metapage
  and the pages of the old manager are written, and opening the index again changes nothing.
\<close>

theorem open_upgrades_index:
  assumes "meta_at s = Some d" "may_need_init d" "old_fsm s d bs" "\<forall>b. can_lock env b"
    "length s + length (v1_entries s bs) + length bs + MAX_SLOTS + 7 \<le> InvalidBlockNumber"
  shows "\<exists>s' d'. meta_open env False s = Some (s', d') \<and> meta_open env False s' = Some (s', d') \<and> frame (insert 0 (set bs)) s s' \<and>
     field_kept s (active_vacuum_list d) (active_vacuum_list d') \<and> field_kept s (ambulkdelete_sentinel d) (ambulkdelete_sentinel d') \<and>
     field_kept s (merge_lock d) (merge_lock d') \<and> field_kept s (segment_meta_garbage d) (segment_meta_garbage d') \<and> field_kept s (bgmerger d) (bgmerger d') \<and>
     mp_cleanup_lock d' = mp_cleanup_lock d \<and> schema_bytes d' = schema_bytes d \<and> settings_bytes d' = settings_bytes d \<and> segment_metas d' = segment_metas d \<and>
     (if block_number_is_valid (v2_fsm d) then v2_fsm d' = v2_fsm d
      else fsm_filed s' (v2_fsm d') (mset (map fst (filter (passing env) (v1_entries s bs))) + mset bs) (length s) \<and> \<not> block_number_is_valid (v1_fsm d')) \<and>
     (\<not> block_number_is_valid (segment_meta_garbage d) \<longrightarrow> li_list dec s' (segment_meta_garbage d') = Some [])"
proof -
  obtain s' d' where o: "meta_open env False s = Some (s', d')" "meta_at s' = Some d'" "\<not> may_need_init d'" "frame (insert 0 (set bs)) s s'"
    "field_kept s (active_vacuum_list d) (active_vacuum_list d')" "field_kept s (ambulkdelete_sentinel d) (ambulkdelete_sentinel d')"
    "field_kept s (merge_lock d) (merge_lock d')" "field_kept s (segment_meta_garbage d) (segment_meta_garbage d')" "field_kept s (bgmerger d) (bgmerger d')"
    "cleanup_lock d' = cleanup_lock d \<and> schema_start d' = schema_start d \<and> settings_start d' = settings_start d \<and>
       segment_metas_start d' = segment_metas_start d \<and> ambulkdelete_epoch d' = ambulkdelete_epoch d"
    "if block_number_is_valid (v2_fsm d) then v2_fsm d' = v2_fsm d
     else fsm_filed s' (v2_fsm d') (mset (map fst (filter (passing env) (v1_entries s bs))) + mset bs) (length s) \<and> \<not> block_number_is_valid (v1_fsm d')"
    "\<not> block_number_is_valid (segment_meta_garbage d) \<longrightarrow> empty_at s' (segment_meta_garbage d')"
    by (rule meta_open_ok [OF assms])
  have g: "\<not> block_number_is_valid (segment_meta_garbage d) \<longrightarrow> li_list dec s' (segment_meta_garbage d') = Some []" using o(12) empty_at_items by blast
  have n: "mp_cleanup_lock d' = mp_cleanup_lock d" "schema_bytes d' = schema_bytes d" "settings_bytes d' = settings_bytes d" "segment_metas d' = segment_metas d"
    using o(10) by (simp_all add: mp_cleanup_lock_def schema_bytes_def settings_bytes_def segment_metas_def)
  show ?thesis using meta_open_ready [OF o(2,3), of env] o(1,4-9,11) g n by blast
qed

subsection \<open>Examples\<close>

theorem new_index_laid_out_witness:
  "\<exists>s d. meta_init [] = Some s \<and> meta_open ex_env False s = Some (s, d) \<and> li_list hd s (segment_metas d) = Some []"
proof -
  have "max (current_xid ex_env) FirstNormalTransactionId < next_xid ex_env" "\<not> create_index ex_env" by (simp_all add: ex_env_def FirstNormalTransactionId_def)
  moreover have "(1000 :: nat) \<le> 4000000000" by simp
  ultimately show ?thesis using new_index_laid_out [of ex_env 1000 hd] by blast
qed

text \<open>A metapage of an older version that names only the older free space manager, at block 1.\<close>

definition ex_old :: store where
  "ex_old = [blank_page\<lparr>pg_body := MetaPage (zero_meta\<lparr>v1_fsm := 1\<rparr>)\<rparr>,
     blank_page\<lparr>pg_body := FsmV1 (v1_default\<lparr>vb_entries := [(6, 3), (5, 9)] @ replicate 1017 (InvalidBlockNumber, InvalidTransactionId)\<rparr>)\<rparr>]"

lemma ex_old_ok:
  "meta_at ex_old = Some (zero_meta\<lparr>v1_fsm := 1\<rparr>)" "may_need_init (zero_meta\<lparr>v1_fsm := 1\<rparr>)" "old_fsm ex_old (zero_meta\<lparr>v1_fsm := 1\<rparr>) [1]"
  "v1_entries ex_old [1] = [(6, 3), (5, 9)]"
proof -
  show "meta_at ex_old = Some (zero_meta\<lparr>v1_fsm := 1\<rparr>)" by (simp add: meta_at_def METAPAGE_def ex_old_def)
  show "may_need_init (zero_meta\<lparr>v1_fsm := 1\<rparr>)" by (simp add: may_need_init_def zero_meta_def block_number_is_valid_def)
  have "v1_chain ex_old [1]" by (simp add: v1_chain_def ex_old_def v1_page_def entries_per_page v1_default_simps InvalidBlockNumber_def)
  then show "old_fsm ex_old (zero_meta\<lparr>v1_fsm := 1\<rparr>) [1]" by (simp add: old_fsm_def zero_meta_def block_number_is_valid_def InvalidBlockNumber_def)
  have "6 \<noteq> InvalidBlockNumber" "5 \<noteq> InvalidBlockNumber" by (simp_all add: InvalidBlockNumber_def)
  then show "v1_entries ex_old [1] = [(6, 3), (5, 9)]" by (simp add: ex_old_def page_entries_def valid_entries_replicate)
qed

theorem open_upgrades_index_witness:
  "\<exists>s' d'. meta_open ex_env False ex_old = Some (s', d') \<and> meta_open ex_env False s' = Some (s', d') \<and> fsm_filed s' (v2_fsm d') {#6, 1#} 2 \<and>
     li_list hd s' (segment_meta_garbage d') = Some []"
proof -
  have l: "\<forall>b. can_lock ex_env b" by (simp add: ex_env_def)
  have sp: "length ex_old + length (v1_entries ex_old [1]) + length [1 :: nat] + MAX_SLOTS + 7 \<le> InvalidBlockNumber"
    by (simp only: ex_old_ok(4) slots_val) (simp add: ex_old_def InvalidBlockNumber_def)
  have v: "\<not> block_number_is_valid (v2_fsm (zero_meta\<lparr>v1_fsm := 1\<rparr>))" "\<not> block_number_is_valid (segment_meta_garbage (zero_meta\<lparr>v1_fsm := 1\<rparr>))" "length ex_old = 2"
    by (simp_all add: zero_meta_def block_number_is_valid_def ex_old_def)
  have m: "mset (map fst (filter (passing ex_env) (v1_entries ex_old [1]))) + mset [1] = {#6, 1#}"
    using ex_v1_ok(3,4) by (simp only: ex_old_ok(4)) simp
  from open_upgrades_index [OF ex_old_ok(1-3) l sp, where dec = hd] obtain s' d' where
    "meta_open ex_env False ex_old = Some (s', d')" "meta_open ex_env False s' = Some (s', d')"
    "if block_number_is_valid (v2_fsm (zero_meta\<lparr>v1_fsm := 1\<rparr>)) then v2_fsm d' = v2_fsm (zero_meta\<lparr>v1_fsm := 1\<rparr>)
     else fsm_filed s' (v2_fsm d') (mset (map fst (filter (passing ex_env) (v1_entries ex_old [1]))) + mset [1]) (length ex_old) \<and> \<not> block_number_is_valid (v1_fsm d')"
    "\<not> block_number_is_valid (segment_meta_garbage (zero_meta\<lparr>v1_fsm := 1\<rparr>)) \<longrightarrow> li_list hd s' (segment_meta_garbage d') = Some []"
    by (elim exE conjE) (rule that)
  then show ?thesis using v unfolding m by auto
qed

end
