(* ===== verification/Bg_Merger.thy ===== *)
theory Bg_Merger
  imports Meta_Page
begin

text \<open>
  The background merger, \<^verbatim>\<open>metadata.rs\<close> and \<^verbatim>\<open>postgres/merge.rs\<close>: a page of the index holds the state of
  its background merger, so that concurrent backends launch at most one.  The page operations are functions on
  the store; the launch by one process and the run of the worker by another are a step relation in which the
  steps of all processes are interleaved.
\<close>

section \<open>The page\<close>

text \<open>A page that was only initialised reads as process 0 and the state \<open>Stopped\<close>, whose number is 0.\<close>

definition bg_data :: "store \<Rightarrow> block_number \<Rightarrow> (int \<times> bgmerger_state) option" where
  "bg_data s b = do {
     c \<leftarrow> body_of s b;
     (case c of Blank \<Rightarrow> Some (0, Stopped) | BgMergerPage pid st \<Rightarrow> Some (pid, st) | _ \<Rightarrow> None)
   }"

definition try_starting :: "(int \<Rightarrow> bool) \<Rightarrow> store \<Rightarrow> block_number \<Rightarrow> (store \<times> bool) option" where
  "try_starting is_backend_pid s b = do {
     d \<leftarrow> bg_data s b;
     (case d of
        (_, Stopped) \<Rightarrow> do { s \<leftarrow> set_body s b (BgMergerPage 1 Starting); Some (s, True) }
      | (pid, Running) \<Rightarrow>
          if \<not> is_backend_pid pid then do { s \<leftarrow> set_body s b (BgMergerPage 1 Starting); Some (s, True) } else Some (s, False)
      | _ \<Rightarrow> Some (s, False))
   }"

definition set_running :: "int \<Rightarrow> store \<Rightarrow> block_number \<Rightarrow> store option" where
  "set_running my_proc_pid s b = set_body s b (BgMergerPage my_proc_pid Running)"

definition set_stopped :: "store \<Rightarrow> block_number \<Rightarrow> store option" where
  "set_stopped s b = set_body s b (BgMergerPage 0 Stopped)"

definition reset_bgworker_state :: "fsm_env \<Rightarrow> bool \<Rightarrow> store \<Rightarrow> store option" where
  "reset_bgworker_state env read_only s = do {
     (s, d) \<leftarrow> meta_open env read_only s;
     set_stopped s (bgmerger d)
   }"

section \<open>The processes\<close>

text \<open>
  \<open>bg_backends\<close> are the processes of the server.  \<open>bg_launching\<close> have marked the page and not yet asked for a
  worker, \<open>bg_pending\<close> workers are registered and not yet running, those of \<open>bg_booting\<close> have not yet marked the
  page, and those of \<open>bg_merging\<close> have.
\<close>

record bg_sys =
  bg_store :: store
  bg_backends :: "int set"
  bg_launching :: "int set"
  bg_pending :: nat
  bg_booting :: "int set"
  bg_merging :: "int set"

text \<open>
  \<open>launch\<close> to \<open>abandon\<close> are \<open>try_launch_background_merger\<close>: the page is marked, then the worker is registered or
  refused; the process may also fail in between.  \<open>start\<close> to \<open>die\<close> are \<open>background_merge\<close>: the worker may leave
  before it marks the page, for one when the index is gone; when it merges, the page is marked as stopped
  whether the merge worked or raised an error, unless the process is killed.
\<close>

inductive bg_step :: "block_number \<Rightarrow> bg_sys \<Rightarrow> bg_sys \<Rightarrow> bool" for b :: block_number where
  connect: "p \<notin> bg_backends t \<Longrightarrow> bg_step b t (t\<lparr>bg_backends := insert p (bg_backends t)\<rparr>)"
| disconnect: "p \<notin> bg_launching t \<union> bg_booting t \<union> bg_merging t \<Longrightarrow> bg_step b t (t\<lparr>bg_backends := bg_backends t - {p}\<rparr>)"
| launch: "p \<in> bg_backends t \<Longrightarrow> p \<notin> bg_launching t \<Longrightarrow> try_starting (\<lambda>q. q \<in> bg_backends t) (bg_store t) b = Some (s, True) \<Longrightarrow>
     bg_step b t (t\<lparr>bg_store := s, bg_launching := insert p (bg_launching t)\<rparr>)"
| decline: "p \<in> bg_backends t \<Longrightarrow> try_starting (\<lambda>q. q \<in> bg_backends t) (bg_store t) b = Some (s, False) \<Longrightarrow> bg_step b t (t\<lparr>bg_store := s\<rparr>)"
| register: "p \<in> bg_launching t \<Longrightarrow> bg_step b t (t\<lparr>bg_launching := bg_launching t - {p}, bg_pending := Suc (bg_pending t)\<rparr>)"
| refuse: "p \<in> bg_launching t \<Longrightarrow> set_stopped (bg_store t) b = Some s \<Longrightarrow>
     bg_step b t (t\<lparr>bg_store := s, bg_launching := bg_launching t - {p}\<rparr>)"
| abandon: "p \<in> bg_launching t \<Longrightarrow> bg_step b t (t\<lparr>bg_launching := bg_launching t - {p}\<rparr>)"
| start: "0 < bg_pending t \<Longrightarrow> q \<notin> bg_backends t \<Longrightarrow>
     bg_step b t (t\<lparr>bg_pending := bg_pending t - 1, bg_booting := insert q (bg_booting t), bg_backends := insert q (bg_backends t)\<rparr>)"
| lost: "0 < bg_pending t \<Longrightarrow> bg_step b t (t\<lparr>bg_pending := bg_pending t - 1\<rparr>)"
| leave: "q \<in> bg_booting t \<Longrightarrow> bg_step b t (t\<lparr>bg_booting := bg_booting t - {q}, bg_backends := bg_backends t - {q}\<rparr>)"
| run: "q \<in> bg_booting t \<Longrightarrow> set_running q (bg_store t) b = Some s \<Longrightarrow>
     bg_step b t (t\<lparr>bg_store := s, bg_booting := bg_booting t - {q}, bg_merging := insert q (bg_merging t)\<rparr>)"
| finish: "q \<in> bg_merging t \<Longrightarrow> set_stopped (bg_store t) b = Some s \<Longrightarrow>
     bg_step b t (t\<lparr>bg_store := s, bg_merging := bg_merging t - {q}, bg_backends := bg_backends t - {q}\<rparr>)"
| die: "q \<in> bg_merging t \<Longrightarrow> bg_step b t (t\<lparr>bg_merging := bg_merging t - {q}, bg_backends := bg_backends t - {q}\<rparr>)"

text \<open>
  \<open>reset_bgworker_state\<close> can be called by any session at any time: whatever the processes are doing, the page is
  marked as stopped.
\<close>

inductive bg_reset :: "block_number \<Rightarrow> bg_sys \<Rightarrow> bg_sys \<Rightarrow> bool" for b :: block_number where
  reset: "p \<in> bg_backends t \<Longrightarrow> set_stopped (bg_store t) b = Some s \<Longrightarrow> bg_reset b t (t\<lparr>bg_store := s\<rparr>)"

definition bg_initial :: "block_number \<Rightarrow> bg_sys \<Rightarrow> bool" where
  "bg_initial b t \<longleftrightarrow> bg_data (bg_store t) b = Some (0, Stopped) \<and> bg_launching t = {} \<and> bg_pending t = 0 \<and> bg_booting t = {} \<and> bg_merging t = {}"

text \<open>What is reached from \<open>t0\<close> by any interleaving, when the page is reset only in states with \<open>may_reset\<close>.\<close>

inductive bg_reachable :: "block_number \<Rightarrow> (bg_sys \<Rightarrow> bool) \<Rightarrow> bg_sys \<Rightarrow> bg_sys \<Rightarrow> bool"
  for b :: block_number and may_reset :: "bg_sys \<Rightarrow> bool" and t0 :: bg_sys where
  here: "bg_reachable b may_reset t0 t0"
| further: "bg_reachable b may_reset t0 t \<Longrightarrow> bg_step b t u \<Longrightarrow> bg_reachable b may_reset t0 u"
| by_hand: "bg_reachable b may_reset t0 t \<Longrightarrow> may_reset t \<Longrightarrow> bg_reset b t u \<Longrightarrow> bg_reachable b may_reset t0 u"

text \<open>The mergers at any point between the mark \<open>Starting\<close> and the end of the merge.\<close>

definition bg_mergers :: "bg_sys \<Rightarrow> nat" where
  "bg_mergers t = card (bg_launching t) + bg_pending t + card (bg_booting t) + card (bg_merging t)"

section \<open>The invariant\<close>

definition bg_inv :: "block_number \<Rightarrow> bg_sys \<Rightarrow> bool" where
  "bg_inv b t \<longleftrightarrow> finite (bg_launching t) \<and> finite (bg_booting t) \<and> finite (bg_merging t) \<and> bg_booting t \<union> bg_merging t \<subseteq> bg_backends t \<and> bg_mergers t \<le> 1 \<and>
     (\<exists>pid st. bg_data (bg_store t) b = Some (pid, st) \<and>
        (st = Stopped \<longrightarrow> bg_mergers t = 0) \<and> (st = Starting \<longrightarrow> bg_merging t = {}) \<and>
        (st = Running \<longrightarrow> bg_mergers t = card (bg_merging t) \<and> bg_merging t \<subseteq> {pid}))"

lemma bg_data_written: "set_body s b (BgMergerPage pid st) = Some s' \<Longrightarrow> bg_data s' b = Some (pid, st)"
  by (cases "b < length s") (auto simp: bg_data_def set_body_def modify_at_def)

lemma bg_data_set: "bg_data s b = Some d \<Longrightarrow> \<exists>s'. set_body s b (BgMergerPage pid st) = Some s' \<and> bg_data s' b = Some (pid, st)"
  by (cases "b < length s") (auto simp: bg_data_def body_of_def get_at_def)

lemma try_starting_cases:
  assumes "try_starting f s b = Some (s', r)"
  obtains pid st where "bg_data s b = Some (pid, st)" "if r then bg_data s' b = Some (1, Starting) \<and> (st = Stopped \<or> st = Running \<and> \<not> f pid)
     else s' = s \<and> (st = Starting \<or> st = Running \<and> f pid)"
  using assms bg_data_written [of s b 1 Starting]
  by (auto simp: try_starting_def split: bind_splits prod.splits bgmerger_state.splits if_splits)
lemma singleton_of_card: "finite A \<Longrightarrow> card A + n \<le> 1 \<Longrightarrow> x \<in> A \<Longrightarrow> A = {x} \<and> n = (0 :: nat)"
  using card_gt_0_iff [of A] card_1_singletonE [of A] by (metis One_nat_def Suc_leI add_diff_cancel_left' add_leE diff_is_0_eq empty_iff le_antisym singletonD)

lemma bg_inv_page:
  assumes "bg_inv b t"
  shows "bg_mergers t \<noteq> 0 \<Longrightarrow> bg_merging t = {} \<Longrightarrow> \<exists>pid. bg_data (bg_store t) b = Some (pid, Starting)"
    "bg_merging t = {q} \<Longrightarrow> bg_data (bg_store t) b = Some (q, Running)"
proof -
  obtain pid st where p: "bg_data (bg_store t) b = Some (pid, st)" "st = Stopped \<longrightarrow> bg_mergers t = 0" "st = Starting \<longrightarrow> bg_merging t = {}"
    "st = Running \<longrightarrow> bg_mergers t = card (bg_merging t) \<and> bg_merging t \<subseteq> {pid}"
    using assms unfolding bg_inv_def by blast
  show "\<exists>pid. bg_data (bg_store t) b = Some (pid, Starting)" if "bg_mergers t \<noteq> 0" "bg_merging t = {}" using p that by (cases st) auto
  show "bg_data (bg_store t) b = Some (q, Running)" if "bg_merging t = {q}" using p that by (cases st) (auto simp: bg_mergers_def)
qed

text \<open>With one merger, the place where it is determines the rest.\<close>

lemma bg_inv_launching:
  assumes "bg_inv b t" "p \<in> bg_launching t"
  shows "bg_launching t = {p}" "bg_pending t = 0" "bg_booting t = {}" "bg_merging t = {}" "\<exists>pid. bg_data (bg_store t) b = Some (pid, Starting)"
proof -
  note i = assms(1) [unfolded bg_inv_def bg_mergers_def]
  have s: "bg_launching t = {p}" "bg_pending t + card (bg_booting t) + card (bg_merging t) = 0"
    using singleton_of_card [of "bg_launching t" "bg_pending t + card (bg_booting t) + card (bg_merging t)" p] i assms(2) by (auto simp: ac_simps)
  then show r: "bg_launching t = {p}" "bg_pending t = 0" "bg_booting t = {}" "bg_merging t = {}" using i by auto
  show "\<exists>pid. bg_data (bg_store t) b = Some (pid, Starting)" using bg_inv_page [OF assms(1)] r by (simp add: bg_mergers_def)
qed

lemma bg_inv_pending:
  assumes "bg_inv b t" "0 < bg_pending t"
  shows "bg_launching t = {}" "bg_pending t = 1" "bg_booting t = {}" "bg_merging t = {}" "\<exists>pid. bg_data (bg_store t) b = Some (pid, Starting)"
proof -
  note i = assms(1) [unfolded bg_inv_def bg_mergers_def]
  have "bg_pending t = 1" "card (bg_launching t) = 0" "card (bg_booting t) = 0" "card (bg_merging t) = 0" using i assms(2) by linarith+
  then show r: "bg_launching t = {}" "bg_pending t = 1" "bg_booting t = {}" "bg_merging t = {}" using i by auto
  show "\<exists>pid. bg_data (bg_store t) b = Some (pid, Starting)" using bg_inv_page [OF assms(1)] r by (simp add: bg_mergers_def)
qed

lemma bg_inv_booting:
  assumes "bg_inv b t" "q \<in> bg_booting t"
  shows "bg_launching t = {}" "bg_pending t = 0" "bg_booting t = {q}" "bg_merging t = {}" "\<exists>pid. bg_data (bg_store t) b = Some (pid, Starting)"
proof -
  note i = assms(1) [unfolded bg_inv_def bg_mergers_def]
  have s: "bg_booting t = {q}" "bg_pending t + card (bg_launching t) + card (bg_merging t) = 0"
    using singleton_of_card [of "bg_booting t" "bg_pending t + card (bg_launching t) + card (bg_merging t)" q] i assms(2) by (auto simp: ac_simps)
  then show r: "bg_launching t = {}" "bg_pending t = 0" "bg_booting t = {q}" "bg_merging t = {}" using i by auto
  show "\<exists>pid. bg_data (bg_store t) b = Some (pid, Starting)" using bg_inv_page [OF assms(1)] r by (simp add: bg_mergers_def)
qed

lemma bg_inv_merging:
  assumes "bg_inv b t" "q \<in> bg_merging t"
  shows "bg_launching t = {}" "bg_pending t = 0" "bg_booting t = {}" "bg_merging t = {q}" "bg_data (bg_store t) b = Some (q, Running)" "q \<in> bg_backends t"
proof -
  note i = assms(1) [unfolded bg_inv_def bg_mergers_def]
  have s: "bg_merging t = {q}" "bg_pending t + card (bg_launching t) + card (bg_booting t) = 0"
    using singleton_of_card [of "bg_merging t" "bg_pending t + card (bg_launching t) + card (bg_booting t)" q] i assms(2) by (auto simp: ac_simps)
  then show r: "bg_launching t = {}" "bg_pending t = 0" "bg_booting t = {}" "bg_merging t = {q}" using i by auto
  show "bg_data (bg_store t) b = Some (q, Running)" using bg_inv_page [OF assms(1)] r by (simp add: bg_mergers_def)
  show "q \<in> bg_backends t" using i r by auto
qed

lemma bg_inv_idle:
  assumes "bg_inv b t" "bg_data (bg_store t) b = Some (pid, st)" "st = Stopped \<or> st = Running \<and> pid \<notin> bg_backends t"
  shows "bg_launching t = {}" "bg_pending t = 0" "bg_booting t = {}" "bg_merging t = {}"
proof -
  note i = assms(1) [unfolded bg_inv_def bg_mergers_def]
  have "bg_merging t = {}" using i assms(2,3) by (auto dest: subsetD)
  then show "bg_launching t = {}" "bg_pending t = 0" "bg_booting t = {}" "bg_merging t = {}" using i assms(2,3) by auto
qed

lemmas bg_inv_simps = bg_inv_def bg_mergers_def

lemma bg_inv_backends: "bg_inv b t \<Longrightarrow> bg_booting t \<union> bg_merging t \<subseteq> B \<Longrightarrow> bg_inv b (t\<lparr>bg_backends := B\<rparr>)"
proof -
  have "bg_mergers (t\<lparr>bg_backends := B\<rparr>) = bg_mergers t" by (simp add: bg_mergers_def)
  then show "bg_inv b t \<Longrightarrow> bg_booting t \<union> bg_merging t \<subseteq> B \<Longrightarrow> bg_inv b (t\<lparr>bg_backends := B\<rparr>)" unfolding bg_inv_def by simp
qed

lemma bg_inv_step: "bg_step b t u \<Longrightarrow> bg_inv b t \<Longrightarrow> bg_inv b u"
proof (induction rule: bg_step.induct)
  case (launch p t s)
  obtain pid st where "bg_data (bg_store t) b = Some (pid, st)" "bg_data s b = Some (1, Starting)" "st = Stopped \<or> st = Running \<and> pid \<notin> bg_backends t"
    by (rule try_starting_cases [OF launch(3)]) auto
  then show ?case using bg_inv_idle [OF launch(4)] by (simp add: bg_inv_simps)
next
  case (decline p t s)
  obtain pid st where "s = bg_store t" by (rule try_starting_cases [OF decline(2)]) auto
  then have "t\<lparr>bg_store := s\<rparr> = t" by simp
  then show ?case using decline(3) by simp
next
  case (register p t)
  then show ?case using bg_inv_launching [OF register(2,1)] by (auto simp: bg_inv_simps)
next
  case (refuse p t s)
  then show ?case using bg_inv_launching [OF refuse(3,1)] bg_data_written by (auto simp: bg_inv_simps set_stopped_def)
next
  case (abandon p t)
  then show ?case using bg_inv_launching [OF abandon(2,1)] by (auto simp: bg_inv_simps)
next
  case (start t q)
  then show ?case using bg_inv_pending [OF start(3,1)] by (auto simp: bg_inv_simps)
next
  case (lost t)
  then show ?case using bg_inv_pending [OF lost(2,1)] by (auto simp: bg_inv_simps)
next
  case (leave q t)
  then show ?case using bg_inv_booting [OF leave(2,1)] by (auto simp: bg_inv_simps)
next
  case (run q t s)
  then show ?case using bg_inv_booting [OF run(3,1)] bg_data_written by (auto simp: bg_inv_simps set_running_def)
next
  case (finish q t s)
  then show ?case using bg_inv_merging [OF finish(3,1)] bg_data_written by (auto simp: bg_inv_simps set_stopped_def)
next
  case (die q t)
  then show ?case using bg_inv_merging [OF die(2,1)] by (auto simp: bg_inv_simps)
next
  case (connect p t)
  show ?case by (rule bg_inv_backends [OF connect(2)]) (use connect(2) in \<open>auto simp: bg_inv_def\<close>)
next
  case (disconnect p t)
  show ?case by (rule bg_inv_backends [OF disconnect(2)]) (use disconnect in \<open>auto simp: bg_inv_def\<close>)
qed

abbreviation bg_idle :: "bg_sys \<Rightarrow> bool" where
  "bg_idle t \<equiv> bg_mergers t = 0"

lemma bg_inv_reset: "bg_reset b t u \<Longrightarrow> bg_inv b t \<Longrightarrow> bg_idle t \<Longrightarrow> bg_inv b u"
proof (induction rule: bg_reset.induct)
  case (reset p t s)
  have "bg_mergers (t\<lparr>bg_store := s\<rparr>) = 0" using reset(4) by (simp add: bg_mergers_def)
  moreover have "bg_data s b = Some (0, Stopped)" using reset(2) bg_data_written by (simp add: set_stopped_def)
  ultimately show ?case using reset(3) unfolding bg_inv_def by simp
qed

lemma bg_inv_reachable: "bg_reachable b bg_idle t0 t \<Longrightarrow> bg_inv b t0 \<Longrightarrow> bg_inv b t"
  by (induction rule: bg_reachable.induct) (auto intro: bg_inv_step bg_inv_reset)

lemma bg_inv_initial: "bg_initial b t \<Longrightarrow> bg_inv b t"
  by (simp add: bg_initial_def bg_inv_simps)
text \<open>A page left at \<open>Starting\<close> by a launch that came to nothing.\<close>

definition bg_stuck :: "block_number \<Rightarrow> bg_sys \<Rightarrow> bool" where
  "bg_stuck b t \<longleftrightarrow> (\<exists>pid. bg_data (bg_store t) b = Some (pid, Starting)) \<and>
     bg_launching t = {} \<and> bg_pending t = 0 \<and> bg_booting t = {} \<and> bg_merging t = {}"

lemma bg_stuck_refuses: "bg_stuck b t \<Longrightarrow> try_starting f (bg_store t) b = Some (bg_store t, False)"
  by (auto simp: bg_stuck_def try_starting_def)

lemma bg_stuck_step: "bg_step b t u \<Longrightarrow> bg_stuck b t \<Longrightarrow> bg_stuck b u"
proof (induction rule: bg_step.induct)
  case (launch p t s)
  then show ?case using bg_stuck_refuses [of b t "\<lambda>q. q \<in> bg_backends t"] by simp
next
  case (decline p t s)
  then have "t\<lparr>bg_store := s\<rparr> = t" using bg_stuck_refuses [of b t "\<lambda>q. q \<in> bg_backends t"] by simp
  then show ?case using decline by simp
qed (simp_all add: bg_stuck_def)

lemma bg_stuck_reachable: "bg_reachable b (\<lambda>_. False) t u \<Longrightarrow> bg_stuck b t \<Longrightarrow> bg_stuck b u"
  by (induction rule: bg_reachable.induct) (auto intro: bg_stuck_step)

lemma try_starting_idle:
  assumes "bg_data s b = Some (pid, st)" "st = Stopped \<or> st = Running \<and> \<not> f pid"
  obtains s' where "try_starting f s b = Some (s', True)" "bg_data s' b = Some (1, Starting)"
proof -
  obtain s' where "set_body s b (BgMergerPage 1 Starting) = Some s'" "bg_data s' b = Some (1, Starting)"
    using bg_data_set [OF assms(1), of 1 Starting] by (elim exE conjE) (rule that)
  then show thesis using assms that by (auto simp: try_starting_def)
qed

lemma try_starting_launch:
  assumes "bg_data (bg_store t) b = Some (pid, st)" "st = Stopped \<or> st = Running \<and> pid \<notin> bg_backends t" "p \<in> bg_backends t" "bg_launching t = {}"
  shows "\<exists>u. bg_step b t u \<and> bg_launching u = {p}"
proof -
  obtain s where s: "try_starting (\<lambda>q. q \<in> bg_backends t) (bg_store t) b = Some (s, True)"
    by (rule try_starting_idle [where f = "\<lambda>q. q \<in> bg_backends t", OF assms(1,2)])
  have "bg_step b t (t\<lparr>bg_store := s, bg_launching := insert p (bg_launching t)\<rparr>)"
    by (rule bg_step.launch [OF assms(3) _ s]) (simp add: assms(4))
  then show ?thesis using assms(4) by fastforce
qed

section \<open>Properties\<close>

text \<open>
  C8. However the steps of the processes are interleaved, an index has at most one background merger, from the
  launch to the end of its merge, as long as \<open>reset_bgworker_state\<close> is only called while there is none.  A process
  is told to launch one only when there is none, and it is told so whenever the page is marked as stopped or names
  a process that is gone.
\<close>

theorem one_background_merger:
  assumes "bg_initial b t0" "bg_reachable b (\<lambda>t. bg_mergers t = 0) t0 t"
  shows "bg_mergers t \<le> 1 \<and> (\<forall>s. try_starting (\<lambda>q. q \<in> bg_backends t) (bg_store t) b = Some (s, True) \<longrightarrow> bg_mergers t = 0) \<and>
     (\<forall>pid st p. bg_data (bg_store t) b = Some (pid, st) \<and> (st = Stopped \<or> st = Running \<and> pid \<notin> bg_backends t) \<and> p \<in> bg_backends t \<longrightarrow>
        (\<exists>u. bg_step b t u \<and> bg_launching u = {p}))"
proof -
  have i: "bg_inv b t" by (rule bg_inv_reachable [OF assms(2) bg_inv_initial [OF assms(1)]])
  have "bg_mergers t = 0" if r: "try_starting (\<lambda>q. q \<in> bg_backends t) (bg_store t) b = Some (s, True)" for s
  proof -
    obtain pid st where "bg_data (bg_store t) b = Some (pid, st)" "st = Stopped \<or> st = Running \<and> pid \<notin> bg_backends t"
      by (rule try_starting_cases [OF r]) auto
    then show ?thesis using bg_inv_idle [OF i] by (simp add: bg_mergers_def)
  qed
  moreover have "\<exists>u. bg_step b t u \<and> bg_launching u = {p}"
    if d: "bg_data (bg_store t) b = Some (pid, st)" "st = Stopped \<or> st = Running \<and> pid \<notin> bg_backends t" and p: "p \<in> bg_backends t" for pid st p
    by (rule try_starting_launch [OF d p bg_inv_idle(1) [OF i d]])
  ultimately show ?thesis using i by (auto simp: bg_inv_def)
qed

text \<open>
  C39. A launch that comes to nothing blocks the background merger.  Let the only merger be gone, by a step that does
  not touch the page, before it has marked the page as running: the launching process fails, the worker is never
  started, or it leaves early.  Then, whatever the processes do, no process is told to launch a merger and there is
  none, until \<open>reset_bgworker_state\<close> is called; after that every process can launch one again.
\<close>

theorem background_merger_stuck:
  assumes "bg_initial b t0" "bg_reachable b (\<lambda>t. bg_mergers t = 0) t0 t"
    and "bg_step b t u" "bg_store u = bg_store t" "bg_mergers t = 1" "bg_merging t = {}" "bg_mergers u = 0"
    and "bg_reachable b (\<lambda>_. False) u v"
  shows "bg_mergers v = 0 \<and> (\<forall>f. try_starting f (bg_store v) b = Some (bg_store v, False)) \<and>
     (\<forall>w p. bg_reset b v w \<and> p \<in> bg_backends w \<longrightarrow> (\<exists>x. bg_step b w x \<and> bg_launching x = {p}))"
proof -
  have i: "bg_inv b t" by (rule bg_inv_reachable [OF assms(2) bg_inv_initial [OF assms(1)]])
  obtain pid where d: "bg_data (bg_store u) b = Some (pid, Starting)" using bg_inv_page(1) [OF i] assms(4-6) by auto
  have "bg_inv b u" by (rule bg_inv_step [OF assms(3) i])
  then have "bg_stuck b u" using d assms(7) by (auto simp: bg_stuck_def bg_inv_def bg_mergers_def)
  then have v: "bg_stuck b v" by (rule bg_stuck_reachable [OF assms(8)])
  have "\<exists>x. bg_step b w x \<and> bg_launching x = {p}" if r: "bg_reset b v w" and p: "p \<in> bg_backends w" for w p
  proof -
    obtain s where s: "w = v\<lparr>bg_store := s\<rparr>" "bg_data s b = Some (0, Stopped)"
      using r bg_data_written by (auto simp: set_stopped_def elim!: bg_reset.cases)
    show ?thesis by (rule try_starting_launch [of w b 0 Stopped p]) (use s v p in \<open>auto simp: bg_stuck_def\<close>)
  qed
  then show ?thesis using v bg_stuck_refuses [of b v] by (auto simp: bg_stuck_def bg_mergers_def)
qed

text \<open>
  C36. \<open>reset_bgworker_state\<close> does not look whether a merger is running.  Called while there is one, it lets any process
  launch a second one beside it, without a step of the first.
\<close>

theorem reset_admits_second_merger:
  assumes "bg_initial b t0" "bg_reachable b (\<lambda>t. bg_mergers t = 0) t0 t" "q \<in> bg_merging t" "p \<in> bg_backends t" "bg_reset b t w"
  shows "\<exists>u. bg_step b w u \<and> bg_launching u = {p} \<and> q \<in> bg_merging u \<and> bg_mergers u = 2"
proof -
  have i: "bg_inv b t" by (rule bg_inv_reachable [OF assms(2) bg_inv_initial [OF assms(1)]])
  note m = bg_inv_merging [OF i assms(3)]
  obtain s where s: "w = t\<lparr>bg_store := s\<rparr>" "bg_data s b = Some (0, Stopped)"
    using assms(5) bg_data_written by (auto simp: set_stopped_def elim!: bg_reset.cases)
  obtain s' where s': "try_starting (\<lambda>x. x \<in> bg_backends t) s b = Some (s', True)" by (rule try_starting_idle [OF s(2)]) simp
  let ?u = "w\<lparr>bg_store := s', bg_launching := insert p (bg_launching w)\<rparr>"
  have "bg_step b w ?u" by (rule bg_step.launch) (use s s' m assms(4) in auto)
  then show ?thesis using s m by (intro exI [of _ ?u]) (simp add: bg_mergers_def)
qed

subsection \<open>An example\<close>

text \<open>A new page at block 0, and one backend.\<close>

definition ex_bg :: bg_sys where
  "ex_bg = \<lparr>bg_store = [blank_page], bg_backends = {7}, bg_launching = {}, bg_pending = 0, bg_booting = {}, bg_merging = {}\<rparr>"

lemma ex_bg_initial: "bg_initial 0 ex_bg"
  by (simp add: bg_initial_def ex_bg_def bg_data_def)

theorem one_background_merger_witness: "bg_mergers ex_bg \<le> 1 \<and> (\<exists>u. bg_step 0 ex_bg u \<and> bg_launching u = {7})"
proof -
  have "bg_data (bg_store ex_bg) 0 = Some (0, Stopped) \<and> (7 :: int) \<in> bg_backends ex_bg" by (simp add: ex_bg_def bg_data_def)
  then show ?thesis using one_background_merger [OF ex_bg_initial bg_reachable.here] by blast
qed

text \<open>The backend 7 launches a merger, and the worker 8 comes up; then it marks the page.\<close>

definition ex_booting :: bg_sys where
  "ex_booting = ex_bg\<lparr>bg_store := [blank_page\<lparr>pg_body := BgMergerPage 1 Starting\<rparr>], bg_backends := {7, 8}, bg_booting := {8}\<rparr>"

definition ex_merging :: bg_sys where
  "ex_merging = ex_booting\<lparr>bg_store := [blank_page\<lparr>pg_body := BgMergerPage 8 Running\<rparr>], bg_booting := {}, bg_merging := {8}\<rparr>"

lemma ex_booting_reachable: "bg_reachable 0 bg_idle ex_bg ex_booting"
proof -
  let ?s = "[blank_page\<lparr>pg_body := BgMergerPage 1 Starting\<rparr>]"
  have s: "try_starting (\<lambda>q. q \<in> bg_backends ex_bg) (bg_store ex_bg) 0 = Some (?s, True)"
    by (simp add: try_starting_def bg_data_def ex_bg_def)
  let ?t1 = "ex_bg\<lparr>bg_store := ?s, bg_launching := {7}\<rparr>"
  let ?t2 = "?t1\<lparr>bg_launching := {}, bg_pending := 1\<rparr>"
  have 1: "bg_step 0 ex_bg ?t1" using bg_step.launch [of 7 ex_bg 0 ?s] s by (simp add: ex_bg_def)
  have 2: "bg_step 0 ?t1 ?t2" using bg_step.register [of 7 ?t1 0] by (simp add: ex_bg_def)
  have 3: "bg_step 0 ?t2 ex_booting" using bg_step.start [of ?t2 8 0] by (simp add: ex_bg_def ex_booting_def insert_commute)
  show ?thesis by (rule bg_reachable.further [OF bg_reachable.further [OF bg_reachable.further [OF bg_reachable.here 1] 2] 3])
qed

theorem background_merger_stuck_witness:
  "try_starting (\<lambda>_. True) (bg_store ex_booting) 0 = Some (bg_store ex_booting, False) \<and>
   bg_step 0 ex_booting (ex_booting\<lparr>bg_booting := {}, bg_backends := {7}\<rparr>)"
proof -
  let ?u = "ex_booting\<lparr>bg_booting := {}, bg_backends := {7}\<rparr>"
  have l: "bg_step 0 ex_booting ?u" using bg_step.leave [of 8 ex_booting 0] by (simp add: ex_booting_def insert_Diff_if)
  have "bg_mergers ex_booting = 1" "bg_merging ex_booting = {}" "bg_mergers ?u = 0" "bg_store ?u = bg_store ex_booting"
    by (simp_all add: bg_mergers_def ex_booting_def ex_bg_def)
  from background_merger_stuck [OF ex_bg_initial ex_booting_reachable l this(4,1-3) bg_reachable.here] l show ?thesis by simp
qed

theorem reset_admits_second_merger_witness:
  "\<exists>w u. bg_reset 0 ex_merging w \<and> bg_step 0 w u \<and> bg_launching u = {7} \<and> bg_mergers u = 2"
proof -
  have "bg_step 0 ex_booting ex_merging"
    using bg_step.run [of 8 ex_booting 0 "bg_store ex_merging"] by (simp add: ex_booting_def ex_merging_def ex_bg_def set_running_def)
  note r = bg_reachable.further [OF ex_booting_reachable this]
  have m: "8 \<in> bg_merging ex_merging" "7 \<in> bg_backends ex_merging" by (simp_all add: ex_merging_def ex_booting_def)
  have "set_stopped (bg_store ex_merging) 0 = Some [blank_page\<lparr>pg_body := BgMergerPage 0 Stopped\<rparr>]"
    by (simp add: set_stopped_def ex_merging_def)
  note w = bg_reset.reset [OF m(2) this]
  from reset_admits_second_merger [OF ex_bg_initial r m w] w show ?thesis by blast
qed

end
