(* ===== verification/Text_Streams.thy ===== *)
theory Text_Streams
  imports Pdb_Prelude
begin

text \<open>
  Text and token streams, for the tokenizers of the crate \<^verbatim>\<open>tokenizers\<close>: strings as lists of code points with
  their byte offsets in UTF-8, the token of tantivy's stream interface, the contract of a stream, and the filter
  by token length (\<^verbatim>\<open>token_length.rs\<close>), which works on any stream.
\<close>

section \<open>Strings\<close>

type_synonym codepoint = nat

definition len_utf8 :: "codepoint \<Rightarrow> nat" where
  "len_utf8 c = (if c < 0x80 then 1 else if c < 0x800 then 2 else if c < 0x10000 then 3 else 4)"

definition byte_len :: "codepoint list \<Rightarrow> nat" where
  "byte_len text = sum_list (map len_utf8 text)"

fun indices_from :: "nat \<Rightarrow> codepoint list \<Rightarrow> (nat \<times> codepoint) list" where
  "indices_from off [] = []"
| "indices_from off (c # cs) = (off, c) # indices_from (off + len_utf8 c) cs"

definition char_indices :: "codepoint list \<Rightarrow> (nat \<times> codepoint) list" where
  "char_indices text = indices_from 0 text"

definition is_char_boundary :: "codepoint list \<Rightarrow> nat \<Rightarrow> bool" where
  "is_char_boundary text i \<longleftrightarrow> i = byte_len text \<or> i \<in> set (map fst (char_indices text))"

text \<open>\<open>&text[a..b]\<close> panics unless both ends are between characters and in order.\<close>

definition str_slice :: "codepoint list \<Rightarrow> nat \<Rightarrow> nat \<Rightarrow> codepoint list option" where
  "str_slice text a b =
     (if a \<le> b \<and> is_char_boundary text a \<and> is_char_boundary text b
      then Some (map snd (filter (\<lambda>(i, _). a \<le> i \<and> i < b) (char_indices text))) else None)"

text \<open>Rust's tables of character properties.\<close>

record char_tables =
  is_alphabetic :: "codepoint \<Rightarrow> bool"
  is_uppercase :: "codepoint \<Rightarrow> bool"
  is_numeric :: "codepoint \<Rightarrow> bool"

section \<open>Tokens\<close>

text \<open>The position counts tokens in \<open>usize\<close>; before the first token it is \<open>usize::MAX\<close>.\<close>

record token =
  offset_from :: nat
  offset_to :: nat
  position :: u64
  tok_text :: "codepoint list"

definition fresh_token :: token where
  "fresh_token = \<lparr>offset_from = 0, offset_to = 0, position = - 1, tok_text = []\<rparr>"

section \<open>The filter by length\<close>

record length_filter =
  lf_min :: "nat option"
  lf_max :: "nat option"

definition length_predicate :: "length_filter \<Rightarrow> token \<Rightarrow> bool" where
  "length_predicate f t =
     (if (case lf_min f of Some m \<Rightarrow> byte_len (tok_text t) < m | None \<Rightarrow> False) then False
      else if (case lf_max f of Some m \<Rightarrow> byte_len (tok_text t) > m | None \<Rightarrow> False) then False
      else True)"

partial_function (option) length_advance ::
  "('s \<Rightarrow> ('s \<times> bool) option) \<Rightarrow> ('s \<Rightarrow> token) \<Rightarrow> length_filter \<Rightarrow> 's \<Rightarrow> ('s \<times> bool) option" where
  "length_advance adv tok f s = do {
     (s, more) \<leftarrow> adv s;
     if \<not> more then Some (s, False)
     else if length_predicate f (tok s) then Some (s, True)
     else length_advance adv tok f s
   }"

lemmas [code] = length_advance.simps

text \<open>All tokens of a stream, and the stream at the end.\<close>

partial_function (option) drain_stream :: "('s \<Rightarrow> ('s \<times> bool) option) \<Rightarrow> ('s \<Rightarrow> token) \<Rightarrow> 's \<Rightarrow> ('s \<times> token list) option" where
  "drain_stream adv tok s = do {
     (s, more) \<leftarrow> adv s;
     if \<not> more then Some (s, [])
     else do {
       (s', ts) \<leftarrow> drain_stream adv tok s;
       Some (s', tok s # ts)
     }
   }"

lemmas [code] = drain_stream.simps

section \<open>The contract of a stream\<close>

text \<open>\<open>gives ts s\<close>: the tokens \<open>ts\<close> are still to come; \<open>advance\<close> moves to the next one or reports that there is none.\<close>

locale token_stream =
  fixes adv :: "'s \<Rightarrow> ('s \<times> bool) option" and tok :: "'s \<Rightarrow> token" and gives :: "token list \<Rightarrow> 's \<Rightarrow> bool"
  assumes adv_end: "gives [] s \<Longrightarrow> \<exists>s'. adv s = Some (s', False) \<and> gives [] s'"
    and adv_token: "gives (t # ts) s \<Longrightarrow> \<exists>s'. adv s = Some (s', True) \<and> tok s' = t \<and> gives ts s'"
begin

lemma stream_drained: "gives ts s \<Longrightarrow> \<exists>s'. drain_stream adv tok s = Some (s', ts) \<and> gives [] s'"
proof (induction ts arbitrary: s)
  case Nil
  then show ?case using adv_end [of s] by (subst drain_stream.simps) auto
next
  case (Cons t ts)
  obtain s1 where "adv s = Some (s1, True)" "tok s1 = t" "gives ts s1" using adv_token [OF Cons.prems] by blast
  then show ?case using Cons.IH [of s1] by (subst drain_stream.simps) auto
qed

lemma length_advance_end:
  "gives us s \<Longrightarrow> filter (length_predicate f) us = [] \<Longrightarrow> \<exists>s'. length_advance adv tok f s = Some (s', False) \<and> gives [] s'"
proof (induction us arbitrary: s)
  case Nil
  then show ?case using adv_end [of s] by (subst length_advance.simps) auto
next
  case (Cons u us)
  obtain s1 where "adv s = Some (s1, True)" "tok s1 = u" "gives us s1" using adv_token [OF Cons.prems(1)] by blast
  then show ?case using Cons.IH [of s1] Cons.prems(2) by (subst length_advance.simps) (auto split: if_splits)
qed

lemma length_advance_token:
  "gives us s \<Longrightarrow> filter (length_predicate f) us = t # ts \<Longrightarrow>
   \<exists>s' vs. length_advance adv tok f s = Some (s', True) \<and> tok s' = t \<and> gives vs s' \<and> filter (length_predicate f) vs = ts"
proof (induction us arbitrary: s)
  case (Cons u us)
  obtain s1 where "adv s = Some (s1, True)" "tok s1 = u" "gives us s1" using adv_token [OF Cons.prems(1)] by blast
  then show ?case using Cons.IH [of s1] Cons.prems(2) by (subst length_advance.simps) (auto split: if_splits)
qed simp

text \<open>The filter of a stream is a stream.\<close>

lemma filtered_stream: "token_stream (length_advance adv tok f) tok (\<lambda>ts s. \<exists>us. gives us s \<and> ts = filter (length_predicate f) us)"
proof (unfold_locales, goal_cases)
  case (1 s)
  then obtain us where "gives us s" "filter (length_predicate f) us = []" by metis
  then show ?case using length_advance_end [of us s f] by (metis filter.simps(1))
next
  case (2 t ts s)
  then obtain us where "gives us s" "filter (length_predicate f) us = t # ts" by metis
  then show ?case using length_advance_token [of us s f t ts] by metis
qed

lemma filtered_drain:
  assumes "gives us s"
  shows "\<exists>s'. drain_stream (length_advance adv tok f) tok s = Some (s', filter (length_predicate f) us)"
proof -
  have "\<exists>vs. gives vs s \<and> filter (length_predicate f) us = filter (length_predicate f) vs" using assms by blast
  from token_stream.stream_drained [OF filtered_stream this] show ?thesis by blast
qed

end

section \<open>Facts about offsets\<close>

lemma len_utf8_pos: "0 < len_utf8 c"
  by (simp add: len_utf8_def)

lemma byte_len_simps [simp]: "byte_len [] = 0" "byte_len (c # cs) = len_utf8 c + byte_len cs" "byte_len (xs @ ys) = byte_len xs + byte_len ys"
  by (simp_all add: byte_len_def)

lemma indices_append: "indices_from off (xs @ ys) = indices_from off xs @ indices_from (off + byte_len xs) ys"
  by (induction xs arbitrary: off) (simp_all add: add.assoc)

lemma indices_bounds: "(i, c) \<in> set (indices_from off str) \<Longrightarrow> off \<le> i \<and> i < off + byte_len str"
proof (induction str arbitrary: off)
  case (Cons a str)
  then show ?case using len_utf8_pos [of a] Cons.IH [of "off + len_utf8 a"] by (auto, fastforce+)
qed simp

lemma indices_chars [simp]: "map snd (indices_from off str) = str"
  by (induction str arbitrary: off) simp_all

lemma boundary_prefix: "is_char_boundary (xs @ ys) (byte_len xs)"
  by (cases ys) (auto simp: is_char_boundary_def char_indices_def indices_append)

lemma indices_inside:
  assumes "a \<le> off" "off + byte_len xs \<le> b"
  shows "filter (\<lambda>(i, _). a \<le> i \<and> i < b) (indices_from off xs) = indices_from off xs"
  using assms by (auto simp: filter_id_conv dest!: indices_bounds)

lemma indices_outside:
  assumes "off + byte_len xs \<le> a \<or> b \<le> off"
  shows "filter (\<lambda>(i, _). a \<le> i \<and> i < b) (indices_from off xs) = []"
  using assms by (auto simp: filter_empty_conv dest!: indices_bounds)

lemma str_slice_middle: "str_slice (xs @ ys @ zs) (byte_len xs) (byte_len xs + byte_len ys) = Some ys"
proof -
  have "is_char_boundary ((xs @ ys) @ zs) (byte_len (xs @ ys))" "is_char_boundary (xs @ ys @ zs) (byte_len xs)" by (rule boundary_prefix)+
  moreover have "filter (\<lambda>(i, _). byte_len xs \<le> i \<and> i < byte_len xs + byte_len ys) (indices_from 0 (xs @ ys @ zs)) = indices_from (byte_len xs) ys"
    by (simp add: indices_append indices_inside indices_outside)
  ultimately show ?thesis by (simp add: str_slice_def char_indices_def)
qed

text \<open>A token that lies in the text \<open>str\<close>, not before the offset \<open>a\<close>.\<close>

definition token_in :: "codepoint list \<Rightarrow> nat \<Rightarrow> token \<Rightarrow> bool" where
  "token_in str a t \<longleftrightarrow> (\<exists>pre post. str = pre @ tok_text t @ post \<and> offset_from t = byte_len pre \<and> offset_to t = byte_len (pre @ tok_text t) \<and> a \<le> byte_len pre)"

lemma token_in_here: "token_in (don @ w @ r) (byte_len don) \<lparr>offset_from = byte_len don, offset_to = byte_len (don @ w), position = p, tok_text = w\<rparr>"
  unfolding token_in_def by (rule exI [of _ don], rule exI [of _ r]) simp

lemma token_in_mono:
  assumes "token_in str a t" "b \<le> a"
  shows "token_in str b t"
proof -
  obtain pre post where "str = pre @ tok_text t @ post" "offset_from t = byte_len pre" "offset_to t = byte_len (pre @ tok_text t)" "a \<le> byte_len pre"
    using assms(1) unfolding token_in_def by (elim exE conjE) (rule that)
  then have "\<exists>post. str = pre @ tok_text t @ post \<and> offset_from t = byte_len pre \<and> offset_to t = byte_len (pre @ tok_text t) \<and> b \<le> byte_len pre"
    using assms(2) by auto
  then show ?thesis unfolding token_in_def by (rule exI)
qed

lemma token_in_slice:
  assumes "token_in str a t"
  shows "str_slice str (offset_from t) (offset_to t) = Some (tok_text t)"
proof -
  obtain pre post where "str = pre @ tok_text t @ post" "offset_from t = byte_len pre" "offset_to t = byte_len (pre @ tok_text t)"
    using assms unfolding token_in_def by (elim exE conjE) (rule that)
  then show ?thesis using str_slice_middle [of pre "tok_text t" post] by simp
qed

lemma token_in_from: "token_in str a t \<Longrightarrow> a \<le> offset_from t"
  unfolding token_in_def by (elim exE conjE) simp

lemma positions_step: "map (\<lambda>i. p + of_nat i) [0..<Suc n] = p # map (\<lambda>i. (p + 1) + of_nat i) [0..<n]"
  for p :: u64
  by (simp add: upt_conv_Cons map_Suc_upt [symmetric] o_def add.assoc del: upt_Suc)

end
