(* ===== verification/Code_Tokenizer.thy ===== *)
theory Code_Tokenizer
  imports Text_Streams
begin

text \<open>
  The tokenizer for source code, \<^verbatim>\<open>tokenizers/src/code.rs\<close>: a state machine that splits identifiers where the
  case changes and between letters and digits.
\<close>

section \<open>The model\<close>

datatype char_type = UpperCase | LowerCase | Numeric | Delimiter

definition get_char_type :: "char_tables \<Rightarrow> codepoint \<Rightarrow> char_type" where
  "get_char_type u c =
     (if is_alphabetic u c then if is_uppercase u c then UpperCase else LowerCase
      else if is_numeric u c then Numeric else Delimiter)"

record processing_chars_state =
  is_first_char :: bool
  start_offset :: nat
  current_char :: codepoint
  current_char_offset :: nat
  current_char_type :: char_type

datatype code_state = Empty | ProcessingChars processing_chars_state

definition chars_end :: "processing_chars_state \<Rightarrow> nat" where
  "chars_end st = current_char_offset st + len_utf8 (current_char st)"

definition state_advance :: "char_tables \<Rightarrow> code_state \<Rightarrow> nat \<Rightarrow> codepoint \<Rightarrow> code_state \<times> (nat \<times> nat) option" where
  "state_advance u self next_char_offset next_char =
     (let next_char_type = get_char_type u next_char in
      case self of
        Empty \<Rightarrow>
          (case next_char_type of
             Delimiter \<Rightarrow> (Empty, None)
           | _ \<Rightarrow> (ProcessingChars \<lparr>is_first_char = True, start_offset = next_char_offset, current_char = next_char,
                     current_char_offset = next_char_offset, current_char_type = next_char_type\<rparr>, None))
      | ProcessingChars st \<Rightarrow>
          (if next_char_type = Delimiter then (Empty, Some (start_offset st, chars_end st))
           else if current_char_type st = UpperCase \<and> next_char_type = LowerCase
           then if is_first_char st
             then (ProcessingChars (st\<lparr>is_first_char := False, current_char_offset := next_char_offset, current_char := next_char,
                     current_char_type := next_char_type\<rparr>), None)
             else (ProcessingChars (st\<lparr>is_first_char := False, start_offset := current_char_offset st, current_char_offset := next_char_offset,
                     current_char := next_char, current_char_type := next_char_type\<rparr>), Some (start_offset st, current_char_offset st))
           else if current_char_type st = next_char_type
           then (ProcessingChars (st\<lparr>is_first_char := False, current_char_offset := next_char_offset, current_char := next_char\<rparr>), None)
           else (ProcessingChars (st\<lparr>is_first_char := True, start_offset := next_char_offset, current_char_offset := next_char_offset,
                   current_char := next_char, current_char_type := next_char_type\<rparr>), Some (start_offset st, chars_end st))))"

definition state_finalize :: "code_state \<Rightarrow> code_state \<times> (nat \<times> nat) option" where
  "state_finalize self = (case self of Empty \<Rightarrow> (Empty, None) | ProcessingChars st \<Rightarrow> (Empty, Some (start_offset st, chars_end st)))"

record code_stream =
  cs_text :: "codepoint list"
  cs_chars :: "(nat \<times> codepoint) list"
  cs_token :: token
  cs_state :: code_state

text \<open>\<open>reset\<close> of the token, by \<open>token_stream\<close>, starts the positions anew.\<close>

definition code_token_stream :: "codepoint list \<Rightarrow> code_stream" where
  "code_token_stream str = \<lparr>cs_text = str, cs_chars = char_indices str, cs_token = fresh_token, cs_state = Empty\<rparr>"

definition update_token :: "code_stream \<Rightarrow> nat \<times> nat \<Rightarrow> code_stream option" where
  "update_token s offs = do {
     w \<leftarrow> str_slice (cs_text s) (fst offs) (snd offs);
     Some (s\<lparr>cs_token := (cs_token s)\<lparr>offset_from := fst offs, offset_to := snd offs, tok_text := tok_text (cs_token s) @ w\<rparr>\<rparr>)
   }"

fun next_offsets :: "char_tables \<Rightarrow> code_state \<Rightarrow> (nat \<times> codepoint) list \<Rightarrow> code_state \<times> (nat \<times> codepoint) list \<times> (nat \<times> nat) option" where
  "next_offsets u st [] = (case state_finalize st of (st', offs) \<Rightarrow> (st', [], offs))"
| "next_offsets u st ((i, c) # cs) =
     (case state_advance u st i c of
        (st', None) \<Rightarrow> next_offsets u st' cs
      | (st', Some offs) \<Rightarrow> (st', cs, Some offs))"

definition code_advance :: "char_tables \<Rightarrow> code_stream \<Rightarrow> (code_stream \<times> bool) option" where
  "code_advance u s =
     (let s = s\<lparr>cs_token := (cs_token s)\<lparr>tok_text := [], position := position (cs_token s) + 1\<rparr>\<rparr>;
          (st, cs, offs) = next_offsets u (cs_state s) (cs_chars s);
          s = s\<lparr>cs_state := st, cs_chars := cs\<rparr>
      in (case offs of
            None \<Rightarrow> Some (s, False)
          | Some offs \<Rightarrow> do { s \<leftarrow> update_token s offs; Some (s, True) }))"

section \<open>The words of a text\<close>

text \<open>The tokens of \<open>rest\<close> after \<open>don\<close>, with \<open>cur\<close> the word so far.\<close>

fun code_tokens :: "char_tables \<Rightarrow> u64 \<Rightarrow> codepoint list \<Rightarrow> codepoint list \<Rightarrow> codepoint list \<Rightarrow> token list" where
  "code_tokens u p don cur [] =
     (if cur = [] then [] else [\<lparr>offset_from = byte_len don, offset_to = byte_len (don @ cur), position = p, tok_text = cur\<rparr>])"
| "code_tokens u p don cur (c # cs) =
     (let tok = \<lambda>w. \<lparr>offset_from = byte_len don, offset_to = byte_len (don @ w), position = p, tok_text = w\<rparr> in
      if get_char_type u c = Delimiter
      then if cur = [] then code_tokens u p (don @ [c]) [] cs else tok cur # code_tokens u (p + 1) (don @ cur @ [c]) [] cs
      else if cur = [] then code_tokens u p don [c] cs
      else if get_char_type u (last cur) = UpperCase \<and> get_char_type u c = LowerCase
      then if length cur = 1 then code_tokens u p don (cur @ [c]) cs
           else tok (butlast cur) # code_tokens u (p + 1) (don @ butlast cur) [last cur, c] cs
      else if get_char_type u (last cur) = get_char_type u c then code_tokens u p don (cur @ [c]) cs
      else tok cur # code_tokens u (p + 1) (don @ cur) [c] cs)"

definition code_rel :: "char_tables \<Rightarrow> codepoint list \<Rightarrow> codepoint list \<Rightarrow> code_state \<Rightarrow> bool" where
  "code_rel u don cur st \<longleftrightarrow>
     (if cur = [] then st = Empty
      else st = ProcessingChars \<lparr>is_first_char = (length cur = 1), start_offset = byte_len don, current_char = last cur,
             current_char_offset = byte_len (don @ butlast cur), current_char_type = get_char_type u (last cur)\<rparr>)"

definition code_gives :: "char_tables \<Rightarrow> token list \<Rightarrow> code_stream \<Rightarrow> bool" where
  "code_gives u ts s \<longleftrightarrow> (\<exists>don cur rest. cs_text s = don @ cur @ rest \<and> cs_chars s = indices_from (byte_len (don @ cur)) rest \<and>
     code_rel u don cur (cs_state s) \<and> ts = code_tokens u (position (cs_token s) + 1) don cur rest)"

lemma butlast_len: "cur \<noteq> [] \<Longrightarrow> byte_len (butlast cur) + len_utf8 (last cur) = byte_len cur"
  by (induction cur rule: rev_induct) auto

text \<open>What \<open>advance\<close> finds from the state \<open>st\<close>, when the tokens \<open>ts\<close> of \<open>str\<close> are to come.\<close>

definition finds :: "char_tables \<Rightarrow> codepoint list \<Rightarrow> u64 \<Rightarrow> code_state \<Rightarrow> (nat \<times> codepoint) list \<Rightarrow> token list \<Rightarrow> bool" where
  "finds u str p st cs ts \<longleftrightarrow>
     (case ts of
        [] \<Rightarrow> next_offsets u st cs = (Empty, [], None)
      | t # ts \<Rightarrow> \<exists>don cur rest st'. next_offsets u st cs = (st', indices_from (byte_len (don @ cur)) rest, Some (offset_from t, offset_to t)) \<and>
          code_rel u don cur st' \<and> str = don @ cur @ rest \<and> ts = code_tokens u (p + 1) don cur rest \<and> position t = p \<and>
          str_slice str (offset_from t) (offset_to t) = Some (tok_text t))"

lemma finds_skip: "state_advance u st i c = (st', None) \<Longrightarrow> finds u str p st' cs ts \<Longrightarrow> finds u str p st ((i, c) # cs) ts"
  by (auto simp: finds_def split: list.splits)

lemma finds_emit:
  assumes "next_offsets u st cs = (st', indices_from (byte_len (don @ cur)) rest, Some (byte_len pre, byte_len (pre @ w)))" "code_rel u don cur st'"
    "str = don @ cur @ rest" "str = pre @ w @ post"
  shows "finds u str p st cs
     (\<lparr>offset_from = byte_len pre, offset_to = byte_len (pre @ w), position = p, tok_text = w\<rparr> # code_tokens u (p + 1) don cur rest)"
  unfolding finds_def list.case token.simps
  by (intro exI [of _ don] exI [of _ cur] exI [of _ rest] exI [of _ st'] conjI)
    (use assms str_slice_middle [of pre w post] in simp_all)

lemma finds_go:
  assumes "state_advance u st (byte_len (don @ cur)) c = (st', None)" "don' @ cur' = don @ cur @ [c]"
    "finds u (don' @ cur' @ rest) p st' (indices_from (byte_len (don' @ cur')) rest) ts"
  shows "finds u (don @ cur @ c # rest) p st (indices_from (byte_len (don @ cur)) (c # rest)) ts"
proof -
  have e: "don' @ cur' @ rest = don @ cur @ c # rest" using assms(2) by (metis append.assoc append_Cons append_Nil)
  have "byte_len (don' @ cur') = byte_len (don @ cur) + len_utf8 c" unfolding assms(2) by simp
  then show ?thesis using finds_skip [OF assms(1) assms(3) [unfolded e]] by simp
qed

lemma finds_word:
  assumes "state_advance u st (byte_len (don @ cur)) c = (st', Some (byte_len don, byte_len (don @ w)))" "don' @ cur' = don @ cur @ [c]"
    "code_rel u don' cur' st'" "cur = w @ v"
  shows "finds u (don @ cur @ c # rest) p st (indices_from (byte_len (don @ cur)) (c # rest))
      (\<lparr>offset_from = byte_len don, offset_to = byte_len (don @ w), position = p, tok_text = w\<rparr> # code_tokens u (p + 1) don' cur' rest)"
proof (rule finds_emit)
  have "byte_len (don' @ cur') = byte_len (don @ cur) + len_utf8 c" unfolding assms(2) by simp
  then show "next_offsets u st (indices_from (byte_len (don @ cur)) (c # rest)) =
      (st', indices_from (byte_len (don' @ cur')) rest, Some (byte_len don, byte_len (don @ w)))" using assms(1) by simp
  show "don @ cur @ c # rest = don' @ cur' @ rest" using assms(2) by (metis append.assoc append_Cons append_Nil)
  show "don @ cur @ c # rest = don @ w @ (v @ c # rest)" using assms(4) by simp
qed (rule assms(3))

text \<open>The word so far is not empty, and \<open>c\<close> follows.\<close>

lemma finds_next:
  assumes rel: "code_rel u don cur st" and ne: "cur \<noteq> []"
    and IH: "\<And>don cur st. code_rel u don cur st \<Longrightarrow> finds u (don @ cur @ rest) p st (indices_from (byte_len (don @ cur)) rest) (code_tokens u p don cur rest)"
  shows "finds u (don @ cur @ c # rest) p st (indices_from (byte_len (don @ cur)) (c # rest)) (code_tokens u p don cur (c # rest))"
proof -
  let ?t = "get_char_type u"
  have st: "st = ProcessingChars \<lparr>is_first_char = (length cur = 1), start_offset = byte_len don, current_char = last cur,
     current_char_offset = byte_len (don @ butlast cur), current_char_type = ?t (last cur)\<rparr>" using rel ne by (simp add: code_rel_def)
  note adv = state_advance_def Let_def st chars_end_def code_rel_def butlast_len [OF ne]
  consider (d) "?t c = Delimiter" | (first) "?t c \<noteq> Delimiter" "?t (last cur) = UpperCase" "?t c = LowerCase" "length cur = 1"
    | (ul) "?t c \<noteq> Delimiter" "?t (last cur) = UpperCase" "?t c = LowerCase" "length cur \<noteq> 1"
    | (same) "?t c \<noteq> Delimiter" "\<not> (?t (last cur) = UpperCase \<and> ?t c = LowerCase)" "?t (last cur) = ?t c"
    | (other) "?t c \<noteq> Delimiter" "\<not> (?t (last cur) = UpperCase \<and> ?t c = LowerCase)" "?t (last cur) \<noteq> ?t c" by blast
  then show ?thesis
  proof cases
    case d
    have "state_advance u st (byte_len (don @ cur)) c = (Empty, Some (byte_len don, byte_len (don @ cur)))" using d by (simp add: adv)
    from finds_word [OF this, of "don @ cur @ [c]" "[]" "[]"] show ?thesis using d ne by (simp add: code_rel_def)
  next
    case first
    have "\<exists>st'. state_advance u st (byte_len (don @ cur)) c = (st', None) \<and> code_rel u don (cur @ [c]) st'" using first ne by (simp add: adv)
    then obtain st' where a: "state_advance u st (byte_len (don @ cur)) c = (st', None)" "code_rel u don (cur @ [c]) st'" by (elim exE conjE) (rule that)
    have "code_tokens u p don cur (c # rest) = code_tokens u p don (cur @ [c]) rest" using first ne by simp
    then show ?thesis using finds_go [OF a(1) _ IH [OF a(2)]] by simp
  next
    case ul
    have "\<exists>st'. state_advance u st (byte_len (don @ cur)) c = (st', Some (byte_len don, byte_len (don @ butlast cur))) \<and> code_rel u (don @ butlast cur) [last cur, c] st'"
      using ul ne butlast_len [OF ne] by (simp add: adv)
    then obtain st' where a: "state_advance u st (byte_len (don @ cur)) c = (st', Some (byte_len don, byte_len (don @ butlast cur)))"
      "code_rel u (don @ butlast cur) [last cur, c] st'" by (elim exE conjE) (rule that)
    show ?thesis using finds_word [OF a(1) _ a(2), of "[last cur]" rest p] ul ne by (simp add: Let_def)
  next
    case same
    have "\<exists>st'. state_advance u st (byte_len (don @ cur)) c = (st', None) \<and> code_rel u don (cur @ [c]) st'" using same ne by (simp add: adv)
    then obtain st' where a: "state_advance u st (byte_len (don @ cur)) c = (st', None)" "code_rel u don (cur @ [c]) st'" by (elim exE conjE) (rule that)
    have "code_tokens u p don cur (c # rest) = code_tokens u p don (cur @ [c]) rest" using same ne by (auto simp: Let_def)
    then show ?thesis using finds_go [OF a(1) _ IH [OF a(2)]] by simp
  next
    case other
    have "\<exists>st'. state_advance u st (byte_len (don @ cur)) c = (st', Some (byte_len don, byte_len (don @ cur))) \<and> code_rel u (don @ cur) [c] st'"
      using other ne by (simp add: adv)
    then obtain st' where a: "state_advance u st (byte_len (don @ cur)) c = (st', Some (byte_len don, byte_len (don @ cur)))" "code_rel u (don @ cur) [c] st'"
      by (elim exE conjE) (rule that)
    show ?thesis using finds_word [OF a(1) _ a(2), of "[]" rest p] other ne by (auto simp: Let_def)
  qed
qed

lemma finds_ok:
  assumes "code_rel u don cur st"
  shows "finds u (don @ cur @ rest) p st (indices_from (byte_len (don @ cur)) rest) (code_tokens u p don cur rest)"
  using assms
proof (induction rest arbitrary: don cur st)
  case Nil
  show ?case
  proof (cases "cur = []")
    case True
    then have st: "st = Empty" using Nil by (simp add: code_rel_def)
    show ?thesis unfolding True st by (simp add: finds_def state_finalize_def)
  next
    case False
    have "next_offsets u st [] = (Empty, indices_from (byte_len ((don @ cur) @ [])) [], Some (byte_len don, byte_len (don @ cur)))"
      using Nil False butlast_len [OF False] by (simp add: code_rel_def state_finalize_def chars_end_def)
    then have "finds u (don @ cur) p st [] (\<lparr>offset_from = byte_len don, offset_to = byte_len (don @ cur), position = p, tok_text = cur\<rparr> # code_tokens u (p + 1) (don @ cur) [] [])"
      by (rule finds_emit [where post = "[]"]) (simp_all add: code_rel_def)
    then show ?thesis using False by simp
  qed
next
  case (Cons c rest)
  consider (w) "cur \<noteq> []" | (d) "cur = []" "get_char_type u c = Delimiter" | (n) "cur = []" "get_char_type u c \<noteq> Delimiter" by blast
  then show ?case
  proof cases
    case w
    show ?thesis by (rule finds_next [OF Cons.prems w]) (rule Cons.IH)
  next
    case d
    then have "state_advance u st (byte_len (don @ cur)) c = (Empty, None)" using Cons.prems by (simp add: state_advance_def code_rel_def)
    from finds_go [OF this, of "don @ [c]" "[]"] Cons.IH [of "don @ [c]" "[]" Empty] d show ?thesis by (simp add: code_rel_def)
  next
    case n
    have "\<exists>st'. state_advance u st (byte_len (don @ cur)) c = (st', None) \<and> code_rel u don [c] st'"
      using n Cons.prems by (cases "get_char_type u c") (simp_all add: state_advance_def code_rel_def)
    then obtain st' where a: "state_advance u st (byte_len (don @ cur)) c = (st', None)" "code_rel u don [c] st'" by (elim exE conjE) (rule that)
    show ?thesis using finds_go [OF a(1) _ Cons.IH [OF a(2)]] n by simp
  qed
qed

lemma code_gives_finds:
  assumes "code_gives u ts s"
  shows "finds u (cs_text s) (position (cs_token s) + 1) (cs_state s) (cs_chars s) ts"
proof -
  obtain don cur rest where g: "cs_text s = don @ cur @ rest" "cs_chars s = indices_from (byte_len (don @ cur)) rest" "code_rel u don cur (cs_state s)"
    "ts = code_tokens u (position (cs_token s) + 1) don cur rest" using assms unfolding code_gives_def by blast
  show ?thesis unfolding g(1,2,4) by (rule finds_ok [OF g(3)])
qed

interpretation code: token_stream "code_advance u" cs_token "code_gives u" for u
proof (unfold_locales, goal_cases)
  case (1 s)
  have "next_offsets u (cs_state s) (cs_chars s) = (Empty, [], None)" using code_gives_finds [OF 1] by (simp add: finds_def)
  then have "\<exists>s'. code_advance u s = Some (s', False) \<and> cs_chars s' = [] \<and> cs_state s' = Empty" by (simp add: code_advance_def)
  then obtain s' where s': "code_advance u s = Some (s', False)" "cs_chars s' = []" "cs_state s' = Empty" by (elim exE conjE) (rule that)
  have "code_gives u [] s'" unfolding code_gives_def
    by (rule exI [of _ "cs_text s'"], rule exI [of _ "[]"], rule exI [of _ "[]"]) (simp add: s' code_rel_def)
  then show ?case using s'(1) by blast
next
  case (2 t ts s)
  obtain don cur rest st' where f: "next_offsets u (cs_state s) (cs_chars s) = (st', indices_from (byte_len (don @ cur)) rest, Some (offset_from t, offset_to t))"
    "code_rel u don cur st'" "cs_text s = don @ cur @ rest" "ts = code_tokens u (position (cs_token s) + 1 + 1) don cur rest" "position t = position (cs_token s) + 1"
    "str_slice (cs_text s) (offset_from t) (offset_to t) = Some (tok_text t)"
    using code_gives_finds [OF 2] unfolding finds_def list.case by (elim exE conjE) (rule that)
  define s' where "s' = s\<lparr>cs_token := t, cs_state := st', cs_chars := indices_from (byte_len (don @ cur)) rest\<rparr>"
  have "code_advance u s = Some (s', True)" using f(1,5,6) by (simp add: code_advance_def update_token_def s'_def)
  moreover have "code_gives u ts s'" unfolding code_gives_def using f(2-5) by (intro exI [of _ don] exI [of _ cur] exI [of _ rest]) (simp add: s'_def)
  ultimately show ?case by (simp add: s'_def)
qed


section \<open>What the words are\<close>

text \<open>Capitals, digits, small letters, or small letters after one capital.\<close>

definition code_word :: "char_tables \<Rightarrow> codepoint list \<Rightarrow> bool" where
  "code_word u w \<longleftrightarrow> w \<noteq> [] \<and>
     ((\<forall>c \<in> set w. get_char_type u c = UpperCase) \<or> (\<forall>c \<in> set w. get_char_type u c = Numeric) \<or>
      (get_char_type u (hd w) \<in> {UpperCase, LowerCase} \<and> (\<forall>c \<in> set (tl w). get_char_type u c = LowerCase)))"

text \<open>
  Two words that touch: the class of the characters changes, but not from a capital to a small letter, or both sides are
  capitals and the second word goes on with a small letter.
\<close>

definition code_cut :: "char_tables \<Rightarrow> codepoint list \<Rightarrow> codepoint list \<Rightarrow> bool" where
  "code_cut u w v \<longleftrightarrow>
     get_char_type u (last w) \<noteq> get_char_type u (hd v) \<and>
       \<not> (get_char_type u (last w) = UpperCase \<and> get_char_type u (hd v) = LowerCase) \<or>
     get_char_type u (last w) = UpperCase \<and> get_char_type u (hd v) = UpperCase \<and>
       length v > 1 \<and> get_char_type u (v ! 1) = LowerCase"

lemma code_word_sing: "get_char_type u c \<noteq> Delimiter \<Longrightarrow> code_word u [c]"
  by (cases "get_char_type u c") (simp_all add: code_word_def)

lemma code_word_same:
  assumes "code_word u w" "get_char_type u (last w) = get_char_type u c"
  shows "code_word u (w @ [c])"
proof (cases "tl w = []")
  case True
  then obtain d where "w = [d]" using assms(1) by (cases w) (auto simp: code_word_def)
  then show ?thesis using assms by (auto simp: code_word_def)
next
  case False
  then have "w \<noteq> []" "last w \<in> set w" "last w \<in> set (tl w)" by (cases w; simp)+
  then show ?thesis using assms by (auto simp: code_word_def)
qed

lemma code_word_capital:
  assumes "code_word u w" "get_char_type u (last w) = UpperCase" "length w \<noteq> 1"
  shows "code_word u (butlast w)"
proof -
  obtain v d where w: "w = v @ [d]" using assms(1) by (cases w rule: rev_exhaust) (auto simp: code_word_def)
  obtain c v' where v: "v = c # v'" using assms(3) w by (cases v) auto
  have "\<forall>c \<in> set w. get_char_type u c = UpperCase" using assms(1,2) unfolding code_word_def w v by auto
  then show ?thesis by (simp add: w v code_word_def)
qed

lemma code_word_pair: "get_char_type u a = UpperCase \<Longrightarrow> get_char_type u c = LowerCase \<Longrightarrow> code_word u [a, c]"
  by (simp add: code_word_def)

lemma code_tokens_words:
  assumes "cur = [] \<or> code_word u cur" "t \<in> set (code_tokens u p don cur rest)"
  shows "code_word u (tok_text t)"
  using assms
proof (induction rest arbitrary: p don cur)
  case (Cons c rest)
  consider (w) "cur \<noteq> []" "get_char_type u c = Delimiter" | (e) "cur = []"
    | (f) "cur \<noteq> []" "get_char_type u (last cur) = UpperCase" "get_char_type u c = LowerCase" "length cur = 1"
    | (l) "cur \<noteq> []" "get_char_type u (last cur) = UpperCase" "get_char_type u c = LowerCase" "length cur \<noteq> 1"
    | (s) "cur \<noteq> []" "get_char_type u c \<noteq> Delimiter" "\<not> (get_char_type u (last cur) = UpperCase \<and> get_char_type u c = LowerCase)" by blast
  then show ?case
  proof cases
    case f
    then obtain a where "cur = [a]" by (cases cur) auto
    then show ?thesis using f Cons.prems(2) Cons.IH [of "[a, c]"] code_word_pair by auto
  next
    case l
    then show ?thesis using Cons.prems Cons.IH [of "[last cur, c]"] code_word_pair code_word_capital by (auto simp: Let_def)
  next
    case s
    then show ?thesis using Cons.prems Cons.IH [of "[c]"] Cons.IH [of "cur @ [c]"] code_word_sing code_word_same
      by (auto simp: Let_def split: if_splits)
  qed (use Cons.prems Cons.IH [of "[]"] Cons.IH [of "[c]"] code_word_sing in \<open>auto simp: Let_def split: if_splits\<close>)
qed (auto split: if_splits)

lemma code_tokens_concat:
  assumes "\<forall>c \<in> set cur. get_char_type u c \<noteq> Delimiter"
  shows "concat (map tok_text (code_tokens u p don cur rest)) = cur @ filter (\<lambda>c. get_char_type u c \<noteq> Delimiter) rest"
  using assms
proof (induction rest arbitrary: p don cur)
  case (Cons c rest)
  then show ?case by (simp add: Let_def append_butlast_last_id)
qed simp

text \<open>One character: it is passed over, or a word ends before it.\<close>

lemma code_tokens_step:
  obtains don' cur' where "code_tokens u p don cur (c # rest) = code_tokens u p don' cur' rest" "don' @ cur' = don @ cur @ [c]" "byte_len don \<le> byte_len don'"
  | w v don' cur' where "code_tokens u p don cur (c # rest) = \<lparr>offset_from = byte_len don, offset_to = byte_len (don @ w), position = p, tok_text = w\<rparr> #
        code_tokens u (p + 1) don' cur' rest" "don' @ cur' = don @ cur @ [c]" "cur = w @ v" "byte_len (don @ w) \<le> byte_len don'"
proof -
  let ?t = "get_char_type u"
  consider (e) "cur = []" "?t c = Delimiter" | (d) "cur \<noteq> []" "?t c = Delimiter" | (n) "cur = []" "?t c \<noteq> Delimiter"
    | (l) "cur \<noteq> []" "?t (last cur) = UpperCase" "?t c = LowerCase" "length cur \<noteq> 1"
    | (s) "cur \<noteq> []" "?t c \<noteq> Delimiter" "\<not> (?t (last cur) = UpperCase \<and> ?t c = LowerCase)" "?t (last cur) \<noteq> ?t c"
    | (f) "cur \<noteq> []" "?t (last cur) = UpperCase" "?t c = LowerCase" "length cur = 1"
    | (g) "cur \<noteq> []" "?t c \<noteq> Delimiter" "?t (last cur) = ?t c" by argo
  then show thesis
  proof cases
    case e then show ?thesis using that(1) [of "don @ [c]" "[]"] by simp
  next
    case d then show ?thesis using that(2) [of cur "don @ cur @ [c]" "[]" "[]"] by simp
  next
    case n then show ?thesis using that(1) [of don "[c]"] by simp
  next
    case l then show ?thesis using that(2) [of "butlast cur" "don @ butlast cur" "[last cur, c]" "[last cur]"] by simp
  next
    case s then show ?thesis using that(2) [of cur "don @ cur" "[c]" "[]"] by (auto simp: Let_def)
  next
    case f then show ?thesis using that(1) [of don "cur @ [c]"] by simp
  next
    case g then show ?thesis using that(1) [of don "cur @ [c]"] by (cases "?t c") simp_all
  qed
qed

lemma code_tokens_in:
  assumes "t \<in> set (code_tokens u p don cur rest)"
  shows "token_in (don @ cur @ rest) (byte_len don) t"
  using assms
proof (induction rest arbitrary: p don cur)
  case Nil
  then show ?case using token_in_here [of don cur "[]" p] by (auto split: if_splits)
next
  case (Cons c rest)
  have later: "token_in (don @ cur @ c # rest) (byte_len don) t"
    if "token_in (don' @ cur' @ rest) (byte_len don') t" and e: "don' @ cur' = don @ cur @ [c]" and "byte_len don \<le> byte_len don'" for don' cur'
  proof -
    have "don @ cur @ c # rest = don' @ cur' @ rest" using e by (metis append.assoc append_Cons append_Nil)
    then show ?thesis using token_in_mono that by metis
  qed
  show ?case
  proof (rule code_tokens_step [of u p don cur c rest], goal_cases)
    case (1 don' cur')
    show ?thesis by (rule later [OF Cons.IH [OF Cons.prems [unfolded 1(1)]] 1(2,3)])
  next
    case (2 w v don' cur')
    have "byte_len don \<le> byte_len don'" using 2(4) by simp
    then show ?thesis using Cons.prems later [OF Cons.IH 2(2)] token_in_here [of don w "v @ c # rest" p] unfolding 2(1) by (auto simp: 2(3))
  qed
qed

lemma code_tokens_positions: "map position (code_tokens u p don cur rest) = map (\<lambda>i. p + of_nat i) [0..<length (code_tokens u p don cur rest)]"
proof (induction rest arbitrary: p don cur)
  case (Cons c rest)
  show ?case
  proof (rule code_tokens_step [of u p don cur c rest], goal_cases)
    case (1 don' cur')
    then show ?thesis using Cons.IH [of p don' cur'] by simp
  next
    case (2 w v don' cur')
    then show ?thesis using Cons.IH [of "p + 1" don' cur'] by (simp add: positions_step del: upt_Suc)
  qed
qed simp

text \<open>The first word after \<open>cur\<close> begins with it, but for a last capital.\<close>

lemma code_tokens_first:
  assumes "cur \<noteq> []"
  shows "\<exists>t ts w. code_tokens u p don cur rest = t # ts \<and> offset_from t = byte_len don \<and>
     tok_text t = (if get_char_type u (last cur) = UpperCase \<and> length cur > 1 then butlast cur else cur) @ w"
  using assms
proof (induction rest arbitrary: cur)
  case Nil
  then show ?case by (auto intro: exI [of _ "[last cur]"])
next
  case (Cons c rest)
  have ext: ?case if e: "code_tokens u p don cur (c # rest) = code_tokens u p don (cur @ [c]) rest"
  proof -
    obtain t ts w where t: "code_tokens u p don (cur @ [c]) rest = t # ts" "offset_from t = byte_len don"
      "tok_text t = (if get_char_type u c = UpperCase \<and> length (cur @ [c]) > 1 then butlast (cur @ [c]) else cur @ [c]) @ w"
      using Cons.IH [of "cur @ [c]"] by auto
    have "\<exists>v. tok_text t = cur @ v" using t(3) by (auto split: if_splits)
    then obtain v where v: "tok_text t = cur @ v" ..
    have b: "cur = butlast cur @ [last cur]" using Cons.prems by simp
    show ?thesis unfolding e
      by (rule exI [of _ t], rule exI [of _ ts], rule exI [of _ "if get_char_type u (last cur) = UpperCase \<and> length cur > 1 then last cur # v else v"])
        (use t(1,2) v b in \<open>auto simp: append_butlast_last_id\<close>)
  qed
  let ?t = "get_char_type u"
  consider (d) "?t c = Delimiter"
    | (l) "?t (last cur) = UpperCase" "?t c = LowerCase" "length cur \<noteq> 1"
    | (s) "?t c \<noteq> Delimiter" "\<not> (?t (last cur) = UpperCase \<and> ?t c = LowerCase)" "?t (last cur) \<noteq> ?t c"
    | (f) "?t (last cur) = UpperCase" "?t c = LowerCase" "length cur = 1"
    | (g) "?t c \<noteq> Delimiter" "?t (last cur) = ?t c" by argo
  then show ?case
  proof cases
    case f then show ?thesis using Cons.prems ext by simp
  next
    case g then show ?thesis using Cons.prems ext by (cases "?t c") simp_all
  next
    case l then show ?thesis using Cons.prems by (cases cur) auto
  qed (use Cons.prems in \<open>auto simp: Let_def intro: exI [of _ "[last cur]"]\<close>)
qed

definition code_apart :: "char_tables \<Rightarrow> token \<Rightarrow> token \<Rightarrow> bool" where
  "code_apart u t t' \<longleftrightarrow> offset_to t \<le> offset_from t' \<and> (offset_to t = offset_from t' \<longrightarrow> code_cut u (tok_text t) (tok_text t'))"

lemma code_word_capitals:
  assumes "code_word u w" "get_char_type u (last w) = UpperCase" "length w \<noteq> 1"
  shows "get_char_type u (last (butlast w)) = UpperCase"
proof -
  obtain v d where w: "w = v @ [d]" using assms(1) by (cases w rule: rev_exhaust) (auto simp: code_word_def)
  obtain c v' where v: "v = c # v'" using assms(3) w by (cases v) auto
  have "\<forall>c \<in> set w. get_char_type u c = UpperCase" using assms(1,2) unfolding code_word_def w v by auto
  then show ?thesis by (simp add: w v)
qed

lemma code_tokens_apart:
  assumes "cur = [] \<or> code_word u cur"
  shows "successively (code_apart u) (code_tokens u p don cur rest)"
  using assms
proof (induction rest arbitrary: p don cur)
  case (Cons c rest)
  let ?t = "get_char_type u"
  consider (e) "cur = []" | (d) "cur \<noteq> []" "?t c = Delimiter"
    | (l) "cur \<noteq> []" "?t (last cur) = UpperCase" "?t c = LowerCase" "length cur \<noteq> 1"
    | (s) "cur \<noteq> []" "?t c \<noteq> Delimiter" "\<not> (?t (last cur) = UpperCase \<and> ?t c = LowerCase)" "?t (last cur) \<noteq> ?t c"
    | (f) "cur \<noteq> []" "?t (last cur) = UpperCase" "?t c = LowerCase" "length cur = 1"
    | (g) "cur \<noteq> []" "?t c \<noteq> Delimiter" "?t (last cur) = ?t c" by argo
  then show ?case
  proof cases
    case d
    have "byte_len (don @ cur) < offset_from t" if "t \<in> set (code_tokens u (p + 1) (don @ cur @ [c]) [] rest)" for t
      using token_in_from [OF code_tokens_in [OF that]] len_utf8_pos [of c] by simp
    then have "\<forall>t \<in> set (code_tokens u (p + 1) (don @ cur @ [c]) [] rest). byte_len (don @ cur) < offset_from t" by blast
    then show ?thesis using d Cons.IH [of "[]" "p + 1" "don @ cur @ [c]"]
      by (cases "code_tokens u (p + 1) (don @ cur @ [c]) [] rest") (auto simp: code_apart_def Let_def)
  next
    case l
    have "\<exists>t ts w. code_tokens u (p + 1) (don @ butlast cur) [last cur, c] rest = t # ts \<and> offset_from t = byte_len (don @ butlast cur) \<and> tok_text t = [last cur, c] @ w"
      using code_tokens_first [of "[last cur, c]" u "p + 1" "don @ butlast cur" rest] l by simp
    moreover have "get_char_type u (last (butlast cur)) = UpperCase" using code_word_capitals Cons.prems l by blast
    ultimately show ?thesis using l Cons.IH [of "[last cur, c]" "p + 1" "don @ butlast cur"] code_word_pair
      by (auto simp: code_apart_def code_cut_def Let_def)
  next
    case s
    have "\<exists>t ts w. code_tokens u (p + 1) (don @ cur) [c] rest = t # ts \<and> offset_from t = byte_len (don @ cur) \<and> tok_text t = [c] @ w"
      using code_tokens_first [of "[c]" u "p + 1" "don @ cur" rest] by simp
    then show ?thesis using s Cons.IH [of "[c]" "p + 1" "don @ cur"] code_word_sing [of u c] by (auto simp: code_apart_def code_cut_def Let_def)
  next
    case g
    then show ?thesis using Cons.IH [of "cur @ [c]" p don] Cons.prems code_word_same [of u cur c] by (cases "?t c") simp_all
  next
    case f
    then obtain a where "cur = [a]" by (cases cur) auto
    then show ?thesis using f Cons.IH [of "[a, c]" p don] code_word_pair by auto
  next
    case e
    then show ?thesis using Cons.IH [of "[]"] Cons.IH [of "[c]"] code_word_sing [of u c] by (auto simp: Let_def)
  qed
qed simp

section \<open>The tokenizer\<close>

lemma code_starts: "code_gives u (code_tokens u 0 [] [] str) (code_token_stream str)"
  unfolding code_gives_def
  by (rule exI [of _ "[]"], rule exI [of _ "[]"], rule exI [of _ str])
    (simp add: code_token_stream_def char_indices_def code_rel_def fresh_token_def)

text \<open>
  C11. The tokenizer for source code reads a text to its end without a panic.  The texts of its tokens are, one after
  the other, the characters of the text that are no delimiters; each is a word of capitals, of digits, of small letters or of one
  capital and small letters, and is what its offsets cut out of the text; words that touch are cut where the class changes, never
  between a capital and a small letter, or between two capitals of which the second has a small letter behind it; the positions
  count from 0.  Behind the filter by length, the stream gives the tokens
  whose length is in the bounds, unchanged.
\<close>

theorem code_tokens_split:
  "\<exists>ts s s'. drain_stream (code_advance u) cs_token (code_token_stream str) = Some (s, ts) \<and>
     concat (map tok_text ts) = filter (\<lambda>c. get_char_type u c \<noteq> Delimiter) str \<and>
     list_all (\<lambda>t. code_word u (tok_text t) \<and> str_slice str (offset_from t) (offset_to t) = Some (tok_text t)) ts \<and>
     successively (code_apart u) ts \<and>
     map position ts = map of_nat [0..<length ts] \<and>
     drain_stream (length_advance (code_advance u) cs_token f) cs_token (code_token_stream str) = Some (s', filter (length_predicate f) ts)"
proof -
  define ts where "ts = code_tokens u 0 [] [] str"
  have g: "code_gives u ts (code_token_stream str)" unfolding ts_def by (rule code_starts)
  obtain s where s: "drain_stream (code_advance u) cs_token (code_token_stream str) = Some (s, ts)" using code.stream_drained [OF g] by (elim exE conjE) (rule that)
  obtain s' where s': "drain_stream (length_advance (code_advance u) cs_token f) cs_token (code_token_stream str) = Some (s', filter (length_predicate f) ts)"
    using code.filtered_drain [OF g, of f] by (elim exE) (rule that)
  have "list_all (\<lambda>t. code_word u (tok_text t) \<and> str_slice str (offset_from t) (offset_to t) = Some (tok_text t)) ts"
    unfolding list_all_iff ts_def using code_tokens_words [of "[]" u _ 0 "[]" str] token_in_slice [OF code_tokens_in [of _ u 0 "[]" "[]" str]] by simp
  moreover have "concat (map tok_text ts) = filter (\<lambda>c. get_char_type u c \<noteq> Delimiter) str" unfolding ts_def by (subst code_tokens_concat) simp_all
  moreover have "successively (code_apart u) ts" unfolding ts_def by (rule code_tokens_apart) simp
  moreover have "map position ts = map of_nat [0..<length ts]" unfolding ts_def by (subst code_tokens_positions) simp
  ultimately show ?thesis using s s' by blast
qed

end
