(* ===== verification/Cjk_Tokenizer.thy ===== *)
theory Cjk_Tokenizer
  imports Text_Streams
begin

text \<open>
  The tokenizer for Chinese text, \<^verbatim>\<open>tokenizers/src/cjk.rs\<close>: every ideograph is a token of its own, other letters
  and digits are grouped.
\<close>

section \<open>The model\<close>

definition char_is_cjk :: "codepoint \<Rightarrow> bool" where
  "char_is_cjk c \<longleftrightarrow> 0x4500 \<le> c \<and> c \<le> 0x9FFF \<or> 0x3400 \<le> c \<and> c \<le> 0x4DBF \<or> 0x20000 \<le> c \<and> c \<le> 0x2A6DF \<or> 0x2A700 \<le> c \<and> c \<le> 0x2CEAF"

datatype grouping = Keep | SplitKeep | SplitIgnore

definition char_grouping :: "char_tables \<Rightarrow> codepoint \<Rightarrow> grouping" where
  "char_grouping u c =
     (if is_alphabetic u c \<or> is_numeric u c then if char_is_cjk c then SplitKeep else Keep else SplitIgnore)"

record chinese_stream =
  cj_text :: "codepoint list"
  last_char :: "(nat \<times> codepoint) option"
  cj_chars :: "(nat \<times> codepoint) list"
  cj_token :: token

definition chinese_token_stream :: "codepoint list \<Rightarrow> chinese_stream" where
  "chinese_token_stream str = \<lparr>cj_text = str, last_char = None, cj_chars = char_indices str, cj_token = fresh_token\<rparr>"

text \<open>\<open>Iterator::find\<close>: the first item with the property, and what comes after it.\<close>

fun iter_find :: "('a \<Rightarrow> bool) \<Rightarrow> 'a list \<Rightarrow> 'a option \<times> 'a list" where
  "iter_find P [] = (None, [])"
| "iter_find P (x # xs) = (if P x then (Some x, xs) else iter_find P xs)"

definition set_token :: "chinese_stream \<Rightarrow> nat \<Rightarrow> nat \<Rightarrow> chinese_stream option" where
  "set_token s a b = do {
     w \<leftarrow> str_slice (cj_text s) a b;
     Some (s\<lparr>cj_token := (cj_token s)\<lparr>offset_from := a, offset_to := b, tok_text := tok_text (cj_token s) @ w\<rparr>\<rparr>)
   }"

text \<open>The loop over \<open>last_char\<close> and the characters that are left.\<close>

fun chinese_loop :: "char_tables \<Rightarrow> chinese_stream \<Rightarrow> (nat \<times> codepoint) list \<Rightarrow> (chinese_stream \<times> bool) option" where
  "chinese_loop u s [] = Some (s\<lparr>cj_chars := []\<rparr>, False)"
| "chinese_loop u s ((off, c) # iter) =
     (case char_grouping u c of
        Keep \<Rightarrow>
          (case iter_find (\<lambda>(_, c). char_grouping u c \<noteq> Keep) iter of
             (Some (next_index, next_char), iter) \<Rightarrow> do {
               s \<leftarrow> set_token (s\<lparr>last_char := Some (next_index, next_char), cj_chars := iter\<rparr>) off next_index;
               Some (s, True)
             }
           | (None, iter) \<Rightarrow> do {
               s \<leftarrow> set_token (s\<lparr>cj_chars := iter\<rparr>) off (byte_len (cj_text s));
               Some (s, True)
             })
      | SplitKeep \<Rightarrow> do {
          s \<leftarrow> set_token (s\<lparr>cj_chars := iter\<rparr>) off (off + len_utf8 c);
          Some (s, True)
        }
      | SplitIgnore \<Rightarrow> chinese_loop u s iter)"

definition chinese_advance :: "char_tables \<Rightarrow> chinese_stream \<Rightarrow> (chinese_stream \<times> bool) option" where
  "chinese_advance u s =
     chinese_loop u (s\<lparr>cj_token := (cj_token s)\<lparr>tok_text := [], position := position (cj_token s) + 1\<rparr>, last_char := None\<rparr>)
       (case last_char s of Some x \<Rightarrow> x # cj_chars s | None \<Rightarrow> cj_chars s)"

section \<open>The groups of a text\<close>

text \<open>The tokens of \<open>rest\<close>, which comes after \<open>don\<close>.\<close>

function cjk_tokens :: "char_tables \<Rightarrow> u64 \<Rightarrow> codepoint list \<Rightarrow> codepoint list \<Rightarrow> token list" where
  "cjk_tokens u p don [] = []"
| "cjk_tokens u p don (c # cs) =
     (let w = (case char_grouping u c of Keep \<Rightarrow> c # takeWhile (\<lambda>c. char_grouping u c = Keep) cs | _ \<Rightarrow> [c]);
          rest = (case char_grouping u c of Keep \<Rightarrow> dropWhile (\<lambda>c. char_grouping u c = Keep) cs | _ \<Rightarrow> cs);
          tok = \<lparr>offset_from = byte_len don, offset_to = byte_len (don @ w), position = p, tok_text = w\<rparr>
      in if char_grouping u c = SplitIgnore then cjk_tokens u p (don @ w) rest else tok # cjk_tokens u (p + 1) (don @ w) rest)"
  by pat_completeness auto
termination
  by (relation "measure (\<lambda>(_, _, _, cs). length cs)") (auto split: grouping.splits simp: le_imp_less_Suc length_dropWhile_le)

definition cjk_gives :: "char_tables \<Rightarrow> token list \<Rightarrow> chinese_stream \<Rightarrow> bool" where
  "cjk_gives u ts s \<longleftrightarrow> (\<exists>don rest. cj_text s = don @ rest \<and>
     (case last_char s of Some x \<Rightarrow> x # cj_chars s | None \<Rightarrow> cj_chars s) = indices_from (byte_len don) rest \<and>
     ts = cjk_tokens u (position (cj_token s) + 1) don rest)"

lemma find_group:
  "iter_find (\<lambda>(_, c). char_grouping u c \<noteq> Keep) (indices_from off cs) =
     (case dropWhile (\<lambda>c. char_grouping u c = Keep) cs of
        [] \<Rightarrow> (None, [])
      | d # ds \<Rightarrow> (Some (off + byte_len (takeWhile (\<lambda>c. char_grouping u c = Keep) cs), d),
                   indices_from (off + byte_len (takeWhile (\<lambda>c. char_grouping u c = Keep) cs) + len_utf8 d) ds))"
  by (induction cs arbitrary: off) (simp_all add: add.assoc del: dropWhile_eq_Nil_conv split: list.split)

text \<open>A token, once the loop is at its first character; \<open>after\<close> is what the iterator holds then.\<close>

lemma set_token_gives:
  assumes "cj_text s = don @ w @ rest" "tok_text (cj_token s) = []"
    "(case last_char s of Some x \<Rightarrow> x # cj_chars s | None \<Rightarrow> cj_chars s) = indices_from (byte_len (don @ w)) rest"
  shows "\<exists>s'. set_token s (byte_len don) (byte_len (don @ w)) = Some s' \<and>
     cj_token s' = \<lparr>offset_from = byte_len don, offset_to = byte_len (don @ w), position = position (cj_token s), tok_text = w\<rparr> \<and>
     cjk_gives u (cjk_tokens u (position (cj_token s) + 1) (don @ w) rest) s'"
proof -
  have "str_slice (cj_text s) (byte_len don) (byte_len (don @ w)) = Some w" using str_slice_middle [of don w rest] assms(1) by simp
  then have "\<exists>s'. set_token s (byte_len don) (byte_len (don @ w)) = Some s' \<and>
     cj_token s' = \<lparr>offset_from = byte_len don, offset_to = byte_len (don @ w), position = position (cj_token s), tok_text = w\<rparr> \<and>
     cj_text s' = cj_text s \<and> last_char s' = last_char s \<and> cj_chars s' = cj_chars s" using assms(2) by (simp add: set_token_def)
  then obtain s' where s': "set_token s (byte_len don) (byte_len (don @ w)) = Some s'"
     "cj_token s' = \<lparr>offset_from = byte_len don, offset_to = byte_len (don @ w), position = position (cj_token s), tok_text = w\<rparr>"
     "cj_text s' = cj_text s" "last_char s' = last_char s" "cj_chars s' = cj_chars s" by (elim exE conjE) (rule that)
  have "cjk_gives u (cjk_tokens u (position (cj_token s) + 1) (don @ w) rest) s'" unfolding cjk_gives_def
    unfolding s'(4,5) by (rule exI [of _ "don @ w"], rule exI [of _ rest]) (use s'(2,3) assms in simp)
  with s'(1,2) show ?thesis by blast
qed

lemma loop_token:
  assumes "cjk_tokens u (position (cj_token s)) don rest = t # ts" "cj_text s = don @ rest" "tok_text (cj_token s) = []" "last_char s = None"
  shows "\<exists>s'. chinese_loop u s (indices_from (byte_len don) rest) = Some (s', True) \<and> cj_token s' = t \<and> cjk_gives u ts s'"
  using assms
proof (induction rest arbitrary: don)
  case (Cons c cs)
  let ?k = "\<lambda>c. char_grouping u c = Keep"
  show ?case
  proof (cases "char_grouping u c")
    case SplitIgnore
    then show ?thesis using Cons.IH [of "don @ [c]"] Cons.prems by (simp add: add.commute)
  next
    case SplitKeep
    obtain s' where "set_token (s\<lparr>cj_chars := indices_from (byte_len (don @ [c])) cs\<rparr>) (byte_len don) (byte_len (don @ [c])) = Some s'"
      "cj_token s' = \<lparr>offset_from = byte_len don, offset_to = byte_len (don @ [c]), position = position (cj_token s), tok_text = [c]\<rparr>"
      "cjk_gives u (cjk_tokens u (position (cj_token s) + 1) (don @ [c]) cs) s'"
      using set_token_gives [of "s\<lparr>cj_chars := indices_from (byte_len (don @ [c])) cs\<rparr>" don "[c]" cs u] Cons.prems(2-4) by auto
    then show ?thesis using Cons.prems(1) SplitKeep by (auto simp: Let_def)
  next
    case Keep
    define w where "w = c # takeWhile ?k cs"
    define r where "r = dropWhile ?k cs"
    define sn where "sn = (case r of [] \<Rightarrow> s\<lparr>cj_chars := []\<rparr>
       | d # ds \<Rightarrow> s\<lparr>last_char := Some (byte_len (don @ w), d), cj_chars := indices_from (byte_len (don @ w) + len_utf8 d) ds\<rparr>)"
    have tx: "cj_text s = don @ w @ r" using Cons.prems(2) by (simp add: w_def r_def)
    have "chinese_loop u s (indices_from (byte_len don) (c # cs)) = do { s \<leftarrow> set_token sn (byte_len don) (byte_len (don @ w)); Some (s, True) }"
      unfolding sn_def using Keep tx by (simp add: find_group r_def [symmetric] w_def add.assoc split: list.split)
    moreover have sn: "cj_text sn = don @ w @ r" "tok_text (cj_token sn) = []"
      "(case last_char sn of Some x \<Rightarrow> x # cj_chars sn | None \<Rightarrow> cj_chars sn) = indices_from (byte_len (don @ w)) r"
      using Cons.prems(3,4) tx by (cases r; simp add: sn_def)+
    moreover obtain s' where "set_token sn (byte_len don) (byte_len (don @ w)) = Some s'"
      "cj_token s' = \<lparr>offset_from = byte_len don, offset_to = byte_len (don @ w), position = position (cj_token sn), tok_text = w\<rparr>"
      "cjk_gives u (cjk_tokens u (position (cj_token sn) + 1) (don @ w) r) s'"
      using set_token_gives [OF sn, of u] by (elim exE conjE) (rule that)
    moreover have "cjk_tokens u (position (cj_token s)) don (c # cs) =
       \<lparr>offset_from = byte_len don, offset_to = byte_len (don @ w), position = position (cj_token s), tok_text = w\<rparr> # cjk_tokens u (position (cj_token s) + 1) (don @ w) r"
      using Keep by (simp add: w_def r_def Let_def)
    moreover have "cj_token sn = cj_token s" by (simp add: sn_def split: list.split)
    ultimately show ?thesis using Cons.prems(1) by auto
  qed
qed simp

lemma loop_end:
  assumes "cjk_tokens u p don rest = []" "cj_text s = don @ rest" "last_char s = None"
  shows "\<exists>s'. chinese_loop u s (indices_from (byte_len don) rest) = Some (s', False) \<and> cjk_gives u [] s'"
  using assms
proof (induction rest arbitrary: don)
  case Nil
  have "cjk_gives u [] (s\<lparr>cj_chars := []\<rparr>)" unfolding cjk_gives_def
    by (rule exI [of _ don], rule exI [of _ "[]"]) (use Nil.prems in simp)
  then show ?case by simp
next
  case (Cons c cs)
  then show ?case using Cons.IH [of "don @ [c]"] by (cases "char_grouping u c") (simp_all add: Let_def add.commute)
qed

interpretation cjk: token_stream "chinese_advance u" cj_token "cjk_gives u" for u
proof (unfold_locales, goal_cases)
  case (1 s)
  then obtain don rest where "cj_text s = don @ rest" "(case last_char s of Some x \<Rightarrow> x # cj_chars s | None \<Rightarrow> cj_chars s) = indices_from (byte_len don) rest"
    "cjk_tokens u (position (cj_token s) + 1) don rest = []" unfolding cjk_gives_def by metis
  then show ?case using loop_end [of u _ don rest] by (simp add: chinese_advance_def)
next
  case (2 t ts s)
  then obtain don rest where "cj_text s = don @ rest" "(case last_char s of Some x \<Rightarrow> x # cj_chars s | None \<Rightarrow> cj_chars s) = indices_from (byte_len don) rest"
    "cjk_tokens u (position (cj_token s) + 1) don rest = t # ts" unfolding cjk_gives_def by metis
  then show ?case using loop_token [of u "s\<lparr>cj_token := (cj_token s)\<lparr>tok_text := [], position := position (cj_token s) + 1\<rparr>, last_char := None\<rparr>" don rest t ts] by (simp add: chinese_advance_def)
qed


section \<open>What the groups are\<close>

text \<open>One ideograph, or other letters and digits; two groups of the latter never touch.\<close>

definition cjk_word :: "char_tables \<Rightarrow> codepoint list \<Rightarrow> bool" where
  "cjk_word u w \<longleftrightarrow> w \<noteq> [] \<and> (list_all (\<lambda>c. char_grouping u c = Keep) w \<or> length w = 1 \<and> char_grouping u (hd w) = SplitKeep)"

definition cjk_apart :: "char_tables \<Rightarrow> token \<Rightarrow> token \<Rightarrow> bool" where
  "cjk_apart u t t' \<longleftrightarrow> offset_to t \<le> offset_from t' \<and>
     (offset_to t = offset_from t' \<longrightarrow> char_grouping u (last (tok_text t)) = SplitKeep \<or> char_grouping u (hd (tok_text t')) = SplitKeep)"

text \<open>The next token, in the text that is left.\<close>

lemma cjk_next:
  assumes "rest \<noteq> []"
  obtains c cs where "rest = c # cs" "char_grouping u c = SplitIgnore" "cjk_tokens u p don rest = cjk_tokens u p (don @ [c]) cs"
  | w r where "rest = w @ r" "cjk_word u w" "r = [] \<or> char_grouping u (last w) = SplitKeep \<or> char_grouping u (hd r) \<noteq> Keep" "length r < length rest"
    "filter (\<lambda>c. char_grouping u c \<noteq> SplitIgnore) w = w"
    "cjk_tokens u p don rest = \<lparr>offset_from = byte_len don, offset_to = byte_len (don @ w), position = p, tok_text = w\<rparr> # cjk_tokens u (p + 1) (don @ w) r"
proof -
  obtain c cs where r: "rest = c # cs" using assms by (cases rest) auto
  let ?k = "\<lambda>c. char_grouping u c = Keep"
  show thesis
  proof (cases "char_grouping u c")
    case Keep
    have "set (takeWhile ?k cs) \<subseteq> {c. ?k c}" by (auto dest: set_takeWhileD)
    then show thesis using Keep r hd_dropWhile [of ?k cs]
      by (intro that(2) [of "c # takeWhile ?k cs" "dropWhile ?k cs"]) (auto simp: cjk_word_def list_all_iff Let_def filter_id_conv le_imp_less_Suc length_dropWhile_le)
  next
    case SplitKeep
    then show thesis using r by (intro that(2) [of "[c]" cs]) (auto simp: cjk_word_def Let_def)
  next
    case SplitIgnore
    then show thesis using r by (intro that(1) [of c cs]) (auto simp: Let_def)
  qed
qed

lemma cjk_tokens_concat: "concat (map tok_text (cjk_tokens u p don rest)) = filter (\<lambda>c. char_grouping u c \<noteq> SplitIgnore) rest"
proof (induction "length rest" arbitrary: p don rest rule: less_induct)
  case less
  show ?case
  proof (cases "rest = []")
    case False
    then show ?thesis by (rule cjk_next [where u = u and p = p and don = don]) (use less in auto)
  qed simp
qed

lemma cjk_tokens_positions: "map position (cjk_tokens u p don rest) = map (\<lambda>i. p + of_nat i) [0..<length (cjk_tokens u p don rest)]"
proof (induction "length rest" arbitrary: p don rest rule: less_induct)
  case less
  show ?case
  proof (cases "rest = []")
    case False
    then show ?thesis by (rule cjk_next [where u = u and p = p and don = don]) (use less in \<open>auto simp: positions_step simp del: upt_Suc\<close>)
  qed simp
qed

lemma cjk_tokens_word:
  assumes "t \<in> set (cjk_tokens u p don rest)"
  shows "cjk_word u (tok_text t) \<and> token_in (don @ rest) (byte_len don) t"
  using assms
proof (induction "length rest" arbitrary: p don rest rule: less_induct)
  case less
  have "rest \<noteq> []" using less.prems by auto
  then show ?case
  proof (rule cjk_next [where u = u and p = p and don = don], goal_cases)
    case (1 c cs)
    then show ?case using less.hyps [of cs p "don @ [c]"] less.prems token_in_mono [of _ "byte_len (don @ [c])" t "byte_len don"] by simp
  next
    case (2 w r)
    then show ?case using less.hyps [of r "p + 1" "don @ w"] less.prems token_in_mono [of _ "byte_len (don @ w)" t "byte_len don"]
      token_in_here [of don w r p] by auto
  qed
qed

lemma cjk_tokens_head:
  assumes "cjk_tokens u p don rest = t # ts" "char_grouping u (hd rest) \<noteq> Keep"
  shows "byte_len don < offset_from t \<or> char_grouping u (hd (tok_text t)) = SplitKeep"
proof -
  obtain c cs where r: "rest = c # cs" using assms(1) by (cases rest) auto
  show ?thesis
  proof (cases "char_grouping u c")
    case SplitIgnore
    then have "t \<in> set (cjk_tokens u p (don @ [c]) cs)" using assms(1) r by (simp add: Let_def)
    then show ?thesis using cjk_tokens_word token_in_from len_utf8_pos [of c] by fastforce
  qed (use assms r in \<open>auto simp: Let_def\<close>)
qed

lemma cjk_tokens_apart: "successively (cjk_apart u) (cjk_tokens u p don rest)"
proof (induction "length rest" arbitrary: p don rest rule: less_induct)
  case less
  show ?case
  proof (cases "rest = []")
    case False
    then show ?thesis
    proof (rule cjk_next [where u = u and p = p and don = don], goal_cases)
      case (1 c cs)
      then show ?case using less [of cs p "don @ [c]"] by simp
    next
      case (2 w r)
      have IH: "successively (cjk_apart u) (cjk_tokens u (p + 1) (don @ w) r)" by (rule less) (rule 2)
      show ?case
      proof (cases "cjk_tokens u (p + 1) (don @ w) r")
        case (Cons t ts)
        have "byte_len (don @ w) \<le> offset_from t" using cjk_tokens_word [of t u "p + 1" "don @ w" r] token_in_from Cons by fastforce
        moreover have "r \<noteq> []" using Cons by auto
        ultimately have "cjk_apart u \<lparr>offset_from = byte_len don, offset_to = byte_len (don @ w), position = p, tok_text = w\<rparr> t"
          using cjk_tokens_head [OF Cons] 2(3) unfolding cjk_apart_def by auto
        then show ?thesis using IH Cons unfolding 2(6) by simp
      qed (simp add: 2(6))
    qed
  qed simp
qed

lemma cjk_starts: "cjk_gives u (cjk_tokens u 0 [] str) (chinese_token_stream str)"
  unfolding cjk_gives_def
  by (rule exI [of _ "[]"], rule exI [of _ str]) (simp add: chinese_token_stream_def char_indices_def fresh_token_def)

text \<open>
  C15. The tokenizer for Chinese text reads a text to its end without a panic.  The texts of its tokens are, one after the other,
  the letters and digits of the text; each is one ideograph or a group of other letters and digits, and is what its
  offsets cut out of the text; groups are never cut in two; the positions count from 0.
\<close>

theorem cjk_tokens_split:
  "\<exists>ts s. drain_stream (chinese_advance u) cj_token (chinese_token_stream str) = Some (s, ts) \<and>
     concat (map tok_text ts) = filter (\<lambda>c. is_alphabetic u c \<or> is_numeric u c) str \<and>
     list_all (\<lambda>t. cjk_word u (tok_text t) \<and> str_slice str (offset_from t) (offset_to t) = Some (tok_text t)) ts \<and>
     successively (cjk_apart u) ts \<and>
     map position ts = map of_nat [0..<length ts]"
proof -
  define ts where "ts = cjk_tokens u 0 [] str"
  obtain s where s: "drain_stream (chinese_advance u) cj_token (chinese_token_stream str) = Some (s, ts)"
    using cjk.stream_drained [OF cjk_starts [of u str], folded ts_def] by (elim exE conjE) (rule that)
  have "list_all (\<lambda>t. cjk_word u (tok_text t) \<and> str_slice str (offset_from t) (offset_to t) = Some (tok_text t)) ts"
    unfolding list_all_iff ts_def using cjk_tokens_word [of _ u 0 "[]" str] token_in_slice by fastforce
  moreover have "concat (map tok_text ts) = filter (\<lambda>c. is_alphabetic u c \<or> is_numeric u c) str"
    unfolding ts_def cjk_tokens_concat by (rule filter_cong) (auto simp: char_grouping_def)
  moreover have "successively (cjk_apart u) ts" unfolding ts_def by (rule cjk_tokens_apart)
  moreover have "map position ts = map of_nat [0..<length ts]" unfolding ts_def by (subst cjk_tokens_positions) simp
  ultimately show ?thesis using s by blast
qed

end
