(* ===== verification/Unicode_Words.thy ===== *)
theory Unicode_Words
  imports Text_Streams
begin

text \<open>
  The tokenizer for words by the Unicode rules, \<^verbatim>\<open>tokenizers/src/unicode_words.rs\<close>.  The crate
  \<^verbatim>\<open>unicode_segmentation\<close> and the table of emojis are parameters: the pieces between word boundaries, whether a piece
  holds a word, and whether it is an emoji.  The stream borrows the token of the tokenizer, which therefore
  outlives the text.
\<close>

section \<open>The model\<close>

record segmentation =
  split_word_bounds :: "codepoint list \<Rightarrow> codepoint list list"
  has_word :: "codepoint list \<Rightarrow> bool"
  is_emoji :: "codepoint list \<Rightarrow> bool"

record uw_tokenizer =
  uw_token :: token
  uw_remove_emojis :: bool

definition uw_new :: "bool \<Rightarrow> uw_tokenizer" where
  "uw_new rem = \<lparr>uw_token = fresh_token, uw_remove_emojis = rem\<rparr>"

text \<open>The pieces come with their addresses, relative to the text.\<close>

fun pieces_at :: "nat \<Rightarrow> codepoint list list \<Rightarrow> (nat \<times> codepoint list) list" where
  "pieces_at off [] = []"
| "pieces_at off (w # ws) = (off, w) # pieces_at (off + byte_len w) ws"

record uw_stream =
  us_remove_emojis :: bool
  us_iter :: "(nat \<times> codepoint list) list"
  us_token :: token

definition uw_token_stream :: "segmentation \<Rightarrow> uw_tokenizer \<Rightarrow> codepoint list \<Rightarrow> uw_stream" where
  "uw_token_stream g self str = \<lparr>us_remove_emojis = uw_remove_emojis self, us_iter = pieces_at 0 (split_word_bounds g str), us_token = uw_token self\<rparr>"

definition uw_keep :: "segmentation \<Rightarrow> bool \<Rightarrow> codepoint list \<Rightarrow> bool" where
  "uw_keep g rem w \<longleftrightarrow> has_word g w \<or> (\<not> rem \<and> is_emoji g w)"

fun uw_loop :: "segmentation \<Rightarrow> uw_stream \<Rightarrow> (nat \<times> codepoint list) list \<Rightarrow> uw_stream \<times> bool" where
  "uw_loop g s [] = (s\<lparr>us_iter := []\<rparr>, False)"
| "uw_loop g s ((off, w) # iter) =
     (if \<not> uw_keep g (us_remove_emojis s) w then uw_loop g s iter
      else (s\<lparr>us_iter := iter, us_token := \<lparr>offset_from = off, offset_to = off + byte_len w, position = position (us_token s) + 1, tok_text = w\<rparr>\<rparr>, True))"

definition uw_advance :: "segmentation \<Rightarrow> uw_stream \<Rightarrow> (uw_stream \<times> bool) option" where
  "uw_advance g s = Some (uw_loop g s (us_iter s))"

text \<open>One text: the tokens, and the tokenizer afterwards.\<close>

definition uw_tokenize :: "segmentation \<Rightarrow> uw_tokenizer \<Rightarrow> codepoint list \<Rightarrow> (uw_tokenizer \<times> token list) option" where
  "uw_tokenize g self str = do {
     (s, ts) \<leftarrow> drain_stream (uw_advance g) us_token (uw_token_stream g self str);
     Some (self\<lparr>uw_token := us_token s\<rparr>, ts)
   }"

section \<open>The words of a text\<close>

fun uw_tokens :: "segmentation \<Rightarrow> bool \<Rightarrow> u64 \<Rightarrow> (nat \<times> codepoint list) list \<Rightarrow> token list" where
  "uw_tokens g rem p [] = []"
| "uw_tokens g rem p ((off, w) # ws) =
     (if uw_keep g rem w then \<lparr>offset_from = off, offset_to = off + byte_len w, position = p, tok_text = w\<rparr> # uw_tokens g rem (p + 1) ws
      else uw_tokens g rem p ws)"

text \<open>\<open>k\<close> is the position of the last token there will be.\<close>

definition uw_gives :: "segmentation \<Rightarrow> u64 \<Rightarrow> token list \<Rightarrow> uw_stream \<Rightarrow> bool" where
  "uw_gives g k ts s \<longleftrightarrow> ts = uw_tokens g (us_remove_emojis s) (position (us_token s) + 1) (us_iter s) \<and>
     k = position (us_token s) + of_nat (length ts)"

lemma uw_loop_ok:
  assumes "ts = uw_tokens g (us_remove_emojis s) (position (us_token s) + 1) iter" "k = position (us_token s) + of_nat (length ts)"
  shows "\<exists>s'. uw_loop g s iter = (s', ts \<noteq> []) \<and> (case ts of [] \<Rightarrow> uw_gives g k [] s' | t # ts \<Rightarrow> us_token s' = t \<and> uw_gives g k ts s')"
  using assms by (induction iter) (auto simp: uw_gives_def add.assoc split: if_splits)

interpretation uw: token_stream "uw_advance g" us_token "uw_gives g k" for g k
proof (unfold_locales, goal_cases)
  case (1 s)
  from uw_loop_ok [OF conjunct1 [OF 1 [unfolded uw_gives_def]] conjunct2 [OF 1 [unfolded uw_gives_def]]] show ?case by (simp add: uw_advance_def)
next
  case (2 t ts s)
  from uw_loop_ok [OF conjunct1 [OF 2 [unfolded uw_gives_def]] conjunct2 [OF 2 [unfolded uw_gives_def]]] show ?case by (simp add: uw_advance_def)
qed

lemma uw_tokens_positions: "map position (uw_tokens g rem p iter) = map (\<lambda>i. p + of_nat i) [0..<length (uw_tokens g rem p iter)]"
  by (induction g rem p iter rule: uw_tokens.induct) (simp_all add: positions_step del: upt_Suc)

lemma uw_tokens_words: "map tok_text (uw_tokens g rem p (pieces_at off ws)) = filter (uw_keep g rem) ws"
  by (induction ws arbitrary: p off) simp_all

lemma uw_tokens_in:
  assumes "t \<in> set (uw_tokens g rem p (pieces_at (byte_len don) ws))"
  shows "token_in (don @ concat ws) (byte_len don) t"
  using assms
proof (induction ws arbitrary: p don)
  case (Cons w ws)
  have IH: "token_in (don @ w @ concat ws) (byte_len don) t" if "t \<in> set (uw_tokens g rem p (pieces_at (byte_len don + byte_len w) ws))" for p
    using token_in_mono [OF Cons.IH [of p "don @ w"], of "byte_len don"] that by simp
  show ?case using Cons.prems IH token_in_here [of don w "concat ws" p] by (auto split: if_splits)
qed simp

lemma uw_tokenize_ok:
  fixes g :: segmentation and str :: "codepoint list" and self :: uw_tokenizer
  defines "ts \<equiv> uw_tokens g (uw_remove_emojis self) (position (uw_token self) + 1) (pieces_at 0 (split_word_bounds g str))"
  shows "\<exists>self'. uw_tokenize g self str = Some (self', ts) \<and> uw_remove_emojis self' = uw_remove_emojis self \<and>
    position (uw_token self') = position (uw_token self) + of_nat (length ts)"
proof -
  define k where "k = position (uw_token self) + of_nat (length ts)"
  have "uw_gives g k ts (uw_token_stream g self str)" by (simp add: uw_gives_def uw_token_stream_def ts_def k_def)
  from uw.stream_drained [OF this] obtain s where s: "drain_stream (uw_advance g) us_token (uw_token_stream g self str) = Some (s, ts)" "uw_gives g k [] s"
    by (elim exE conjE) (rule that)
  then show ?thesis by (simp add: uw_tokenize_def uw_gives_def k_def)
qed

text \<open>
  C35. The tokenizer for Unicode words gives, for a text, the pieces between word boundaries that hold a word or a wanted emoji, in
  order, each where its offsets say (given that the pieces make up the text).  It never resets the token it shares with its
  streams: the positions of a second text go on where those of the first one ended, while the first text of a new tokenizer counts from 0.
\<close>

theorem unicode_words_positions_continue:
  assumes "\<And>str. concat (split_word_bounds g str) = str"
  shows "\<exists>self self' as bs. uw_tokenize g (uw_new rem) a = Some (self, as) \<and> uw_tokenize g self b = Some (self', bs) \<and>
     map tok_text as = filter (uw_keep g rem) (split_word_bounds g a) \<and>
     map tok_text bs = filter (uw_keep g rem) (split_word_bounds g b) \<and>
     list_all (\<lambda>t. str_slice a (offset_from t) (offset_to t) = Some (tok_text t)) as \<and>
     list_all (\<lambda>t. str_slice b (offset_from t) (offset_to t) = Some (tok_text t)) bs \<and>
     map position (as @ bs) = map of_nat [0..<length as + length bs]"
proof -
  define as where "as = uw_tokens g rem 0 (pieces_at 0 (split_word_bounds g a))"
  define bs where "bs = uw_tokens g rem (of_nat (length as)) (pieces_at 0 (split_word_bounds g b))"
  obtain self where a: "uw_tokenize g (uw_new rem) a = Some (self, as)" "uw_remove_emojis self = rem" "position (uw_token self) + 1 = of_nat (length as)"
    using uw_tokenize_ok [of g "uw_new rem" a] by (auto simp: uw_new_def fresh_token_def as_def)
  obtain self' where b: "uw_tokenize g self b = Some (self', bs)"
    using uw_tokenize_ok [of g self b] unfolding a(2,3) bs_def [symmetric] by (elim exE conjE) (rule that)
  have "list_all (\<lambda>t. str_slice str (offset_from t) (offset_to t) = Some (tok_text t)) (uw_tokens g rem p (pieces_at 0 (split_word_bounds g str)))" for p str
    using token_in_slice uw_tokens_in [of _ g rem p "[]" "split_word_bounds g str"] assms unfolding list_all_iff by fastforce
  moreover have "map position (as @ bs) = map of_nat [0..<length as + length bs]"
    unfolding map_append upt_add_eq_append [OF le0] as_def
    by (subst uw_tokens_positions, subst bs_def, subst uw_tokens_positions)
      (simp add: as_def [symmetric] bs_def [symmetric], rule nth_equalityI, simp_all)
  ultimately show ?thesis using a(1) b uw_tokens_words unfolding as_def bs_def by blast
qed

text \<open>Words of one letter: \<open>a\<close>, a blank and \<open>b\<close>, then \<open>c\<close>.\<close>

definition ex_segmentation :: segmentation where
  "ex_segmentation = \<lparr>split_word_bounds = map (\<lambda>c. [c]), has_word = (\<lambda>w. w \<noteq> [32]), is_emoji = (\<lambda>w. False)\<rparr>"

theorem unicode_words_positions_continue_witness:
  "\<exists>self self' as bs. uw_tokenize ex_segmentation (uw_new True) [97, 32, 98] = Some (self, as) \<and> uw_tokenize ex_segmentation self [99] = Some (self', bs) \<and>
     map tok_text as = [[97], [98]] \<and> map tok_text bs = [[99]] \<and> map position (as @ bs) = [0, 1, 2]"
proof -
  have "concat (split_word_bounds ex_segmentation str) = str" for str by (simp add: ex_segmentation_def)
  from unicode_words_positions_continue [OF this, of True "[97, 32, 98]" "[99]"]
  obtain self self' as bs where "uw_tokenize ex_segmentation (uw_new True) [97, 32, 98] = Some (self, as)" "uw_tokenize ex_segmentation self [99] = Some (self', bs)"
    "map tok_text as = [[97], [98]]" "map tok_text bs = [[99]]" "map position (as @ bs) = map of_nat [0..<length as + length bs]"
    by (auto simp: uw_keep_def ex_segmentation_def)
  moreover from this(3,4) have "length as = 2" "length bs = 1" by (auto dest!: arg_cong [where f = length])
  ultimately show ?thesis by (auto simp: upt_conv_Cons)
qed

end
