(* ===== verification/Proximity.thy ===== *)
theory Proximity
  imports Pdb_Prelude
begin

text \<open>
  Proximity queries, \<^verbatim>\<open>query/proximity\<close>: the distance (\<^verbatim>\<open>mod.rs\<close>), the iterator over the pairs of near
  positions and the scorer over the documents that have one (\<^verbatim>\<open>scorer.rs\<close>), and the postings of a nested clause
  (\<^verbatim>\<open>weight.rs\<close>).  The intersection of the two unions of postings is tantivy's; its operations are a
  parameter, with the contract of a \<open>DocSet\<close> as a named hypothesis.
\<close>

section \<open>Distance\<close>

datatype proximity_distance = InOrder u32 | AnyOrder u32

definition abs_diff :: "u32 \<Rightarrow> u32 \<Rightarrow> u32" where
  "abs_diff a b = (if a < b then b - a else a - b)"

fun prox_diff :: "proximity_distance \<Rightarrow> u32 \<Rightarrow> u32 \<Rightarrow> u32" where
  "prox_diff (InOrder _) l r = r - l"
| "prox_diff (AnyOrder _) l r = abs_diff r l"

fun distance :: "proximity_distance \<Rightarrow> u32" where
  "distance (InOrder d) = d"
| "distance (AnyOrder d) = d"

fun in_order :: "proximity_distance \<Rightarrow> bool" where
  "in_order (InOrder _) = True"
| "in_order (AnyOrder _) = False"

section \<open>The pairs of near positions\<close>

record prox_iter =
  pi_distance :: proximity_distance
  pi_lpos :: "u32 list"
  pi_rpos :: "u32 list"
  li :: nat
  ri :: nat

definition prox_iter_new :: "proximity_distance \<Rightarrow> u32 list \<Rightarrow> u32 list \<Rightarrow> prox_iter" where
  "prox_iter_new d lpos rpos = \<lparr>pi_distance = d, pi_lpos = lpos, pi_rpos = rpos, li = 0, ri = 0\<rparr>"

text \<open>\<open>Ord::cmp\<close>.\<close>

datatype ordering = Less | Equal | Greater

definition cmp_u32 :: "u32 \<Rightarrow> u32 \<Rightarrow> ordering" where
  "cmp_u32 a b = (if a < b then Less else if a = b then Equal else Greater)"

function prox_next :: "prox_iter \<Rightarrow> prox_iter \<times> (u32 \<times> u32) option" where
  "prox_next s =
     (if length (pi_lpos s) \<le> li s \<or> length (pi_rpos s) \<le> ri s then (s, None)
      else
        let l = pi_lpos s ! li s; r = pi_rpos s ! ri s in
        if prox_diff (pi_distance s) l r \<le> distance (pi_distance s) + 1 then (s\<lparr>li := li s + 1\<rparr>, Some (l, r))
        else (case cmp_u32 l r of
                Less \<Rightarrow> prox_next (s\<lparr>li := li s + 1\<rparr>)
              | Equal \<Rightarrow> prox_next (s\<lparr>li := li s + 1, ri := ri s + 1\<rparr>)
              | Greater \<Rightarrow> prox_next (s\<lparr>ri := ri s + 1\<rparr>)))"
  by pat_completeness auto
termination
  by (relation "measure (\<lambda>s. (length (pi_lpos s) - li s) + (length (pi_rpos s) - ri s))") auto

declare prox_next.simps [simp del]

text \<open>All pairs that are left: \<open>count\<close> counts them, and a \<open>for\<close> loop runs over them.\<close>

partial_function (option) prox_collect :: "prox_iter \<Rightarrow> (u32 \<times> u32) list option" where
  "prox_collect s =
     (case prox_next s of
        (_, None) \<Rightarrow> Some []
      | (s, Some p) \<Rightarrow> do { ps \<leftarrow> prox_collect s; Some (p # ps) })"

lemmas [code] = prox_collect.simps

section \<open>The scorer\<close>

type_synonym doc_id = u32

definition TERMINATED :: doc_id where
  "TERMINATED = 2147483647"

record 'i doc_set =
  ds_doc :: "'i \<Rightarrow> doc_id"
  ds_advance :: "'i \<Rightarrow> 'i \<times> doc_id"
  ds_seek :: "'i \<Rightarrow> doc_id \<Rightarrow> 'i \<times> doc_id"
  ds_left_positions :: "'i \<Rightarrow> 'i \<times> u32 list"
  ds_right_positions :: "'i \<Rightarrow> 'i \<times> u32 list"

record 'i prox_scorer =
  intersection :: 'i
  ps_distance :: proximity_distance
  has_weight :: bool
  nmatches :: nat
  ps_lpos :: "u32 list"
  ps_rpos :: "u32 list"

definition ps_doc :: "'i doc_set \<Rightarrow> 'i prox_scorer \<Rightarrow> doc_id" where
  "ps_doc ops s = ds_doc ops (intersection s)"

definition ps_prox_iter :: "'i doc_set \<Rightarrow> 'i prox_scorer \<Rightarrow> 'i prox_scorer \<times> prox_iter" where
  "ps_prox_iter ops s =
     (let (i, lpos) = ds_left_positions ops (intersection s);
          (i, rpos) = ds_right_positions ops i
      in (s\<lparr>intersection := i, ps_lpos := lpos, ps_rpos := rpos\<rparr>, prox_iter_new (ps_distance s) lpos rpos))"

definition prox_match :: "'i doc_set \<Rightarrow> 'i prox_scorer \<Rightarrow> ('i prox_scorer \<times> bool) option" where
  "prox_match ops s =
     (let (s, it) = ps_prox_iter ops s in
      if has_weight s
      then do { ps \<leftarrow> prox_collect it; Some (s\<lparr>nmatches := length ps\<rparr>, length ps > 0) }
      else Some (s, snd (prox_next it) \<noteq> None))"

definition prox_count :: "'i doc_set \<Rightarrow> 'i prox_scorer \<Rightarrow> ('i prox_scorer \<times> nat) option" where
  "prox_count ops s = (let (s, it) = ps_prox_iter ops s in do { ps \<leftarrow> prox_collect it; Some (s, length ps) })"

partial_function (option) ps_advance :: "'i doc_set \<Rightarrow> 'i prox_scorer \<Rightarrow> ('i prox_scorer \<times> doc_id) option" where
  "ps_advance ops s =
     (let (i, doc) = ds_advance ops (intersection s); s = s\<lparr>intersection := i\<rparr> in
      if doc = TERMINATED then Some (s, doc)
      else do {
        (s, matched) \<leftarrow> prox_match ops s;
        if matched then Some (s, doc) else ps_advance ops s
      })"

lemmas [code] = ps_advance.simps

definition ps_seek :: "'i doc_set \<Rightarrow> 'i prox_scorer \<Rightarrow> doc_id \<Rightarrow> ('i prox_scorer \<times> doc_id) option" where
  "ps_seek ops s target =
     (let (i, doc) = ds_seek ops (intersection s) target; s = s\<lparr>intersection := i\<rparr> in
      if doc = TERMINATED then Some (s, doc)
      else do {
        (s, matched) \<leftarrow> prox_match ops s;
        if matched then Some (s, doc) else ps_advance ops s
      })"

definition ps_new :: "'i doc_set \<Rightarrow> 'i \<Rightarrow> proximity_distance \<Rightarrow> bool \<Rightarrow> 'i prox_scorer option" where
  "ps_new ops i d weight =
     (let scorer = \<lparr>intersection = i, ps_distance = d, has_weight = weight, nmatches = 0, ps_lpos = [], ps_rpos = []\<rparr> in
      if ps_doc ops scorer \<noteq> TERMINATED
      then do {
        (scorer, matched) \<leftarrow> prox_match ops scorer;
        if \<not> matched then do { (scorer, _) \<leftarrow> ps_advance ops scorer; Some scorer } else Some scorer
      }
      else Some scorer)"

section \<open>Nested clauses\<close>

datatype which_terms = WLeft | WRight | WAll

record loaded_postings =
  doc_ids :: "doc_id list"
  position_offsets :: "u32 list"
  lp_positions :: "u32 list"

definition pair_positions :: "bool \<Rightarrow> which_terms \<Rightarrow> u32 \<times> u32 \<Rightarrow> u32 list" where
  "pair_positions nested which p =
     (case p of (l, r) \<Rightarrow>
        if nested then (case which of WLeft \<Rightarrow> [r] | WRight \<Rightarrow> [l] | WAll \<Rightarrow> [l, r]) else [l, r])"

partial_function (option) load_loop ::
  "'i doc_set \<Rightarrow> bool \<Rightarrow> which_terms \<Rightarrow> 'i prox_scorer \<Rightarrow> loaded_postings \<Rightarrow> loaded_postings option" where
  "load_loop ops nested which scorer acc =
     (if ps_doc ops scorer = TERMINATED then Some acc
      else do {
        let acc = acc\<lparr>position_offsets := position_offsets acc @ [of_nat (length (lp_positions acc))], doc_ids := doc_ids acc @ [ps_doc ops scorer]\<rparr>;
        let (scorer, it) = ps_prox_iter ops scorer;
        ps \<leftarrow> prox_collect it;
        let acc = acc\<lparr>lp_positions := lp_positions acc @ concat (map (pair_positions nested which) ps)\<rparr>;
        (scorer, _) \<leftarrow> ps_advance ops scorer;
        load_loop ops nested which scorer acc
      })"

lemmas [code] = load_loop.simps

definition nested_postings :: "'i doc_set \<Rightarrow> 'i \<Rightarrow> proximity_distance \<Rightarrow> bool \<Rightarrow> bool \<Rightarrow> which_terms \<Rightarrow> loaded_postings option" where
  "nested_postings ops i d weight nested which = do {
     scorer \<leftarrow> ps_new ops i d weight;
     acc \<leftarrow> load_loop ops nested which scorer \<lparr>doc_ids = [], position_offsets = [], lp_positions = []\<rparr>;
     Some (acc\<lparr>position_offsets := position_offsets acc @ [of_nat (length (lp_positions acc))]\<rparr>)
   }"


section \<open>The iterator finds every near position\<close>

fun near :: "proximity_distance \<Rightarrow> u32 \<Rightarrow> u32 \<Rightarrow> bool" where
  "near (InOrder d) l r \<longleftrightarrow> unat l \<le> unat r \<and> unat r \<le> unat l + unat d + 1"
| "near (AnyOrder d) l r \<longleftrightarrow> unat l \<le> unat r + unat d + 1 \<and> unat r \<le> unat l + unat d + 1"

text \<open>Each position on the left with the first position on the right that is near it.\<close>

definition near_pairs :: "proximity_distance \<Rightarrow> u32 list \<Rightarrow> u32 list \<Rightarrow> (u32 \<times> u32) list" where
  "near_pairs d lpos rpos = List.map_filter (\<lambda>l. map_option (Pair l) (find (near d l) rpos)) lpos"

definition small :: "u32 \<Rightarrow> bool" where
  "small p \<longleftrightarrow> unat p < 2 ^ 31"

lemma near_diff:
  assumes "small (distance d)" "small l" "small r"
  shows "prox_diff d l r \<le> distance d + 1 \<longleftrightarrow> near d l r"
proof -
  have s: "unat (distance d) < 2147483648" "unat l < 2147483648" "unat r < 2147483648" using assms by (simp_all add: small_def)
  have d1: "unat (distance d + 1) = unat (distance d) + 1" using s(1) by (subst unat_add_lem [THEN iffD1]) simp_all
  have sub: "unat (a - b) = (if unat b \<le> unat a then unat a - unat b else unat a + 4294967296 - unat b)" for a b :: u32
    by (simp add: unat_sub_if_size word_size)
  show ?thesis
  proof (cases d)
    case (InOrder k)
    have "unat (r - l) \<le> unat k + 1 \<longleftrightarrow> unat l \<le> unat r \<and> unat r \<le> unat l + unat k + 1"
      using s unfolding sub InOrder distance.simps by (cases "unat l \<le> unat r") (simp_all only: if_True if_False simp_thms, linarith+)
    then show ?thesis using d1 InOrder by (simp add: word_le_nat_alt)
  next
    case (AnyOrder k)
    have "unat (abs_diff r l) \<le> unat k + 1 \<longleftrightarrow> unat l \<le> unat r + unat k + 1 \<and> unat r \<le> unat l + unat k + 1"
      unfolding abs_diff_def word_less_nat_alt if_distrib [of unat] sub by (cases "unat l \<le> unat r"; cases "unat r \<le> unat l") auto
    then show ?thesis using d1 AnyOrder by (simp add: word_le_nat_alt)
  qed
qed

lemma near_later: "near d l r' \<Longrightarrow> l < r \<Longrightarrow> r \<le> r' \<Longrightarrow> near d l r"
  by (cases d) (auto simp: word_le_nat_alt word_less_nat_alt)

lemma near_earlier: "near d l' r \<Longrightarrow> r < l \<Longrightarrow> l \<le> l' \<Longrightarrow> near d l r"
  by (cases d) (auto simp: word_le_nat_alt word_less_nat_alt)

lemma near_self [simp]: "near d l l"
  by (cases d) auto

text \<open>The loop, on the positions that are left.\<close>

fun scan :: "proximity_distance \<Rightarrow> u32 list \<Rightarrow> u32 list \<Rightarrow> (u32 \<times> u32) list" where
  "scan d (l # ls) (r # rs) =
     (if prox_diff d l r \<le> distance d + 1 then (l, r) # scan d ls (r # rs)
      else if l < r then scan d ls (r # rs)
      else if l = r then scan d ls rs
      else scan d (l # ls) rs)"
| "scan d _ _ = []"

definition left_over :: "prox_iter \<Rightarrow> (u32 \<times> u32) list" where
  "left_over s = scan (pi_distance s) (drop (li s) (pi_lpos s)) (drop (ri s) (pi_rpos s))"

lemma next_left_over: "(case left_over s of [] \<Rightarrow> snd (prox_next s) = None | p # ps \<Rightarrow> \<exists>s'. prox_next s = (s', Some p) \<and> left_over s' = ps)"
proof (induction s rule: prox_next.induct)
  case (1 s)
  show ?case
  proof (cases "length (pi_lpos s) \<le> li s \<or> length (pi_rpos s) \<le> ri s")
    case True
    then have "left_over s = []" by (cases "drop (li s) (pi_lpos s)") (auto simp: left_over_def)
    then show ?thesis using True by (simp add: prox_next.simps [of s])
  next
    case False
    then have dr: "drop (li s) (pi_lpos s) = pi_lpos s ! li s # drop (Suc (li s)) (pi_lpos s)" "drop (ri s) (pi_rpos s) = pi_rpos s ! ri s # drop (Suc (ri s)) (pi_rpos s)"
      by (simp_all add: Cons_nth_drop_Suc)
    let ?l = "pi_lpos s ! li s" and ?r = "pi_rpos s ! ri s"
    note IH = "1.IH" [OF False refl refl]
    consider (n) "prox_diff (pi_distance s) ?l ?r \<le> distance (pi_distance s) + 1"
      | (l) "\<not> prox_diff (pi_distance s) ?l ?r \<le> distance (pi_distance s) + 1" "?l < ?r"
      | (e) "\<not> prox_diff (pi_distance s) ?l ?r \<le> distance (pi_distance s) + 1" "?l = ?r"
      | (g) "\<not> prox_diff (pi_distance s) ?l ?r \<le> distance (pi_distance s) + 1" "\<not> ?l < ?r" "?l \<noteq> ?r" by blast
    then show ?thesis
    proof cases
      case n
      then show ?thesis using False dr by (simp add: prox_next.simps [of s] left_over_def Let_def cmp_u32_def)
    next
      case l
      then have q: "prox_next s = prox_next (s\<lparr>li := li s + 1\<rparr>)" "left_over s = left_over (s\<lparr>li := li s + 1\<rparr>)"
        using False dr by (simp_all add: prox_next.simps [of s] left_over_def Let_def cmp_u32_def)
      show ?thesis unfolding q by (rule IH(1)) (use l in \<open>simp_all add: cmp_u32_def\<close>)
    next
      case e
      then have q: "prox_next s = prox_next (s\<lparr>li := li s + 1, ri := ri s + 1\<rparr>)" "left_over s = left_over (s\<lparr>li := li s + 1, ri := ri s + 1\<rparr>)"
        using False dr by (simp_all add: prox_next.simps [of s] left_over_def Let_def cmp_u32_def)
      show ?thesis unfolding q by (rule IH(2)) (use e in \<open>simp_all add: cmp_u32_def\<close>)
    next
      case g
      then have q: "prox_next s = prox_next (s\<lparr>ri := ri s + 1\<rparr>)" "left_over s = left_over (s\<lparr>ri := ri s + 1\<rparr>)"
        using False dr by (simp_all add: prox_next.simps [of s] left_over_def Let_def cmp_u32_def)
      show ?thesis unfolding q by (rule IH(3)) (use g in \<open>simp_all add: cmp_u32_def\<close>)
    qed
  qed
qed

lemma collect_left_over: "prox_collect s = Some (left_over s)"
proof (induction "left_over s" arbitrary: s)
  case Nil
  then show ?case using next_left_over [of s] by (subst prox_collect.simps) (auto split: prod.splits)
next
  case (Cons p ps)
  then obtain s' where "prox_next s = (s', Some p)" "left_over s' = ps" using next_left_over [of s] by (auto split: list.splits)
  then show ?case using Cons by (subst prox_collect.simps) auto
qed

lemma near_pairs_skip: "\<forall>l \<in> set ls. \<not> near d l r \<Longrightarrow> near_pairs d ls (r # rs) = near_pairs d ls rs"
  by (induction ls) (auto simp: near_pairs_def List.map_filter_simps split: option.split)

lemma scan_near:
  assumes "small (distance d)" "list_all small ls" "list_all small rs" "sorted ls" "sorted rs"
  shows "scan d ls rs = near_pairs d ls rs"
  using assms
proof (induction d ls rs rule: scan.induct)
  case (1 d l ls r rs)
  have nd: "prox_diff d l r \<le> distance d + 1 \<longleftrightarrow> near d l r" using "1.prems" by (intro near_diff) simp_all
  consider (n) "near d l r" | (l) "\<not> near d l r" "l < r" | (g) "\<not> near d l r" "r < l" using near_self [of d l] by (metis linorder_less_linear)
  then show ?case
  proof cases
    case n
    then show ?thesis using "1.IH"(1) "1.prems" nd by (simp add: near_pairs_def List.map_filter_simps)
  next
    case l
    have "find (near d l) (r # rs) = None" using near_later [of d l _ r] l "1.prems"(5) by (auto simp: find_None_iff)
    then show ?thesis using "1.IH"(2) "1.prems" nd l by (simp add: near_pairs_def List.map_filter_simps)
  next
    case g
    have "near_pairs d (l # ls) (r # rs) = near_pairs d (l # ls) rs"
      by (rule near_pairs_skip) (use near_earlier [of d _ r l] g "1.prems"(4) in auto)
    then show ?thesis using "1.IH"(4) "1.prems" nd g by auto
  qed
qed (simp_all add: near_pairs_def List.map_filter_def)


text \<open>
  C14. On sorted positions (below \<open>2\<^sup>3\<^sup>1\<close>, as the distance) the two-pointer iterator over a pair of position lists finds exactly the positions
  on the left that have a position on the right within the distance, each once and with the first such position, in both kinds of distance;
  \<open>InOrder\<close> asks for one that is not before, and so takes a position to be near itself.
\<close>

theorem prox_iter_exact:
  assumes "sorted lpos" "sorted rpos" "list_all small lpos" "list_all small rpos" "small (distance d)"
  shows "prox_collect (prox_iter_new d lpos rpos) = Some (near_pairs d lpos rpos)"
  using scan_near [OF assms(5,3,4,1,2)] by (simp add: collect_left_over left_over_def prox_iter_new_def)

theorem prox_iter_exact_witness:
  "prox_collect (prox_iter_new (InOrder 1) [1, 5, 9] [3, 4, 9]) = Some [(1, 3), (9, 9)]"
  using prox_iter_exact [of "[1, 5, 9]" "[3, 4, 9]" "InOrder 1"] by (simp add: small_def near_pairs_def List.map_filter_simps)

section \<open>The scorer visits the documents with a near pair\<close>

text \<open>A document with its positions on the left and on the right.\<close>

type_synonym doc_positions = "doc_id \<times> u32 list \<times> u32 list"

definition first_doc :: "doc_positions list \<Rightarrow> doc_id" where
  "first_doc ds = (case ds of [] \<Rightarrow> TERMINATED | (doc, _) # _ \<Rightarrow> doc)"

text \<open>The contract of a \<open>DocSet\<close> with positions: \<open>docs i\<close> are the documents from the current one on.\<close>

definition doc_set_contract :: "'i doc_set \<Rightarrow> ('i \<Rightarrow> doc_positions list) \<Rightarrow> bool" where
  "doc_set_contract ops docs \<longleftrightarrow>
     (\<forall>i. ds_doc ops i = first_doc (docs i)) \<and>
     (\<forall>i. docs (fst (ds_advance ops i)) = tl (docs i) \<and> snd (ds_advance ops i) = first_doc (tl (docs i))) \<and>
     (\<forall>i t. first_doc (docs i) \<le> t \<longrightarrow>
        docs (fst (ds_seek ops i t)) = dropWhile (\<lambda>(doc, _). doc < t) (docs i) \<and>
        snd (ds_seek ops i t) = first_doc (dropWhile (\<lambda>(doc, _). doc < t) (docs i))) \<and>
     (\<forall>i doc l r ds. docs i = (doc, l, r) # ds \<longrightarrow>
        docs (fst (ds_left_positions ops i)) = docs i \<and> snd (ds_left_positions ops i) = l \<and>
        docs (fst (ds_right_positions ops i)) = docs i \<and> snd (ds_right_positions ops i) = r)"

definition docs_ok :: "doc_positions list \<Rightarrow> bool" where
  "docs_ok ds \<longleftrightarrow> sorted_wrt (<) (map fst ds) \<and>
     list_all (\<lambda>(doc, l, r). doc < TERMINATED \<and> sorted l \<and> sorted r \<and> list_all small l \<and> list_all small r) ds"

definition doc_pairs :: "proximity_distance \<Rightarrow> doc_positions \<Rightarrow> (u32 \<times> u32) list" where
  "doc_pairs d x = (case x of (_, l, r) \<Rightarrow> near_pairs d l r)"

definition doc_matches :: "proximity_distance \<Rightarrow> doc_positions \<Rightarrow> bool" where
  "doc_matches d x \<longleftrightarrow> doc_pairs d x \<noteq> []"

text \<open>A scorer at the documents \<open>ds\<close>; the count of matches is that of the current one.\<close>

definition ps_at :: "('i \<Rightarrow> doc_positions list) \<Rightarrow> proximity_distance \<Rightarrow> bool \<Rightarrow> doc_positions list \<Rightarrow> 'i prox_scorer \<Rightarrow> bool" where
  "ps_at docs d w ds s \<longleftrightarrow> docs (intersection s) = ds \<and> ps_distance s = d \<and> has_weight s = w \<and> docs_ok ds"

definition ps_counted :: "proximity_distance \<Rightarrow> bool \<Rightarrow> doc_positions list \<Rightarrow> 'i prox_scorer \<Rightarrow> bool" where
  "ps_counted d w ds s \<longleftrightarrow> (case ds of [] \<Rightarrow> True | x # _ \<Rightarrow> w \<longrightarrow> nmatches s = length (doc_pairs d x))"

lemma docs_ok_Cons: "docs_ok (x # ds) \<Longrightarrow> docs_ok ds"
  by (simp add: docs_ok_def)

lemma docs_ok_first: "docs_ok ds \<Longrightarrow> first_doc ds = TERMINATED \<longleftrightarrow> ds = []"
  by (auto simp: docs_ok_def first_doc_def split: list.splits)

lemma docs_ok_suffix: "docs_ok (xs @ ys) \<Longrightarrow> docs_ok ys"
  by (induction xs) (auto dest: docs_ok_Cons)

lemma docs_ok_dropWhile: "docs_ok ds \<Longrightarrow> docs_ok (dropWhile P ds)"
  by (metis docs_ok_suffix takeWhile_dropWhile_id)

lemma ps_iter_ok:
  assumes "doc_set_contract ops docs" "ps_at docs d w (x # ds) s" "small (distance d)"
  shows "\<exists>s' it. ps_prox_iter ops s = (s', it) \<and> ps_at docs d w (x # ds) s' \<and> nmatches s' = nmatches s \<and> left_over it = doc_pairs d x"
proof -
  obtain doc l r where x: "x = (doc, l, r)" by (cases x) auto
  have c: "docs (fst (ds_left_positions ops i)) = (doc, l, r) # ds \<and> snd (ds_left_positions ops i) = l \<and>
        docs (fst (ds_right_positions ops i)) = (doc, l, r) # ds \<and> snd (ds_right_positions ops i) = r" if "docs i = (doc, l, r) # ds" for i
    using assms(1) that unfolding doc_set_contract_def by metis
  obtain i1 where i1: "ds_left_positions ops (intersection s) = (i1, l)" "docs i1 = x # ds"
    using c [of "intersection s"] assms(2) x by (cases "ds_left_positions ops (intersection s)") (auto simp: ps_at_def)
  obtain i2 where i2: "ds_right_positions ops i1 = (i2, r)" "docs i2 = x # ds"
    using c [of i1] i1(2) x by (cases "ds_right_positions ops i1") auto
  have ok: "docs_ok (x # ds)" using assms(2) by (simp add: ps_at_def)
  then have "scan d l r = near_pairs d l r" using assms(3) by (intro scan_near) (auto simp: docs_ok_def x)
  then show ?thesis using i1 i2 ok assms(2) x
    by (simp add: ps_prox_iter_def ps_at_def left_over_def prox_iter_new_def doc_pairs_def)
qed

lemma ps_match_ok:
  assumes "doc_set_contract ops docs" "ps_at docs d w (x # ds) s" "small (distance d)"
  shows "\<exists>s'. prox_match ops s = Some (s', doc_matches d x) \<and> ps_at docs d w (x # ds) s' \<and> ps_counted d w (x # ds) s'"
proof -
  obtain s1 it where it: "ps_prox_iter ops s = (s1, it)" "ps_at docs d w (x # ds) s1" "left_over it = doc_pairs d x"
    using ps_iter_ok [OF assms] by (elim exE conjE) (rule that)
  have "snd (prox_next it) \<noteq> None \<longleftrightarrow> doc_pairs d x \<noteq> []" using next_left_over [of it] it(3) by (auto split: list.splits)
  then show ?thesis using it by (auto simp: prox_match_def collect_left_over ps_at_def ps_counted_def doc_matches_def)
qed

lemma ps_advance_unfold:
  assumes "ds_advance ops (intersection s) = (intersection s', doc) \<and> s' = s\<lparr>intersection := intersection s'\<rparr>"
  shows "ps_advance ops s = (if doc = TERMINATED then Some (s', doc)
      else do { (s, matched) \<leftarrow> prox_match ops s'; if matched then Some (s, doc) else ps_advance ops s })"
  using conjunct2 [OF assms, symmetric] by (subst ps_advance.simps) (simp only: conjunct1 [OF assms] prod.case Let_def)

text \<open>From the documents \<open>ds\<close> on, with the first one not yet looked at.\<close>

lemma ps_find_ok:
  assumes "doc_set_contract ops docs" "small (distance d)" "ps_at docs d w ds s"
  shows "\<exists>s'. (if first_doc ds = TERMINATED then Some (s, first_doc ds)
      else do { (s, matched) \<leftarrow> prox_match ops s; if matched then Some (s, first_doc ds) else ps_advance ops s }) =
      Some (s', first_doc (dropWhile (\<lambda>x. \<not> doc_matches d x) ds)) \<and>
    ps_at docs d w (dropWhile (\<lambda>x. \<not> doc_matches d x) ds) s' \<and> ps_counted d w (dropWhile (\<lambda>x. \<not> doc_matches d x) ds) s'"
  using assms(3)
proof (induction ds arbitrary: s)
  case Nil
  then show ?case by (simp add: first_doc_def ps_counted_def)
next
  case (Cons x ds)
  have nt: "first_doc (x # ds) \<noteq> TERMINATED" using docs_ok_first [of "x # ds"] Cons.prems by (simp add: ps_at_def)
  obtain s1 where s1: "prox_match ops s = Some (s1, doc_matches d x)" "ps_at docs d w (x # ds) s1" "ps_counted d w (x # ds) s1"
    using ps_match_ok [OF assms(1) Cons.prems assms(2)] by (elim exE conjE) (rule that)
  show ?case
  proof (cases "doc_matches d x")
    case True
    then show ?thesis using nt s1 by simp
  next
    case False
    have adv: "docs (fst (ds_advance ops (intersection s1))) = ds" "snd (ds_advance ops (intersection s1)) = first_doc ds"
      using assms(1) s1(2) unfolding doc_set_contract_def ps_at_def by auto
    define s2 where "s2 = s1\<lparr>intersection := fst (ds_advance ops (intersection s1))\<rparr>"
    have "ps_at docs d w ds s2" using s1(2) adv(1) docs_ok_Cons [of x ds] by (simp add: ps_at_def s2_def)
    note IH = Cons.IH [OF this]
    have "ps_advance ops s1 = (if first_doc ds = TERMINATED then Some (s2, first_doc ds)
      else do { (s, matched) \<leftarrow> prox_match ops s2; if matched then Some (s, first_doc ds) else ps_advance ops s })"
      using adv(2) by (intro ps_advance_unfold) (simp add: s2_def prod_eq_iff)
    then show ?thesis using IH False nt s1(1) by simp
  qed
qed

lemma ps_advance_ok:
  assumes "doc_set_contract ops docs" "small (distance d)" "ps_at docs d w (x # ds) s"
  defines "ds' \<equiv> dropWhile (\<lambda>x. \<not> doc_matches d x) ds"
  shows "\<exists>s'. ps_advance ops s = Some (s', first_doc ds') \<and> ps_at docs d w ds' s' \<and> ps_counted d w ds' s'"
proof -
  have adv: "docs (fst (ds_advance ops (intersection s))) = ds" "snd (ds_advance ops (intersection s)) = first_doc ds"
    using assms(1,3) unfolding doc_set_contract_def ps_at_def by auto
  define s2 where "s2 = s\<lparr>intersection := fst (ds_advance ops (intersection s))\<rparr>"
  have "ps_at docs d w ds s2" using assms(3) adv(1) docs_ok_Cons [of x ds] by (simp add: ps_at_def s2_def)
  note find = ps_find_ok [OF assms(1,2) this, folded ds'_def]
  have "ps_advance ops s = (if first_doc ds = TERMINATED then Some (s2, first_doc ds)
      else do { (s, matched) \<leftarrow> prox_match ops s2; if matched then Some (s, first_doc ds) else ps_advance ops s })"
    using adv(2) by (intro ps_advance_unfold) (simp add: s2_def prod_eq_iff)
  then show ?thesis using find by simp
qed

lemma ps_new_ok:
  assumes "doc_set_contract ops docs" "small (distance d)" "docs_ok (docs i)"
  defines "ds \<equiv> dropWhile (\<lambda>x. \<not> doc_matches d x) (docs i)"
  shows "\<exists>s. ps_new ops i d w = Some s \<and> ps_at docs d w ds s \<and> ps_counted d w ds s"
proof -
  define s where "s = \<lparr>intersection = i, ps_distance = d, has_weight = w, nmatches = 0, ps_lpos = [], ps_rpos = []\<rparr>"
  have "ps_at docs d w (docs i) s" using assms(3) by (simp add: ps_at_def s_def)
  note find = ps_find_ok [OF assms(1,2) this, folded ds_def]
  have "ps_doc ops s = first_doc (docs i)" using assms(1) by (simp add: ps_doc_def doc_set_contract_def s_def)
  then have "ps_new ops i d w = map_option fst (if first_doc (docs i) = TERMINATED then Some (s, first_doc (docs i))
      else do { (s, matched) \<leftarrow> prox_match ops s; if matched then Some (s, first_doc (docs i)) else ps_advance ops s })"
    by (auto simp: ps_new_def s_def [symmetric] split: option.splits bind_splits)
  then show ?thesis using find by auto
qed

lemma ps_seek_ok:
  assumes "doc_set_contract ops docs" "small (distance d)" "ps_at docs d w ds s" "first_doc ds \<le> target"
  defines "ds' \<equiv> dropWhile (\<lambda>x. \<not> doc_matches d x) (dropWhile (\<lambda>x. fst x < target) ds)"
  shows "\<exists>s'. ps_seek ops s target = Some (s', first_doc ds') \<and> ps_at docs d w ds' s' \<and> ps_counted d w ds' s'"
proof -
  let ?ds = "dropWhile (\<lambda>x. fst x < target) ds"
  have sk: "docs (fst (ds_seek ops (intersection s) target)) = ?ds" "snd (ds_seek ops (intersection s) target) = first_doc ?ds"
    using assms(1,3,4) unfolding doc_set_contract_def ps_at_def by (auto simp: case_prod_unfold)
  then obtain i where i: "ds_seek ops (intersection s) target = (i, first_doc ?ds)" "docs i = ?ds"
    by (cases "ds_seek ops (intersection s) target") simp
  define s2 where "s2 = s\<lparr>intersection := i\<rparr>"
  have "ps_at docs d w ?ds s2" using assms(3) i(2) docs_ok_dropWhile [of ds] by (simp add: ps_at_def s2_def)
  note find = ps_find_ok [OF assms(1,2) this, folded ds'_def]
  have "ps_seek ops s target = (if first_doc ?ds = TERMINATED then Some (s2, first_doc ?ds)
      else do { (s, matched) \<leftarrow> prox_match ops s2; if matched then Some (s, first_doc ?ds) else ps_advance ops s })"
    by (simp only: ps_seek_def i(1) prod.case Let_def s2_def)
  then show ?thesis using find by simp
qed

lemma filter_dropWhile: "filter P (dropWhile (\<lambda>x. \<not> P x) xs) = filter P xs"
  by (induction xs) auto

lemma dropWhile_more: "dropWhile (\<lambda>x. P x \<or> Q x) (dropWhile Q xs) = dropWhile (\<lambda>x. P x \<or> Q x) xs"
  by (induction xs) auto

lemma dropWhile_below:
  assumes "sorted_wrt (<) (map fst ds)"
  shows "dropWhile Q (dropWhile (\<lambda>x. fst x < (t :: doc_id)) ds) = dropWhile (\<lambda>x. fst x < t \<or> Q x) ds"
  using assms
proof (induction ds)
  case (Cons x ds)
  show ?case
  proof (cases "fst x < t")
    case False
    then have "\<forall>y \<in> set (x # ds). \<not> fst y < t" using Cons.prems by fastforce
    then have "dropWhile (\<lambda>x. fst x < t) (x # ds) = x # ds" "dropWhile (\<lambda>x. fst x < t \<or> Q x) (x # ds) = dropWhile Q (x # ds)"
      by (auto intro: dropWhile_cong)
    then show ?thesis by simp
  qed (use Cons in simp)
qed simp

text \<open>A list of documents is a \<open>DocSet\<close>.\<close>

definition list_doc_set :: "doc_positions list doc_set" where
  "list_doc_set = \<lparr>ds_doc = first_doc, ds_advance = (\<lambda>ds. (tl ds, first_doc (tl ds))),
     ds_seek = (\<lambda>ds t. let ds = dropWhile (\<lambda>(doc, _). doc < t) ds in (ds, first_doc ds)),
     ds_left_positions = (\<lambda>ds. (ds, fst (snd (hd ds)))), ds_right_positions = (\<lambda>ds. (ds, snd (snd (hd ds))))\<rparr>"

lemma list_doc_set_contract: "doc_set_contract list_doc_set (\<lambda>ds. ds)"
  by (simp add: doc_set_contract_def list_doc_set_def Let_def)

definition ex_docs :: "doc_positions list" where
  "ex_docs = [(1, [4], [9]), (3, [2, 8], [3]), (6, [7], [1]), (7, [5], [6])]"

lemma ex_docs_simps: "docs_ok ex_docs" "doc_matches (InOrder 1) (1, [4], [9]) = False" "doc_pairs (InOrder 1) (3, [2, 8], [3]) = [(2, 3)]"
  "doc_matches (InOrder 1) (3, [2, 8], [3]) = True" "doc_matches (InOrder 1) (6, [7], [1]) = False" "doc_pairs (InOrder 1) (7, [5], [6]) = [(5, 6)]"
  "doc_matches (InOrder 1) (7, [5], [6]) = True"
  by (simp_all add: ex_docs_def docs_ok_def TERMINATED_def small_def doc_matches_def doc_pairs_def near_pairs_def List.map_filter_simps)

text \<open>
  C10. The scorer of a proximity query stands at the first document whose positions have a near pair as soon as it is built, and
  \<open>seek\<close> moves it to the first such document at or after the target: over the contract of tantivy's intersection both return, neither
  skips a matching document nor stops at another one, and, when scores are wanted, the count of matches is the number of near
  pairs of that document.
\<close>

theorem proximity_scorer_exact:
  assumes "doc_set_contract ops docs" "docs_ok (docs i)" "small (distance d)"
  shows "\<exists>s ds. ps_new ops i d w = Some s \<and> ds = dropWhile (\<lambda>x. \<not> doc_matches d x) (docs i) \<and>
     ps_doc ops s = first_doc ds \<and> ps_counted d w ds s \<and>
     (\<forall>target. first_doc ds \<le> target \<longrightarrow>
        (\<exists>s' ds'. ps_seek ops s target = Some (s', first_doc ds') \<and> ds' = dropWhile (\<lambda>x. fst x < target \<or> \<not> doc_matches d x) (docs i) \<and>
           ps_doc ops s' = first_doc ds' \<and> ps_counted d w ds' s'))"
proof -
  define ds where "ds = dropWhile (\<lambda>x. \<not> doc_matches d x) (docs i)"
  obtain s where s: "ps_new ops i d w = Some s" "ps_at docs d w ds s" "ps_counted d w ds s"
    using ps_new_ok [OF assms(1,3,2), of w, folded ds_def] by (elim exE conjE) (rule that)
  have doc: "ps_doc ops s' = first_doc ds'" if "ps_at docs d w ds' s'" for s' ds'
    using assms(1) that by (simp add: ps_doc_def doc_set_contract_def ps_at_def)
  have "\<exists>s' ds'. ps_seek ops s target = Some (s', first_doc ds') \<and> ds' = dropWhile (\<lambda>x. fst x < target \<or> \<not> doc_matches d x) (docs i) \<and>
     ps_doc ops s' = first_doc ds' \<and> ps_counted d w ds' s'" if t: "first_doc ds \<le> target" for target
  proof -
    have "sorted_wrt (<) (map fst ds)" using docs_ok_dropWhile [OF assms(2)] by (simp add: ds_def docs_ok_def)
    then have e: "dropWhile (\<lambda>x. \<not> doc_matches d x) (dropWhile (\<lambda>x. fst x < target) ds) = dropWhile (\<lambda>x. fst x < target \<or> \<not> doc_matches d x) (docs i)"
      by (simp add: dropWhile_below dropWhile_more ds_def)
    obtain s' where "ps_seek ops s target = Some (s', first_doc (dropWhile (\<lambda>x. fst x < target \<or> \<not> doc_matches d x) (docs i)))"
      "ps_at docs d w (dropWhile (\<lambda>x. fst x < target \<or> \<not> doc_matches d x) (docs i)) s'"
      "ps_counted d w (dropWhile (\<lambda>x. fst x < target \<or> \<not> doc_matches d x) (docs i)) s'"
      using ps_seek_ok [OF assms(1,3) s(2) t] unfolding e by (elim exE conjE) (rule that)
    then show ?thesis using doc by blast
  qed
  then show ?thesis using s doc [OF s(2)] unfolding ds_def by blast
qed

theorem proximity_scorer_exact_witness:
  "\<exists>s s'. ps_new list_doc_set ex_docs (InOrder 1) True = Some s \<and> ps_doc list_doc_set s = 3 \<and> nmatches s = 1 \<and>
     ps_seek list_doc_set s 4 = Some (s', 7)"
proof -
  have d: "small (distance (InOrder 1))" by (simp add: small_def)
  from proximity_scorer_exact [OF list_doc_set_contract, of ex_docs, OF ex_docs_simps(1) d, of True]
  obtain s ds where s: "ps_new list_doc_set ex_docs (InOrder 1) True = Some s" "ds = dropWhile (\<lambda>x. \<not> doc_matches (InOrder 1) x) ex_docs"
     "ps_doc list_doc_set s = first_doc ds" "ps_counted (InOrder 1) True ds s"
     "first_doc ds \<le> 4 \<Longrightarrow> \<exists>s' ds'. ps_seek list_doc_set s 4 = Some (s', first_doc ds') \<and> ds' = dropWhile (\<lambda>x. fst x < 4 \<or> \<not> doc_matches (InOrder 1) x) ex_docs"
    by (elim exE conjE) (rule that, assumption+, meson)
  have ds: "ds = [(3, [2, 8], [3]), (6, [7], [1]), (7, [5], [6])]"
    "dropWhile (\<lambda>x. fst x < 4 \<or> \<not> doc_matches (InOrder 1) x) ex_docs = [(7, [5], [6])]"
    unfolding s(2) by (simp_all add: ex_docs_def ex_docs_simps)
  then show ?thesis using s(1,3,4,5) by (auto simp: first_doc_def ps_counted_def ex_docs_simps)
qed

section \<open>The postings of a nested clause\<close>

text \<open>
  The positions of a document: in a nested clause read for its left side the right ends of the near pairs, for its right
  side the left ends; otherwise both ends of each pair.
\<close>

definition doc_body :: "bool \<Rightarrow> which_terms \<Rightarrow> proximity_distance \<Rightarrow> doc_positions \<Rightarrow> u32 list" where
  "doc_body nested which d x =
     (if nested \<and> which = WLeft then map snd (doc_pairs d x)
      else if nested \<and> which = WRight then map fst (doc_pairs d x)
      else concat (map (\<lambda>p. [fst p, snd p]) (doc_pairs d x)))"

lemma doc_body_pairs: "concat (map (pair_positions nested which) (doc_pairs d x)) = doc_body nested which d x"
proof -
  have "concat (map (pair_positions nested which) ps) =
      (if nested \<and> which = WLeft then map snd ps else if nested \<and> which = WRight then map fst ps else concat (map (\<lambda>p. [fst p, snd p]) ps))" for ps
    by (induction ps) (auto simp: pair_positions_def split: which_terms.split)
  then show ?thesis by (simp add: doc_body_def)
qed

lemma load_loop_ok:
  fixes nested :: bool and which :: which_terms
  assumes "doc_set_contract ops docs" "small (distance d)" "ps_at docs d w ds s" "ds \<noteq> [] \<longrightarrow> doc_matches d (hd ds)"
  defines "ms \<equiv> filter (doc_matches d) ds" and "body \<equiv> doc_body nested which d"
  shows "\<exists>acc'. load_loop ops nested which s acc = Some acc' \<and> doc_ids acc' = doc_ids acc @ map fst ms \<and>
     lp_positions acc' = lp_positions acc @ concat (map body ms) \<and>
     position_offsets acc' = position_offsets acc @ map (\<lambda>k. of_nat (length (lp_positions acc @ concat (map body (take k ms))))) [0..<length ms]"
  using assms(3,4) unfolding ms_def
proof (induction "length ds" arbitrary: ds s acc rule: less_induct)
  case less
  have doc: "ps_doc ops s = first_doc ds" using assms(1) less.prems(1) by (simp add: ps_doc_def doc_set_contract_def ps_at_def)
  show ?case
  proof (cases ds)
    case Nil
    then show ?thesis using doc by (subst load_loop.simps) (simp add: first_doc_def)
  next
    case (Cons x es)
    have nt: "first_doc ds \<noteq> TERMINATED" using docs_ok_first [of ds] less.prems(1) Cons by (simp add: ps_at_def)
    obtain s1 it where it: "ps_prox_iter ops s = (s1, it)" "ps_at docs d w (x # es) s1" "left_over it = doc_pairs d x"
      using ps_iter_ok [OF assms(1) less.prems(1) [unfolded Cons] assms(2)] by (elim exE conjE) (rule that)
    define fs where "fs = dropWhile (\<lambda>x. \<not> doc_matches d x) es"
    obtain s2 where s2: "ps_advance ops s1 = Some (s2, first_doc fs)" "ps_at docs d w fs s2"
      using ps_advance_ok [OF assms(1,2) it(2), folded fs_def] by (elim exE conjE) (rule that)
    define acc1 where "acc1 = acc\<lparr>position_offsets := position_offsets acc @ [of_nat (length (lp_positions acc))],
      doc_ids := doc_ids acc @ [fst x], lp_positions := lp_positions acc @ body x\<rparr>"
    have step: "load_loop ops nested which s acc = load_loop ops nested which s2 acc1"
      using nt doc it(1,3) s2(1) Cons
      by (subst load_loop.simps) (simp add: collect_left_over acc1_def body_def doc_body_pairs first_doc_def case_prod_unfold)
    have ms: "filter (doc_matches d) ds = x # filter (doc_matches d) fs" "fs \<noteq> [] \<longrightarrow> doc_matches d (hd fs)" "length fs < length ds"
      using less.prems(2) Cons hd_dropWhile [of "\<lambda>x. \<not> doc_matches d x" es] length_dropWhile_le [of "\<lambda>x. \<not> doc_matches d x" es]
      by (auto simp: fs_def filter_dropWhile)
    show ?thesis using less.hyps [OF ms(3) s2(2) ms(2), of acc1] unfolding step ms(1)
      by (auto simp: acc1_def upt_conv_Cons map_Suc_upt [symmetric] o_def simp del: upt_Suc)
  qed
qed

text \<open>
  C31. The postings built for a nested proximity clause: the documents with a near pair, in order; for each the offset
  where its positions begin (and a last one where they end); and its positions.  In a nested clause read for its left side
  these are the right ends of the near pairs, for its right side the left ends, and otherwise both ends of each pair, in the order of
  the pairs.  The documents that the intersection visits are assumed to come in increasing order, with sorted positions below
  \<open>2\<^sup>3\<^sup>1\<close>, and the distance to be below it as well.
\<close>

theorem nested_postings_exact:
  assumes "doc_set_contract ops docs" "docs_ok (docs i)" "small (distance d)"
  shows "\<exists>ms lp. ms = filter (doc_matches d) (docs i) \<and> nested_postings ops i d w nested which = Some lp \<and>
     doc_ids lp = map fst ms \<and>
     lp_positions lp = concat (map (doc_body nested which d) ms) \<and>
     position_offsets lp = map (\<lambda>k. of_nat (length (concat (map (doc_body nested which d) (take k ms))))) [0..<length ms + 1]"
proof -
  define ds where "ds = dropWhile (\<lambda>x. \<not> doc_matches d x) (docs i)"
  obtain s where s: "ps_new ops i d w = Some s" "ps_at docs d w ds s"
    using ps_new_ok [OF assms(1,3,2), of w, folded ds_def] by (elim exE conjE) (rule that)
  have "ds \<noteq> [] \<longrightarrow> doc_matches d (hd ds)" using hd_dropWhile [of "\<lambda>x. \<not> doc_matches d x" "docs i"] by (auto simp: ds_def)
  note loop = load_loop_ok [OF assms(1,3) s(2) this, of nested which "\<lparr>doc_ids = [], position_offsets = [], lp_positions = []\<rparr>"]
  have "filter (doc_matches d) ds = filter (doc_matches d) (docs i)" by (simp add: ds_def filter_dropWhile)
  then show ?thesis using loop s(1) by (auto simp: nested_postings_def)
qed

theorem nested_postings_exact_witness:
  "nested_postings list_doc_set ex_docs (InOrder 1) False True WLeft =
     Some \<lparr>doc_ids = [3, 7], position_offsets = [0, 1, 2], lp_positions = [3, 6]\<rparr>"
proof -
  have d: "small (distance (InOrder 1))" by (simp add: small_def)
  from nested_postings_exact [OF list_doc_set_contract, of ex_docs, OF ex_docs_simps(1) d, of False True WLeft]
  obtain lp where lp: "nested_postings list_doc_set ex_docs (InOrder 1) False True WLeft = Some lp" "doc_ids lp = [3, 7]"
      "lp_positions lp = [3, 6]" "position_offsets lp = [0, 1, 2]"
    by (elim exE conjE) (rule that, simp_all add: ex_docs_simps ex_docs_def doc_body_def upt_rec)
  then show ?thesis by (cases lp) simp
qed

end
