(* ===== verification/Spec2Isabelle.thy ===== *)
theory Spec2Isabelle
  imports Merge_Policy Segment_Gc Bg_Merger Code_Tokenizer Cjk_Tokenizer Unicode_Words Proximity
begin

text \<open>
  \<^bold>\<open>ParadeDB's full text index on the block storage of Postgres.\<close>

  \<^bold>\<open>The program.\<close>  The extension \<^verbatim>\<open>src/pg_search\<close> keeps a tantivy index inside a Postgres relation.  Block 0, the metapage,
  names the first page of every structure of the index.  The files of a segment are lists of bytes over linked pages, with a
  packed block list beside them for random access.  The segments, the running merges and the segments under vacuum are lists
  of their own.  Pages that are no longer needed go to the free space manager with the transaction id after which they
  may be used again, and every new page is asked from it before the relation is extended.  A merge policy chooses the segments to
  merge, and a background worker, at most one per index, merges them.  The crate \<^verbatim>\<open>src/tokenizers\<close> cuts texts into tokens; the
  positions of the tokens are what proximity queries compare.

  \<^bold>\<open>Conventions.\<close>  State is passed explicitly: a relation is a list of pages (\<open>store\<close>), and an operation returns the new one.
  \<open>None\<close> is a panic, an error raised by Postgres or a loop that does not end, so a theorem that gives the result of a call also
  says that the call returns.  There is no fuel: loops are structural recursion, \<open>function\<close> with a measure, or \<open>partial_function (option)\<close>
  with a lemma that they return.  Integers keep their width where the code relies on it (the height and links of the AVL slots, page
  offsets, sizes in the merge policy, positions); block numbers and transaction ids are natural numbers.  The file \<^verbatim>\<open>Pdb_Prelude\<close>
  holds these types, checked array access and the locale \<open>simulation\<close>.

  \<^bold>\<open>Storage\<close> (\<^verbatim>\<open>pg_search/src/postgres/storage\<close>)

  \<^item> \<^verbatim>\<open>avl.rs\<close>.  \<open>Avl\<close> has the slots, their packed links and heights, the free list, the rotations, \<open>insert\<close>, \<open>remove\<close>, the
    look-ups, the iterator and \<open>assert_ok\<close>.  \<open>Avl_Tree\<close> relates the arena to a binary tree and proves the rotations, \<open>Avl_Map\<close>
    the recursive insertion and deletion, \<open>Avl_Contract\<close> the contract: the locale \<open>tag_map\<close>, its instance \<open>avlm\<close>, and the
    simulation \<open>avls\<close> of any sequence of operations by those of a finite map with a stack of free tags (C3), in which no tag is lost
    or used twice (C25).
  \<^item> \<^verbatim>\<open>buffer.rs\<close>, \<^verbatim>\<open>utils.rs\<close>.  \<open>Pages\<close> has pages, their kinds of content, extension of the relation, and the lemmas on linked
    segments and on what an operation leaves alone (\<open>frame\<close>).  \<open>Buffer_Manager\<close> has \<open>new_buffer\<close> and \<open>new_buffers\<close>; what the lists
    above rely on is the locale \<open>buffer_manager\<close> (a page handed out is none the client owns, and owned pages are not touched) and its
    extension \<open>page_pool\<close> (giving pages back puts exactly them on record), with the free space manager as the instances \<open>fsmb\<close>,
    \<open>fsmp\<close> (pages given back under the next transaction id) and \<open>fsmr\<close> (under an id the caller chooses) (C19).
  \<^item> \<^verbatim>\<open>fsm.rs\<close>.  \<open>Fsm_V2\<close> has the current manager: a root page with an AVL map from transaction ids to chains of leaf pages,
    creation, \<open>extend\<close>, \<open>drain\<close>, \<open>pop\<close>.  Its invariant \<open>fsm_inv\<close> gives every leaf page one owner.  \<open>Fsm_Drain\<close> shows that a block is
    never handed out before its transaction id is reached (C2), that blocks are neither lost nor duplicated (C16), that all blocks
    that may be used are found when no lock is contended (C17), and under which id \<open>extend\<close> files a block (C18); a lemma shows the one
    case in which \<open>drain\<close> on a full tree moves blocks to an earlier id.  \<open>Fsm_Info\<close> has the diagnostics.  \<open>Fsm_V1\<close> has the manager of older
    indexes, a refinement of a bag of stamped blocks (C12), and its conversion (C33).
  \<^item> \<^verbatim>\<open>blocklist.rs\<close>.  \<open>Block_List\<close> has the builder, the byte format with its kinds of chunk, the pages and the reader: what
    is pushed is read back, for fewer than 32 numbers or increasing ones (C6).
  \<^item> \<^verbatim>\<open>linked_bytes.rs\<close>.  \<open>Linked_Bytes\<close> has creation, the writer, \<open>finalize_and_write\<close>, \<open>read_all\<close>, the range reads with their cache
    of pages, and freeing: any sequence of writes is read back (C4), ranges of a finished list are slices of the whole (C20), the pages given back are
    exactly those of the list (C21), but for the page of an empty list (C37).
  \<^item> \<^verbatim>\<open>linked_items.rs\<close>.  \<open>Linked_Items\<close> has the lists of variable-length items on slotted pages: adding keeps the entries (C7),
    removing and updating touch the first match (C27, C28).  \<open>Atomic_Items\<close> has \<open>retain\<close>, which
    drops the entries and the pages they empty and puts those pages on record (C26), and the copy-on-write guard.
  \<^item> \<^verbatim>\<open>block.rs\<close>.  \<open>Segment_Meta\<close> has the entries of the segment list, and the files each entry names (C34).
  \<^item> \<^verbatim>\<open>postgres/merge.rs\<close>, \<^verbatim>\<open>freeable_blocks\<close> of \<^verbatim>\<open>block.rs\<close>.  \<open>Segment_Gc\<close> has the garbage collection of the segment list: readers see
    the old list until the commit and the new one after it, and the blocks of the removed segments and of the old list are put on record (C1).
  \<^item> \<^verbatim>\<open>merge.rs\<close>.  \<open>Vacuum_List\<close> has the list of segments under vacuum (C13), \<open>Merge_List\<close> the merge lock and the list of
    running merges (C29, C30, C38).
  \<^item> \<^verbatim>\<open>metadata.rs\<close>.  \<open>Meta_Page\<close> has the metapage: a new index is laid out in full (C32), and an index of an older version is brought up to
    date when it is opened (C9).  \<open>Bg_Merger\<close> has the page of the background merger and the protocol of \<^verbatim>\<open>postgres/merge.rs\<close>
    that launches it, an inductive step relation over any number of processes: there is at most one merger while \<open>reset_bgworker_state\<close>
    is called only when none runs (C8), a call at another time admits a second one (C36), and a launch that is lost blocks all later ones (C39).

  \<^bold>\<open>Merging\<close> (\<^verbatim>\<open>pg_search/src/index/merge_policy.rs\<close>)

  \<^item> \<open>F64\<close> has the arithmetic of \<open>f64\<close> that the code uses, with rounding to nearest even, over rationals; \<open>Merge_Policy\<close> has the
    layered policy.  Candidates are disjoint sets of mergeable segments within the bounds of their layer (C5), mutable
    segments are always converted (C22), the policy answers once (C23), adjusted sizes do not exceed actual ones (C24).

  \<^bold>\<open>Text\<close> (\<^verbatim>\<open>tokenizers/src\<close>)

  \<^item> \<open>Text_Streams\<close> has strings with the byte offsets of UTF-8, tokens, the contract of a stream as the locale \<open>token_stream\<close>, and
    the length filter of \<^verbatim>\<open>token_length.rs\<close>, which turns a stream into a stream.  \<open>Code_Tokenizer\<close> (\<^verbatim>\<open>code.rs\<close>, C11), \<open>Cjk_Tokenizer\<close>
    (\<^verbatim>\<open>cjk.rs\<close>, C15) and \<open>Unicode_Words\<close> (\<^verbatim>\<open>unicode_words.rs\<close>, C35) are its instances \<open>code\<close>, \<open>cjk\<close> and \<open>uw\<close>: each reads a text to
    its end without a panic, and its tokens are the words of a specification on the whole text.

  \<^bold>\<open>Proximity queries\<close> (\<^verbatim>\<open>pg_search/src/query/proximity\<close>)

  \<^item> \<open>Proximity\<close> has the distance, the two-pointer iterator over positions (C14), the scorer as a document set (C10), and the postings of
    a nested clause (C31).

  \<^bold>\<open>Parameters.\<close>  What the code takes from elsewhere is an argument: the bit packers of the crate \<^verbatim>\<open>bitpacking\<close>, the encoding of
  entries by \<^verbatim>\<open>bincode\<close>, the room \<open>PageAddItemExtended\<close> finds, the transaction counters, the outcome of a conditional lock, the set of live
  processes, Rust's tables of characters, the word boundaries of \<^verbatim>\<open>unicode_segmentation\<close>, and the intersection of postings of
  tantivy.  Where a theorem relies on such an argument, its hypothesis is the documented behaviour (unpacking what was
  packed gives it back, a document set visits its documents in order), and the witness of the theorem has a concrete instance.

  \<^bold>\<open>Bounds.\<close>  A relation has fewer than \<open>InvalidBlockNumber\<close> blocks.  The contract \<open>fsm_room\<close> of the free space manager that the lists rest
  on (\<open>fsm_ok\<close> when the pages are given back under the next transaction id only) is that of a running database: no CREATE INDEX is under
  way, the relation can still grow by the number of pages the operation may ask for, and the tree has a free slot for every transaction id
  used.  Room is counted from above, one page per byte or entry written.  What happens under CREATE INDEX and with a full tree is in \<open>Fsm_Drain\<close>.  Operations of the free space manager are those of one backend;
  page locks make each of them exclusive on the pages it changes, and a conditional lock may fail at any point.  Positions and distances
  of proximity queries are below \<open>2\<^sup>3\<^sup>1\<close>, so that the wrapping difference of the code orders them.

  \<^bold>\<open>Not modelled\<close>

  \<^item> Pins, page locks and write-ahead logging (\<^verbatim>\<open>buffer.rs\<close>): they have no effect on the content of pages in a run of one backend.
  \<^item> The index directory, reader and writer (\<^verbatim>\<open>index/directory\<close>, \<^verbatim>\<open>index/reader\<close>, \<^verbatim>\<open>index/writer\<close>), the query language
    (\<^verbatim>\<open>query/mod.rs\<close>, \<^verbatim>\<open>query/pdb_query.rs\<close> and others) and the aggregates: they implement traits of tantivy or build its
    queries, and what they do is decided there.
  \<^item> The call-backs of the access method, the custom scans, the SQL functions, the types, the parallel workers and the settings
    (\<^verbatim>\<open>postgres\<close>, \<^verbatim>\<open>api\<close>, \<^verbatim>\<open>schema\<close>, \<^verbatim>\<open>parallel_worker\<close>, \<^verbatim>\<open>gucs.rs\<close>): they work on structures of Postgres through \<^verbatim>\<open>pg_sys\<close>.
  \<^item> The driver of merges (\<open>do_merge\<close>, \<open>merge_index\<close> of \<^verbatim>\<open>postgres/merge.rs\<close>): the merge itself is tantivy's.
  \<^item> The remaining tokenizers (\<^verbatim>\<open>icu.rs\<close>, \<^verbatim>\<open>lindera.rs\<close>), whose libraries do the work, and the registry \<^verbatim>\<open>manager.rs\<close>, a translation of JSON
    into analyzers of tantivy.
  \<^item> Reading the postings of terms and regular expressions and BM25 scores in proximity queries.
  \<^item> Macros, benchmarks and tests.
\<close>

end
